(* ===== verification/K_Prelude.thy ===== *)
theory K_Prelude
  imports Main "HOL-Library.Word" "HOL-Library.Monad_Syntax"
begin

section \<open>Shared vocabulary of the kernel model\<close>

text \<open>
  What the component theories share: the outcome of a run of C code, checked reads and
  writes of C arrays, signed 32-bit arithmetic, nullable pointers, the error numbers of
  \<^verbatim>\<open>kern/errno.h\<close>, and the list lemmas the component proofs use.

  A run of C code is a value of type \<open>'a option\<close>. The value \<open>None\<close> is the outcome in which
  the kernel does not come back from the call in a defined state: a failed \<open>assert\<close>, a
  call of \<open>panic\<close>, an access outside an object, a signed overflow, or a loop that does not
  end. \<open>Some r\<close> is a normal return. Error numbers are ordinary results, so a failing
  allocation is \<open>Some (ENOMEM, s)\<close> and never \<open>None\<close>.
\<close>

subsection \<open>Outcomes\<close>

definition kassert :: "bool \<Rightarrow> unit option" where
  "kassert b = (if b then Some () else None)"

text \<open>A pointer that may be NULL, together with the object it points to.\<close>

datatype 'a nullable = NULL | Ptr (deref: 'a)

text \<open>The cells reachable through a pointer to a block of memory: none through NULL.\<close>

definition cells :: "'a list nullable \<Rightarrow> 'a list" where
  "cells p = (case p of NULL \<Rightarrow> [] | Ptr c \<Rightarrow> c)"

text \<open>Reading and writing a cell of a block; outside the block the run is undefined.\<close>

definition rd :: "'a list \<Rightarrow> nat \<Rightarrow> 'a option" where
  "rd xs i = (if i < length xs then Some (xs ! i) else None)"

definition wr :: "'a list \<Rightarrow> nat \<Rightarrow> 'a \<Rightarrow> 'a list option" where
  "wr xs i v = (if i < length xs then Some (xs[i := v]) else None)"

text \<open>
  The C library's \<open>memmove\<close> inside one block: \<open>n\<close> cells from offset \<open>src\<close> to offset \<open>dst\<close>,
  as if through a temporary copy.
\<close>

definition memmove_cells :: "'a list \<Rightarrow> nat \<Rightarrow> nat \<Rightarrow> nat \<Rightarrow> 'a list option" where
  "memmove_cells xs dst src n =
     (if src + n \<le> length xs \<and> dst + n \<le> length xs
      then Some (take dst xs @ take n (drop src xs) @ drop (dst + n) xs) else None)"

text \<open>The value of a signed 32-bit computation; overflow is undefined in C.\<close>

definition cint :: "int \<Rightarrow> int option" where
  "cint x = (if - (2 ^ 31) \<le> x \<and> x < 2 ^ 31 then Some x else None)"

text \<open>
  The argument of \<open>kmalloc(n * sizeof(void *))\<close>: the product of an \<open>int\<close> and a 32-bit
  \<open>size_t\<close> wraps around.
\<close>

definition cell_bytes :: "int \<Rightarrow> nat" where
  "cell_bytes n = nat ((n * 4) mod 2 ^ 32)"

text \<open>
  What clients rely on of \<open>kmalloc\<close>, for a client that asks for blocks of 4-byte cells: the
  block it returns has the cells that were asked for, and no block is as large as the
  physical memory, which \<open>ram_bootstrap\<close> caps at 508 megabytes.
\<close>

definition km_ok :: "(nat \<Rightarrow> 'a list nullable) \<Rightarrow> bool" where
  "km_ok km \<longleftrightarrow> (\<forall>n c. km n = Ptr c \<longrightarrow> length c = n div 4 \<and> n < 508 * 1024 * 1024)"

text \<open>A small allocator of zeroed cells, at which the witnesses of the components run.\<close>

definition km_sample :: "nat \<Rightarrow> nat list nullable" where
  "km_sample n = (if n \<le> 4096 then Ptr (replicate (n div 4) 0) else NULL)"

text \<open>C's remainder: the sign of the dividend, undefined for a zero divisor.\<close>

definition crem :: "int \<Rightarrow> int \<Rightarrow> int option" where
  "crem a b = (if b = 0 then None else Some (sgn a * (\<bar>a\<bar> mod \<bar>b\<bar>)))"

text \<open>Cells addressed by a signed index.\<close>

definition rdi :: "'a list \<Rightarrow> int \<Rightarrow> 'a option" where
  "rdi xs i = (if 0 \<le> i then rd xs (nat i) else None)"

definition wri :: "'a list \<Rightarrow> int \<Rightarrow> 'a \<Rightarrow> 'a list option" where
  "wri xs i v = (if 0 \<le> i then wr xs (nat i) v else None)"

text \<open>Error numbers, as in \<^verbatim>\<open>kern/include/kern/errno.h\<close>; 0 is success.\<close>

abbreviation (input) EINVAL :: int where "EINVAL \<equiv> 1"
abbreviation (input) EFAULT :: int where "EFAULT \<equiv> 2"
abbreviation (input) ENAMETOOLONG :: int where "ENAMETOOLONG \<equiv> 3"
abbreviation (input) ENOMEM :: int where "ENOMEM \<equiv> 4"
abbreviation (input) EIO :: int where "EIO \<equiv> 5"
abbreviation (input) ENOENT :: int where "ENOENT \<equiv> 6"
abbreviation (input) ENOTDIR :: int where "ENOTDIR \<equiv> 7"
abbreviation (input) EISDIR :: int where "EISDIR \<equiv> 8"
abbreviation (input) EEXIST :: int where "EEXIST \<equiv> 9"
abbreviation (input) EUNIMP :: int where "EUNIMP \<equiv> 13"
abbreviation (input) ENXIO :: int where "ENXIO \<equiv> 14"
abbreviation (input) ENODEV :: int where "ENODEV \<equiv> 15"
abbreviation (input) EBUSY :: int where "EBUSY \<equiv> 16"
abbreviation (input) ENOSPC :: int where "ENOSPC \<equiv> 20"
abbreviation (input) ENOSYS :: int where "ENOSYS \<equiv> 23"
abbreviation (input) EBADF :: int where "EBADF \<equiv> 26"

subsection \<open>Lemma collections\<close>

named_theorems run_simps \<open>unfolding of checked primitives\<close>
named_theorems inv_defs \<open>definitions of component invariants\<close>

subsection \<open>Outcomes of the primitives\<close>

lemma kassert_simps [simp]:
  "kassert True = Some ()" "kassert False = None"
  "(kassert b = Some u) = b" "(kassert b = None) = (\<not> b)"
  by (auto simp: kassert_def)

lemma kassert_bind [simp]: "(kassert b \<bind> f = Some r) = (b \<and> f () = Some r)"
  by (cases b) auto

lemma cells_simps [simp]: "cells NULL = []" "cells (Ptr c) = c"
  by (simp_all add: cells_def)

lemma rd_ok [simp]: "i < length xs \<Longrightarrow> rd xs i = Some (xs ! i)"
  by (simp add: rd_def)

lemma rd_Some: "rd xs i = Some x \<longleftrightarrow> i < length xs \<and> xs ! i = x"
  by (auto simp: rd_def)

lemma wr_ok [simp]: "i < length xs \<Longrightarrow> wr xs i v = Some (xs[i := v])"
  by (simp add: wr_def)

lemma wr_Some: "wr xs i v = Some ys \<longleftrightarrow> i < length xs \<and> ys = xs[i := v]"
  by (auto simp: wr_def)

lemma cint_ok [simp]: "- (2 ^ 31) \<le> x \<Longrightarrow> x < 2 ^ 31 \<Longrightarrow> cint x = Some x"
  by (simp add: cint_def)

lemma cint_Some: "cint x = Some y \<longleftrightarrow> y = x \<and> - (2 ^ 31) \<le> x \<and> x < 2 ^ 31"
  by (auto simp: cint_def)

lemma cell_bytes_ok [simp]: "0 \<le> n \<Longrightarrow> n < 2 ^ 30 \<Longrightarrow> cell_bytes n = 4 * nat n"
  by (simp add: cell_bytes_def)

lemma crem_ok [simp]: "0 \<le> a \<Longrightarrow> 0 < b \<Longrightarrow> crem a b = Some (a mod b)"
  by (cases "a = 0") (simp_all add: crem_def)

lemma rdi_ok [simp]: "0 \<le> i \<Longrightarrow> nat i < length xs \<Longrightarrow> rdi xs i = Some (xs ! nat i)"
  by (simp add: rdi_def)

lemma wri_ok [simp]: "0 \<le> i \<Longrightarrow> nat i < length xs \<Longrightarrow> wri xs i v = Some (xs[nat i := v])"
  by (simp add: wri_def)

lemma km_okD:
  "km_ok km \<Longrightarrow> km n = Ptr c \<Longrightarrow> length c = n div 4"
  "km_ok km \<Longrightarrow> km n = Ptr c \<Longrightarrow> n < 2 ^ 29"
  by (force simp: km_ok_def)+

lemma km_ok_sample: "km_ok km_sample"
  by (auto simp: km_ok_def km_sample_def split: if_splits)

lemmas run_unfolds = bind_eq_Some_conv rd_Some wr_Some cint_Some
declare run_unfolds [run_simps]

subsection \<open>Lists\<close>

lemma take_list_update_at:
  "i < length xs \<Longrightarrow> take (Suc i) (xs[i := v]) = take i xs @ [v]"
  by (simp add: take_Suc_conv_app_nth)

lemma drop_update_before [simp]: "i < n \<Longrightarrow> drop n (xs[i := v]) = drop n xs"
  by (simp add: drop_update_cancel)

subsection \<open>32-bit words\<close>

lemma unat_less_32: "unat (x :: 32 word) < 4294967296"
  using unsigned_less [of x, where 'a = nat] by simp

lemma unat_plus_ok: "unat x + unat y < 4294967296 \<Longrightarrow> unat (x + y :: 32 word) = unat x + unat y"
  by (simp add: unat_word_ariths)

lemma unat_minus_ok: "y \<le> x \<Longrightarrow> unat (x - y :: 32 word) = unat x - unat y"
  by (simp add: unat_sub_if' word_le_nat_alt)

end
