(* ===== verification/K_Array.thy ===== *)
theory K_Array
  imports K_Prelude
begin

section \<open>Resizable pointer arrays: \<^verbatim>\<open>kern/lib/array.c\<close>\<close>

text \<open>
  The structure, every operation, and their refinement to lists. \<open>kmalloc\<close> enters as the
  parameter \<open>km\<close>: for a number of bytes it gives NULL or a block of 4-byte cells with
  arbitrary contents; \<open>km_ok\<close> states what the array code relies on of it.
\<close>

record 'a karray =
  arr_num :: int
  arr_max :: int
  arr_v :: "'a list nullable"

definition array_create :: "bool \<Rightarrow> 'a karray nullable" where
  "array_create kmalloc_ok =
     (if kmalloc_ok then Ptr \<lparr>arr_num = 0, arr_max = 0, arr_v = NULL\<rparr> else NULL)"

definition array_getnum :: "'a karray \<Rightarrow> int" where
  "array_getnum a = arr_num a"

definition array_getguy :: "'a karray \<Rightarrow> int \<Rightarrow> 'a option" where
  "array_getguy a index = do {
     kassert (arr_num a \<le> arr_max a);
     kassert (index \<ge> 0 \<and> index < arr_num a);
     rd (cells (arr_v a)) (nat index)
   }"

text \<open>The loop \<open>while (nguys > newmax) newmax = (newmax+1)*2\<close>.\<close>

partial_function (option) array_newmax :: "int \<Rightarrow> int \<Rightarrow> int option" where
  "array_newmax nguys newmax =
     (if nguys > newmax
      then Option.bind (cint ((newmax + 1) * 2)) (\<lambda>m. array_newmax nguys m)
      else Some newmax)"

text \<open>The loop \<open>for (i=0; i<n; i++) newv[i] = v[i]\<close>.\<close>

primrec copy_cells :: "'a list \<Rightarrow> 'a list \<Rightarrow> nat \<Rightarrow> 'a list option" where
  "copy_cells v newv 0 = Some newv"
| "copy_cells v newv (Suc i) = do {
     newv' \<leftarrow> copy_cells v newv i;
     x \<leftarrow> rd v i;
     wr newv' i x
   }"

definition array_preallocate ::
  "(nat \<Rightarrow> 'a list nullable) \<Rightarrow> 'a karray \<Rightarrow> int \<Rightarrow> (int \<times> 'a karray) option" where
  "array_preallocate km a nguys = do {
     kassert (arr_num a \<ge> 0 \<and> arr_num a \<le> arr_max a);
     newmax \<leftarrow> array_newmax nguys (arr_max a);
     (case km (cell_bytes newmax) of
        NULL \<Rightarrow> Some (ENOMEM, a)
      | Ptr newv \<Rightarrow> do {
          newv' \<leftarrow> copy_cells (cells (arr_v a)) newv (nat (arr_num a));
          Some (0, a\<lparr>arr_max := newmax, arr_v := Ptr newv'\<rparr>)
        })
   }"

definition array_setsize ::
  "(nat \<Rightarrow> 'a list nullable) \<Rightarrow> 'a karray \<Rightarrow> int \<Rightarrow> (int \<times> 'a karray) option" where
  "array_setsize km a nguys = do {
     kassert (arr_num a \<ge> 0 \<and> arr_num a \<le> arr_max a);
     if nguys > arr_max a then do {
       (result, a1) \<leftarrow> array_preallocate km a nguys;
       if result \<noteq> 0 then Some (result, a1) else Some (0, a1\<lparr>arr_num := nguys\<rparr>)
     } else if nguys = 0 \<and> arr_max a > 16 then do {
       kassert (arr_v a \<noteq> NULL);
       Some (0, a\<lparr>arr_v := NULL, arr_max := 0, arr_num := nguys\<rparr>)
     } else Some (0, a\<lparr>arr_num := nguys\<rparr>)
   }"

definition array_setguy :: "'a karray \<Rightarrow> int \<Rightarrow> 'a \<Rightarrow> 'a karray option" where
  "array_setguy a index ptr = do {
     kassert (arr_num a \<le> arr_max a);
     kassert (index \<ge> 0 \<and> index < arr_num a);
     v \<leftarrow> wr (cells (arr_v a)) (nat index) ptr;
     Some (a\<lparr>arr_v := Ptr v\<rparr>)
   }"

definition array_add ::
  "(nat \<Rightarrow> 'a list nullable) \<Rightarrow> 'a karray \<Rightarrow> 'a \<Rightarrow> (int \<times> 'a karray) option" where
  "array_add km a guy = do {
     let ix = arr_num a;
     n \<leftarrow> cint (ix + 1);
     (result, a1) \<leftarrow> array_setsize km a n;
     if result \<noteq> 0 then Some (result, a1)
     else do {
       v \<leftarrow> wr (cells (arr_v a1)) (nat ix) guy;
       Some (0, a1\<lparr>arr_v := Ptr v\<rparr>)
     }
   }"

definition array_remove :: "'a karray \<Rightarrow> int \<Rightarrow> 'a karray option" where
  "array_remove a index = do {
     kassert (arr_num a \<le> arr_max a);
     kassert (index \<ge> 0 \<and> index < arr_num a);
     let nmove = arr_num a - (index + 1);
     v \<leftarrow> memmove_cells (cells (arr_v a)) (nat index) (nat (index + 1)) (nat nmove);
     Some (a\<lparr>arr_v := Ptr v, arr_num := arr_num a - 1\<rparr>)
   }"

text \<open>\<open>array_destroy\<close> returns the memory: the number of blocks it passes to \<open>kfree\<close>.\<close>

definition array_destroy :: "'a karray \<Rightarrow> nat" where
  "array_destroy a = (if arr_v a \<noteq> NULL then 1 else 0) + 1"

subsection \<open>Invariant and abstraction\<close>

definition arr_inv :: "'a karray \<Rightarrow> bool" where
  "arr_inv a \<longleftrightarrow> 0 \<le> arr_num a \<and> arr_num a \<le> arr_max a \<and> arr_max a < 2 ^ 27 \<and>
     int (length (cells (arr_v a))) = arr_max a"

definition arr_list :: "'a karray \<Rightarrow> 'a list" where
  "arr_list a = take (nat (arr_num a)) (cells (arr_v a))"

declare arr_inv_def [inv_defs]

text \<open>
  The contract a client of the array relies on: a list with a capacity below which adding
  needs no memory and cannot fail.
\<close>

locale sequence =
  fixes inv :: "'s \<Rightarrow> bool"
    and contents :: "'s \<Rightarrow> 'a list"
    and capacity :: "'s \<Rightarrow> nat"
    and getnum :: "'s \<Rightarrow> int"
    and get :: "'s \<Rightarrow> int \<Rightarrow> 'a option"
    and add :: "'s \<Rightarrow> 'a \<Rightarrow> (int \<times> 's) option"
    and del :: "'s \<Rightarrow> int \<Rightarrow> 's option"
  assumes getnum: "inv s \<Longrightarrow> getnum s = int (length (contents s))"
    and get: "inv s \<Longrightarrow> i < length (contents s) \<Longrightarrow> get s (int i) = Some (contents s ! i)"
    and get_out: "inv s \<Longrightarrow> length (contents s) \<le> i \<Longrightarrow> get s (int i) = None"
    and add: "inv s \<Longrightarrow> length (contents s) < capacity s \<Longrightarrow>
      \<exists>s'. add s x = Some (0, s') \<and> inv s' \<and> contents s' = contents s @ [x] \<and>
           capacity s' = capacity s"
    and add_any: "inv s \<Longrightarrow> add s x = Some (ENOMEM, s) \<or>
      (\<exists>s'. add s x = Some (0, s') \<and> inv s' \<and> contents s' = contents s @ [x])"
    and del: "inv s \<Longrightarrow> i < length (contents s) \<Longrightarrow>
      \<exists>s'. del s (int i) = Some s' \<and> inv s' \<and>
           contents s' = take i (contents s) @ drop (Suc i) (contents s) \<and>
           capacity s' = capacity s"
begin

lemma add_contents:
  assumes "inv s" "length (contents s) < capacity s"
  obtains s' where "add s x = Some (0, s')" "inv s'" "contents s' = contents s @ [x]"
    "capacity s' = capacity s"
  using add [OF assms] by blast

lemma del_contents:
  assumes "inv s" "i < length (contents s)"
  obtains s' where "del s (int i) = Some s'" "inv s'"
    "contents s' = take i (contents s) @ drop (Suc i) (contents s)" "capacity s' = capacity s"
  using del [OF assms] by blast

end

subsection \<open>The loops\<close>

lemma array_newmax_enough: "nguys \<le> newmax \<Longrightarrow> array_newmax nguys newmax = Some newmax"
  by (subst array_newmax.simps) simp

lemma array_newmax_step:
  "0 \<le> newmax \<Longrightarrow> newmax < nguys \<Longrightarrow> (newmax + 1) * 2 < 2 ^ 31 \<Longrightarrow>
     array_newmax nguys newmax = array_newmax nguys ((newmax + 1) * 2)"
  by (subst array_newmax.simps) simp

lemma array_newmax_grows:
  assumes "0 \<le> newmax" "nguys \<le> 2 ^ 29"
  shows "\<exists>m. array_newmax nguys newmax = Some m \<and> nguys \<le> m \<and> newmax \<le> m \<and> m \<le> max newmax (2 * nguys)"
  using assms
proof (induction "nat (nguys - newmax)" arbitrary: newmax rule: less_induct)
  case less
  show ?case
  proof (cases "nguys > newmax")
    case True
    let ?m = "(newmax + 1) * 2"
    have step: "array_newmax nguys newmax = array_newmax nguys ?m"
      using True less.prems by (intro array_newmax_step) auto
    have "\<exists>m. array_newmax nguys ?m = Some m \<and> nguys \<le> m \<and> ?m \<le> m \<and> m \<le> max ?m (2 * nguys)"
      using True less.prems by (intro less.hyps) auto
    then show ?thesis using step True less.prems by auto
  next
    case False
    then show ?thesis by (simp add: array_newmax_enough)
  qed
qed

lemma copy_cells_ok:
  "n \<le> length v \<Longrightarrow> n \<le> length newv \<Longrightarrow> copy_cells v newv n = Some (take n v @ drop n newv)"
proof (induction n)
  case (Suc n)
  then show ?case
    by (simp add: take_Suc_conv_app_nth list_update_append Cons_nth_drop_Suc [symmetric])
qed simp

subsection \<open>The operations\<close>

lemma arr_list_length [simp]: "arr_inv a \<Longrightarrow> length (arr_list a) = nat (arr_num a)"
  by (auto simp: arr_list_def arr_inv_def)

lemma array_create_ok:
  "array_create True = Ptr a \<Longrightarrow> arr_inv a \<and> arr_list a = []"
  by (auto simp: array_create_def arr_inv_def arr_list_def)

lemma array_getguy_in:
  "arr_inv a \<Longrightarrow> i < length (arr_list a) \<Longrightarrow> array_getguy a (int i) = Some (arr_list a ! i)"
  by (auto simp: array_getguy_def arr_inv_def arr_list_def)

lemma array_getguy_out:
  "arr_inv a \<Longrightarrow> length (arr_list a) \<le> i \<Longrightarrow> array_getguy a (int i) = None"
  by (auto simp: array_getguy_def arr_inv_def arr_list_def kassert_def)

lemma array_preallocate_result:
  assumes "arr_inv a" "km_ok km" "nguys < 2 ^ 29"
  shows "array_preallocate km a nguys = Some (ENOMEM, a) \<or>
    (\<exists>a'. array_preallocate km a nguys = Some (0, a') \<and> arr_inv a' \<and> arr_list a' = arr_list a \<and>
      arr_num a' = arr_num a \<and> nguys \<le> arr_max a' \<and> arr_max a \<le> arr_max a')"
proof -
  from assms array_newmax_grows [of "arr_max a" nguys] obtain m
    where m: "array_newmax nguys (arr_max a) = Some m" "nguys \<le> m" "arr_max a \<le> m"
      "m \<le> max (arr_max a) (2 * nguys)"
    by (auto simp: arr_inv_def)
  have b: "0 \<le> m" "m < 2 ^ 30" using m assms by (auto simp: arr_inv_def)
  then have sz: "cell_bytes m = 4 * nat m" by simp
  show ?thesis
  proof (cases "km (4 * nat m)")
    case NULL
    then show ?thesis using m assms sz by (simp add: array_preallocate_def arr_inv_def)
  next
    case (Ptr newv)
    then have len: "int (length newv) = m" "m < 2 ^ 27" using km_okD [OF assms(2) Ptr] b by auto
    have "copy_cells (cells (arr_v a)) newv (nat (arr_num a)) =
        Some (arr_list a @ drop (nat (arr_num a)) newv)"
      unfolding arr_list_def using assms(1) len m
      by (intro copy_cells_ok) (auto simp: arr_inv_def)
    then show ?thesis using m b assms sz Ptr len
      by (auto simp: array_preallocate_def arr_inv_def arr_list_def)
  qed
qed

lemma array_setsize_shrink:
  "arr_inv a \<Longrightarrow> array_setsize km a 0 = Some (0, a') \<Longrightarrow> arr_inv a' \<and> arr_list a' = []"
  by (auto simp: array_setsize_def arr_inv_def arr_list_def split: if_splits)

lemma array_setsize_zero_ok:
  "arr_inv a \<Longrightarrow> \<exists>a'. array_setsize km a 0 = Some (0, a') \<and> arr_inv a' \<and> arr_list a' = []"
  by (cases "arr_v a") (auto simp: array_setsize_def arr_inv_def arr_list_def)

text \<open>The array after an append into a free cell.\<close>

definition arr_snoc :: "'a karray \<Rightarrow> 'a \<Rightarrow> 'a karray" where
  "arr_snoc a x =
     a\<lparr>arr_num := arr_num a + 1, arr_v := Ptr ((cells (arr_v a))[nat (arr_num a) := x])\<rparr>"

lemma arr_snoc_ok:
  assumes "arr_inv a" "arr_num a < arr_max a"
  shows "arr_inv (arr_snoc a x)" "arr_list (arr_snoc a x) = arr_list a @ [x]"
    "arr_max (arr_snoc a x) = arr_max a"
proof -
  have "nat (arr_num a + 1) = Suc (nat (arr_num a))" "nat (arr_num a) < length (cells (arr_v a))"
    using assms by (auto simp: arr_inv_def)
  then show "arr_list (arr_snoc a x) = arr_list a @ [x]"
    by (simp add: arr_list_def arr_snoc_def take_list_update_at)
qed (use assms in \<open>auto simp: arr_inv_def arr_snoc_def\<close>)

lemma array_add_room:
  assumes "arr_inv a" "arr_num a < arr_max a"
  shows "array_add km a x = Some (0, arr_snoc a x)"
proof -
  have "nat (arr_num a) < length (cells (arr_v a))" using assms by (auto simp: arr_inv_def)
  then show ?thesis
    using assms by (simp add: array_add_def array_setsize_def arr_inv_def arr_snoc_def Let_def)
qed

lemma array_add_result:
  assumes "arr_inv a" "km_ok km"
  shows "array_add km a guy = Some (ENOMEM, a) \<or>
    (\<exists>a'. array_add km a guy = Some (0, a') \<and> arr_inv a' \<and> arr_list a' = arr_list a @ [guy])"
proof (cases "arr_num a < arr_max a")
  case True
  then show ?thesis using arr_snoc_ok [OF assms(1)] by (simp add: array_add_room [OF assms(1)])
next
  case False
  let ?n = "arr_num a + 1"
  have full: "arr_max a < ?n" "0 \<le> arr_num a" "arr_num a \<le> arr_max a"
    using False assms(1) by (auto simp: arr_inv_def)
  have small: "?n < 2 ^ 29" using assms(1) by (simp add: arr_inv_def)
  have add: "array_add km a guy = array_preallocate km a ?n \<bind> (\<lambda>(result, a1).
      if result \<noteq> 0 then Some (result, a1)
      else wr (cells (arr_v a1)) (nat (arr_num a)) guy \<bind>
        (\<lambda>v. Some (0, a1\<lparr>arr_num := ?n, arr_v := Ptr v\<rparr>)))" for km
    using full small
    by (cases "array_preallocate km a ?n") (auto simp: array_add_def array_setsize_def Let_def)
  from array_preallocate_result [OF assms(1,2) small]
  consider "array_preallocate km a ?n = Some (ENOMEM, a)"
    | a' where "array_preallocate km a ?n = Some (0, a')" "arr_inv a'"
      "arr_list a' = arr_list a" "arr_num a' = arr_num a" "?n \<le> arr_max a'"
    by auto
  then show ?thesis
  proof cases
    case 1
    then show ?thesis by (simp add: add)
  next
    case 2
    then have "nat (arr_num a) < length (cells (arr_v a'))" "arr_num a' < arr_max a'"
      using full by (auto simp: arr_inv_def)
    then have "array_add km a guy = Some (0, arr_snoc a' guy)"
      using 2 by (simp add: add arr_snoc_def)
    then show ?thesis using 2 arr_snoc_ok [of a' guy] by auto
  qed
qed

lemma array_add_full_nomem:
  assumes "arr_inv a" "arr_num a = arr_max a" "\<forall>n. km n = NULL"
  shows "array_add km a x = Some (ENOMEM, a)"
proof -
  obtain m where "array_newmax (arr_num a + 1) (arr_max a) = Some m"
    using array_newmax_grows [of "arr_max a" "arr_num a + 1"] assms(1,2) by (auto simp: arr_inv_def)
  then show ?thesis
    using assms by (simp add: array_add_def array_setsize_def array_preallocate_def arr_inv_def Let_def)
qed

lemma array_remove_nth:
  assumes "arr_inv a" "i < length (arr_list a)"
  shows "\<exists>a'. array_remove a (int i) = Some a' \<and> arr_inv a' \<and>
    arr_list a' = take i (arr_list a) @ drop (Suc i) (arr_list a) \<and> arr_max a' = arr_max a"
proof -
  let ?v = "cells (arr_v a)"
  let ?n = "nat (arr_num a)"
  from assms have n: "i < ?n" "?n \<le> length ?v" by (auto simp: arr_inv_def)
  have mv: "nat (arr_num a - (int i + 1)) = ?n - Suc i" "nat (int i + 1) = Suc i"
    "nat (arr_num a - 1) = ?n - 1" using n by auto
  define w where "w = take i ?v @ take (?n - Suc i) (drop (Suc i) ?v) @ drop (i + (?n - Suc i)) ?v"
  have "memmove_cells ?v i (Suc i) (?n - Suc i) = Some w"
    using n by (simp add: memmove_cells_def w_def)
  then have rm: "array_remove a (int i) = Some (a\<lparr>arr_v := Ptr w, arr_num := arr_num a - 1\<rparr>)"
    using assms n mv by (simp add: array_remove_def arr_inv_def Let_def)
  have "take (?n - 1) w = take i (take ?n ?v) @ drop (Suc i) (take ?n ?v)"
    using n by (cases "?n - 1 = i") (auto simp: take_drop min_def w_def)
  then have "arr_list (a\<lparr>arr_v := Ptr w, arr_num := arr_num a - 1\<rparr>) =
      take i (arr_list a) @ drop (Suc i) (arr_list a)"
    unfolding arr_list_def mv(3) [symmetric] by simp
  moreover have "length w = length ?v" using n by (simp add: w_def)
  then have "arr_inv (a\<lparr>arr_v := Ptr w, arr_num := arr_num a - 1\<rparr>)"
    using assms(1) n by (simp add: arr_inv_def)
  ultimately show ?thesis by (simp add: rm)
qed

interpretation arr: sequence "\<lambda>a. arr_inv a \<and> km_ok km" arr_list "\<lambda>a. nat (arr_max a)" array_getnum
  array_getguy "array_add km" array_remove
proof (unfold_locales, goal_cases)
  case (1 s)
  then show ?case by (simp add: array_getnum_def arr_inv_def)
next
  case (2 s i)
  then show ?case by (simp add: array_getguy_in)
next
  case (3 s i)
  then show ?case by (simp add: array_getguy_out)
next
  case (4 s x)
  then have inv: "arr_inv s" "arr_num s < arr_max s" by auto
  with 4 show ?case
    by (intro exI [of _ "arr_snoc s x"] conjI) (simp_all add: array_add_room arr_snoc_ok)
next
  case (5 s x)
  then show ?case using array_add_result [of s km x] by auto
next
  case (6 s i)
  then show ?case using array_remove_nth [of s i] by auto
qed

lemma array_setguy_nth:
  assumes "arr_inv a" "i < length (arr_list a)"
  shows "\<exists>a'. array_setguy a (int i) p = Some a' \<and> arr_inv a' \<and> arr_list a' = (arr_list a)[i := p]"
  using assms by (auto simp: array_setguy_def arr_inv_def arr_list_def take_update_swap)

text \<open>
  C27: \<open>array_add\<close> implements appending to a list. It returns 0 with the element appended
  and the invariant kept, or ENOMEM with the array untouched; it never stops the kernel and
  never does anything else.
\<close>

theorem array_add_refines_append:
  assumes "arr_inv a" "km_ok km"
  shows "array_add km a guy = Some (ENOMEM, a) \<or>
    (\<exists>a'. array_add km a guy = Some (0, a') \<and> arr_inv a' \<and> arr_list a' = arr_list a @ [guy])"
  using arr.add_any [of a km guy] assms by blast

theorem array_add_refines_append_witness:
  "\<exists>a'. array_add km_sample \<lparr>arr_num = 2, arr_max = 2, arr_v = Ptr [5, 6]\<rparr> 7 = Some (0, a') \<and>
    arr_inv a' \<and> arr_list a' = [5, 6, 7]"
proof -
  let ?a = "\<lparr>arr_num = 2, arr_max = 2, arr_v = Ptr [5, 6]\<rparr> :: nat karray"
  have inv: "arr_inv ?a" by (simp add: arr_inv_def)
  have "\<exists>a'. array_add km_sample ?a 7 = Some (0, a')"
    by (simp add: array_add_def array_setsize_def array_preallocate_def array_newmax_step
        array_newmax_enough         km_sample_def copy_cells_ok)
  moreover have "arr_list ?a = [5, 6]" by (simp add: arr_list_def)
  ultimately show ?thesis using array_add_refines_append [OF inv km_ok_sample, of 7] by auto
qed

text \<open>
  \<open>array_remove\<close> removes exactly the element at the index and closes the hole: the
  elements before it stay, the ones after it move down by one, and the invariant is kept. An
  index outside the array fails the assertion.
\<close>

lemma array_remove_refines:
  assumes "arr_inv a"
  shows "if i < length (arr_list a)
    then \<exists>a'. array_remove a (int i) = Some a' \<and> arr_inv a' \<and>
      arr_list a' = take i (arr_list a) @ drop (Suc i) (arr_list a)
    else array_remove a (int i) = None"
proof (cases "i < length (arr_list a)")
  case True
  then show ?thesis using array_remove_nth [OF assms True] by auto
next
  case False
  then have "\<not> int i < arr_num a" using assms by simp
  then show ?thesis using False by (simp add: array_remove_def kassert_def)
qed

lemma array_remove_refines_witness:
  "\<exists>a'. array_remove \<lparr>arr_num = 3, arr_max = 4, arr_v = Ptr [5, 6, 7, 0]\<rparr> 1 = Some a' \<and>
    arr_list a' = [5, 7 :: nat]"
proof -
  let ?a = "\<lparr>arr_num = 3, arr_max = 4, arr_v = Ptr [5, 6, 7, 0]\<rparr> :: nat karray"
  have inv: "arr_inv ?a" by (simp add: arr_inv_def)
  have "arr_list ?a = [5, 6, 7]" by (simp add: arr_list_def)
  then show ?thesis using array_remove_refines [OF inv, of 1] by auto
qed

end
