(* ===== verification/K_Queue.thy ===== *)
theory K_Queue
  imports K_Prelude
begin

section \<open>Queues of pointers: \<^verbatim>\<open>kern/lib/queue.c\<close>\<close>

text \<open>
  A ring buffer that doubles when it is full. \<open>q_addtail\<close> and \<open>q_grow\<close> call each other in
  the source (growing re-adds every element to the new ring). The model bounds the depth of
  that recursion: \<open>q_addtail\<close> may grow once, and an element re-added while growing fits
  without growing again. The results below prove that the operations return, so the bound is
  enough.
\<close>

record 'a kqueue =
  q_size :: int
  q_nextwrite :: int
  q_nextread :: int
  q_data :: "'a list"

text \<open>The loop \<open>while (nsize < targetsize) { nsize *= 2; assert(nsize > 0); }\<close>.\<close>

partial_function (option) q_newsize :: "int \<Rightarrow> int \<Rightarrow> int option" where
  "q_newsize targetsize nsize =
     (if nsize < targetsize
      then Option.bind (cint (nsize * 2)) (\<lambda>n.
        Option.bind (kassert (n > 0)) (\<lambda>_. q_newsize targetsize n))
      else Some nsize)"

definition q_store :: "'a kqueue \<Rightarrow> 'a \<Rightarrow> int \<Rightarrow> (int \<times> 'a kqueue) option" where
  "q_store q ptr nextnext = do {
     d \<leftarrow> wri (q_data q) (q_nextwrite q) ptr;
     Some (0, q\<lparr>q_data := d, q_nextwrite := nextnext\<rparr>)
   }"

text \<open>
  The loop \<open>for (i=onr; i!=onw; i = (i+1)%osize)\<close> of \<open>q_grow\<close>; \<open>addtail\<close> is the call of
  \<open>q_addtail\<close> in its body. It visits at most \<open>osize\<close> positions.
\<close>

primrec q_move :: "nat \<Rightarrow> ('a kqueue \<Rightarrow> 'a \<Rightarrow> (int \<times> 'a kqueue) option) \<Rightarrow> 'a kqueue \<Rightarrow> 'a list
    \<Rightarrow> int \<Rightarrow> int \<Rightarrow> int \<Rightarrow> 'a kqueue option" where
  "q_move 0 addtail q olddata i onw osize = None"
| "q_move (Suc f) addtail q olddata i onw osize =
     (if i = onw then Some q
      else do {
        x \<leftarrow> rdi olddata i;
        (result, q1) \<leftarrow> addtail q x;
        kassert (result = 0);
        j \<leftarrow> cint (i + 1);
        i1 \<leftarrow> crem j osize;
        q_move f addtail q1 olddata i1 onw osize
      })"

definition q_grow_with ::
  "('a kqueue \<Rightarrow> 'a \<Rightarrow> (int \<times> 'a kqueue) option) \<Rightarrow> (nat \<Rightarrow> 'a list nullable) \<Rightarrow> 'a kqueue \<Rightarrow> int
    \<Rightarrow> (int \<times> 'a kqueue) option" where
  "q_grow_with addtail km q targetsize = do {
     nsize \<leftarrow> q_newsize targetsize (q_size q);
     (case km (cell_bytes nsize) of
        NULL \<Rightarrow> Some (ENOMEM, q)
      | Ptr ndata \<Rightarrow> do {
          q1 \<leftarrow> q_move (nat (q_size q) + 1) addtail
            (q\<lparr>q_size := nsize, q_data := ndata, q_nextread := 0, q_nextwrite := 0\<rparr>)
            (q_data q) (q_nextread q) (q_nextwrite q) (q_size q);
          Some (0, q1)
        })
   }"

primrec q_addtail_f :: "nat \<Rightarrow> (nat \<Rightarrow> 'a list nullable) \<Rightarrow> 'a kqueue \<Rightarrow> 'a \<Rightarrow> (int \<times> 'a kqueue) option" where
  "q_addtail_f 0 km q ptr = None"
| "q_addtail_f (Suc f) km q ptr = do {
     kassert (q_size q > 0);
     w \<leftarrow> cint (q_nextwrite q + 1);
     nextnext \<leftarrow> crem w (q_size q);
     if nextnext = q_nextread q then do {
       target \<leftarrow> cint (q_size q + 1);
       (result, q1) \<leftarrow> q_grow_with (q_addtail_f f km) km q target;
       if result \<noteq> 0 then Some (result, q1)
       else do {
         w1 \<leftarrow> cint (q_nextwrite q1 + 1);
         nextnext1 \<leftarrow> crem w1 (q_size q1);
         q_store q1 ptr nextnext1
       }
     } else q_store q ptr nextnext
   }"

definition q_grow :: "(nat \<Rightarrow> 'a list nullable) \<Rightarrow> 'a kqueue \<Rightarrow> int \<Rightarrow> (int \<times> 'a kqueue) option" where
  "q_grow km = q_grow_with (q_addtail_f 1 km) km"

definition q_create :: "bool \<Rightarrow> (nat \<Rightarrow> 'a list nullable) \<Rightarrow> int \<Rightarrow> 'a kqueue nullable" where
  "q_create kmalloc_ok km sz =
     (if \<not> kmalloc_ok then NULL
      else case km (cell_bytes sz) of
          NULL \<Rightarrow> NULL
        | Ptr d \<Rightarrow> Ptr \<lparr>q_size = sz, q_nextwrite = 0, q_nextread = 0, q_data = d\<rparr>)"

definition q_preallocate ::
  "(nat \<Rightarrow> 'a list nullable) \<Rightarrow> 'a kqueue \<Rightarrow> int \<Rightarrow> (int \<times> 'a kqueue) option" where
  "q_preallocate km q sz = do {
     kassert (q_size q > 0);
     if sz > q_size q then q_grow km q sz else Some (0, q)
   }"

definition q_empty :: "'a kqueue \<Rightarrow> bool" where
  "q_empty q \<longleftrightarrow> q_nextwrite q = q_nextread q"

definition q_addtail ::
  "(nat \<Rightarrow> 'a list nullable) \<Rightarrow> 'a kqueue \<Rightarrow> 'a \<Rightarrow> (int \<times> 'a kqueue) option" where
  "q_addtail km q ptr = q_addtail_f 2 km q ptr"

definition q_remhead :: "'a kqueue \<Rightarrow> ('a \<times> 'a kqueue) option" where
  "q_remhead q = do {
     kassert (q_size q > 0);
     kassert (\<not> q_empty q);
     ret \<leftarrow> rdi (q_data q) (q_nextread q);
     r \<leftarrow> cint (q_nextread q + 1);
     nr \<leftarrow> crem r (q_size q);
     Some (ret, q\<lparr>q_nextread := nr\<rparr>)
   }"

text \<open>\<open>q_destroy\<close> insists on an empty queue and passes two blocks to \<open>kfree\<close>.\<close>

definition q_destroy :: "'a kqueue \<Rightarrow> nat option" where
  "q_destroy q = do { kassert (q_empty q); Some 2 }"

definition q_getstart :: "'a kqueue \<Rightarrow> int" where
  "q_getstart q = q_nextread q"

definition q_getend :: "'a kqueue \<Rightarrow> int" where
  "q_getend q = q_nextwrite q"

definition q_getsize :: "'a kqueue \<Rightarrow> int" where
  "q_getsize q = q_size q"

definition q_getguy :: "'a kqueue \<Rightarrow> int \<Rightarrow> 'a option" where
  "q_getguy q index = do { kassert (index \<ge> 0 \<and> index < q_size q); rdi (q_data q) index }"

subsection \<open>Invariant and abstraction\<close>

definition q_inv :: "'a kqueue \<Rightarrow> bool" where
  "q_inv q \<longleftrightarrow> 0 < q_size q \<and> q_size q < 2 ^ 27 \<and> int (length (q_data q)) = q_size q \<and>
     0 \<le> q_nextread q \<and> q_nextread q < q_size q \<and>
     0 \<le> q_nextwrite q \<and> q_nextwrite q < q_size q"

text \<open>\<open>len\<close> cells of a ring, from position \<open>i\<close> on.\<close>

definition ring :: "'a list \<Rightarrow> nat \<Rightarrow> nat \<Rightarrow> 'a list" where
  "ring d i len = map (\<lambda>k. d ! ((i + k) mod length d)) [0..<len]"

definition q_count :: "'a kqueue \<Rightarrow> nat" where
  "q_count q = nat ((q_nextwrite q - q_nextread q) mod q_size q)"

definition q_list :: "'a kqueue \<Rightarrow> 'a list" where
  "q_list q = ring (q_data q) (nat (q_nextread q)) (q_count q)"

declare q_inv_def [inv_defs]
declare q_addtail_f.simps [simp del]

subsection \<open>Rings\<close>

lemma ring_length [simp]: "length (ring d i len) = len"
  by (simp add: ring_def)

lemma ring_0 [simp]: "ring d i 0 = []"
  by (simp add: ring_def)

lemma ring_Suc: "i < length d \<Longrightarrow> ring d i (Suc len) = d ! i # ring d (Suc i mod length d) len"
proof -
  assume i: "i < length d"
  have "(i + Suc k) mod length d = (Suc i mod length d + k) mod length d" for k
    by (metis add_Suc_shift mod_add_left_eq)
  then show ?thesis
    using i by (simp add: ring_def upt_conv_Cons map_Suc_upt [symmetric] del: upt_Suc)
qed

lemma ring_snoc: "ring d i (Suc len) = ring d i len @ [d ! ((i + len) mod length d)]"
  by (simp add: ring_def)

lemma ring_update_outside:
  assumes "len < length d"
  shows "ring (d[(i + len) mod length d := x]) i len = ring d i len"
proof -
  have "(i + k) mod length d \<noteq> (i + len) mod length d" if "k < len" for k
  proof
    assume "(i + k) mod length d = (i + len) mod length d"
    then have "length d dvd (i + len) - (i + k)"
      using that by (metis add_le_cancel_left less_imp_le_nat mod_eq_dvd_iff_nat)
    then show False using that assms by (auto dest: dvd_imp_le)
  qed
  then show ?thesis by (simp add: ring_def) (metis atLeastLessThan_iff nth_list_update_neq)
qed

subsection \<open>Counting\<close>

text \<open>The ring arithmetic, over the natural numbers.\<close>

lemma q_inv_pos:
  "q_inv q \<Longrightarrow> nat (q_nextread q) < length (q_data q)"
  "q_inv q \<Longrightarrow> nat (q_nextwrite q) < length (q_data q)"
  "q_inv q \<Longrightarrow> 0 \<le> q_nextread q" "q_inv q \<Longrightarrow> 0 \<le> q_nextwrite q" "q_inv q \<Longrightarrow> 0 < q_size q"
  by (auto simp: q_inv_def)

lemma q_count_less: "q_inv q \<Longrightarrow> int (q_count q) < q_size q"
  by (simp add: q_inv_def q_count_def)

lemma q_write_pos:
  assumes "q_inv q"
  shows "nat (q_nextwrite q) = (nat (q_nextread q) + q_count q) mod length (q_data q)"
proof -
  have "int ((nat (q_nextread q) + q_count q) mod length (q_data q)) =
      (q_nextread q + (q_nextwrite q - q_nextread q) mod q_size q) mod q_size q"
    using assms by (simp add: q_inv_def q_count_def zmod_int)
  also have "\<dots> = q_nextwrite q" using assms by (simp add: q_inv_def mod_add_right_eq)
  finally show ?thesis by linarith
qed

lemma q_length [simp]: "length (q_list q) = q_count q"
  by (simp add: q_list_def)

lemma q_empty_iff: "q_inv q \<Longrightarrow> q_empty q \<longleftrightarrow> q_list q = []"
proof -
  assume q: "q_inv q"
  have "q_count q = 0 \<longleftrightarrow> q_nextwrite q = q_nextread q"
  proof
    assume "q_count q = 0"
    then have "nat (q_nextwrite q) = nat (q_nextread q)"
      using q_write_pos [OF q] q by (simp add: q_inv_pos)
    then show "q_nextwrite q = q_nextread q" using q_inv_pos [OF q] by linarith
  qed (simp add: q_count_def)
  then show ?thesis by (metis q_empty_def q_length length_0_conv)
qed

lemma q_next_free:
  assumes "q_inv q"
  shows "(q_nextwrite q + 1) mod q_size q = q_nextread q \<longleftrightarrow> int (q_count q) + 1 = q_size q"
proof -
  let ?c = "(q_nextwrite q - q_nextread q) mod q_size q"
  have c: "int (q_count q) = ?c" "0 \<le> ?c" "?c < q_size q" using assms by (auto simp: q_inv_def q_count_def)
  have "(q_nextwrite q + 1) mod q_size q = q_nextread q \<longleftrightarrow>
      (q_nextwrite q + 1) mod q_size q = q_nextread q mod q_size q" using assms by (simp add: q_inv_def)
  also have "\<dots> \<longleftrightarrow> q_size q dvd (q_nextwrite q + 1) - q_nextread q" by (rule mod_eq_dvd_iff)
  also have "\<dots> \<longleftrightarrow> (q_nextwrite q - q_nextread q + 1) mod q_size q = 0"
    by (simp add: dvd_eq_mod_eq_0 algebra_simps)
  also have "\<dots> \<longleftrightarrow> (?c + 1) mod q_size q = 0" by (simp add: mod_add_left_eq)
  also have "\<dots> \<longleftrightarrow> ?c + 1 = q_size q"
    using c by (cases "?c + 1 = q_size q") (auto simp: mod_pos_pos_trivial)
  finally show ?thesis using c by simp
qed

text \<open>The queue after storing into the free cell.\<close>

definition q_snoc :: "'a kqueue \<Rightarrow> 'a \<Rightarrow> 'a kqueue" where
  "q_snoc q x = q\<lparr>q_data := (q_data q)[nat (q_nextwrite q) := x],
     q_nextwrite := (q_nextwrite q + 1) mod q_size q\<rparr>"

lemma q_store_snoc:
  "q_inv q \<Longrightarrow> q_store q x ((q_nextwrite q + 1) mod q_size q) = Some (0, q_snoc q x)"
  by (simp add: q_store_def q_snoc_def q_inv_pos)

lemma q_snoc_ok:
  assumes "q_inv q" "int (q_count q) + 1 < q_size q"
  shows "q_inv (q_snoc q x)" "q_list (q_snoc q x) = q_list q @ [x]"
    "q_size (q_snoc q x) = q_size q" "q_count (q_snoc q x) = Suc (q_count q)"
proof -
  show "q_inv (q_snoc q x)" "q_size (q_snoc q x) = q_size q"
    using assms(1) by (auto simp: q_inv_def q_snoc_def)
  have "((q_nextwrite q + 1) mod q_size q - q_nextread q) mod q_size q =
      ((q_nextwrite q - q_nextread q) mod q_size q + 1) mod q_size q"
    by (simp add: mod_simps algebra_simps)
  then show c: "q_count (q_snoc q x) = Suc (q_count q)"
    using assms(1,2) by (simp add: q_count_def q_snoc_def q_inv_def mod_pos_pos_trivial nat_add_distrib)
  have "q_count q < length (q_data q)" using assms(1,2) by (simp add: q_inv_def)
  then have "ring (q_data (q_snoc q x)) (nat (q_nextread q)) (q_count q) = q_list q"
    using q_write_pos [OF assms(1)] by (simp add: q_snoc_def q_list_def ring_update_outside)
  moreover have "q_data (q_snoc q x) ! ((nat (q_nextread q) + q_count q) mod length (q_data q)) = x"
    using q_inv_pos(2) [OF assms(1)] by (simp add: q_snoc_def q_write_pos [OF assms(1), symmetric])
  ultimately show "q_list (q_snoc q x) = q_list q @ [x]"
    by (simp add: q_list_def c ring_snoc) (simp add: q_snoc_def)
qed

lemma q_addtail_f_room:
  assumes "q_inv q" "int (q_count q) + 1 < q_size q"
  shows "q_addtail_f (Suc f) km q x = Some (0, q_snoc q x)"
  using assms q_next_free [OF assms(1)] q_store_snoc [OF assms(1)]
  by (simp add: q_addtail_f.simps q_inv_def)

lemma q_addtail_room:
  assumes "q_inv q" "int (q_count q) + 1 < q_size q"
  shows "q_addtail km q x = Some (0, q_snoc q x)"
  unfolding q_addtail_def numeral_2_eq_2 by (rule q_addtail_f_room [OF assms])

subsection \<open>Growing\<close>

lemma q_newsize_steps:
  "targetsize \<le> nsize \<Longrightarrow> q_newsize targetsize nsize = Some nsize"
  "0 < nsize \<Longrightarrow> nsize < targetsize \<Longrightarrow> nsize * 2 < 2 ^ 31 \<Longrightarrow>
     q_newsize targetsize nsize = q_newsize targetsize (nsize * 2)"
  by (subst q_newsize.simps, simp)+

lemma q_newsize_grows:
  assumes "0 < nsize" "targetsize \<le> 2 ^ 29"
  shows "\<exists>m. q_newsize targetsize nsize = Some m \<and> targetsize \<le> m \<and> nsize \<le> m \<and>
    m \<le> max nsize (2 * targetsize)"
  using assms
proof (induction "nat (targetsize - nsize)" arbitrary: nsize rule: less_induct)
  case less
  show ?case
  proof (cases "nsize < targetsize")
    case True
    have step: "q_newsize targetsize nsize = q_newsize targetsize (nsize * 2)"
      using True less.prems by (intro q_newsize_steps(2)) auto
    have "\<exists>m. q_newsize targetsize (nsize * 2) = Some m \<and> targetsize \<le> m \<and> nsize * 2 \<le> m \<and>
        m \<le> max (nsize * 2) (2 * targetsize)"
      using True less.prems by (intro less.hyps) auto
    then show ?thesis using step True less.prems by auto
  next
    case False
    then show ?thesis by (simp add: q_newsize_steps(1))
  qed
qed

text \<open>
  The copying loop: with room in the new ring it moves the \<open>n\<close> remaining elements, in order.
\<close>

lemma q_move_ok:
  assumes "q_inv q" "int (q_count q) + int n < q_size q" "n < f"
    and "i < length d" "length d < 2 ^ 27" "w = (i + n) mod length d" "n < length d"
  shows "\<exists>q'. q_move f (q_addtail_f (Suc h) km) q d (int i) (int w) (int (length d)) = Some q' \<and>
    q_inv q' \<and> q_list q' = q_list q @ ring d i n \<and> q_size q' = q_size q"
  using assms
proof (induction n arbitrary: f q i)
  case 0
  then show ?case by (cases f) auto
next
  case (Suc n)
  from Suc.prems(3) obtain g where f: "f = Suc g" "n < g" by (cases f) auto
  have room: "int (q_count q) + 1 < q_size q" using Suc.prems(2) by simp
  note snoc = q_snoc_ok [OF Suc.prems(1) room, of "d ! i"]
  let ?i = "Suc i mod length d"
  let ?loop = "\<lambda>f q i. q_move f (q_addtail_f (Suc h) km) q d (int i) (int w) (int (length d))"
  have neq: "i \<noteq> w"
  proof
    assume "i = w"
    then have "(i + Suc n) mod length d = i mod length d" using Suc.prems(4,6) by simp
    then have "length d dvd Suc n" by (metis add_diff_cancel_left' le_add1 mod_eq_dvd_iff_nat)
    then show False using Suc.prems(7) by (auto dest: dvd_imp_le)
  qed
  have "?i < length d" using Suc.prems(4) by (intro mod_less_divisor) linarith
  moreover have "w = (?i + n) mod length d" using Suc.prems(6) by (simp add: mod_simps)
  ultimately obtain q' where q': "?loop g (q_snoc q (d ! i)) ?i = Some q'" "q_inv q'"
      "q_list q' = q_list (q_snoc q (d ! i)) @ ring d ?i n" "q_size q' = q_size (q_snoc q (d ! i))"
    using Suc.IH [of "q_snoc q (d ! i)" g ?i] Suc.prems(2,5,7) f(2) snoc by auto
  have "0 < int (length d)" using Suc.prems(4) by auto
  then have "crem (int i + 1) (int (length d)) = Some (int ?i)"
    using crem_ok [of "int i + 1" "int (length d)"] by (simp add: zmod_int add.commute)
  then have "?loop f q i = ?loop g (q_snoc q (d ! i)) ?i"
    using neq Suc.prems(4,5) q_addtail_f_room [OF Suc.prems(1) room, of h km "d ! i"]
    by (simp add: f(1))
  then show ?case using q' snoc Suc.prems(4) by (simp add: ring_Suc)
qed

lemma q_grow_with_result:
  assumes "q_inv q" "km_ok km" "q_size q < targetsize" "targetsize \<le> 2 ^ 28"
  shows "q_grow_with (q_addtail_f (Suc h) km) km q targetsize = Some (ENOMEM, q) \<or>
    (\<exists>q'. q_grow_with (q_addtail_f (Suc h) km) km q targetsize = Some (0, q') \<and> q_inv q' \<and>
      q_list q' = q_list q \<and> targetsize \<le> q_size q')"
proof -
  let ?d = "q_data q"
  let ?r = "nat (q_nextread q)"
  obtain m where m: "q_newsize targetsize (q_size q) = Some m" "targetsize \<le> m" "q_size q \<le> m"
      "m \<le> max (q_size q) (2 * targetsize)"
    using q_newsize_grows [of "q_size q" targetsize] q_inv_pos(5) [OF assms(1)] assms(4) by auto
  have b: "0 \<le> m" "m < 2 ^ 30" using m assms by (auto simp: q_inv_def)
  show ?thesis
  proof (cases "km (cell_bytes m)")
    case NULL
    then show ?thesis using m by (simp add: q_grow_with_def)
  next
    case (Ptr nd)
    have len: "int (length nd) = m" "m < 2 ^ 27" using km_okD [OF assms(2) Ptr] b by auto
    define q0 where "q0 = q\<lparr>q_size := m, q_data := nd, q_nextread := 0, q_nextwrite := 0\<rparr>"
    have q0: "q_inv q0" "q_list q0 = []" "q_count q0 = 0" "q_size q0 = m"
      using len m(3) q_inv_pos(5) [OF assms(1)]
      by (auto simp: q0_def q_inv_def q_list_def q_count_def)
    have d: "?r < length ?d" "length ?d < 2 ^ 27" "int (length ?d) = q_size q"
        "q_count q < length ?d" "int ?r = q_nextread q"
        "int (nat (q_nextwrite q)) = q_nextwrite q" "nat (q_size q) = length ?d"
      using assms(1) q_count_less [OF assms(1)] by (auto simp: q_inv_def)
    have "\<exists>q'. q_move (Suc (length ?d)) (q_addtail_f (Suc h) km) q0 ?d (int ?r)
        (int (nat (q_nextwrite q))) (int (length ?d)) = Some q' \<and> q_inv q' \<and>
        q_list q' = q_list q0 @ ring ?d ?r (q_count q) \<and> q_size q' = q_size q0"
      using q0 d m(3) q_write_pos [OF assms(1)] by (intro q_move_ok) auto
    then obtain q' where q': "q_move (nat (q_size q) + 1) (q_addtail_f (Suc h) km) q0 ?d
        (q_nextread q) (q_nextwrite q) (q_size q) = Some q'"
        "q_inv q'" "q_list q' = q_list q" "q_size q' = m"
      using d q0 by (auto simp: q_list_def)
    then show ?thesis
      using m Ptr by (simp add: q_grow_with_def q0_def [symmetric])
  qed
qed

lemma q_preallocate_result:
  assumes "q_inv q" "km_ok km" "n \<le> 2 ^ 28"
  shows "q_preallocate km q n = Some (ENOMEM, q) \<or>
    (\<exists>q'. q_preallocate km q n = Some (0, q') \<and> q_inv q' \<and> q_list q' = q_list q \<and> n \<le> q_size q' \<and> q_size q \<le> q_size q')"
  using q_grow_with_result [OF assms(1,2), of n 0] q_inv_pos(5) [OF assms(1)] assms
  by (auto simp: q_preallocate_def q_grow_def)

lemma q_addtail_result:
  assumes "q_inv q" "km_ok km"
  shows "q_addtail km q x = Some (ENOMEM, q) \<or>
    (\<exists>q'. q_addtail km q x = Some (0, q') \<and> q_inv q' \<and> q_list q' = q_list q @ [x] \<and> q_size q \<le> q_size q')"
proof (cases "int (q_count q) + 1 < q_size q")
  case True
  then show ?thesis using q_snoc_ok [OF assms(1) True] by (simp add: q_addtail_room [OF assms(1)])
next
  case False
  then have full: "int (q_count q) + 1 = q_size q" using q_count_less [OF assms(1)] by simp
  have sz: "0 < q_size q" "q_size q < 2 ^ 27" "q_nextwrite q < 2 ^ 27" "0 \<le> q_nextwrite q"
    using assms(1) by (auto simp: q_inv_def)
  have add: "q_addtail km q x =
      q_grow_with (q_addtail_f 1 km) km q (q_size q + 1) \<bind> (\<lambda>(result, q1).
        if result \<noteq> 0 then Some (result, q1)
        else cint (q_nextwrite q1 + 1) \<bind> (\<lambda>w1. crem w1 (q_size q1) \<bind> q_store q1 x))"
    using full q_next_free [OF assms(1)] sz
    by (simp add: q_addtail_def numeral_2_eq_2 q_addtail_f.simps(2) [of "Suc 0"])
  from q_grow_with_result [OF assms, of "q_size q + 1" 0] sz
  consider "q_grow_with (q_addtail_f 1 km) km q (q_size q + 1) = Some (ENOMEM, q)"
    | q' where "q_grow_with (q_addtail_f 1 km) km q (q_size q + 1) = Some (0, q')" "q_inv q'"
      "q_list q' = q_list q" "q_size q + 1 \<le> q_size q'"
    by auto
  then show ?thesis
  proof cases
    case 1
    then show ?thesis by (simp add: add)
  next
    case 2
    then have room: "int (q_count q') + 1 < q_size q'" using full by (metis q_length add_strict_increasing2
          less_add_same_cancel1 of_nat_0_le_iff order_less_le_trans zero_less_one)
    have "q_nextwrite q' < 2 ^ 27" using 2(2) by (simp add: q_inv_def)
    then have "q_addtail km q x = Some (0, q_snoc q' x)"
      using 2 q_inv_pos [OF 2(2)] by (simp add: add q_store_snoc)
    then show ?thesis using 2 q_snoc_ok [OF 2(2) room] by auto
  qed
qed

lemma q_addtail_full_nomem:
  assumes "q_inv q" "int (q_count q) + 1 = q_size q" "\<forall>n. km n = NULL"
  shows "q_addtail km q x = Some (ENOMEM, q)"
proof -
  have sz: "0 < q_size q" "q_size q < 2 ^ 27" "q_nextwrite q < 2 ^ 27" "0 \<le> q_nextwrite q"
    using assms(1) by (auto simp: q_inv_def)
  obtain m where "q_newsize (q_size q + 1) (q_size q) = Some m"
    using q_newsize_grows [of "q_size q" "q_size q + 1"] sz by auto
  then have "q_grow_with (q_addtail_f 1 km) km q (q_size q + 1) = Some (ENOMEM, q)"
    using assms(3) by (simp add: q_grow_with_def)
  then show ?thesis
    using assms(2) q_next_free [OF assms(1)] sz
    by (simp add: q_addtail_def numeral_2_eq_2 q_addtail_f.simps(2) [of "Suc 0"])
qed

lemma q_remhead_nonempty:
  assumes "q_inv q" "q_list q = x # xs"
  shows "\<exists>q'. q_remhead q = Some (x, q') \<and> q_inv q' \<and> q_list q' = xs \<and> q_size q' = q_size q"
proof -
  let ?q = "q\<lparr>q_nextread := (q_nextread q + 1) mod q_size q\<rparr>"
  obtain n where n: "q_count q = Suc n" using assms(2) by (metis length_Suc_conv q_length)
  have eq: "ring (q_data q) (nat (q_nextread q)) (Suc n) = x # xs" using assms(2) n by (simp add: q_list_def)
  then have x: "q_data q ! nat (q_nextread q) = x"
      "ring (q_data q) (Suc (nat (q_nextread q)) mod length (q_data q)) n = xs"
    using ring_Suc [OF q_inv_pos(1) [OF assms(1)]] by auto
  have nr: "nat ((q_nextread q + 1) mod q_size q) = Suc (nat (q_nextread q)) mod length (q_data q)"
  proof -
    have "nat (q_size q) = length (q_data q)" using assms(1) by (auto simp: q_inv_def)
    then show ?thesis using q_inv_pos [OF assms(1)] by (simp add: nat_mod_distrib nat_add_distrib)
  qed
  have "((q_nextwrite q - (q_nextread q + 1) mod q_size q) mod q_size q) =
      ((q_nextwrite q - q_nextread q) mod q_size q - 1) mod q_size q"
    by (simp add: mod_simps algebra_simps)
  moreover have "(q_nextwrite q - q_nextread q) mod q_size q = int (Suc n)"
    using n q_inv_pos(5) [OF assms(1)] by (simp add: q_count_def)
  ultimately have "q_count ?q = n"
    using q_count_less [OF assms(1)] n by (simp add: q_count_def)
  then have "q_list ?q = xs" using x nr by (simp add: q_list_def)
  moreover have "q_inv ?q" using assms(1) by (simp add: q_inv_def)
  moreover have "q_remhead q = Some (x, ?q)"
  proof -
    have "q_nextread q < 2 ^ 27" using assms(1) by (simp add: q_inv_def)
    then show ?thesis using q_inv_pos [OF assms(1)] x assms q_empty_iff [OF assms(1)]
      by (simp add: q_remhead_def)
  qed
  ultimately show ?thesis by auto
qed

lemma q_remhead_empty: "q_inv q \<Longrightarrow> q_list q = [] \<Longrightarrow> q_remhead q = None"
  by (simp add: q_remhead_def q_empty_iff kassert_def)

subsection \<open>The contract of a queue\<close>

text \<open>
  Running a client against a queue: adding a list of elements, which stops at the first
  error, and removing a number of elements.
\<close>

primrec fill :: "('q \<Rightarrow> 'a \<Rightarrow> (int \<times> 'q) option) \<Rightarrow> 'q \<Rightarrow> 'a list \<Rightarrow> (int \<times> 'q) option" where
  "fill addtail q [] = Some (0, q)"
| "fill addtail q (x # xs) = do {
     (result, q1) \<leftarrow> addtail q x;
     if result \<noteq> 0 then Some (result, q1) else fill addtail q1 xs
   }"

primrec drain :: "('q \<Rightarrow> ('a \<times> 'q) option) \<Rightarrow> 'q \<Rightarrow> nat \<Rightarrow> ('a list \<times> 'q) option" where
  "drain remhead q 0 = Some ([], q)"
| "drain remhead q (Suc n) = do {
     (x, q1) \<leftarrow> remhead q;
     (xs, q2) \<leftarrow> drain remhead q1 n;
     Some (x # xs, q2)
   }"

locale fifo =
  fixes inv :: "'q \<Rightarrow> bool"
    and contents :: "'q \<Rightarrow> 'a list"
    and room :: "'q \<Rightarrow> nat"
    and isempty :: "'q \<Rightarrow> bool"
    and addtail :: "'q \<Rightarrow> 'a \<Rightarrow> (int \<times> 'q) option"
    and remhead :: "'q \<Rightarrow> ('a \<times> 'q) option"
  assumes isempty: "inv q \<Longrightarrow> isempty q \<longleftrightarrow> contents q = []"
    and addtail_room: "inv q \<Longrightarrow> length (contents q) < room q \<Longrightarrow>
      \<exists>q'. addtail q x = Some (0, q') \<and> inv q' \<and> contents q' = contents q @ [x] \<and> room q' = room q"
    and addtail_any: "inv q \<Longrightarrow> addtail q x = Some (ENOMEM, q) \<or>
      (\<exists>q'. addtail q x = Some (0, q') \<and> inv q' \<and> contents q' = contents q @ [x])"
    and remhead: "inv q \<Longrightarrow> contents q = x # xs \<Longrightarrow>
      \<exists>q'. remhead q = Some (x, q') \<and> inv q' \<and> contents q' = xs \<and> room q' = room q"
    and remhead_none: "inv q \<Longrightarrow> contents q = [] \<Longrightarrow> remhead q = None"
begin

lemma addtail_roomE:
  assumes "inv q" "length (contents q) < room q"
  obtains q' where "addtail q x = Some (0, q')" "inv q'" "contents q' = contents q @ [x]" "room q' = room q"
  using addtail_room [OF assms] by blast

lemma remheadE:
  assumes "inv q" "contents q = x # xs"
  obtains q' where "remhead q = Some (x, q')" "inv q'" "contents q' = xs" "room q' = room q"
  using remhead [OF assms] by blast

lemma drain_contents:
  assumes "inv q" "n = length (contents q)"
  shows "\<exists>q'. drain remhead q n = Some (contents q, q') \<and> inv q' \<and> contents q' = []"
  using assms
proof (induction n arbitrary: q)
  case (Suc n)
  then obtain x xs where "contents q = x # xs" by (cases "contents q") auto
  with Suc.prems obtain q1 where "remhead q = Some (x, q1)" "inv q1" "contents q1 = xs"
    by (metis remheadE)
  with Suc.IH [of q1] Suc.prems \<open>contents q = x # xs\<close> show ?case by auto
qed simp

lemma fill_contents:
  assumes "inv q" "fill addtail q xs = Some (0, q')"
  shows "inv q' \<and> contents q' = contents q @ xs"
  using assms
proof (induction xs arbitrary: q)
  case (Cons x xs)
  from addtail_any [OF Cons.prems(1), of x] Cons.prems(2) obtain q1
    where "inv q1" "contents q1 = contents q @ [x]" "fill addtail q1 xs = Some (0, q')" by auto
  with Cons.IH [of q1] show ?case by simp
qed simp

lemma fill_room:
  assumes "inv q" "length (contents q) + length xs \<le> room q"
  shows "\<exists>q'. fill addtail q xs = Some (0, q')"
  using assms
proof (induction xs arbitrary: q)
  case (Cons x xs)
  then have "length (contents q) < room q" by simp
  with Cons.prems(1) obtain q1 where q1: "addtail q x = Some (0, q1)" "inv q1"
      "contents q1 = contents q @ [x]" "room q1 = room q"
    by (rule addtail_roomE)
  with Cons.IH [of q1] Cons.prems show ?case by simp
qed simp

lemma fill_drain:
  assumes "inv q" "fill addtail q xs = Some (0, q')"
  shows "\<exists>q''. drain remhead q' (length (contents q) + length xs) = Some (contents q @ xs, q'') \<and>
    contents q'' = []"
  using fill_contents [OF assms] drain_contents [of q'] by auto

end

text \<open>
  The ring buffer meets the contract, with room for one element less than its size, since a
  full ring would look empty.
\<close>

interpretation kq: fifo "\<lambda>q. q_inv q \<and> km_ok km" q_list "\<lambda>q. nat (q_size q - 1)" q_empty
  "q_addtail km" q_remhead
proof (unfold_locales, goal_cases)
  case (1 q)
  then show ?case by (simp add: q_empty_iff)
next
  case (2 q x)
  then have "int (q_count q) + 1 < q_size q" by simp
  with 2 show ?case using q_snoc_ok [of q x] by (simp add: q_addtail_room)
next
  case (3 q x)
  then show ?case using q_addtail_result [of q km x] by auto
next
  case (4 q x xs)
  then show ?case using q_remhead_nonempty [of q x xs] by auto
next
  case (5 q)
  then show ?case by (simp add: q_remhead_empty)
qed

text \<open>
  C24: first in, first out. Elements added to a queue, across any number of growth steps,
  come out again in the order in which they went in, after those already there, and the
  queue is empty afterwards.
\<close>

theorem q_fifo_roundtrip:
  assumes "q_inv q" "km_ok km" "fill (q_addtail km) q xs = Some (0, q')"
  shows "\<exists>q''. drain q_remhead q' (length (q_list q) + length xs) = Some (q_list q @ xs, q'') \<and>
    q_list q'' = []"
  using kq.fill_drain [of q km xs q'] assms by blast

theorem q_fifo_roundtrip_witness:
  "\<exists>q' q''. fill (q_addtail km_sample) \<lparr>q_size = 2, q_nextwrite = 0, q_nextread = 0, q_data = [0, 0]\<rparr> [5, 6, 7]
      = Some (0, q') \<and> drain q_remhead q' 3 = Some ([5, 6, 7], q'') \<and> q_list q'' = []"
proof -
  let ?q = "\<lparr>q_size = 2, q_nextwrite = 0, q_nextread = 0, q_data = [0, 0]\<rparr> :: nat kqueue"
  have inv: "q_inv ?q" by (simp add: q_inv_def)
  have ex: "\<exists>q'. fill (q_addtail km_sample) ?q [5, 6, 7] = Some (0, q')"
    by (simp add: q_addtail_def q_addtail_f.simps q_grow_with_def q_newsize_steps km_sample_def
        cell_bytes_def q_store_def numeral_2_eq_2 numeral_3_eq_3)
  then obtain q' where q': "fill (q_addtail km_sample) ?q [5, 6, 7] = Some (0, q')" by blast
  have "q_list ?q = []" by (simp add: q_list_def q_count_def)
  then have "\<exists>q''. drain q_remhead q' 3 = Some ([5, 6, 7], q'') \<and> q_list q'' = []"
    using q_fifo_roundtrip [OF inv km_ok_sample q'] by (simp add: numeral_3_eq_3 del: drain.simps)
  then show ?thesis using q' by blast
qed

text \<open>
  C25: \<open>q_addtail\<close> implements appending to a list. Whatever the state of the ring, it
  returns 0 with the element appended at the tail and the order of the others kept, also
  when it had to grow and move every element to a new ring, or it returns ENOMEM and leaves
  the queue untouched.
\<close>

theorem q_addtail_refines_append:
  assumes "q_inv q" "km_ok km"
  shows "q_addtail km q x = Some (ENOMEM, q) \<or>
    (\<exists>q'. q_addtail km q x = Some (0, q') \<and> q_inv q' \<and> q_list q' = q_list q @ [x])"
  using kq.addtail_any [of q km x] assms by blast

theorem q_addtail_refines_append_witness:
  "\<exists>q'. q_addtail km_sample \<lparr>q_size = 2, q_nextwrite = 1, q_nextread = 0, q_data = [5, 6]\<rparr> 7 = Some (0, q') \<and>
    q_list q' = [5, 7]"
proof -
  let ?q = "\<lparr>q_size = 2, q_nextwrite = 1, q_nextread = 0, q_data = [5, 6]\<rparr> :: nat kqueue"
  have inv: "q_inv ?q" by (simp add: q_inv_def)
  have "\<exists>q'. q_addtail km_sample ?q 7 = Some (0, q')"
    by (simp add: q_addtail_def q_addtail_f.simps q_grow_with_def q_newsize_steps km_sample_def
        cell_bytes_def q_store_def numeral_2_eq_2 numeral_3_eq_3)
  moreover have "q_list ?q = [5]" by (simp add: q_list_def q_count_def ring_def)
  ultimately show ?thesis using q_addtail_refines_append [OF inv km_ok_sample, of 7] by auto
qed

end
