(* ===== verification/K_Bitmap.thy ===== *)
theory K_Bitmap
  imports K_Prelude
begin

unbundle bit_operations_syntax

section \<open>Bitmaps: \<^verbatim>\<open>kern/lib/bitmap.c\<close>\<close>

text \<open>
  The bitmap keeps 8-bit words; bit numbers are \<open>u_int32_t\<close>, so they are 32-bit words and
  \<open>DIVROUNDUP\<close> can wrap around. The file system's free-block map is such a bitmap.
\<close>

record kbitmap =
  bm_nbits :: "32 word"
  bm_v :: "8 word list"

definition bm_words :: "32 word \<Rightarrow> 32 word" where
  "bm_words nbits = (nbits + 8 - 1) div 8"

text \<open>The loop that marks the bits \<open>overbits\<close>..7 of the last word in use.\<close>

definition bm_leftover :: "8 word \<Rightarrow> 32 word \<Rightarrow> 8 word" where
  "bm_leftover w overbits = foldl (\<lambda>w j. w OR push_bit j 1) w [unat overbits..<8]"

definition bitmap_create :: "bool \<Rightarrow> bool \<Rightarrow> 32 word \<Rightarrow> kbitmap nullable option" where
  "bitmap_create ok1 ok2 nbits = (
     let words = bm_words nbits in
     if \<not> ok1 then Some NULL
     else if \<not> ok2 then Some NULL
     else (let v = replicate (unat words) 0 in
       if nbits div 8 < words then (
         let ix = words - 1; overbits = nbits - ix * 8 in do {
           kassert (nbits div 8 = words - 1);
           kassert (overbits > 0 \<and> overbits < 8);
           w \<leftarrow> rd v (unat ix);
           v1 \<leftarrow> wr v (unat ix) (bm_leftover w overbits);
           Some (Ptr \<lparr>bm_nbits = nbits, bm_v = v1\<rparr>)
         })
       else Some (Ptr \<lparr>bm_nbits = nbits, bm_v = v\<rparr>)))"

definition bitmap_getdata :: "kbitmap \<Rightarrow> 8 word list" where
  "bitmap_getdata b = bm_v b"

text \<open>
  \<open>bitmap_alloc\<close>: the outer loop over the words, with \<open>n\<close> words left to look at from \<open>ix\<close> on;
  the inner loop is the search for the first offset whose bit is clear. The caller's index
  \<open>*index\<close> is passed in and comes back unchanged when there is no space.
\<close>

primrec bitmap_alloc_loop :: "nat \<Rightarrow> nat \<Rightarrow> kbitmap \<Rightarrow> 32 word \<Rightarrow> (int \<times> 32 word \<times> kbitmap) option" where
  "bitmap_alloc_loop 0 ix b index = Some (ENOSPC, index, b)"
| "bitmap_alloc_loop (Suc n) ix b index = do {
     w \<leftarrow> rd (bm_v b) ix;
     if w \<noteq> 0xff then
       (case find (\<lambda>offset. w AND push_bit offset 1 = 0) [0..<8] of
          None \<Rightarrow> None
        | Some offset \<Rightarrow> do {
            v \<leftarrow> wr (bm_v b) ix (w OR push_bit offset 1);
            let i = of_nat (ix * 8 + offset);
            kassert (i < bm_nbits b);
            Some (0, i, b\<lparr>bm_v := v\<rparr>)
          })
     else bitmap_alloc_loop n (Suc ix) b index
   }"

definition bitmap_alloc :: "kbitmap \<Rightarrow> 32 word \<Rightarrow> (int \<times> 32 word \<times> kbitmap) option" where
  "bitmap_alloc b index = bitmap_alloc_loop (unat (bm_words (bm_nbits b))) 0 b index"

definition bitmap_translate :: "32 word \<Rightarrow> 32 word \<times> 8 word" where
  "bitmap_translate bitno = (bitno div 8, push_bit (unat (bitno mod 8)) 1)"

definition bitmap_mark :: "kbitmap \<Rightarrow> 32 word \<Rightarrow> kbitmap option" where
  "bitmap_mark b index = do {
     kassert (index < bm_nbits b);
     let (ix, mask) = bitmap_translate index;
     w \<leftarrow> rd (bm_v b) (unat ix);
     kassert (w AND mask = 0);
     v \<leftarrow> wr (bm_v b) (unat ix) (w OR mask);
     Some (b\<lparr>bm_v := v\<rparr>)
   }"

definition bitmap_unmark :: "kbitmap \<Rightarrow> 32 word \<Rightarrow> kbitmap option" where
  "bitmap_unmark b index = do {
     kassert (index < bm_nbits b);
     let (ix, mask) = bitmap_translate index;
     w \<leftarrow> rd (bm_v b) (unat ix);
     kassert (w AND mask \<noteq> 0);
     v \<leftarrow> wr (bm_v b) (unat ix) (w AND NOT mask);
     Some (b\<lparr>bm_v := v\<rparr>)
   }"

definition bitmap_isset :: "kbitmap \<Rightarrow> 32 word \<Rightarrow> 8 word option" where
  "bitmap_isset b index = (
     let (ix, mask) = bitmap_translate index in do {
       w \<leftarrow> rd (bm_v b) (unat ix);
       Some (w AND mask)
     })"

subsection \<open>Invariant and abstraction\<close>

definition bm_bit :: "kbitmap \<Rightarrow> nat \<Rightarrow> bool" where
  "bm_bit b i \<longleftrightarrow> bit (bm_v b ! (i div 8)) (i mod 8)"

text \<open>
  The data has one bit per bit number, rounded up to whole bytes, and the left-over bits of
  the last byte are marked in use.
\<close>

definition bm_inv :: "kbitmap \<Rightarrow> bool" where
  "bm_inv b \<longleftrightarrow> unat (bm_nbits b) + 7 < 2 ^ 32 \<and>
     length (bm_v b) = (unat (bm_nbits b) + 7) div 8 \<and>
     (\<forall>i. unat (bm_nbits b) \<le> i \<longrightarrow> i < 8 * length (bm_v b) \<longrightarrow> bm_bit b i)"

text \<open>The bit numbers in use.\<close>

definition bm_used :: "kbitmap \<Rightarrow> nat set" where
  "bm_used b = {i. i < unat (bm_nbits b) \<and> bm_bit b i}"

declare bm_inv_def [inv_defs]

subsection \<open>Bits of bytes\<close>

lemma byte_bit_clear: "k < 8 \<Longrightarrow> ((w :: 8 word) AND 2 ^ k = 0) \<longleftrightarrow> \<not> bit w k"
  by (simp add: and_exp_eq_0_iff_not_bit)

lemma byte_bit_set: "k < 8 \<Longrightarrow> bit ((w :: 8 word) OR 2 ^ k) j \<longleftrightarrow> bit w j \<or> j = k"
  by (auto simp: bit_or_iff bit_exp_iff)

lemma byte_bit_unset: "k < 8 \<Longrightarrow> bit ((w :: 8 word) AND NOT (2 ^ k)) j \<longleftrightarrow> bit w j \<and> j \<noteq> k"
  by (auto simp: bit_and_iff bit_not_iff bit_exp_iff dest: bit_imp_le_length)

lemma byte_not_full: "(w :: 8 word) \<noteq> 0xff \<longleftrightarrow> (\<exists>k<8. \<not> bit w k)"
proof -
  have "(0xff :: 8 word) = - 1" by simp
  then have "w = 0xff \<longleftrightarrow> (\<forall>k<8. bit w k)"
    by (auto simp: bit_eq_iff bit_minus_1_iff dest: bit_imp_le_length)
  then show ?thesis by blast
qed

lemma unat_words:
  assumes "unat nbits + 7 < 2 ^ 32"
  shows "unat (bm_words nbits) = (unat nbits + 7) div 8"
proof -
  have "unat (nbits + 8 - 1) = unat nbits + 7"
    using assms by (simp add: unat_word_ariths add.commute [of 7])
  moreover have "unat (8 :: 32 word) = 8" by simp
  ultimately show ?thesis unfolding bm_words_def unat_div by (simp only:)
qed

subsection \<open>Setting and clearing one bit\<close>

definition bm_set :: "kbitmap \<Rightarrow> nat \<Rightarrow> kbitmap" where
  "bm_set b i = b\<lparr>bm_v := (bm_v b)[i div 8 := bm_v b ! (i div 8) OR push_bit (i mod 8) 1]\<rparr>"

definition bm_clear :: "kbitmap \<Rightarrow> nat \<Rightarrow> kbitmap" where
  "bm_clear b i = b\<lparr>bm_v := (bm_v b)[i div 8 := bm_v b ! (i div 8) AND NOT (push_bit (i mod 8) 1)]\<rparr>"

lemma same_bit: "(i :: nat) = j \<longleftrightarrow> i div 8 = j div 8 \<and> i mod 8 = j mod 8"
  by (metis div_mod_decomp)

lemma bm_set_bit:
  "i < 8 * length (bm_v b) \<Longrightarrow> bm_bit (bm_set b i) j \<longleftrightarrow> bm_bit b j \<or> j = i"
  by (auto simp: bm_bit_def bm_set_def nth_list_update byte_bit_set same_bit [of j i])

lemma bm_clear_bit:
  "i < 8 * length (bm_v b) \<Longrightarrow> bm_bit (bm_clear b i) j \<longleftrightarrow> bm_bit b j \<and> j \<noteq> i"
  by (auto simp: bm_bit_def bm_clear_def nth_list_update byte_bit_unset same_bit [of j i])

lemma bm_upd_simps [simp]:
  "bm_nbits (bm_set b i) = bm_nbits b" "length (bm_v (bm_set b i)) = length (bm_v b)"
  "bm_nbits (bm_clear b i) = bm_nbits b" "length (bm_v (bm_clear b i)) = length (bm_v b)"
  by (simp_all add: bm_set_def bm_clear_def)

lemma bm_inv_bits: "bm_inv b \<Longrightarrow> i < unat (bm_nbits b) \<Longrightarrow> i < 8 * length (bm_v b)"
  by (simp add: bm_inv_def)

lemma bm_set_ok:
  assumes "bm_inv b" "i < unat (bm_nbits b)"
  shows "bm_inv (bm_set b i)" "bm_used (bm_set b i) = insert i (bm_used b)"
  using assms bm_inv_bits [OF assms] by (auto simp: bm_inv_def bm_used_def bm_set_bit)

lemma bm_clear_ok:
  assumes "bm_inv b" "i < unat (bm_nbits b)"
  shows "bm_inv (bm_clear b i)" "bm_used (bm_clear b i) = bm_used b - {i}"
  using assms bm_inv_bits [OF assms] by (auto simp: bm_inv_def bm_used_def bm_clear_bit)

subsection \<open>Operations on one bit\<close>

lemma translate_nat:
  "bitmap_translate index = (ix, m) \<Longrightarrow> unat ix = unat index div 8 \<and> m = push_bit (unat index mod 8) 1"
  by (auto simp: bitmap_translate_def unat_div unat_mod)

lemma bm_index:
  assumes "bm_inv b" "index < bm_nbits b"
  shows "unat index < unat (bm_nbits b)" "unat index div 8 < length (bm_v b)"
  using assms by (auto simp: word_less_nat_alt bm_inv_def)

lemma bitmap_mark_result:
  assumes "bm_inv b"
  shows "bitmap_mark b index =
    (if index < bm_nbits b \<and> unat index \<notin> bm_used b then Some (bm_set b (unat index)) else None)"
proof (cases "index < bm_nbits b")
  case True
  note ix = bm_index [OF assms True]
  obtain q m where tr: "bitmap_translate index = (q, m)" by fastforce
  show ?thesis using True ix translate_nat [OF tr]
    by (simp add: bitmap_mark_def tr bm_set_def bm_used_def bm_bit_def byte_bit_clear kassert_def)
qed (simp add: bitmap_mark_def kassert_def)

lemma bitmap_unmark_result:
  assumes "bm_inv b"
  shows "bitmap_unmark b index =
    (if index < bm_nbits b \<and> unat index \<in> bm_used b then Some (bm_clear b (unat index)) else None)"
proof (cases "index < bm_nbits b")
  case True
  note ix = bm_index [OF assms True]
  obtain q m where tr: "bitmap_translate index = (q, m)" by fastforce
  show ?thesis using True ix translate_nat [OF tr]
    by (simp add: bitmap_unmark_def tr bm_clear_def bm_used_def bm_bit_def byte_bit_clear kassert_def)
qed (simp add: bitmap_unmark_def kassert_def)

lemma bitmap_isset_result:
  assumes "bm_inv b" "index < bm_nbits b"
  shows "\<exists>w. bitmap_isset b index = Some w \<and> (w \<noteq> 0 \<longleftrightarrow> unat index \<in> bm_used b)"
proof -
  note ix = bm_index [OF assms]
  obtain q m where tr: "bitmap_translate index = (q, m)" by fastforce
  show ?thesis using ix translate_nat [OF tr]
    by (simp add: bitmap_isset_def tr bm_used_def bm_bit_def byte_bit_clear)
qed

subsection \<open>Allocation\<close>

lemma find_bit:
  assumes "(w :: 8 word) \<noteq> 0xff"
  shows "\<exists>k. find (\<lambda>offset. w AND push_bit offset 1 = 0) [0..<8] = Some k \<and> k < 8 \<and>
    \<not> bit w k \<and> (\<forall>j<k. bit w j)"
proof -
  let ?P = "\<lambda>offset. w AND push_bit offset 1 = 0"
  have "find ?P [0..<8] \<noteq> None"
    using assms by (auto simp: find_None_iff byte_not_full byte_bit_clear)
  then obtain k where k: "find ?P [0..<8] = Some k" by blast
  then have "k < 8 \<and> ?P k \<and> (\<forall>j<k. \<not> ?P j)" by (auto simp: find_Some_iff)
  with k show ?thesis by (auto simp: byte_bit_clear)
qed

lemma unat_of_nat_below: "i < unat (n :: 32 word) \<Longrightarrow> unat (of_nat i :: 32 word) = i"
  using unsigned_less [of n, where ?'a = nat] by (simp add: unat_of_nat)

lemma bitmap_alloc_loop_result:
  assumes "bm_inv b" "ix + n = length (bm_v b)" "\<And>i. i < 8 * ix \<Longrightarrow> bm_bit b i"
  shows "(\<exists>i < unat (bm_nbits b). \<not> bm_bit b i \<and> (\<forall>j<i. bm_bit b j) \<and>
      bitmap_alloc_loop n ix b index = Some (0, of_nat i, bm_set b i)) \<or>
    (\<forall>i < unat (bm_nbits b). bm_bit b i) \<and> bitmap_alloc_loop n ix b index = Some (ENOSPC, index, b)"
  using assms
proof (induction n arbitrary: ix)
  case 0
  then show ?case using bm_inv_bits [OF assms(1)] by auto
next
  case (Suc n)
  let ?w = "bm_v b ! ix"
  have ix: "ix < length (bm_v b)" using Suc.prems(2) by simp
  show ?case
  proof (cases "?w = 0xff")
    case True
    have "bm_bit b i" if "i < 8 * Suc ix" for i
    proof (cases "i < 8 * ix")
      case False
      then have "i div 8 = ix" using that by simp
      then show ?thesis using True byte_not_full [of ?w] by (auto simp: bm_bit_def)
    qed (rule Suc.prems(3))
    then show ?thesis using Suc.IH [of "Suc ix"] Suc.prems(1,2) True ix by simp
  next
    case False
    then obtain k where k: "find (\<lambda>offset. ?w AND push_bit offset 1 = 0) [0..<8] = Some k"
        "k < 8" "\<not> bit ?w k" "\<forall>j<k. bit ?w j"
      using find_bit by blast
    let ?i = "ix * 8 + k"
    have dm: "?i div 8 = ix" "?i mod 8 = k" using k(2) by auto
    then have free: "\<not> bm_bit b ?i" using k(3) by (simp add: bm_bit_def)
    have in_v: "?i < 8 * length (bm_v b)" using ix k(2) by simp
    have lt: "?i < unat (bm_nbits b)"
      using Suc.prems(1) in_v free unfolding bm_inv_def by (metis not_less)
    have below: "bm_bit b j" if "j < ?i" for j
    proof (cases "j < 8 * ix")
      case False
      then have jd: "j div 8 = ix" using that k(2) by simp
      moreover have "j mod 8 < k"
        using that False jd by (simp add: minus_mult_div_eq_mod [symmetric])
      ultimately show ?thesis using k(4) by (simp add: bm_bit_def)
    qed (rule Suc.prems(3))
    have "of_nat ?i < bm_nbits b" 
      unfolding word_less_nat_alt unat_of_nat_below [OF lt] by (rule lt)
    then have "bitmap_alloc_loop (Suc n) ix b index = Some (0, of_nat ?i, bm_set b ?i)"
      using ix False k(1,2) by (simp add: bm_set_def dm Let_def)
    then show ?thesis using lt free below by blast
  qed
qed

lemma bm_used_all: "(\<forall>i < unat (bm_nbits b). bm_bit b i) \<longleftrightarrow> bm_used b = {..<unat (bm_nbits b)}"
  by (auto simp: bm_used_def)

lemma bitmap_alloc_result:
  assumes "bm_inv b"
  shows "(\<exists>i < unat (bm_nbits b). i \<notin> bm_used b \<and> {..<i} \<subseteq> bm_used b \<and>
      bitmap_alloc b index = Some (0, of_nat i, bm_set b i)) \<or>
    bm_used b = {..<unat (bm_nbits b)} \<and> bitmap_alloc b index = Some (ENOSPC, index, b)"
proof -
  have "unat (bm_words (bm_nbits b)) = length (bm_v b)"
    using assms by (simp add: bm_inv_def unat_words)
  then show ?thesis
    using bitmap_alloc_loop_result [OF assms, of 0 "length (bm_v b)" index]
    unfolding bitmap_alloc_def bm_used_all by (auto simp: bm_used_def)
qed

subsection \<open>Creation\<close>

lemma foldl_or_bits:
  "\<forall>j \<in> set js. j < 8 \<Longrightarrow>
    bit (foldl (\<lambda>w j. w OR push_bit j 1) (w :: 8 word) js) i \<longleftrightarrow> bit w i \<or> i \<in> set js"
  by (induction js arbitrary: w) (auto simp: byte_bit_set)

lemma bm_leftover_bit: "bit (bm_leftover w n) i \<longleftrightarrow> bit w i \<or> unat n \<le> i \<and> i < 8"
  unfolding bm_leftover_def by (subst foldl_or_bits) auto

lemma round_up_8:
  fixes n :: nat
  shows "n mod 8 = 0 \<Longrightarrow> (n + 7) div 8 = n div 8" "n mod 8 \<noteq> 0 \<Longrightarrow> (n + 7) div 8 = Suc (n div 8)"
proof -
  show "n mod 8 = 0 \<Longrightarrow> (n + 7) div 8 = n div 8" using div_add1_eq [of n 7 8] by simp
  assume "n mod 8 \<noteq> 0"
  moreover have "n mod 8 < 8" by simp
  ultimately have "(n mod 8 + 7) div 8 = 1" by (intro div_nat_eqI) simp_all
  then show "(n + 7) div 8 = Suc (n div 8)" using div_add1_eq [of n 7 8] by simp
qed

lemma bitmap_create_result:
  assumes "unat nbits + 7 < 2 ^ 32"
  shows "\<exists>b. bitmap_create True True nbits = Some (Ptr b) \<and> bm_inv b \<and> bm_nbits b = nbits \<and> bm_used b = {}"
proof -
  let ?n = "unat nbits" and ?v = "replicate (unat (bm_words nbits)) (0 :: 8 word)"
  have w: "unat (bm_words nbits) = (?n + 7) div 8" using assms by (rule unat_words)
  have d: "unat (nbits div 8) = ?n div 8" by (simp add: unat_div)
  show ?thesis
  proof (cases "?n mod 8 = 0")
    case True
    then have "(?n + 7) div 8 = ?n div 8" by (rule round_up_8)
    then have "\<not> nbits div 8 < bm_words nbits" using w d by (simp add: word_less_nat_alt)
    moreover have "8 * ((?n + 7) div 8) = ?n" using True by (auto simp: round_up_8)
    ultimately show ?thesis
      using assms w by (auto simp: bitmap_create_def bm_inv_def bm_used_def bm_bit_def)
  next
    case False
    define q where "q = ?n div 8"
    have q: "(?n + 7) div 8 = Suc q" unfolding q_def by (rule round_up_8(2) [OF False])
    have ix: "unat (bm_words nbits - 1) = q"
      using w q by (simp add: unat_minus_one word_neq_0_conv [symmetric] unat_gt_0 [symmetric])
    then have ixw: "bm_words nbits - 1 = nbits div 8" using d q_def by (metis word_unat_eq_iff)
    have "(bm_words nbits - 1) * 8 = nbits - nbits mod 8"
      unfolding ixw by (metis add_diff_cancel_right' mult.commute mult_div_mod_eq)
    then have over: "nbits - (bm_words nbits - 1) * 8 = nbits mod 8" by simp
    have un: "unat (nbits mod 8) = ?n mod 8" by (simp add: unat_mod)
    have nz: "0 < nbits mod 8" "nbits mod 8 < 8"
      using False un by (simp_all add: word_less_nat_alt)
    let ?b = "\<lparr>bm_nbits = nbits, bm_v = ?v[q := bm_leftover (?v ! q) (nbits mod 8)]\<rparr>"
    have create: "bitmap_create True True nbits = Some (Ptr ?b)"
      unfolding bitmap_create_def Let_def over ix
      using w d q q_def nz ixw by (simp add: word_less_nat_alt)
    have bits: "bm_bit ?b i \<longleftrightarrow> ?n \<le> i" if "i < 8 * Suc q" for i
    proof (cases "i div 8 = q")
      case True
      then have "i = 8 * q + i mod 8" by (metis mult_div_mod_eq)
      moreover have "?n = 8 * q + ?n mod 8" by (simp add: q_def)
      ultimately have "?n \<le> i \<longleftrightarrow> ?n mod 8 \<le> i mod 8" by linarith
      then show ?thesis using True w q un by (simp add: bm_bit_def bm_leftover_bit del: replicate.simps)
    next
      case False
      then have "i div 8 < q" using that by simp
      then have "i < ?n" unfolding q_def by (metis div_le_mono leI less_le_not_le)
      then show ?thesis using \<open>i div 8 < q\<close> w q by (simp add: bm_bit_def del: replicate.simps)
    qed
    have le: "?n < 8 * Suc q" unfolding q_def by simp
    have "bm_inv ?b" using assms w q bits by (simp add: bm_inv_def del: replicate.simps)
    moreover have "bm_used ?b = {}" using bits le by (force simp: bm_used_def)
    ultimately show ?thesis using create by (intro exI [of _ ?b]) simp
  qed
qed

subsection \<open>The contract of an allocator of numbered units\<close>

text \<open>
  What a client such as the file system's block allocator relies on: \<open>alloc\<close> hands out a
  number below the capacity that is not in use, and only a full allocator refuses; \<open>free\<close>
  takes back a number in use.
\<close>

primrec alloc_many :: "('s \<Rightarrow> (nat \<times> 's) option) \<Rightarrow> nat \<Rightarrow> 's \<Rightarrow> (nat list \<times> 's) option" where
  "alloc_many alloc 0 s = Some ([], s)"
| "alloc_many alloc (Suc n) s = do {
     (i, s1) \<leftarrow> alloc s;
     (is, s2) \<leftarrow> alloc_many alloc n s1;
     Some (i # is, s2)
   }"

locale allocator =
  fixes inv :: "'s \<Rightarrow> bool"
    and cap :: "'s \<Rightarrow> nat"
    and used :: "'s \<Rightarrow> nat set"
    and alloc :: "'s \<Rightarrow> (nat \<times> 's) option"
    and free :: "'s \<Rightarrow> nat \<Rightarrow> 's option"
  assumes used_cap: "inv s \<Longrightarrow> used s \<subseteq> {..<cap s}"
    and alloc_room: "inv s \<Longrightarrow> used s \<noteq> {..<cap s} \<Longrightarrow>
      \<exists>i s'. alloc s = Some (i, s') \<and> i \<notin> used s \<and> inv s' \<and> cap s' = cap s \<and> used s' = insert i (used s)"
    and alloc_full: "inv s \<Longrightarrow> used s = {..<cap s} \<Longrightarrow> alloc s = None"
    and free_used: "inv s \<Longrightarrow> i \<in> used s \<Longrightarrow>
      \<exists>s'. free s i = Some s' \<and> inv s' \<and> cap s' = cap s \<and> used s' = used s - {i}"
    and free_unused: "inv s \<Longrightarrow> i \<notin> used s \<Longrightarrow> free s i = None"
begin

lemma used_finite: "inv s \<Longrightarrow> finite (used s)"
  by (rule finite_subset [OF used_cap finite_lessThan])

lemma alloc_many_ok:
  "inv s \<Longrightarrow> card (used s) + n \<le> cap s \<Longrightarrow>
    \<exists>is s'. alloc_many alloc n s = Some (is, s') \<and> length is = n \<and> distinct is \<and>
      set is \<inter> used s = {} \<and> inv s' \<and> cap s' = cap s \<and> used s' = used s \<union> set is"
proof (induction n arbitrary: s)
  case (Suc n)
  have "card {..<cap s} = cap s" by simp
  then have "used s \<noteq> {..<cap s}" using Suc.prems(2) by fastforce
  from alloc_room [OF Suc.prems(1) this] obtain i s1 where a: "alloc s = Some (i, s1)" "i \<notin> used s" "inv s1" "cap s1 = cap s"
      "used s1 = insert i (used s)"
    by blast
  have "card (used s1) + n \<le> cap s1"
    using Suc.prems(2) a(2,4,5) used_finite [OF Suc.prems(1)] by simp
  from Suc.IH [OF a(3) this] obtain js s2 where
    "alloc_many alloc n s1 = Some (js, s2)" "length js = n" "distinct js"
    "set js \<inter> used s1 = {}" "inv s2" "cap s2 = cap s1" "used s2 = used s1 \<union> set js"
    by blast
  then show ?case using a by (intro exI [of _ "i # js"] exI [of _ s2]) auto
qed simp

lemma alloc_then_free:
  assumes "inv s" "alloc s = Some (i, s1)"
  shows "\<exists>s2. free s1 i = Some s2 \<and> inv s2 \<and> used s2 = used s"
proof -
  have "used s \<noteq> {..<cap s}" using assms alloc_full by force
  then have "i \<notin> used s \<and> inv s1 \<and> used s1 = insert i (used s)"
    using alloc_room [OF assms(1)] assms(2) by fastforce
  then show ?thesis using free_used [of s1 i] by auto
qed

end

text \<open>The bitmap as such an allocator: \<open>bitmap_alloc\<close> and \<open>bitmap_unmark\<close>.\<close>

definition bm_take :: "kbitmap \<Rightarrow> (nat \<times> kbitmap) option" where
  "bm_take b = (case bitmap_alloc b 0 of Some (e, i, b') \<Rightarrow> if e = 0 then Some (unat i, b') else None | None \<Rightarrow> None)"

definition bm_cap :: "kbitmap \<Rightarrow> nat" where
  "bm_cap b = unat (bm_nbits b)"

definition bm_give :: "kbitmap \<Rightarrow> nat \<Rightarrow> kbitmap option" where
  "bm_give b i = (if i < 2 ^ 32 then bitmap_unmark b (of_nat i) else None)"

lemma bm_take_cases:
  assumes "bm_inv b"
  shows "(\<exists>i < unat (bm_nbits b). i \<notin> bm_used b \<and> bm_take b = Some (i, bm_set b i)) \<or>
    bm_used b = {..<unat (bm_nbits b)} \<and> bm_take b = None"
  using bitmap_alloc_result [OF assms, of 0] by (auto simp: bm_take_def unat_of_nat_below)

lemma bm_give_result:
  assumes "bm_inv b"
  shows "bm_give b i = (if i \<in> bm_used b then Some (bm_clear b i) else None)"
proof (cases "i < 2 ^ 32")
  case True
  then have "unat (of_nat i :: 32 word) = i" by (simp add: unat_of_nat)
  then show ?thesis
    using True assms by (auto simp: bm_give_def bitmap_unmark_result word_less_nat_alt bm_used_def)
next
  case False
  then have "i \<notin> bm_used b" using unsigned_less [of "bm_nbits b", where ?'a = nat] by (auto simp: bm_used_def)
  then show ?thesis using False by (simp add: bm_give_def)
qed

interpretation bm: allocator bm_inv bm_cap bm_used bm_take bm_give
proof unfold_locales
  fix s assume s: "bm_inv s" "bm_used s \<noteq> {..<bm_cap s}"
  then show "\<exists>i s'. bm_take s = Some (i, s') \<and> i \<notin> bm_used s \<and> bm_inv s' \<and> bm_cap s' = bm_cap s \<and>
      bm_used s' = insert i (bm_used s)"
    using bm_take_cases [OF s(1)] bm_set_ok [OF s(1)] by (auto simp: bm_cap_def)
next
  fix s assume s: "bm_inv s" "bm_used s = {..<bm_cap s}"
  then show "bm_take s = None" using bm_take_cases [OF s(1)] by (auto simp: bm_cap_def)
next
  fix s i assume s: "bm_inv s" "i \<in> bm_used s"
  then show "\<exists>s'. bm_give s i = Some s' \<and> bm_inv s' \<and> bm_cap s' = bm_cap s \<and> bm_used s' = bm_used s - {i}"
    using bm_clear_ok [OF s(1), of i] by (auto simp: bm_give_result bm_cap_def bm_used_def)
qed (auto simp: bm_used_def bm_cap_def bm_give_result)

subsection \<open>Properties\<close>

text \<open>
  C26: on a well-formed bitmap \<open>bitmap_alloc\<close> never fails an assertion. It marks the least
  clear bit, stores its number and returns 0; when every bit is in use it returns \<open>ENOSPC\<close>
  and changes neither the map nor the caller's index.
\<close>

theorem bitmap_alloc_least_free:
  assumes "bm_inv b"
  shows "\<exists>e i b'. bitmap_alloc b index = Some (e, i, b') \<and> bm_inv b' \<and>
    (if bm_used b = {..<unat (bm_nbits b)} then e = ENOSPC \<and> i = index \<and> b' = b
     else e = 0 \<and> i < bm_nbits b \<and> unat i \<notin> bm_used b \<and> {..<unat i} \<subseteq> bm_used b \<and>
       bm_used b' = insert (unat i) (bm_used b))"
proof (cases "bm_used b = {..<unat (bm_nbits b)}")
  case True
  then have "bitmap_alloc b index = Some (ENOSPC, index, b)"
    using bitmap_alloc_result [OF assms, of index] by auto
  with True assms show ?thesis by simp
next
  case False
  then obtain i where i: "i < unat (bm_nbits b)" "i \<notin> bm_used b" "{..<i} \<subseteq> bm_used b"
      "bitmap_alloc b index = Some (0, of_nat i, bm_set b i)"
    using bitmap_alloc_result [OF assms, of index] by blast
  have "unat (of_nat i :: 32 word) = i" using i(1) by (rule unat_of_nat_below)
  with False i bm_set_ok [OF assms i(1)] show ?thesis by (simp add: word_less_nat_alt)
qed

theorem bitmap_alloc_least_free_witness:
  "bm_inv \<lparr>bm_nbits = 3, bm_v = [0xf9]\<rparr> \<and>
   (\<exists>e i b'. bitmap_alloc \<lparr>bm_nbits = 3, bm_v = [0xf9]\<rparr> 0 = Some (e, i, b') \<and> bm_inv b')"
proof -
  have bits: "bit (249 :: 8 word) k" if "3 \<le> k" "k < 8" for k
  proof -
    have "k = 3 \<or> k = 4 \<or> k = 5 \<or> k = 6 \<or> k = 7" using that by linarith
    then show ?thesis by (elim disjE) simp_all
  qed
  then have "bm_inv \<lparr>bm_nbits = 3, bm_v = [0xf9]\<rparr>"
    by (auto simp: bm_inv_def bm_bit_def)
  then show ?thesis using bitmap_alloc_least_free [of "\<lparr>bm_nbits = 3, bm_v = [0xf9]\<rparr>" 0] by blast
qed

text \<open>
  a bitmap of \<open>nbits\<close> bits (small enough for \<open>DIVROUNDUP\<close> not to wrap around) is created
  without a failed assertion, with every bit clear and the left-over bits of the last byte
  marked, so that \<open>nbits\<close> calls of \<open>bitmap_alloc\<close> hand out pairwise different numbers.
\<close>

lemma bitmap_create_allocates:
  assumes "unat nbits + 7 < 2 ^ 32"
  shows "\<exists>b. bitmap_create True True nbits = Some (Ptr b) \<and> bm_inv b \<and> bm_used b = {} \<and>
    (\<exists>is b'. alloc_many bm_take (unat nbits) b = Some (is, b') \<and> distinct is \<and>
       length is = unat nbits \<and> set is = bm_used b' \<and> bm_used b' \<subseteq> {..<unat nbits})"
proof -
  obtain b where b: "bitmap_create True True nbits = Some (Ptr b)" "bm_inv b" "bm_nbits b = nbits"
      "bm_used b = {}"
    using bitmap_create_result [OF assms] by blast
  then have "card (bm_used b) + unat nbits \<le> bm_cap b" by (simp add: bm_cap_def)
  from bm.alloc_many_ok [OF b(2) this] obtain js b' where
    m: "alloc_many bm_take (unat nbits) b = Some (js, b')" "distinct js" "length js = unat nbits"
      "bm_inv b'" "bm_cap b' = bm_cap b" "bm_used b' = bm_used b \<union> set js" by blast
  then have "bm_used b' \<subseteq> {..<unat nbits}" using bm.used_cap [of b'] b(3) by (simp add: bm_cap_def)
  with b m show ?thesis by auto
qed

lemma bitmap_create_allocates_witness:
  "\<exists>b. bitmap_create True True 13 = Some (Ptr b) \<and> bm_inv b \<and> bm_used b = {}"
  using bitmap_create_allocates [of 13] by auto

text \<open>
  \<open>bitmap_unmark\<close> undoes \<open>bitmap_mark\<close>: a clear bit can be marked, is then reported set,
  and unmarking it gives back the very same bitmap.
\<close>

lemma bitmap_mark_unmark:
  assumes "bm_inv b" "index < bm_nbits b" "unat index \<notin> bm_used b"
  shows "\<exists>b1 w. bitmap_mark b index = Some b1 \<and> bitmap_isset b1 index = Some w \<and> w \<noteq> 0 \<and>
    bitmap_unmark b1 index = Some b"
proof -
  let ?i = "unat index"
  let ?b1 = "bm_set b ?i"
  have lt: "?i < unat (bm_nbits b)" using assms(2) by (simp add: word_less_nat_alt)
  have b1: "bm_inv ?b1" "bm_used ?b1 = insert ?i (bm_used b)" by (rule bm_set_ok [OF assms(1) lt])+
  have "bm_clear ?b1 ?i = b"
  proof -
    let ?w = "bm_v b ! (?i div 8)"
    have nb: "\<not> bit ?w (?i mod 8)" using assms(3) lt by (simp add: bm_used_def bm_bit_def)
    have "(?w OR 2 ^ (?i mod 8)) AND NOT (2 ^ (?i mod 8)) = ?w"
      by (rule bit_eqI) (use nb in \<open>auto simp: byte_bit_unset byte_bit_set\<close>)
    then show ?thesis
      using bm_index [OF assms(1,2)] by (cases b) (simp add: bm_set_def bm_clear_def list_update_same_conv)
  qed
  then show ?thesis
    using assms b1 bitmap_isset_result [OF b1(1), of index]
    by (simp add: bitmap_mark_result bitmap_unmark_result)
qed

lemma bitmap_mark_unmark_witness:
  "\<exists>b. bm_inv b \<and> bm_nbits b = 13 \<and>
    (\<exists>b1 w. bitmap_mark b 5 = Some b1 \<and> bitmap_isset b1 5 = Some w \<and> w \<noteq> 0 \<and> bitmap_unmark b1 5 = Some b)"
proof -
  obtain b where b: "bm_inv b" "bm_nbits b = 13" "bm_used b = {}"
    using bitmap_create_result [of 13] by auto
  then show ?thesis using bitmap_mark_unmark [of b 5] by auto
qed

end
