(* ===== verification/K_Machine.thy ===== *)
theory K_Machine
  imports K_Array K_Queue
begin

section \<open>Kernel state, interrupt level and machine-dependent thread state\<close>

text \<open>
  The state the thread system, the scheduler and the synchronisation primitives share, and the
  operations on it that belong to the machine: \<^verbatim>\<open>arch/mips/mips/spl.c\<close> and
  \<^verbatim>\<open>arch/mips/mips/pcb.c\<close>.

  Objects from the kernel heap (threads, semaphores, locks, condition variables) live in
  partial maps from addresses to their contents; address 0 is NULL, and \<open>kfree\<close> removes the
  entry, so a use of freed memory is an undefined run. Address spaces and vnodes belong to
  other components; the field \<open>world\<close> holds their state and the record \<open>kops\<close> the operations
  of theirs that the thread system calls.
\<close>

type_synonym addr = nat

record pcb =
  pcb_switchstack :: "32 word"
  pcb_kstack :: "32 word"
  pcb_ininterrupt :: int
  pcb_badfaultfunc :: "32 word"

record switchframe =
  sf_s0 :: "32 word"
  sf_s1 :: "32 word"
  sf_s2 :: "32 word"
  sf_rest :: "32 word list"
  sf_ra :: "32 word"

record thread =
  t_pcb :: pcb
  t_name :: string
  t_sleepaddr :: addr
  t_stack :: "8 word list nullable"
  t_vmspace :: addr
  t_cwd :: addr
  t_pid :: int

record process =
  proc_me :: addr
  parent_pid :: int
  exited :: int
  exitcode :: int
  exit_sem :: addr

record semaphore =
  sem_name :: string
  sem_count :: int

record klock =
  lock_name :: string
  lock_holder :: addr

datatype threadstate = S_RUN | S_READY | S_SLEEP | S_ZOMB

definition MAXTHREADS :: nat where "MAXTHREADS = 200"

definition SPL_HIGH :: int where "SPL_HIGH = 15"

definition STACK_SIZE :: nat where "STACK_SIZE = 4096"

record 'm kstate =
  threads :: "addr \<rightharpoonup> thread"
  sems :: "addr \<rightharpoonup> semaphore"
  locks :: "addr \<rightharpoonup> klock"
  cvs :: "addr \<rightharpoonup> string"
  frames :: "32 word \<rightharpoonup> switchframe"
  curthread :: addr
  p_table :: "process nullable list"
  process_lock :: addr
  sleepers :: "addr karray nullable"
  zombies :: "addr karray nullable"
  runqueue :: "addr kqueue nullable"
  numthreads :: int
  curspl :: int
  ie_c :: bool
  in_interrupt :: int
  curkstack :: "32 word"
  lbolt_counter :: int
  world :: 'm

text \<open>
  What the thread system calls in other components: activating and destroying an address
  space, the reference count of the current directory's vnode, and the interrupts that are
  served while the processor is idle.
\<close>

record 'm kops =
  op_as_activate :: "addr \<Rightarrow> 'm \<Rightarrow> 'm option"
  op_as_destroy :: "addr \<Rightarrow> 'm \<Rightarrow> 'm option"
  op_incref :: "addr \<Rightarrow> 'm \<Rightarrow> 'm option"
  op_decref :: "addr \<Rightarrow> 'm \<Rightarrow> 'm option"
  op_idle :: "'m kstate \<Rightarrow> 'm kstate option"

subsection \<open>Interrupt level\<close>

text \<open>\<open>ie_c\<close> is bit \<open>CST_IEc\<close> of the status register.\<close>

definition interrupts_on :: "'m kstate \<Rightarrow> 'm kstate" where
  "interrupts_on s = s\<lparr>ie_c := True\<rparr>"

definition interrupts_off :: "'m kstate \<Rightarrow> 'm kstate" where
  "interrupts_off s = s\<lparr>ie_c := False\<rparr>"

definition splx :: "int \<Rightarrow> 'm kstate \<Rightarrow> int \<times> 'm kstate" where
  "splx newspl s = (
     let s1 = (if newspl > 0 then interrupts_off s else if newspl = 0 then interrupts_on s else s)
     in (curspl s, s1\<lparr>curspl := newspl\<rparr>))"

definition splhigh :: "'m kstate \<Rightarrow> int \<times> 'm kstate" where
  "splhigh s = splx SPL_HIGH s"

definition spl0 :: "'m kstate \<Rightarrow> int \<times> 'm kstate" where
  "spl0 s = splx 0 s"

text \<open>
  \<open>cpu_idle\<close> opens the interrupt window once; the parameter \<open>op_idle\<close> is the effect of the
  interrupt handlers that run in it.
\<close>

definition cpu_idle :: "'m kops \<Rightarrow> 'm kstate \<Rightarrow> 'm kstate option" where
  "cpu_idle ops s = do {
     kassert (curspl s > 0);
     s1 \<leftarrow> op_idle ops (interrupts_on s);
     Some (interrupts_off s1)
   }"

subsection \<open>Process control blocks\<close>

definition md_initpcb0 :: "'m kstate \<Rightarrow> pcb" where
  "md_initpcb0 s = \<lparr>pcb_switchstack = 0, pcb_kstack = curkstack s, pcb_ininterrupt = 0, pcb_badfaultfunc = 0\<rparr>"

text \<open>
  A switchframe has eleven words. \<open>stack\<close> is the address of the new stack, \<open>start\<close> that of
  \<open>mips_threadstart\<close>.
\<close>

definition md_initpcb :: "32 word \<Rightarrow> 32 word \<Rightarrow> 32 word \<Rightarrow> 32 word \<Rightarrow> 32 word \<Rightarrow> 'm kstate \<Rightarrow> pcb \<times> 'm kstate" where
  "md_initpcb start stack data1 data2 func s = (
     let stacktop = stack + of_nat STACK_SIZE;
         sf = stacktop - 44;
         frame = \<lparr>sf_s0 = data1, sf_s1 = data2, sf_s2 = func, sf_rest = replicate 7 0, sf_ra = start\<rparr>
     in (\<lparr>pcb_switchstack = sf, pcb_kstack = stacktop, pcb_ininterrupt = 0, pcb_badfaultfunc = 0\<rparr>,
         s\<lparr>frames := (frames s)(sf \<mapsto> frame)\<rparr>))"

text \<open>
  \<open>md_switch\<close> up to the jump into the other thread; \<open>mips_switch\<close> is the jump itself.
\<close>

definition md_switch :: "addr \<Rightarrow> addr \<Rightarrow> 'm kstate \<Rightarrow> 'm kstate option" where
  "md_switch old nu s = (
     if old = nu then Some s
     else do {
       old_t \<leftarrow> threads s old;
       nu_t \<leftarrow> threads s nu;
       let saved = old_t\<lparr>t_pcb := (t_pcb old_t)\<lparr>pcb_kstack := curkstack s, pcb_ininterrupt := in_interrupt s\<rparr>\<rparr>;
       Some (s\<lparr>threads := (threads s)(old \<mapsto> saved),
               curkstack := pcb_kstack (t_pcb nu_t), in_interrupt := pcb_ininterrupt (t_pcb nu_t)\<rparr>)
     })"

subsection \<open>Creating semaphores, locks and condition variables\<close>

text \<open>
  The allocations are arguments: the address of the block, 0 when \<open>kmalloc\<close> fails, and
  whether \<open>kstrdup\<close> of the name succeeds.
\<close>

definition sem_create :: "addr \<Rightarrow> bool \<Rightarrow> string \<Rightarrow> int \<Rightarrow> 'm kstate \<Rightarrow> (addr \<times> 'm kstate) option" where
  "sem_create a name_ok namearg initial_count s = do {
     kassert (initial_count \<ge> 0);
     if a = 0 then Some (0, s)
     else if \<not> name_ok then Some (0, s)
     else Some (a, s\<lparr>sems := (sems s)(a \<mapsto> \<lparr>sem_name = namearg, sem_count = initial_count\<rparr>)\<rparr>)
   }"

definition lock_create :: "addr \<Rightarrow> bool \<Rightarrow> string \<Rightarrow> 'm kstate \<Rightarrow> addr \<times> 'm kstate" where
  "lock_create a name_ok name s =
     (if a = 0 then (0, s)
      else if \<not> name_ok then (0, s)
      else (a, s\<lparr>locks := (locks s)(a \<mapsto> \<lparr>lock_name = name, lock_holder = 0\<rparr>)\<rparr>))"

definition cv_create :: "addr \<Rightarrow> bool \<Rightarrow> string \<Rightarrow> 'm kstate \<Rightarrow> addr \<times> 'm kstate" where
  "cv_create a name_ok name s =
     (if a = 0 then (0, s)
      else if \<not> name_ok then (0, s)
      else (a, s\<lparr>cvs := (cvs s)(a \<mapsto> name)\<rparr>))"

subsection \<open>Lemmas\<close>

text \<open>Fields of the state a change of the interrupt level leaves alone.\<close>

lemma spl_simps [simp]:
  "fst (splx n s) = curspl s" "curspl (snd (splx n s)) = n" "threads (snd (splx n s)) = threads s"
  "sems (snd (splx n s)) = sems s" "locks (snd (splx n s)) = locks s" "cvs (snd (splx n s)) = cvs s"
  "curthread (snd (splx n s)) = curthread s" "p_table (snd (splx n s)) = p_table s"
  "sleepers (snd (splx n s)) = sleepers s" "zombies (snd (splx n s)) = zombies s"
  "runqueue (snd (splx n s)) = runqueue s" "numthreads (snd (splx n s)) = numthreads s"
  "in_interrupt (snd (splx n s)) = in_interrupt s" "world (snd (splx n s)) = world s"
  "process_lock (snd (splx n s)) = process_lock s" "curkstack (snd (splx n s)) = curkstack s"
  "lbolt_counter (snd (splx n s)) = lbolt_counter s" "frames (snd (splx n s)) = frames s"
  by (simp_all add: splx_def interrupts_on_def interrupts_off_def Let_def)

lemma splhigh_splx [simp]: "splhigh s = splx SPL_HIGH s"
  by (simp add: splhigh_def)

lemma SPL_HIGH_pos [simp]: "0 < SPL_HIGH"
  by (simp add: SPL_HIGH_def)

text \<open>A kernel that has not started its first thread, at which witnesses of other components run.\<close>

definition quiet :: "'m \<Rightarrow> 'm kstate" where
  "quiet w = \<lparr>threads = Map.empty, sems = Map.empty, locks = Map.empty, cvs = Map.empty, frames = Map.empty,
     curthread = 0, p_table = [], process_lock = 0, sleepers = NULL, zombies = NULL, runqueue = NULL,
     numthreads = 0, curspl = 0, ie_c = True, in_interrupt = 0, curkstack = 0, lbolt_counter = 0, world = w\<rparr>"

end
