(* ===== verification/K_Thread.thy ===== *)
theory K_Thread
  imports K_Machine
begin

section \<open>Scheduler and threads: \<^verbatim>\<open>kern/thread/scheduler.c\<close>, \<^verbatim>\<open>kern/thread/thread.c\<close>\<close>

text \<open>
  The run queue, the table of sleeping threads, the list of zombies and the process table.

  A context switch splits a function of the code in two. The part up to \<open>md_switch\<close> runs in
  the thread that gives up the processor (names ending in \<open>_out\<close>); the part after it runs when
  the thread is chosen again (names ending in \<open>_in\<close>). The local variables that live across
  the switch, such as the saved interrupt level, are arguments of the second part.
\<close>

text \<open>
  What \<open>kmalloc\<close> and \<open>kstrdup\<close> answer at the call sites of \<open>thread_create\<close> and
  \<open>thread_fork\<close>. \<open>ma_block\<close> is the uninitialised contents of the thread's block, \<open>ma_junk\<close> what
  follows the single character that \<open>thread_create\<close> passes as the name of the semaphore.
\<close>

record mallocs =
  ma_process :: bool
  ma_thread :: addr
  ma_block :: thread
  ma_name :: bool
  ma_sem :: addr
  ma_semname :: bool
  ma_junk :: string
  ma_stack :: "8 word list nullable"
  ma_stackaddr :: "32 word"
  ma_cells :: "nat \<Rightarrow> addr list nullable"

text \<open>Operations on the arrays and the queue behind the global pointers.\<close>

definition on_sleepers :: "(addr karray \<Rightarrow> ('r \<times> addr karray) option) \<Rightarrow> 'm kstate \<Rightarrow> ('r \<times> 'm kstate) option" where
  "on_sleepers f s = (case sleepers s of NULL \<Rightarrow> None
     | Ptr a \<Rightarrow> do { (r, a1) \<leftarrow> f a; Some (r, s\<lparr>sleepers := Ptr a1\<rparr>) })"

definition on_zombies :: "(addr karray \<Rightarrow> ('r \<times> addr karray) option) \<Rightarrow> 'm kstate \<Rightarrow> ('r \<times> 'm kstate) option" where
  "on_zombies f s = (case zombies s of NULL \<Rightarrow> None
     | Ptr a \<Rightarrow> do { (r, a1) \<leftarrow> f a; Some (r, s\<lparr>zombies := Ptr a1\<rparr>) })"

definition on_runqueue :: "(addr kqueue \<Rightarrow> ('r \<times> addr kqueue) option) \<Rightarrow> 'm kstate \<Rightarrow> ('r \<times> 'm kstate) option" where
  "on_runqueue f s = (case runqueue s of NULL \<Rightarrow> None
     | Ptr q \<Rightarrow> do { (r, q1) \<leftarrow> f q; Some (r, s\<lparr>runqueue := Ptr q1\<rparr>) })"

subsection \<open>Scheduler\<close>

definition scheduler_bootstrap :: "bool \<Rightarrow> (nat \<Rightarrow> addr list nullable) \<Rightarrow> 'm kstate \<Rightarrow> 'm kstate option" where
  "scheduler_bootstrap ok km s = (case q_create ok km 32 of
       NULL \<Rightarrow> None
     | Ptr q \<Rightarrow> Some (s\<lparr>runqueue := Ptr q\<rparr>))"

definition scheduler_preallocate :: "(nat \<Rightarrow> addr list nullable) \<Rightarrow> int \<Rightarrow> 'm kstate \<Rightarrow> (int \<times> 'm kstate) option" where
  "scheduler_preallocate km nthreads s = do {
     kassert (curspl s > 0);
     on_runqueue (\<lambda>q. q_preallocate km q nthreads) s
   }"

text \<open>The loop of \<open>scheduler_killall\<close>, which prints the name of every thread it drops.\<close>

partial_function (option) drop_all :: "(addr \<rightharpoonup> thread) \<Rightarrow> addr kqueue \<Rightarrow> (string list \<times> addr kqueue) option" where
  "drop_all thr q = (if q_empty q then Some ([], q)
     else Option.bind (q_remhead q) (\<lambda>(t, q1).
       Option.bind (thr t) (\<lambda>thread.
         Option.bind (drop_all thr q1) (\<lambda>(names, q2). Some (t_name thread # names, q2)))))"

definition scheduler_killall :: "'m kstate \<Rightarrow> (string list \<times> 'm kstate) option" where
  "scheduler_killall s = do {
     kassert (curspl s > 0);
     on_runqueue (drop_all (threads s)) s
   }"

definition scheduler_shutdown :: "'m kstate \<Rightarrow> 'm kstate option" where
  "scheduler_shutdown s = do {
     (dropped, s1) \<leftarrow> scheduler_killall s;
     kassert (curspl s1 > 0);
     (case runqueue s1 of NULL \<Rightarrow> None
      | Ptr q \<Rightarrow> do { freed \<leftarrow> q_destroy q; Some (s1\<lparr>runqueue := NULL\<rparr>) })
   }"

text \<open>The loop \<open>while (q_empty(runqueue)) cpu_idle();\<close>.\<close>

partial_function (option) sched_wait :: "'m kops \<Rightarrow> 'm kstate \<Rightarrow> 'm kstate option" where
  "sched_wait ops s = (case runqueue s of NULL \<Rightarrow> None
     | Ptr q \<Rightarrow> if q_empty q then Option.bind (cpu_idle ops s) (\<lambda>s1. sched_wait ops s1) else Some s)"

definition scheduler :: "'m kops \<Rightarrow> 'm kstate \<Rightarrow> (addr \<times> 'm kstate) option" where
  "scheduler ops s = do {
     kassert (curspl s > 0);
     s1 \<leftarrow> sched_wait ops s;
     on_runqueue q_remhead s1
   }"

definition make_runnable :: "(nat \<Rightarrow> addr list nullable) \<Rightarrow> addr \<Rightarrow> 'm kstate \<Rightarrow> (int \<times> 'm kstate) option" where
  "make_runnable km t s = do {
     kassert (curspl s > 0);
     on_runqueue (\<lambda>q. q_addtail km q t) s
   }"

subsection \<open>Creating and destroying threads\<close>

definition thread_create :: "mallocs \<Rightarrow> string \<Rightarrow> 'm kstate \<Rightarrow> (addr \<times> 'm kstate) option" where
  "thread_create ma name s = (
     case find (\<lambda>i. p_table s ! i = NULL) [1..<MAXTHREADS] of
       None \<Rightarrow> Some (0, s)
     | Some i \<Rightarrow>
         if \<not> ma_process ma then Some (0, s)
         else if ma_thread ma = 0 then Some (0, s)
         else if \<not> ma_name ma then Some (0, s)
         else do {
           let thread = (ma_block ma)\<lparr>t_name := name, t_sleepaddr := 0, t_stack := NULL,
             t_vmspace := 0, t_cwd := 0, t_pid := int i\<rparr>;
           ppid \<leftarrow> (if curthread s \<noteq> 0 then map_option t_pid (threads s (curthread s)) else Some (-1));
           (sem, s1) \<leftarrow> sem_create (ma_sem ma) (ma_semname ma) (char_of i # ma_junk ma) 0 s;
           pt \<leftarrow> wr (p_table s1) i
             (Ptr \<lparr>proc_me = ma_thread ma, parent_pid = ppid, exited = 0, exitcode = -1, exit_sem = sem\<rparr>);
           Some (ma_thread ma, s1\<lparr>threads := (threads s1)(ma_thread ma \<mapsto> thread), p_table := pt\<rparr>)
         })"

definition thread_destroy :: "addr \<Rightarrow> 'm kstate \<Rightarrow> 'm kstate option" where
  "thread_destroy t s = do {
     kassert (t \<noteq> curthread s);
     thread \<leftarrow> threads s t;
     kassert (t_vmspace thread = 0);
     kassert (t_cwd thread = 0);
     Some (s\<lparr>threads := (threads s)(t := None)\<rparr>)
   }"

text \<open>The loop over the zombies: \<open>n\<close> entries are left, the next one is \<open>i\<close>.\<close>

primrec exorcise_loop :: "nat \<Rightarrow> int \<Rightarrow> addr karray \<Rightarrow> 'm kstate \<Rightarrow> 'm kstate option" where
  "exorcise_loop 0 i a s = Some s"
| "exorcise_loop (Suc n) i a s = do {
     z \<leftarrow> array_getguy a i;
     kassert (z \<noteq> curthread s);
     s1 \<leftarrow> thread_destroy z s;
     exorcise_loop n (i + 1) a s1
   }"

definition exorcise :: "(nat \<Rightarrow> addr list nullable) \<Rightarrow> 'm kstate \<Rightarrow> 'm kstate option" where
  "exorcise km s = do {
     kassert (curspl s > 0);
     s1 \<leftarrow> (case zombies s of NULL \<Rightarrow> None | Ptr a \<Rightarrow> exorcise_loop (nat (array_getnum a)) 0 a s);
     (result, s2) \<leftarrow> on_zombies (\<lambda>a. array_setsize km a 0) s1;
     kassert (result = 0);
     Some s2
   }"

text \<open>\<open>thread_killall\<close> prints the names of the sleepers and forgets them.\<close>

primrec killall_loop :: "nat \<Rightarrow> int \<Rightarrow> addr karray \<Rightarrow> 'm kstate \<Rightarrow> string list option" where
  "killall_loop 0 i a s = Some []"
| "killall_loop (Suc n) i a s = do {
     t \<leftarrow> array_getguy a i;
     thread \<leftarrow> threads s t;
     names \<leftarrow> killall_loop n (i + 1) a s;
     Some (t_name thread # names)
   }"

definition thread_killall :: "(nat \<Rightarrow> addr list nullable) \<Rightarrow> 'm kstate \<Rightarrow> (string list \<times> 'm kstate) option" where
  "thread_killall km s = do {
     kassert (curspl s > 0);
     names \<leftarrow> (case sleepers s of NULL \<Rightarrow> None | Ptr a \<Rightarrow> killall_loop (nat (array_getnum a)) 0 a s);
     (result, s1) \<leftarrow> on_sleepers (\<lambda>a. array_setsize km a 0) s;
     kassert (result = 0);
     Some (names, s1)
   }"

definition thread_panic :: "(nat \<Rightarrow> addr list nullable) \<Rightarrow> 'm kstate \<Rightarrow> (string list \<times> 'm kstate) option" where
  "thread_panic km s = do {
     kassert (curspl s > 0);
     (slept, s1) \<leftarrow> thread_killall km s;
     (ready, s2) \<leftarrow> scheduler_killall s1;
     Some (slept @ ready, s2)
   }"

definition thread_bootstrap :: "bool \<Rightarrow> bool \<Rightarrow> mallocs \<Rightarrow> addr \<Rightarrow> bool \<Rightarrow> 'm kstate \<Rightarrow> (addr \<times> 'm kstate) option" where
  "thread_bootstrap ok_sleepers ok_zombies ma lock_addr lock_name_ok s = do {
     let s1 = s\<lparr>p_table := replicate MAXTHREADS NULL, sleepers := array_create ok_sleepers\<rparr>;
     kassert (sleepers s1 \<noteq> NULL);
     let s2 = s1\<lparr>zombies := array_create ok_zombies\<rparr>;
     kassert (zombies s2 \<noteq> NULL);
     (me, s3) \<leftarrow> thread_create ma ''<boot/menu>'' s2;
     kassert (me \<noteq> 0);
     t \<leftarrow> threads s3 me;
     let s4 = s3\<lparr>threads := (threads s3)(me \<mapsto> t\<lparr>t_pcb := md_initpcb0 s3\<rparr>), curthread := me, numthreads := 1\<rparr>;
     let (lk, s5) = lock_create lock_addr lock_name_ok ''process_lock'' s4;
     Some (me, s5\<lparr>process_lock := lk\<rparr>)
   }"

definition thread_shutdown :: "'m kstate \<Rightarrow> 'm kstate option" where
  "thread_shutdown s = do {
     kassert (sleepers s \<noteq> NULL);
     let s1 = s\<lparr>sleepers := NULL\<rparr>;
     kassert (zombies s1 \<noteq> NULL);
     Some (s1\<lparr>zombies := NULL\<rparr>)
   }"

subsection \<open>\<open>thread_fork\<close>\<close>

definition stack_magic :: "8 word list \<Rightarrow> 8 word list option" where
  "stack_magic stk = do {
     s0 \<leftarrow> wr stk 0 0xae; s1 \<leftarrow> wr s0 1 0x11; s2 \<leftarrow> wr s1 2 0xda; wr s2 3 0x33
   }"

text \<open>
  The part of \<open>thread_fork\<close> with interrupts off up to the label \<open>fail\<close>: the three
  preallocations and \<open>make_runnable\<close>.
\<close>

definition fork_atomic :: "(nat \<Rightarrow> addr list nullable) \<Rightarrow> addr \<Rightarrow> 'm kstate \<Rightarrow> (int \<times> 'm kstate) option" where
  "fork_atomic km newguy s = do {
     n \<leftarrow> cint (numthreads s + 1);
     (result, s1) \<leftarrow> on_sleepers (\<lambda>a. array_preallocate km a n) s;
     if result \<noteq> 0 then Some (result, s1) else do {
     (result, s2) \<leftarrow> on_zombies (\<lambda>a. array_preallocate km a n) s1;
     if result \<noteq> 0 then Some (result, s2) else do {
     (result, s3) \<leftarrow> scheduler_preallocate km n s2;
     if result \<noteq> 0 then Some (result, s3) else do {
     (result, s4) \<leftarrow> make_runnable km newguy s3;
     if result \<noteq> 0 then Some (result, s4) else Some (0, s4\<lparr>numthreads := n\<rparr>)
     }}}
   }"

text \<open>The result is the error number and the new thread (NULL when there is none).\<close>

definition thread_fork :: "'m kops \<Rightarrow> mallocs \<Rightarrow> 32 word \<Rightarrow> string \<Rightarrow> 32 word \<Rightarrow> 32 word \<Rightarrow> 32 word \<Rightarrow> 'm kstate
    \<Rightarrow> (int \<times> addr \<times> 'm kstate) option" where
  "thread_fork ops ma start name data1 data2 func s = do {
     (newguy, s1) \<leftarrow> thread_create ma name s;
     if newguy = 0 then Some (ENOMEM, 0, s1)
     else (case ma_stack ma of
       NULL \<Rightarrow> Some (ENOMEM, 0, s1\<lparr>threads := (threads s1)(newguy := None)\<rparr>)
     | Ptr stk \<Rightarrow> do {
         stk1 \<leftarrow> stack_magic stk;
         t \<leftarrow> threads s1 newguy;
         cur \<leftarrow> threads s1 (curthread s1);
         w \<leftarrow> (if t_cwd cur \<noteq> 0 then op_incref ops (t_cwd cur) (world s1) else Some (world s1));
         let (pcb, s2) = md_initpcb start (ma_stackaddr ma) data1 data2 func s1;
         let t1 = t\<lparr>t_stack := Ptr stk1, t_cwd := t_cwd cur, t_pcb := pcb\<rparr>;
         let s3 = s2\<lparr>threads := (threads s2)(newguy \<mapsto> t1), world := w\<rparr>;
         let (spl, s4) = splhigh s3;
         (result, s5) \<leftarrow> fork_atomic (ma_cells ma) newguy s4;
         let s6 = snd (splx spl s5);
         if result = 0 then Some (0, newguy, s6)
         else do {
           w1 \<leftarrow> (if t_cwd t1 \<noteq> 0 then op_decref ops (t_cwd t1) (world s6) else Some (world s6));
           Some (result, 0, s6\<lparr>threads := (threads s6)(newguy := None), world := w1\<rparr>)
         }
       })
   }"

subsection \<open>Context switch\<close>

definition stack_check :: "thread \<Rightarrow> unit option" where
  "stack_check t = (case t_stack t of NULL \<Rightarrow> Some ()
     | Ptr stk \<Rightarrow> do {
         b0 \<leftarrow> rd stk 0; kassert (b0 = 0xae);
         b1 \<leftarrow> rd stk 1; kassert (b1 = 0x11);
         b2 \<leftarrow> rd stk 2; kassert (b2 = 0xda);
         b3 \<leftarrow> rd stk 3; kassert (b3 = 0x33)
       })"

text \<open>
  \<open>mi_switch\<close> up to \<open>md_switch\<close>. The flag of the result tells whether another thread was
  chosen; it is \<open>False\<close> on the early return taken while the scheduler itself is running.
\<close>

definition mi_switch_out :: "'m kops \<Rightarrow> (nat \<Rightarrow> addr list nullable) \<Rightarrow> threadstate \<Rightarrow> 'm kstate \<Rightarrow> (bool \<times> 'm kstate) option" where
  "mi_switch_out ops km nextstate s = do {
     kassert (curspl s > 0);
     if curthread s = 0 then Some (False, s)
     else do {
       t \<leftarrow> threads s (curthread s);
       stack_check t;
       let cur = curthread s;
       let s1 = s\<lparr>curthread := 0\<rparr>;
       (result, s2) \<leftarrow> (case nextstate of
           S_READY \<Rightarrow> make_runnable km cur s1
         | S_SLEEP \<Rightarrow> on_sleepers (\<lambda>a. array_add km a cur) s1
         | S_ZOMB \<Rightarrow> on_zombies (\<lambda>a. array_add km a cur) s1
         | S_RUN \<Rightarrow> None);
       kassert (result = 0);
       (nxt, s3) \<leftarrow> scheduler ops s2;
       s4 \<leftarrow> md_switch cur nxt (s3\<lparr>curthread := nxt\<rparr>);
       Some (True, s4)
     }
   }"

text \<open>\<open>mi_switch\<close> after \<open>md_switch\<close>, in the thread that was chosen.\<close>

definition mi_switch_in :: "'m kops \<Rightarrow> (nat \<Rightarrow> addr list nullable) \<Rightarrow> 'm kstate \<Rightarrow> 'm kstate option" where
  "mi_switch_in ops km s = do {
     s1 \<leftarrow> exorcise km s;
     t \<leftarrow> threads s1 (curthread s1);
     w \<leftarrow> (if t_vmspace t \<noteq> 0 then op_as_activate ops (t_vmspace t) (world s1) else Some (world s1));
     Some (s1\<lparr>world := w\<rparr>)
   }"

text \<open>A new thread starts in \<open>mi_threadstart\<close> instead; then it calls its function.\<close>

definition mi_threadstart :: "'m kops \<Rightarrow> 'm kstate \<Rightarrow> 'm kstate option" where
  "mi_threadstart ops s = do {
     t \<leftarrow> threads s (curthread s);
     w \<leftarrow> (if t_vmspace t \<noteq> 0 then op_as_activate ops (t_vmspace t) (world s) else Some (world s));
     Some (snd (spl0 (s\<lparr>world := w\<rparr>)))
   }"

subsection \<open>Exit, yield, sleep\<close>

definition thread_exit :: "'m kops \<Rightarrow> (nat \<Rightarrow> addr list nullable) \<Rightarrow> 'm kstate \<Rightarrow> 'm kstate option" where
  "thread_exit ops km s = do {
     t \<leftarrow> threads s (curthread s);
     stack_check t;
     let s1 = snd (splhigh s);
     let t1 = t\<lparr>t_vmspace := 0\<rparr>;
     w1 \<leftarrow> (if t_vmspace t \<noteq> 0 then op_as_destroy ops (t_vmspace t) (world s1) else Some (world s1));
     w2 \<leftarrow> (if t_cwd t1 \<noteq> 0 then op_decref ops (t_cwd t1) w1 else Some w1);
     let t2 = t1\<lparr>t_cwd := 0\<rparr>;
     kassert (numthreads s1 > 0);
     let s2 = s1\<lparr>threads := (threads s1)(curthread s1 \<mapsto> t2), world := w2, numthreads := numthreads s1 - 1\<rparr>;
     (switched, s3) \<leftarrow> mi_switch_out ops km S_ZOMB s2;
     kassert switched;
     Some s3
   }"

text \<open>The result carries the saved interrupt level.\<close>

definition thread_yield_out :: "'m kops \<Rightarrow> (nat \<Rightarrow> addr list nullable) \<Rightarrow> 'm kstate \<Rightarrow> (int \<times> bool \<times> 'm kstate) option" where
  "thread_yield_out ops km s = do {
     let (spl, s1) = splhigh s;
     kassert (sleepers s1 \<noteq> NULL);
     (switched, s2) \<leftarrow> mi_switch_out ops km S_READY s1;
     if switched then Some (spl, True, s2) else Some (spl, False, snd (splx spl s2))
   }"

definition thread_yield_in :: "'m kops \<Rightarrow> (nat \<Rightarrow> addr list nullable) \<Rightarrow> int \<Rightarrow> 'm kstate \<Rightarrow> 'm kstate option" where
  "thread_yield_in ops km spl s = do {
     s1 \<leftarrow> mi_switch_in ops km s;
     Some (snd (splx spl s1))
   }"

definition thread_sleep_out :: "'m kops \<Rightarrow> (nat \<Rightarrow> addr list nullable) \<Rightarrow> addr \<Rightarrow> 'm kstate \<Rightarrow> 'm kstate option" where
  "thread_sleep_out ops km a s = do {
     kassert (in_interrupt s = 0);
     t \<leftarrow> threads s (curthread s);
     let s1 = s\<lparr>threads := (threads s)(curthread s \<mapsto> t\<lparr>t_sleepaddr := a\<rparr>)\<rparr>;
     (switched, s2) \<leftarrow> mi_switch_out ops km S_SLEEP s1;
     kassert switched;
     Some s2
   }"

definition thread_sleep_in :: "'m kops \<Rightarrow> (nat \<Rightarrow> addr list nullable) \<Rightarrow> 'm kstate \<Rightarrow> 'm kstate option" where
  "thread_sleep_in ops km s = do {
     s1 \<leftarrow> mi_switch_in ops km s;
     t \<leftarrow> threads s1 (curthread s1);
     Some (s1\<lparr>threads := (threads s1)(curthread s1 \<mapsto> t\<lparr>t_sleepaddr := 0\<rparr>)\<rparr>)
   }"

subsection \<open>Waking up\<close>

definition thread_wakeup_one :: "(nat \<Rightarrow> addr list nullable) \<Rightarrow> addr \<Rightarrow> 'm kstate \<Rightarrow> 'm kstate option" where
  "thread_wakeup_one km a s = do {
     kassert (curspl s > 0);
     (case sleepers s of NULL \<Rightarrow> None | Ptr sl \<Rightarrow> do {
       t \<leftarrow> array_getguy sl 0;
       thread \<leftarrow> threads s t;
       if t_sleepaddr thread = a then do {
         sl1 \<leftarrow> array_remove sl 0;
         (result, s1) \<leftarrow> make_runnable km t (s\<lparr>sleepers := Ptr sl1\<rparr>);
         kassert (result = 0);
         Some s1
       } else Some s
     })
   }"

text \<open>
  The loop of \<open>thread_wakeup\<close>. Every round looks at one more entry or removes one, so there
  are at most as many rounds as there are sleepers when it starts.
\<close>

primrec wakeup_loop :: "nat \<Rightarrow> (nat \<Rightarrow> addr list nullable) \<Rightarrow> addr \<Rightarrow> int \<Rightarrow> 'm kstate \<Rightarrow> 'm kstate option" where
  "wakeup_loop 0 km a i s = None"
| "wakeup_loop (Suc f) km a i s = (case sleepers s of NULL \<Rightarrow> None | Ptr sl \<Rightarrow>
     if \<not> i < array_getnum sl then Some s
     else do {
       t \<leftarrow> array_getguy sl i;
       thread \<leftarrow> threads s t;
       if t_sleepaddr thread = a then do {
         sl1 \<leftarrow> array_remove sl i;
         (result, s1) \<leftarrow> make_runnable km t (s\<lparr>sleepers := Ptr sl1\<rparr>);
         kassert (result = 0);
         wakeup_loop f km a (i - 1 + 1) s1
       } else wakeup_loop f km a (i + 1) s
     })"

definition thread_wakeup :: "(nat \<Rightarrow> addr list nullable) \<Rightarrow> addr \<Rightarrow> 'm kstate \<Rightarrow> 'm kstate option" where
  "thread_wakeup km a s = do {
     kassert (curspl s > 0);
     (case sleepers s of NULL \<Rightarrow> None
      | Ptr sl \<Rightarrow> wakeup_loop (nat (array_getnum sl) + 1) km a 0 s)
   }"

primrec hassleepers_loop :: "nat \<Rightarrow> addr \<Rightarrow> int \<Rightarrow> addr karray \<Rightarrow> 'm kstate \<Rightarrow> bool option" where
  "hassleepers_loop 0 a i sl s = Some False"
| "hassleepers_loop (Suc n) a i sl s = do {
     t \<leftarrow> array_getguy sl i;
     thread \<leftarrow> threads s t;
     if t_sleepaddr thread = a then Some True else hassleepers_loop n a (i + 1) sl s
   }"

definition thread_hassleepers :: "addr \<Rightarrow> 'm kstate \<Rightarrow> bool option" where
  "thread_hassleepers a s = do {
     kassert (curspl s > 0);
     (case sleepers s of NULL \<Rightarrow> None
      | Ptr sl \<Rightarrow> hassleepers_loop (nat (array_getnum sl)) a 0 sl s)
   }"

subsection \<open>Clock: \<^verbatim>\<open>kern/thread/hardclock.c\<close>\<close>

text \<open>\<open>hz\<close> is the configuration constant \<open>HZ\<close>, \<open>lbolt\<close> the address of the global \<open>lbolt\<close>.\<close>

definition hardclock_out :: "'m kops \<Rightarrow> (nat \<Rightarrow> addr list nullable) \<Rightarrow> int \<Rightarrow> addr \<Rightarrow> 'm kstate \<Rightarrow> (int \<times> bool \<times> 'm kstate) option" where
  "hardclock_out ops km hz lbolt s = do {
     n \<leftarrow> cint (lbolt_counter s + 1);
     s1 \<leftarrow> (if n \<ge> hz then thread_wakeup km lbolt (s\<lparr>lbolt_counter := 0\<rparr>)
            else Some (s\<lparr>lbolt_counter := n\<rparr>));
     thread_yield_out ops km s1
   }"

text \<open>One round of the loop of \<open>clocksleep\<close>: it sleeps again or restores the interrupt level.\<close>

definition clocksleep_round :: "'m kops \<Rightarrow> (nat \<Rightarrow> addr list nullable) \<Rightarrow> addr \<Rightarrow> int \<Rightarrow> int \<Rightarrow> 'm kstate \<Rightarrow> (bool \<times> 'm kstate) option" where
  "clocksleep_round ops km lbolt spl num_secs s =
     (if num_secs > 0 then map_option (\<lambda>s1. (True, s1)) (thread_sleep_out ops km lbolt s)
      else Some (False, snd (splx spl s)))"

end
