(* ===== verification/K_Thread_Laws.thy ===== *)
theory K_Thread_Laws
  imports K_Thread
begin

section \<open>Invariant and behaviour of the thread system\<close>

text \<open>
  The invariant \<open>ts_inv\<close> of the thread system and what every operation of
  \<^verbatim>\<open>kern/thread/thread.c\<close> does in a state where it holds, as functions of the list of sleepers,
  the run queue and the list of zombies. The properties at the end are stated over these
  views.
\<close>

subsection \<open>Abstraction and invariant\<close>

text \<open>The threads on the three lists, and the space the lists have.\<close>

definition sl_list :: "'m kstate \<Rightarrow> addr list" where
  "sl_list s = (case sleepers s of NULL \<Rightarrow> [] | Ptr a \<Rightarrow> arr_list a)"

definition zb_list :: "'m kstate \<Rightarrow> addr list" where
  "zb_list s = (case zombies s of NULL \<Rightarrow> [] | Ptr a \<Rightarrow> arr_list a)"

definition rq_list :: "'m kstate \<Rightarrow> addr list" where
  "rq_list s = (case runqueue s of NULL \<Rightarrow> [] | Ptr q \<Rightarrow> q_list q)"

definition sl_cap :: "'m kstate \<Rightarrow> int" where
  "sl_cap s = (case sleepers s of NULL \<Rightarrow> 0 | Ptr a \<Rightarrow> arr_max a)"

definition zb_cap :: "'m kstate \<Rightarrow> int" where
  "zb_cap s = (case zombies s of NULL \<Rightarrow> 0 | Ptr a \<Rightarrow> arr_max a)"

definition rq_cap :: "'m kstate \<Rightarrow> int" where
  "rq_cap s = (case runqueue s of NULL \<Rightarrow> 0 | Ptr q \<Rightarrow> q_size q)"

text \<open>The lists are there and well-formed.\<close>

definition ds_inv :: "'m kstate \<Rightarrow> bool" where
  "ds_inv s \<longleftrightarrow> (\<exists>a. sleepers s = Ptr a \<and> arr_inv a) \<and> (\<exists>a. zombies s = Ptr a \<and> arr_inv a) \<and>
     (\<exists>q. runqueue s = Ptr q \<and> q_inv q)"

text \<open>The threads that have not exited: the running one, the runnable ones and the sleepers.\<close>

definition live :: "'m kstate \<Rightarrow> addr list" where
  "live s = curthread s # rq_list s @ sl_list s"

text \<open>
  The invariant of the thread system while a thread runs. Every live thread is in exactly one
  place and has its block and an intact stack guard; the zombies are other threads that have
  given back their address space and directory; \<open>numthreads\<close> counts the live threads; and once
  a thread was forked the sleeper table and the run queue have a cell for every live thread.
\<close>

definition ts_inv :: "'m kstate \<Rightarrow> bool" where
  "ts_inv s \<longleftrightarrow> ds_inv s \<and> distinct (live s @ zb_list s) \<and> 0 \<notin> set (live s) \<and>
     numthreads s = int (length (live s)) \<and>
     (\<forall>t \<in> set (live s). \<exists>th. threads s t = Some th \<and> stack_check th = Some ()) \<and>
     (\<forall>t \<in> set (zb_list s). \<exists>th. threads s t = Some th \<and> t_vmspace th = 0 \<and> t_cwd th = 0) \<and>
     (numthreads s = 1 \<or> numthreads s \<le> sl_cap s \<and> numthreads s \<le> rq_cap s)"

declare ds_inv_def [inv_defs] ts_inv_def [inv_defs]

lemmas list_views = sl_list_def zb_list_def rq_list_def sl_cap_def zb_cap_def rq_cap_def

lemma view_cong [simp]:
  "sl_list (s\<lparr>runqueue := q\<rparr>) = sl_list s" "zb_list (s\<lparr>runqueue := q\<rparr>) = zb_list s"
  "sl_cap (s\<lparr>runqueue := q\<rparr>) = sl_cap s" "zb_cap (s\<lparr>runqueue := q\<rparr>) = zb_cap s"
  "rq_list (s\<lparr>sleepers := a\<rparr>) = rq_list s" "zb_list (s\<lparr>sleepers := a\<rparr>) = zb_list s"
  "rq_cap (s\<lparr>sleepers := a\<rparr>) = rq_cap s" "zb_cap (s\<lparr>sleepers := a\<rparr>) = zb_cap s"
  "rq_list (s\<lparr>zombies := a\<rparr>) = rq_list s" "sl_list (s\<lparr>zombies := a\<rparr>) = sl_list s"
  "rq_cap (s\<lparr>zombies := a\<rparr>) = rq_cap s" "sl_cap (s\<lparr>zombies := a\<rparr>) = sl_cap s"
  "rq_list (s\<lparr>runqueue := Ptr q1\<rparr>) = q_list q1" "rq_cap (s\<lparr>runqueue := Ptr q1\<rparr>) = q_size q1"
  "sl_list (s\<lparr>sleepers := Ptr a1\<rparr>) = arr_list a1" "sl_cap (s\<lparr>sleepers := Ptr a1\<rparr>) = arr_max a1"
  "zb_list (s\<lparr>zombies := Ptr a1\<rparr>) = arr_list a1" "zb_cap (s\<lparr>zombies := Ptr a1\<rparr>) = arr_max a1"
  by (simp_all add: list_views)

text \<open>Changes of other fields leave the lists alone.\<close>

lemma view_other [simp]:
  "sl_list (s\<lparr>curthread := c\<rparr>) = sl_list s" "rq_list (s\<lparr>curthread := c\<rparr>) = rq_list s"
  "zb_list (s\<lparr>curthread := c\<rparr>) = zb_list s" "sl_cap (s\<lparr>curthread := c\<rparr>) = sl_cap s"
  "rq_cap (s\<lparr>curthread := c\<rparr>) = rq_cap s" "zb_cap (s\<lparr>curthread := c\<rparr>) = zb_cap s"
  "sl_list (s\<lparr>threads := h\<rparr>) = sl_list s" "rq_list (s\<lparr>threads := h\<rparr>) = rq_list s"
  "zb_list (s\<lparr>threads := h\<rparr>) = zb_list s" "sl_cap (s\<lparr>threads := h\<rparr>) = sl_cap s"
  "rq_cap (s\<lparr>threads := h\<rparr>) = rq_cap s" "zb_cap (s\<lparr>threads := h\<rparr>) = zb_cap s"
  "sl_list (s\<lparr>world := w\<rparr>) = sl_list s" "rq_list (s\<lparr>world := w\<rparr>) = rq_list s"
  "zb_list (s\<lparr>world := w\<rparr>) = zb_list s" "sl_cap (s\<lparr>world := w\<rparr>) = sl_cap s"
  "rq_cap (s\<lparr>world := w\<rparr>) = rq_cap s" "zb_cap (s\<lparr>world := w\<rparr>) = zb_cap s"
  "sl_list (s\<lparr>numthreads := n\<rparr>) = sl_list s" "rq_list (s\<lparr>numthreads := n\<rparr>) = rq_list s"
  "zb_list (s\<lparr>numthreads := n\<rparr>) = zb_list s" "sl_cap (s\<lparr>numthreads := n\<rparr>) = sl_cap s"
  "rq_cap (s\<lparr>numthreads := n\<rparr>) = rq_cap s" "zb_cap (s\<lparr>numthreads := n\<rparr>) = zb_cap s"
  "sl_list (snd (splx n1 s)) = sl_list s" "rq_list (snd (splx n1 s)) = rq_list s"
  "zb_list (snd (splx n1 s)) = zb_list s" "sl_cap (snd (splx n1 s)) = sl_cap s"
  "rq_cap (snd (splx n1 s)) = rq_cap s" "zb_cap (snd (splx n1 s)) = zb_cap s"
  by (simp_all add: list_views)

lemma ds_other [simp]:
  "ds_inv (s\<lparr>curthread := c\<rparr>) = ds_inv s" "ds_inv (s\<lparr>threads := h\<rparr>) = ds_inv s"
  "ds_inv (s\<lparr>world := w\<rparr>) = ds_inv s" "ds_inv (s\<lparr>numthreads := n\<rparr>) = ds_inv s"
  "ds_inv (snd (splx n1 s)) = ds_inv s"
  by (simp_all add: ds_inv_def)

lemma ds_upd [simp]:
  "ds_inv s \<Longrightarrow> ds_inv (s\<lparr>runqueue := Ptr q\<rparr>) = q_inv q"
  "ds_inv s \<Longrightarrow> ds_inv (s\<lparr>sleepers := Ptr a\<rparr>) = arr_inv a"
  "ds_inv s \<Longrightarrow> ds_inv (s\<lparr>zombies := Ptr a\<rparr>) = arr_inv a"
  by (auto simp: ds_inv_def)

lemma ds_invE:
  assumes "ds_inv s"
  obtains sl z q where "sleepers s = Ptr sl" "arr_inv sl" "sl_list s = arr_list sl" "sl_cap s = arr_max sl"
    "zombies s = Ptr z" "arr_inv z" "zb_list s = arr_list z" "zb_cap s = arr_max z"
    "runqueue s = Ptr q" "q_inv q" "rq_list s = q_list q" "rq_cap s = q_size q"
  using assms by (auto simp: ds_inv_def list_views)

subsection \<open>Run queue\<close>

lemma make_runnable_room:
  assumes "ds_inv s" "0 < curspl s" "int (length (rq_list s)) + 1 < rq_cap s"
  shows "\<exists>q. make_runnable km t s = Some (0, s\<lparr>runqueue := Ptr q\<rparr>) \<and> q_inv q \<and>
    q_list q = rq_list s @ [t] \<and> q_size q = rq_cap s"
proof -
  from assms(1) obtain q where q: "runqueue s = Ptr q" "q_inv q" "rq_list s = q_list q" "rq_cap s = q_size q"
    by (rule ds_invE)
  then have room: "int (q_count q) + 1 < q_size q" using assms(3) by (simp add: q_length)
  show ?thesis
    using assms(2) q q_snoc_ok [OF q(2) room, of t]
    by (intro exI [of _ "q_snoc q t"]) (simp add: make_runnable_def on_runqueue_def q_addtail_room [OF q(2) room])
qed

lemma make_runnable_result:
  assumes "ds_inv s" "0 < curspl s" "km_ok km"
  shows "make_runnable km t s = Some (ENOMEM, s) \<or>
    (\<exists>q. make_runnable km t s = Some (0, s\<lparr>runqueue := Ptr q\<rparr>) \<and> q_inv q \<and>
      q_list q = rq_list s @ [t] \<and> rq_cap s \<le> q_size q)"
proof -
  from assms(1) obtain q where q: "runqueue s = Ptr q" "q_inv q" "rq_list s = q_list q" "rq_cap s = q_size q"
    by (rule ds_invE)
  show ?thesis
    using q_addtail_result [OF q(2) assms(3), of t] q assms(2)
    by (auto simp: make_runnable_def on_runqueue_def)
qed

lemma sched_wait_ready:
  "runqueue s = Ptr q \<Longrightarrow> \<not> q_empty q \<Longrightarrow> sched_wait ops s = Some s"
  by (subst sched_wait.simps) simp

lemma scheduler_head:
  assumes "ds_inv s" "0 < curspl s" "rq_list s = x # xs"
  shows "\<exists>q. scheduler ops s = Some (x, s\<lparr>runqueue := Ptr q\<rparr>) \<and> q_inv q \<and> q_list q = xs \<and> q_size q = rq_cap s"
proof -
  from assms(1) obtain q where q: "runqueue s = Ptr q" "q_inv q" "rq_list s = q_list q" "rq_cap s = q_size q"
    by (rule ds_invE)
  have ql: "q_list q = x # xs" using assms(3) q(3) by simp
  then have "\<not> q_empty q" using q(2) by (simp add: q_empty_iff)
  then show ?thesis
    using q_remhead_nonempty [OF q(2) ql] assms(2) q sched_wait_ready [OF q(1)]
    by (auto simp: scheduler_def on_runqueue_def)
qed


subsection \<open>Waking up\<close>

lemma arr_getnum_len: "arr_inv a \<Longrightarrow> array_getnum a = int (length (arr_list a))"
  by (simp add: array_getnum_def arr_inv_def)

declare arr_list_length [simp del]

lemma kstate_same: "sleepers s = a \<Longrightarrow> runqueue s = q \<Longrightarrow> s\<lparr>sleepers := a, runqueue := q\<rparr> = s"
  by (cases s) simp

definition sleeping_on :: "(addr \<rightharpoonup> thread) \<Rightarrow> addr \<Rightarrow> addr \<Rightarrow> bool" where
  "sleeping_on thr a t \<longleftrightarrow> (case thr t of None \<Rightarrow> False | Some th \<Rightarrow> t_sleepaddr th = a)"

lemma wakeup_loop_result:
  assumes "ds_inv s" "0 < curspl s" "set (sl_list s) \<subseteq> dom (threads s)"
    and "i \<le> length (sl_list s)" "length (sl_list s) - i < f"
    and "int (length (rq_list s) + length (filter (sleeping_on (threads s) a) (drop i (sl_list s)))) < rq_cap s"
  shows "\<exists>sl q. wakeup_loop f km a (int i) s = Some (s\<lparr>sleepers := Ptr sl, runqueue := Ptr q\<rparr>) \<and>
    arr_inv sl \<and> q_inv q \<and> arr_max sl = sl_cap s \<and> q_size q = rq_cap s \<and>
    arr_list sl = take i (sl_list s) @ filter (\<lambda>t. \<not> sleeping_on (threads s) a t) (drop i (sl_list s)) \<and>
    q_list q = rq_list s @ filter (sleeping_on (threads s) a) (drop i (sl_list s))"
  using assms
proof (induction f arbitrary: i s)
  case (Suc f)
  from Suc.prems(1) obtain sl q where sl: "sleepers s = Ptr sl" "arr_inv sl" "sl_list s = arr_list sl"
      "sl_cap s = arr_max sl" and q: "runqueue s = Ptr q" "q_inv q" "rq_list s = q_list q" "rq_cap s = q_size q"
    by (rule ds_invE)
  show ?case
  proof (cases "i < length (sl_list s)")
    case False
    then show ?thesis using Suc.prems(4) sl q
      by (intro exI [of _ sl] exI [of _ q]) (simp add: arr_getnum_len kstate_same)
  next
    case True
    let ?t = "sl_list s ! i"
    have drp: "drop i (sl_list s) = ?t # drop (Suc i) (sl_list s)" using True by (simp add: Cons_nth_drop_Suc)
    have num: "int i < array_getnum sl" using True sl by (simp add: arr_getnum_len)
    have get: "array_getguy sl (int i) = Some ?t" using True sl by (simp add: array_getguy_in)
    obtain th where th: "threads s ?t = Some th" using Suc.prems(3) True by (meson domD nth_mem subsetD)
    show ?thesis
    proof (cases "t_sleepaddr th = a")
      case False
      then have "\<not> sleeping_on (threads s) a ?t" using th by (simp add: sleeping_on_def)
      then show ?thesis
        using Suc.IH [of s "Suc i"] Suc.prems True False num get th sl(1) drp
        by (simp add: take_Suc_conv_app_nth add.commute)
    next
      case wake: True
      then have on: "sleeping_on (threads s) a ?t" using th by (simp add: sleeping_on_def)
      obtain sl1 where sl1: "array_remove sl (int i) = Some sl1" "arr_inv sl1"
          "arr_list sl1 = take i (sl_list s) @ drop (Suc i) (sl_list s)" "arr_max sl1 = arr_max sl"
        using array_remove_nth [OF sl(2), of i] True sl(3) by auto
      let ?s1 = "s\<lparr>sleepers := Ptr sl1\<rparr>"
      have "int (length (rq_list ?s1)) + 1 < rq_cap ?s1"
        using Suc.prems(6) drp on by simp
      then obtain q1 where q1: "make_runnable km ?t ?s1 = Some (0, ?s1\<lparr>runqueue := Ptr q1\<rparr>)" "q_inv q1"
          "q_list q1 = rq_list s @ [?t]" "q_size q1 = rq_cap s"
        using make_runnable_room [of ?s1 km ?t] Suc.prems(1,2) sl1(2) by auto
      let ?s2 = "?s1\<lparr>runqueue := Ptr q1\<rparr>"
      have ds: "ds_inv ?s2" using Suc.prems(1) sl1(2) q1(2) by simp
      have d2: "drop i (sl_list ?s2) = drop (Suc i) (sl_list s)" "take i (sl_list ?s2) = take i (sl_list s)"
        using True sl1(3) by simp_all
      have len: "length (sl_list ?s2) = length (sl_list s) - 1" using True sl1(3) by simp
      have sub: "set (sl_list ?s2) \<subseteq> dom (threads ?s2)"
        using Suc.prems(3) sl1(3) by (auto dest: in_set_takeD in_set_dropD)
      have room: "int (length (rq_list ?s2) + length (filter (sleeping_on (threads ?s2) a) (drop i (sl_list ?s2)))) < rq_cap ?s2"
        using Suc.prems(6) drp on q1(3,4) d2 by simp
      have i2: "i \<le> length (sl_list ?s2)" "length (sl_list ?s2) - i < f"
        using True Suc.prems(5) len by linarith+
      from Suc.IH [OF ds _ sub i2 room] Suc.prems(2) obtain sl' q' where
        "wakeup_loop f km a (int i) ?s2 = Some (?s2\<lparr>sleepers := Ptr sl', runqueue := Ptr q'\<rparr>)"
        "arr_inv sl'" "q_inv q'" "arr_max sl' = sl_cap ?s2" "q_size q' = rq_cap ?s2"
        "arr_list sl' = take i (sl_list s) @ filter (\<lambda>t. \<not> sleeping_on (threads s) a t) (drop (Suc i) (sl_list s))"
        "q_list q' = rq_list ?s2 @ filter (sleeping_on (threads s) a) (drop (Suc i) (sl_list s))"
        unfolding d2 by auto
      then show ?thesis
        using sl(1,4) q(4) sl1(1,4) q1 get num th wake drp on
        by (intro exI [of _ sl'] exI [of _ q']) simp
    qed
  qed
qed simp

lemma thread_wakeup_result:
  assumes "ds_inv s" "0 < curspl s" "set (sl_list s) \<subseteq> dom (threads s)"
    and "int (length (rq_list s) + length (filter (sleeping_on (threads s) a) (sl_list s))) < rq_cap s"
  shows "\<exists>sl q. thread_wakeup km a s = Some (s\<lparr>sleepers := Ptr sl, runqueue := Ptr q\<rparr>) \<and>
    arr_inv sl \<and> q_inv q \<and> arr_max sl = sl_cap s \<and> q_size q = rq_cap s \<and>
    arr_list sl = filter (\<lambda>t. \<not> sleeping_on (threads s) a t) (sl_list s) \<and>
    q_list q = rq_list s @ filter (sleeping_on (threads s) a) (sl_list s)"
proof -
  from assms(1) obtain sl where sl: "sleepers s = Ptr sl" "arr_inv sl" "sl_list s = arr_list sl"
    by (rule ds_invE)
  then have "thread_wakeup km a s = wakeup_loop (length (sl_list s) + 1) km a 0 s"
    using assms(2) by (simp add: thread_wakeup_def arr_getnum_len)
  then show ?thesis using wakeup_loop_result [OF assms(1-3), of 0 "length (sl_list s) + 1" a km] assms(4) by simp
qed

subsection \<open>Switching\<close>

lemma ts_invD:
  assumes "ts_inv s"
  shows "ds_inv s" "curthread s \<noteq> 0" "distinct (live s)" "distinct (live s @ zb_list s)"
    "numthreads s = 1 + int (length (rq_list s)) + int (length (sl_list s))"
    "set (sl_list s) \<subseteq> dom (threads s)"
    "\<exists>th. threads s (curthread s) = Some th \<and> stack_check th = Some ()"
  using assms by (auto simp: ts_inv_def live_def)

text \<open>
  The part of the invariant that talks about the threads' blocks depends only on the guards of
  the live threads and on what the zombies have given back.
\<close>

definition blocks_ok :: "(addr \<rightharpoonup> thread) \<Rightarrow> addr set \<Rightarrow> addr set \<Rightarrow> bool" where
  "blocks_ok h L Z \<longleftrightarrow> (\<forall>t \<in> L. \<exists>th. h t = Some th \<and> stack_check th = Some ()) \<and>
     (\<forall>t \<in> Z. \<exists>th. h t = Some th \<and> t_vmspace th = 0 \<and> t_cwd th = 0)"

lemma stack_check_upd [simp]:
  "stack_check (t\<lparr>t_pcb := p\<rparr>) = stack_check t" "stack_check (t\<lparr>t_sleepaddr := a\<rparr>) = stack_check t"
  "stack_check (t\<lparr>t_vmspace := a\<rparr>) = stack_check t" "stack_check (t\<lparr>t_cwd := a\<rparr>) = stack_check t"
  by (simp_all add: stack_check_def)

lemma blocks_upd:
  assumes "blocks_ok h L Z" "h c = Some th" "stack_check th' = stack_check th"
    "t_vmspace th' = t_vmspace th" "t_cwd th' = t_cwd th"
  shows "blocks_ok (h(c \<mapsto> th')) L Z"
  using assms by (auto simp: blocks_ok_def)

lemma ts_inv_blocks:
  "ts_inv s \<longleftrightarrow> ds_inv s \<and> distinct (live s @ zb_list s) \<and> 0 \<notin> set (live s) \<and>
     numthreads s = int (length (live s)) \<and> blocks_ok (threads s) (set (live s)) (set (zb_list s)) \<and>
     (numthreads s = 1 \<or> numthreads s \<le> sl_cap s \<and> numthreads s \<le> rq_cap s)"
  by (auto simp: ts_inv_def blocks_ok_def)

text \<open>\<open>md_switch\<close> changes only the two process control blocks' globals.\<close>

lemma md_switch_result:
  assumes "threads s old = Some ot" "threads s nu = Some nt"
  shows "\<exists>h k i. md_switch old nu s = Some (s\<lparr>threads := h, curkstack := k, in_interrupt := i\<rparr>) \<and>
    (\<exists>p. h = (threads s)(old \<mapsto> ot\<lparr>t_pcb := p\<rparr>))"
proof (cases "old = nu")
  case True
  have "threads s = (threads s)(old \<mapsto> ot\<lparr>t_pcb := t_pcb ot\<rparr>)" using assms by auto
  then have "\<exists>p. threads s = (threads s)(old \<mapsto> ot\<lparr>t_pcb := p\<rparr>)" by blast
  then show ?thesis using True
    by (intro exI [of _ "threads s"] exI [of _ "curkstack s"] exI [of _ "in_interrupt s"]) (simp add: md_switch_def)
next
  case False
  then show ?thesis using assms by (auto simp: md_switch_def Let_def)
qed

lemma switch_rest:
  assumes "ds_inv s" "0 < curspl s" "rq_list s = x # xs" "threads s cur = Some th" "x \<in> dom (threads s)"
  shows "\<exists>q p k i. (scheduler ops s \<bind> (\<lambda>(nxt, s3). md_switch cur nxt (s3\<lparr>curthread := nxt\<rparr>))) =
      Some (s\<lparr>runqueue := Ptr q, curthread := x, threads := (threads s)(cur \<mapsto> th\<lparr>t_pcb := p\<rparr>),
        curkstack := k, in_interrupt := i\<rparr>) \<and> q_inv q \<and> q_list q = xs \<and> q_size q = rq_cap s"
proof -
  from scheduler_head [OF assms(1-3), of ops] obtain q where
    q: "scheduler ops s = Some (x, s\<lparr>runqueue := Ptr q\<rparr>)" "q_inv q" "q_list q = xs" "q_size q = rq_cap s" by blast
  from assms(5) obtain nt where nt: "threads s x = Some nt" by blast
  let ?s = "s\<lparr>runqueue := Ptr q, curthread := x\<rparr>"
  from md_switch_result [of ?s cur th x nt] assms(4) nt obtain p k i where
    "md_switch cur x ?s = Some (?s\<lparr>threads := (threads s)(cur \<mapsto> th\<lparr>t_pcb := p\<rparr>), curkstack := k, in_interrupt := i\<rparr>)"
    by auto
  then show ?thesis using q by auto
qed

lemma switch_views [simp]:
  "sl_list (s\<lparr>curkstack := k\<rparr>) = sl_list s" "rq_list (s\<lparr>curkstack := k\<rparr>) = rq_list s"
  "zb_list (s\<lparr>curkstack := k\<rparr>) = zb_list s" "sl_cap (s\<lparr>curkstack := k\<rparr>) = sl_cap s"
  "rq_cap (s\<lparr>curkstack := k\<rparr>) = rq_cap s" "ds_inv (s\<lparr>curkstack := k\<rparr>) = ds_inv s"
  "sl_list (s\<lparr>in_interrupt := i\<rparr>) = sl_list s" "rq_list (s\<lparr>in_interrupt := i\<rparr>) = rq_list s"
  "zb_list (s\<lparr>in_interrupt := i\<rparr>) = zb_list s" "sl_cap (s\<lparr>in_interrupt := i\<rparr>) = sl_cap s"
  "rq_cap (s\<lparr>in_interrupt := i\<rparr>) = rq_cap s" "ds_inv (s\<lparr>in_interrupt := i\<rparr>) = ds_inv s"
  by (simp_all add: list_views ds_inv_def)

lemma bind_pair_assoc: "((m :: ('a \<times> 'b) option) \<bind> (\<lambda>(a, b). f a b)) \<bind> g = m \<bind> (\<lambda>(a, b). f a b \<bind> g)"
  by (cases m) auto

text \<open>
  \<open>mi_switch\<close> in a state of the invariant, once the current thread is on the list it goes to
  and another thread (or the same one) is at the head of the run queue.
\<close>

lemma mi_switch_out_result:
  assumes inv: "threads s (curthread s) = Some th" "stack_check th = Some ()" "curthread s \<noteq> 0" "0 < curspl s"
    and add: "(case nextstate of S_READY \<Rightarrow> make_runnable km (curthread s) (s\<lparr>curthread := 0\<rparr>)
         | S_SLEEP \<Rightarrow> on_sleepers (\<lambda>a. array_add km a (curthread s)) (s\<lparr>curthread := 0\<rparr>)
         | S_ZOMB \<Rightarrow> on_zombies (\<lambda>a. array_add km a (curthread s)) (s\<lparr>curthread := 0\<rparr>)
         | S_RUN \<Rightarrow> None) = Some (0, s2)"
    and s2: "ds_inv s2" "0 < curspl s2" "rq_list s2 = x # xs" "threads s2 = threads s" "x \<in> dom (threads s)"
  shows "\<exists>q p k i. mi_switch_out ops km nextstate s =
      Some (True, s2\<lparr>runqueue := Ptr q, curthread := x, threads := (threads s)(curthread s \<mapsto> th\<lparr>t_pcb := p\<rparr>),
        curkstack := k, in_interrupt := i\<rparr>) \<and> q_inv q \<and> q_list q = xs \<and> q_size q = rq_cap s2"
proof -
  from switch_rest [of s2 x xs "curthread s" th ops] s2 inv obtain q p k i where
    q: "(scheduler ops s2 \<bind> (\<lambda>(nxt, s3). md_switch (curthread s) nxt (s3\<lparr>curthread := nxt\<rparr>))) =
      Some (s2\<lparr>runqueue := Ptr q, curthread := x, threads := (threads s)(curthread s \<mapsto> th\<lparr>t_pcb := p\<rparr>),
        curkstack := k, in_interrupt := i\<rparr>)" "q_inv q" "q_list q = xs" "q_size q = rq_cap s2" by auto
  have "mi_switch_out ops km nextstate s =
      (scheduler ops s2 \<bind> (\<lambda>(nxt, s3). md_switch (curthread s) nxt (s3\<lparr>curthread := nxt\<rparr>))) \<bind> (\<lambda>s4. Some (True, s4))"
    unfolding mi_switch_out_def Let_def bind_pair_assoc using inv by (simp add: add)
  then show ?thesis using q by auto
qed

lemma ts_inv_perm:
  assumes "ts_inv s" "ds_inv s'" "set (live s') = set (live s)" "length (live s') = length (live s)"
    "zb_list s' = zb_list s" "numthreads s' = numthreads s"
    "blocks_ok (threads s') (set (live s)) (set (zb_list s))" "sl_cap s \<le> sl_cap s'" "rq_cap s \<le> rq_cap s'"
  shows "ts_inv s'"
proof -
  have "distinct (live s')"
    using assms(1,3,4) by (metis card_distinct distinct_card distinct_append ts_inv_blocks)
  then show ?thesis using assms by (auto simp: ts_inv_blocks)
qed

text \<open>A switch leaves the synchronisation objects and the process table alone.\<close>

definition same_objs :: "'m kstate \<Rightarrow> 'm kstate \<Rightarrow> bool" where
  "same_objs s s' \<longleftrightarrow> sems s' = sems s \<and> locks s' = locks s \<and> cvs s' = cvs s \<and> p_table s' = p_table s \<and>
     process_lock s' = process_lock s"

subsection \<open>Yield\<close>

text \<open>What a yield does to the state; \<open>same_objs\<close> is the frame.\<close>

definition yielded :: "'m kstate \<Rightarrow> 'm kstate \<Rightarrow> bool" where
  "yielded s s' \<longleftrightarrow> ts_inv s' \<and> curspl s' = SPL_HIGH \<and>
    curthread s' # rq_list s' = rq_list s @ [curthread s] \<and> sl_list s' = sl_list s \<and> zb_list s' = zb_list s \<and>
    same_objs s s' \<and> world s' = world s \<and>
    (\<exists>th p. threads s (curthread s) = Some th \<and> threads s' = (threads s)(curthread s \<mapsto> th\<lparr>t_pcb := p\<rparr>))"

lemma thread_yield_core:
  assumes "ts_inv s"
    and q0: "make_runnable km (curthread s) ((snd (splx SPL_HIGH s))\<lparr>curthread := 0\<rparr>) =
        Some (0, (snd (splx SPL_HIGH s))\<lparr>curthread := 0, runqueue := Ptr q0\<rparr>)"
      "q_inv q0" "q_list q0 = rq_list s @ [curthread s]" "rq_cap s \<le> q_size q0"
  shows "\<exists>s'. thread_yield_out ops km s = Some (curspl s, True, s') \<and> yielded s s' \<and> rq_cap s' = q_size q0"
proof -
  let ?c = "curthread s"
  note inv = ts_invD [OF assms(1)]
  obtain th where th: "threads s ?c = Some th" "stack_check th = Some ()" using inv(7) by blast
  let ?s1 = "snd (splx SPL_HIGH s)"
  let ?s2 = "?s1\<lparr>curthread := 0, runqueue := Ptr q0\<rparr>"
  obtain x xs where x: "rq_list s @ [?c] = x # xs" by (cases "rq_list s") auto
  then have mem: "x \<in> set (live s)" by (cases "rq_list s") (auto simp: live_def)
  then have xd: "x \<in> dom (threads s)" using assms(1) by (auto simp: ts_inv_def)
  from mi_switch_out_result [of ?s1 th km S_READY ?s2 x xs ops] th inv(1,2) q0 x xd obtain q p k i where
    sw: "mi_switch_out ops km S_READY ?s1 = Some (True, ?s2\<lparr>runqueue := Ptr q, curthread := x,
        threads := (threads s)(?c \<mapsto> th\<lparr>t_pcb := p\<rparr>), curkstack := k, in_interrupt := i\<rparr>)"
      "q_inv q" "q_list q = xs" "q_size q = q_size q0" by auto
  let ?s' = "?s2\<lparr>runqueue := Ptr q, curthread := x,
        threads := (threads s)(?c \<mapsto> th\<lparr>t_pcb := p\<rparr>), curkstack := k, in_interrupt := i\<rparr>"
  have yl: "thread_yield_out ops km s = Some (curspl s, True, ?s')"
    using sw(1) inv(1) by (auto simp: thread_yield_out_def Let_def split_beta ds_inv_def)
  have "set (live ?s') = set (live s)" "length (live ?s') = length (live s)"
    using arg_cong [OF x, of set] arg_cong [OF x, of length] sw(3) by (auto simp: live_def)
  moreover have "blocks_ok ((threads s)(?c \<mapsto> th\<lparr>t_pcb := p\<rparr>)) (set (live s)) (set (zb_list s))"
    using assms(1) th by (intro blocks_upd) (auto simp: ts_inv_blocks)
  ultimately have "ts_inv ?s'"
    by (intro ts_inv_perm [OF assms(1)]) (use sw inv(1) q0 in simp_all)
  then show ?thesis using yl x sw th by (intro exI [of _ ?s']) (auto simp: same_objs_def yielded_def)
qed

lemma thread_yield_result:
  assumes "ts_inv s" "int (length (rq_list s)) + 1 < rq_cap s"
  shows "\<exists>s'. thread_yield_out ops km s = Some (curspl s, True, s') \<and> yielded s s' \<and> rq_cap s' = rq_cap s"
proof -
  let ?s1 = "snd (splx SPL_HIGH s)"
  obtain q0 where q0: "make_runnable km (curthread s) (?s1\<lparr>curthread := 0\<rparr>) = Some (0, ?s1\<lparr>curthread := 0, runqueue := Ptr q0\<rparr>)"
      "q_inv q0" "q_list q0 = rq_list s @ [curthread s]" "q_size q0 = rq_cap s"
    using make_runnable_room [of "?s1\<lparr>curthread := 0\<rparr>" km "curthread s"] ts_invD(1) [OF assms(1)] assms(2) by auto
  then show ?thesis using thread_yield_core [OF assms(1) q0(1-3)] by auto
qed

lemma thread_yield_some:
  assumes "ts_inv s" "km_ok km" "thread_yield_out ops km s = Some (spl, sw, s')"
  shows "spl = curspl s" "sw" "yielded s s'"
proof -
  let ?s1 = "snd (splx SPL_HIGH s)"
  note inv = ts_invD [OF assms(1)]
  have "make_runnable km (curthread s) (?s1\<lparr>curthread := 0\<rparr>) \<noteq> Some (ENOMEM, ?s1\<lparr>curthread := 0\<rparr>)"
    using assms(3) inv(2,7) by (auto simp: thread_yield_out_def mi_switch_out_def Let_def split_beta bind_eq_Some_conv)
  then obtain q0 where q0: "make_runnable km (curthread s) (?s1\<lparr>curthread := 0\<rparr>) = Some (0, ?s1\<lparr>curthread := 0, runqueue := Ptr q0\<rparr>)"
      "q_inv q0" "q_list q0 = rq_list s @ [curthread s]" "rq_cap s \<le> q_size q0"
    using make_runnable_result [of "?s1\<lparr>curthread := 0\<rparr>" km "curthread s"] inv(1) assms(2) by auto
  from thread_yield_core [OF assms(1) q0, of ops] assms(3)
  show "spl = curspl s" "sw" "yielded s s'" by auto
qed

subsection \<open>Sleep\<close>

lemma thread_sleep_result:
  assumes "ts_inv s" "0 < curspl s" "in_interrupt s = 0" "rq_list s = x # xs"
  shows "\<exists>s'. thread_sleep_out ops km a s = Some s' \<and> ts_inv s' \<and> curspl s' = curspl s \<and>
    curthread s' = x \<and> rq_list s' = xs \<and> sl_list s' = sl_list s @ [curthread s] \<and> zb_list s' = zb_list s \<and>
    sl_cap s' = sl_cap s \<and> rq_cap s' = rq_cap s \<and> same_objs s s' \<and> world s' = world s \<and>
    (\<exists>th p. threads s (curthread s) = Some th \<and>
      threads s' = (threads s)(curthread s \<mapsto> th\<lparr>t_sleepaddr := a, t_pcb := p\<rparr>))"
proof -
  let ?c = "curthread s"
  note inv = ts_invD [OF assms(1)]
  obtain th where th: "threads s ?c = Some th" "stack_check th = Some ()" using inv(7) by blast
  let ?th = "th\<lparr>t_sleepaddr := a\<rparr>"
  let ?s1 = "s\<lparr>threads := (threads s)(?c \<mapsto> ?th)\<rparr>"
  obtain sl where sl: "sleepers s = Ptr sl" "arr_inv sl" "sl_list s = arr_list sl" "sl_cap s = arr_max sl"
    using inv(1) by (rule ds_invE)
  have "numthreads s \<noteq> 1" using inv(5) assms(4) by simp
  then have "int (length (sl_list s)) < arr_max sl"
    using assms(1,4) inv(5) sl(4) by (auto simp: ts_inv_def)
  then have room: "arr_num sl < arr_max sl" using sl(2,3) arr_getnum_len [OF sl(2)] by (simp add: array_getnum_def)
  note snoc = arr_snoc_ok [OF sl(2) room, of ?c]
  let ?s2 = "?s1\<lparr>curthread := 0, sleepers := Ptr (arr_snoc sl ?c)\<rparr>"
  have add: "on_sleepers (\<lambda>a. array_add km a ?c) (?s1\<lparr>curthread := 0\<rparr>) = Some (0, ?s2)"
    using sl by (simp add: on_sleepers_def array_add_room [OF sl(2) room])
  have xd: "x \<in> dom (threads s)" using assms(1,4) by (auto simp: ts_inv_def live_def)
  from mi_switch_out_result [of ?s1 ?th km S_SLEEP ?s2 x xs ops] th inv(1,2) add assms(2,4) xd snoc(1) obtain q p k i where
    sw: "mi_switch_out ops km S_SLEEP ?s1 = Some (True, ?s2\<lparr>runqueue := Ptr q, curthread := x,
        threads := (threads s)(?c \<mapsto> ?th\<lparr>t_pcb := p\<rparr>), curkstack := k, in_interrupt := i\<rparr>)"
      "q_inv q" "q_list q = xs" "q_size q = rq_cap s" by auto
  let ?s' = "?s2\<lparr>runqueue := Ptr q, curthread := x,
        threads := (threads s)(?c \<mapsto> ?th\<lparr>t_pcb := p\<rparr>), curkstack := k, in_interrupt := i\<rparr>"
  have out: "thread_sleep_out ops km a s = Some ?s'"
    using sw(1) assms(3) th by (simp add: thread_sleep_out_def Let_def)
  have "set (live ?s') = set (live s)" "length (live ?s') = length (live s)"
    using sw(3) snoc sl(3) assms(4) by (auto simp: live_def)
  moreover have "blocks_ok ((threads s)(?c \<mapsto> ?th\<lparr>t_pcb := p\<rparr>)) (set (live s)) (set (zb_list s))"
    using assms(1) th by (intro blocks_upd) (auto simp: ts_inv_blocks)
  ultimately have "ts_inv ?s'"
    by (intro ts_inv_perm [OF assms(1)]) (use sw inv(1) snoc sl in simp_all)
  then show ?thesis using out sw th snoc sl by (intro exI [of _ ?s']) (auto simp: same_objs_def)
qed

subsection \<open>Exit\<close>

definition exited_to :: "'m kstate \<Rightarrow> 'm kstate \<Rightarrow> bool" where
  "exited_to s s' \<longleftrightarrow> ts_inv s' \<and> curspl s' = SPL_HIGH \<and> curthread s' # rq_list s' = rq_list s \<and>
    sl_list s' = sl_list s \<and> zb_list s' = zb_list s @ [curthread s] \<and> numthreads s' = numthreads s - 1 \<and> same_objs s s' \<and>
    (\<exists>th p. threads s (curthread s) = Some th \<and>
      threads s' = (threads s)(curthread s \<mapsto> th\<lparr>t_vmspace := 0, t_cwd := 0, t_pcb := p\<rparr>))"

lemma thread_exit_core:
  assumes "ts_inv s" "rq_list s = x # xs" "threads s (curthread s) = Some th"
    and w: "(if t_vmspace th \<noteq> 0 then op_as_destroy ops (t_vmspace th) (world s) else Some (world s)) = Some w1"
      "(if t_cwd th \<noteq> 0 then op_decref ops (t_cwd th) w1 else Some w1) = Some w2"
    and z: "zombies s = Ptr z" "array_add km z (curthread s) = Some (0, z1)" "arr_inv z1" "arr_list z1 = zb_list s @ [curthread s]"
  shows "\<exists>s'. thread_exit ops km s = Some s' \<and> exited_to s s' \<and> world s' = w2"
proof -
  let ?c = "curthread s"
  note inv = ts_invD [OF assms(1)]
  have sc: "stack_check th = Some ()" using inv(7) assms(3) by auto
  let ?th = "th\<lparr>t_vmspace := 0, t_cwd := 0\<rparr>"
  let ?s1 = "(snd (splx SPL_HIGH s))\<lparr>threads := (threads s)(?c \<mapsto> ?th), world := w2, numthreads := numthreads s - 1\<rparr>"
  let ?s2 = "?s1\<lparr>curthread := 0, zombies := Ptr z1\<rparr>"
  have add: "on_zombies (\<lambda>a. array_add km a ?c) (?s1\<lparr>curthread := 0\<rparr>) = Some (0, ?s2)"
    using z by (simp add: on_zombies_def)
  have xd: "x \<in> dom (threads s)" using assms(1,2) by (auto simp: ts_inv_def live_def)
  from mi_switch_out_result [of ?s1 ?th km S_ZOMB ?s2 x xs ops] sc inv(1,2) add assms(2) xd z(3) obtain q p k i where
    sw: "mi_switch_out ops km S_ZOMB ?s1 = Some (True, ?s2\<lparr>runqueue := Ptr q, curthread := x,
        threads := (threads s)(?c \<mapsto> ?th\<lparr>t_pcb := p\<rparr>), curkstack := k, in_interrupt := i\<rparr>)"
      "q_inv q" "q_list q = xs" "q_size q = rq_cap s" by auto
  let ?s' = "?s2\<lparr>runqueue := Ptr q, curthread := x,
        threads := (threads s)(?c \<mapsto> ?th\<lparr>t_pcb := p\<rparr>), curkstack := k, in_interrupt := i\<rparr>"
  have np: "numthreads s > 0" using inv(5) by simp
  have out: "thread_exit ops km s = Some ?s'"
    using sw(1) assms(3) w sc np by (simp add: thread_exit_def Let_def split: if_splits)
  have dist: "distinct (live ?s' @ zb_list ?s')" "0 \<notin> set (live ?s')"
    using assms(1,2) sw(3) z(4) by (auto simp: ts_inv_def live_def)
  have bl: "blocks_ok (threads ?s') (set (live ?s')) (set (zb_list ?s'))"
    using assms(1,2) sw(3) z(4) by (auto simp: ts_inv_blocks blocks_ok_def live_def)
  have "ts_inv ?s'"
    using assms(1,2) dist bl sw(2,3,4) inv(1,5) z by (auto simp: ts_inv_blocks live_def)
  then show ?thesis using out sw z assms(2,3) by (intro exI [of _ ?s']) (auto simp: same_objs_def exited_to_def)
qed

lemma thread_exit_result:
  assumes "ts_inv s" "rq_list s = x # xs" "int (length (zb_list s)) < zb_cap s" "threads s (curthread s) = Some th"
    and w: "(if t_vmspace th \<noteq> 0 then op_as_destroy ops (t_vmspace th) (world s) else Some (world s)) = Some w1"
      "(if t_cwd th \<noteq> 0 then op_decref ops (t_cwd th) w1 else Some w1) = Some w2"
  shows "\<exists>s'. thread_exit ops km s = Some s' \<and> exited_to s s' \<and> world s' = w2"
proof -
  obtain z where z: "zombies s = Ptr z" "arr_inv z" "zb_list s = arr_list z" "zb_cap s = arr_max z"
    using ts_invD(1) [OF assms(1)] by (rule ds_invE)
  have room: "arr_num z < arr_max z" using assms(3) z arr_getnum_len [OF z(2)] by (simp add: array_getnum_def)
  show ?thesis
    using thread_exit_core [OF assms(1,2,4) w z(1) array_add_room [OF z(2) room]] arr_snoc_ok [OF z(2) room] z(3) by auto
qed

lemma thread_exit_some:
  assumes "ts_inv s" "rq_list s = x # xs" "km_ok km" "thread_exit ops km s = Some s'"
  shows "exited_to s s'"
proof -
  let ?c = "curthread s"
  note inv = ts_invD [OF assms(1)]
  obtain th where th: "threads s ?c = Some th" "stack_check th = Some ()" using inv(7) by blast
  obtain z where z: "zombies s = Ptr z" "arr_inv z" "zb_list s = arr_list z" using inv(1) by (rule ds_invE)
  obtain w1 w2 where w: "(if t_vmspace th \<noteq> 0 then op_as_destroy ops (t_vmspace th) (world s) else Some (world s)) = Some w1"
      "(if t_cwd th \<noteq> 0 then op_decref ops (t_cwd th) w1 else Some w1) = Some w2"
      "mi_switch_out ops km S_ZOMB ((snd (splx SPL_HIGH s))\<lparr>threads := (threads s)(?c \<mapsto> th\<lparr>t_vmspace := 0, t_cwd := 0\<rparr>),
        world := w2, numthreads := numthreads s - 1\<rparr>) \<noteq> None"
    using assms(4) th
    by (cases "t_vmspace th = 0"; cases "t_cwd th = 0") (auto simp: thread_exit_def Let_def bind_eq_Some_conv)
  then have "array_add km z ?c \<noteq> Some (ENOMEM, z)"
    using z(1) inv(2) th by (auto simp: mi_switch_out_def on_zombies_def Let_def)
  then obtain z1 where "array_add km z ?c = Some (0, z1)" "arr_inv z1" "arr_list z1 = zb_list s @ [?c]"
    using array_add_result [OF z(2) assms(3), of ?c] z(3) by auto
  from thread_exit_core [OF assms(1,2) th(1) w(1,2) z(1) this] assms(4) show ?thesis by auto
qed

subsection \<open>Disposing of the zombies\<close>

lemma exorcise_loop_result:
  assumes "arr_inv a" "i + n = length (arr_list a)" "distinct (drop i (arr_list a))"
    and "\<forall>z \<in> set (drop i (arr_list a)). z \<noteq> curthread s \<and>
      (\<exists>th. threads s z = Some th \<and> t_vmspace th = 0 \<and> t_cwd th = 0)"
  shows "exorcise_loop n (int i) a s = Some (s\<lparr>threads := threads s |` (- set (drop i (arr_list a)))\<rparr>)"
  using assms
proof (induction n arbitrary: i s)
  case 0
  then show ?case by simp
next
  case (Suc n)
  let ?z = "arr_list a ! i" and ?r = "drop (Suc i) (arr_list a)"
  have lt: "i < length (arr_list a)" using Suc.prems(2) by simp
  have drp: "drop i (arr_list a) = ?z # ?r" using lt by (simp add: Cons_nth_drop_Suc)
  obtain th where th: "threads s ?z = Some th" "t_vmspace th = 0" "t_cwd th = 0" "?z \<noteq> curthread s"
    using Suc.prems(4) drp by auto
  let ?s1 = "s\<lparr>threads := (threads s)(?z := None)\<rparr>"
  have "exorcise_loop n (int (Suc i)) a ?s1 = Some (?s1\<lparr>threads := threads ?s1 |` (- set ?r)\<rparr>)"
    using Suc.prems drp by (intro Suc.IH) auto
  moreover have "((threads s)(?z := None)) |` (- set ?r) = threads s |` (- set (?z # ?r))"
    by (auto simp: restrict_map_def)
  ultimately show ?case
    using th array_getguy_in [OF Suc.prems(1) lt] drp by (simp add: thread_destroy_def add.commute)
qed

lemma exorcise_zombies:
  assumes "ts_inv s" "0 < curspl s" "zombies s = Ptr z" "array_setsize km z 0 = Some (0, z1)"
  shows "exorcise km s = Some (s\<lparr>threads := threads s |` (- set (zb_list s)), zombies := Ptr z1\<rparr>)"
proof -
  have z: "arr_inv z" "zb_list s = arr_list z"
    using ts_invD(1) [OF assms(1)] assms(3) by (auto simp: ds_inv_def zb_list_def)
  have "exorcise_loop (length (arr_list z)) (int 0) z s = Some (s\<lparr>threads := threads s |` (- set (drop 0 (arr_list z)))\<rparr>)"
    using assms(1) z by (intro exorcise_loop_result) (auto simp: ts_inv_def live_def)
  then show ?thesis
    using assms(2-4) z by (simp add: exorcise_def on_zombies_def arr_getnum_len)
qed

lemma exorcise_result:
  assumes "ts_inv s" "0 < curspl s"
  shows "\<exists>z. exorcise km s = Some (s\<lparr>threads := threads s |` (- set (zb_list s)), zombies := Ptr z\<rparr>) \<and>
    arr_inv z \<and> arr_list z = []"
proof -
  note inv = ts_invD [OF assms(1)]
  obtain z where z: "zombies s = Ptr z" "arr_inv z" "zb_list s = arr_list z"
    using inv(1) by (rule ds_invE)
  obtain z1 where z1: "array_setsize km z 0 = Some (0, z1)" "arr_inv z1" "arr_list z1 = []"
    using array_setsize_zero_ok [OF z(2), of km] by blast
  then show ?thesis using exorcise_zombies [OF assms z(1) z1(1)] by blast
qed

lemma ts_inv_no_zombies:
  assumes "ts_inv s" "arr_inv z" "arr_list z = []"
  shows "ts_inv (s\<lparr>threads := threads s |` (- set (zb_list s)), zombies := Ptr z\<rparr>)"
proof -
  let ?s = "s\<lparr>threads := threads s |` (- set (zb_list s)), zombies := Ptr z\<rparr>"
  have lv: "live ?s = live s" by (simp add: live_def)
  have "blocks_ok (threads ?s) (set (live s)) {}"
    using assms(1) by (auto simp: ts_inv_blocks blocks_ok_def restrict_map_def)
  then show ?thesis using assms by (auto simp: ts_inv_blocks lv)
qed

lemma ts_inv_other [simp]:
  "ts_inv (s\<lparr>world := w\<rparr>) = ts_inv s" "ts_inv (snd (splx n s)) = ts_inv s"
  by (simp_all add: ts_inv_def live_def)

text \<open>The current thread's address space is activated if it has one.\<close>

definition activates :: "'m kops \<Rightarrow> 'm kstate \<Rightarrow> 'm \<Rightarrow> bool" where
  "activates ops s w \<longleftrightarrow> (\<forall>th. threads s (curthread s) = Some th \<longrightarrow>
     (if t_vmspace th \<noteq> 0 then op_as_activate ops (t_vmspace th) (world s) else Some (world s)) = Some w)"

lemma mi_switch_in_result:
  assumes "ts_inv s" "0 < curspl s" "activates ops s w"
  shows "\<exists>s'. mi_switch_in ops km s = Some s' \<and> ts_inv s' \<and> curthread s' = curthread s \<and> curspl s' = curspl s \<and>
    rq_list s' = rq_list s \<and> sl_list s' = sl_list s \<and> zb_list s' = [] \<and> rq_cap s' = rq_cap s \<and>
    threads s' = threads s |` (- set (zb_list s)) \<and> world s' = w \<and> same_objs s s'"
proof -
  from exorcise_result [OF assms(1,2), of km] obtain z where
    z: "exorcise km s = Some (s\<lparr>threads := threads s |` (- set (zb_list s)), zombies := Ptr z\<rparr>)"
      "arr_inv z" "arr_list z = []" by blast
  let ?s1 = "s\<lparr>threads := threads s |` (- set (zb_list s)), zombies := Ptr z\<rparr>"
  have i1: "ts_inv ?s1" using ts_inv_no_zombies assms(1) z(2,3) by blast
  obtain th where th: "threads s (curthread s) = Some th" using ts_invD(7) [OF assms(1)] by blast
  have "curthread s \<notin> set (zb_list s)" using assms(1) by (auto simp: ts_inv_def live_def)
  then have "mi_switch_in ops km s = Some (?s1\<lparr>world := w\<rparr>)"
    using th assms(3) by (auto simp: mi_switch_in_def z(1) activates_def split: if_splits)
  moreover have "ts_inv (?s1\<lparr>world := w\<rparr>)" using i1 by (simp only: ts_inv_other)
  ultimately show ?thesis using z by (intro exI [of _ "?s1\<lparr>world := w\<rparr>"]) (auto simp: same_objs_def)
qed

lemma mi_switch_in_some:
  assumes "ts_inv s" "mi_switch_in ops km s = Some s'"
  shows "ts_inv s'" "curthread s' = curthread s" "curspl s' = curspl s" "0 < curspl s" "rq_list s' = rq_list s"
    "sl_list s' = sl_list s" "threads s' = threads s |` (- set (zb_list s))" "same_objs s s'"
    "in_interrupt s' = in_interrupt s" "rq_cap s' = rq_cap s"
proof -
  show pos: "0 < curspl s" using assms(2) by (auto simp: mi_switch_in_def exorcise_def bind_eq_Some_conv)
  from exorcise_result [OF assms(1) pos, of km] obtain z where
    z: "exorcise km s = Some (s\<lparr>threads := threads s |` (- set (zb_list s)), zombies := Ptr z\<rparr>)"
      "arr_inv z" "arr_list z = []" by blast
  let ?s1 = "s\<lparr>threads := threads s |` (- set (zb_list s)), zombies := Ptr z\<rparr>"
  have "ts_inv ?s1" using ts_inv_no_zombies assms(1) z(2,3) by blast
  moreover obtain w where "s' = ?s1\<lparr>world := w\<rparr>"
    using assms(2) by (auto simp: mi_switch_in_def z(1) bind_eq_Some_conv)
  ultimately show "ts_inv s'" "curthread s' = curthread s" "curspl s' = curspl s" "rq_list s' = rq_list s"
    "sl_list s' = sl_list s" "threads s' = threads s |` (- set (zb_list s))" "same_objs s s'"
    "in_interrupt s' = in_interrupt s" "rq_cap s' = rq_cap s"
    by (simp_all add: same_objs_def)
qed

subsection \<open>Fork\<close>

lemma prealloc_sleepers:
  assumes "ds_inv s" "km_ok km" "n < 2 ^ 29"
  shows "on_sleepers (\<lambda>a. array_preallocate km a n) s = Some (ENOMEM, s) \<or>
    (\<exists>a. on_sleepers (\<lambda>a. array_preallocate km a n) s = Some (0, s\<lparr>sleepers := Ptr a\<rparr>) \<and> arr_inv a \<and>
      arr_list a = sl_list s \<and> n \<le> arr_max a \<and> sl_cap s \<le> arr_max a)"
proof -
  obtain sl where sl: "sleepers s = Ptr sl" "arr_inv sl" "sl_list s = arr_list sl" "sl_cap s = arr_max sl"
    using assms(1) by (rule ds_invE)
  then have "s\<lparr>sleepers := Ptr sl\<rparr> = s" by simp
  then show ?thesis
    using array_preallocate_result [OF sl(2) assms(2,3)] sl by (auto simp: on_sleepers_def)
qed

lemma prealloc_zombies:
  assumes "ds_inv s" "km_ok km" "n < 2 ^ 29"
  shows "on_zombies (\<lambda>a. array_preallocate km a n) s = Some (ENOMEM, s) \<or>
    (\<exists>a. on_zombies (\<lambda>a. array_preallocate km a n) s = Some (0, s\<lparr>zombies := Ptr a\<rparr>) \<and> arr_inv a \<and>
      arr_list a = zb_list s \<and> n \<le> arr_max a \<and> zb_cap s \<le> arr_max a)"
proof -
  obtain z where z: "zombies s = Ptr z" "arr_inv z" "zb_list s = arr_list z" "zb_cap s = arr_max z"
    using assms(1) by (rule ds_invE)
  then have "s\<lparr>zombies := Ptr z\<rparr> = s" by simp
  then show ?thesis
    using array_preallocate_result [OF z(2) assms(2,3)] z by (auto simp: on_zombies_def)
qed

lemma prealloc_runqueue:
  assumes "ds_inv s" "km_ok km" "n \<le> 2 ^ 28" "0 < curspl s"
  shows "scheduler_preallocate km n s = Some (ENOMEM, s) \<or>
    (\<exists>q. scheduler_preallocate km n s = Some (0, s\<lparr>runqueue := Ptr q\<rparr>) \<and> q_inv q \<and>
      q_list q = rq_list s \<and> n \<le> q_size q \<and> rq_cap s \<le> q_size q)"
proof -
  obtain q where q: "runqueue s = Ptr q" "q_inv q" "rq_list s = q_list q" "rq_cap s = q_size q"
    using assms(1) by (rule ds_invE)
  then have "s\<lparr>runqueue := Ptr q\<rparr> = s" by simp
  then show ?thesis
    using q_preallocate_result [OF q(2) assms(2,3)] q assms(4)
    by (auto simp: scheduler_preallocate_def on_runqueue_def)
qed

text \<open>Only the lists and the thread count differ.\<close>

definition only_lists :: "'m kstate \<Rightarrow> 'm kstate \<Rightarrow> bool" where
  "only_lists s s' \<longleftrightarrow> s' = s\<lparr>sleepers := sleepers s', zombies := zombies s', runqueue := runqueue s',
     numthreads := numthreads s'\<rparr>"

lemma fork_atomic_result:
  assumes "ds_inv s" "km_ok km" "0 < curspl s" "0 \<le> numthreads s" "numthreads s < 2 ^ 28"
  shows "\<exists>e s'. fork_atomic km t s = Some (e, s') \<and> ds_inv s' \<and> only_lists s s' \<and>
    sl_list s' = sl_list s \<and> zb_list s' = zb_list s \<and> sl_cap s \<le> sl_cap s' \<and> rq_cap s \<le> rq_cap s' \<and>
    (e = ENOMEM \<and> rq_list s' = rq_list s \<and> numthreads s' = numthreads s \<or>
     e = 0 \<and> rq_list s' = rq_list s @ [t] \<and> numthreads s' = numthreads s + 1 \<and>
       numthreads s' \<le> sl_cap s' \<and> numthreads s' \<le> zb_cap s' \<and> numthreads s' \<le> rq_cap s')"
proof -
  let ?n = "numthreads s + 1"
  have n: "cint ?n = Some ?n" "?n < 2 ^ 29" "?n \<le> 2 ^ 28" using assms(4,5) by auto
  from prealloc_sleepers [OF assms(1,2) n(2)] show ?thesis
  proof (elim disjE exE conjE)
    fix a assume a: "on_sleepers (\<lambda>a. array_preallocate km a ?n) s = Some (0, s\<lparr>sleepers := Ptr a\<rparr>)"
      "arr_inv a" "arr_list a = sl_list s" "?n \<le> arr_max a" "sl_cap s \<le> arr_max a"
    let ?s1 = "s\<lparr>sleepers := Ptr a\<rparr>"
    have d1: "ds_inv ?s1" using assms(1) a(2) by simp
    from prealloc_zombies [OF d1 assms(2) n(2)] show ?thesis
    proof (elim disjE exE conjE)
      fix z assume z: "on_zombies (\<lambda>a. array_preallocate km a ?n) ?s1 = Some (0, ?s1\<lparr>zombies := Ptr z\<rparr>)"
        "arr_inv z" "arr_list z = zb_list ?s1" "?n \<le> arr_max z"
      let ?s2 = "?s1\<lparr>zombies := Ptr z\<rparr>"
      have d2: "ds_inv ?s2" "0 < curspl ?s2" using d1 z(2) assms(3) by simp_all
      from prealloc_runqueue [OF d2(1) assms(2) n(3) d2(2)] show ?thesis
      proof (elim disjE exE conjE)
        fix q assume q: "scheduler_preallocate km ?n ?s2 = Some (0, ?s2\<lparr>runqueue := Ptr q\<rparr>)"
          "q_inv q" "q_list q = rq_list ?s2" "?n \<le> q_size q" "rq_cap ?s2 \<le> q_size q"
        let ?s3 = "?s2\<lparr>runqueue := Ptr q\<rparr>"
        have d3: "ds_inv ?s3" "0 < curspl ?s3" using d2 q(2) by simp_all
        from make_runnable_result [OF d3 assms(2), of t] show ?thesis
        proof (elim disjE exE conjE)
          assume "make_runnable km t ?s3 = Some (ENOMEM, ?s3)"
          then show ?thesis using a z q n d3 by (auto simp: fork_atomic_def only_lists_def)
        next
          fix q' assume q': "make_runnable km t ?s3 = Some (0, ?s3\<lparr>runqueue := Ptr q'\<rparr>)"
            "q_inv q'" "q_list q' = rq_list ?s3 @ [t]" "rq_cap ?s3 \<le> q_size q'"
          have "ds_inv (?s3\<lparr>runqueue := Ptr q'\<rparr>)" using ds_upd(1) [OF d3(1), of q'] q'(2) by blast
          then show ?thesis using a z q n d3 q' by (auto simp: fork_atomic_def only_lists_def)
        qed
      qed (use a z n d2 in \<open>auto simp: fork_atomic_def only_lists_def\<close>)
    qed (use a n d1 in \<open>auto simp: fork_atomic_def only_lists_def\<close>)
  qed (use n assms in \<open>auto simp: fork_atomic_def only_lists_def\<close>)
qed

lemma find_slot:
  assumes "find P [1..<n] = Some i"
  shows "1 \<le> i" "i < n" "P i" "\<forall>j. 1 \<le> j \<and> j < i \<longrightarrow> \<not> P j"
proof -
  from assms obtain k where k: "k < n - 1" "P (Suc k)" "i = Suc k" "\<forall>j<k. \<not> P (Suc j)"
    by (auto simp: find_Some_iff)
  then show "1 \<le> i" "i < n" "P i" by auto
  show "\<forall>j. 1 \<le> j \<and> j < i \<longrightarrow> \<not> P j"
  proof (intro allI impI)
    fix j assume "1 \<le> j \<and> j < i"
    then show "\<not> P j" using k(3,4) by (cases j) auto
  qed
qed

text \<open>A fork may create the exit semaphore of the new process, with count 0.\<close>

definition sem_added :: "mallocs \<Rightarrow> 'm kstate \<Rightarrow> 'm kstate \<Rightarrow> bool" where
  "sem_added ma s s' \<longleftrightarrow> sems s' = sems s \<or> (\<exists>nm. sems s' = (sems s)(ma_sem ma \<mapsto> \<lparr>sem_name = nm, sem_count = 0\<rparr>))"

text \<open>What \<open>thread_create\<close> does when it succeeds, in a running system.\<close>

definition created :: "mallocs \<Rightarrow> string \<Rightarrow> 'm kstate \<Rightarrow> nat \<Rightarrow> thread \<Rightarrow> process \<Rightarrow> 'm kstate \<Rightarrow> bool" where
  "created ma name s i th pr s1 \<longleftrightarrow> ma_thread ma \<noteq> 0 \<and> 1 \<le> i \<and> i < MAXTHREADS \<and> p_table s ! i = NULL \<and>
     (\<forall>j. 1 \<le> j \<and> j < i \<longrightarrow> p_table s ! j \<noteq> NULL) \<and>
     s1 = s\<lparr>sems := sems s1, threads := (threads s)(ma_thread ma \<mapsto> th), p_table := (p_table s)[i := Ptr pr]\<rparr> \<and>
     th = (ma_block ma)\<lparr>t_name := name, t_sleepaddr := 0, t_stack := NULL, t_vmspace := 0, t_cwd := 0, t_pid := int i\<rparr> \<and>
     sem_added ma s s1 \<and> proc_me pr = ma_thread ma \<and> exited pr = 0 \<and> exitcode pr = - 1 \<and>
     (\<forall>c. threads s (curthread s) = Some c \<longrightarrow> parent_pid pr = t_pid c)"

lemma sem_create_frame:
  assumes "0 \<le> n"
  shows "\<exists>b h. sem_create a ok nm n s = Some (b, s\<lparr>sems := h\<rparr>) \<and>
    (h = sems s \<or> h = (sems s)(a \<mapsto> \<lparr>sem_name = nm, sem_count = n\<rparr>))"
proof (cases "a = 0 \<or> \<not> ok")
  case True
  then have "sem_create a ok nm n s = Some (0, s\<lparr>sems := sems s\<rparr>)" using assms by (auto simp: sem_create_def)
  then show ?thesis by blast
next
  case False
  then show ?thesis using assms by (auto simp: sem_create_def)
qed

lemma thread_create_result:
  assumes "length (p_table s) = MAXTHREADS" "curthread s \<noteq> 0" "threads s (curthread s) = Some c"
  shows "thread_create ma name s = Some (0, s) \<or>
    (\<exists>i th pr s1. thread_create ma name s = Some (ma_thread ma, s1) \<and> created ma name s i th pr s1)"
proof (cases "find (\<lambda>i. p_table s ! i = NULL) [1..<MAXTHREADS]")
  case None
  then show ?thesis unfolding thread_create_def None by simp
next
  case (Some i)
  note sl = find_slot [OF Some]
  show ?thesis
  proof (cases "ma_process ma \<and> ma_thread ma \<noteq> 0 \<and> ma_name ma")
    case False
    then show ?thesis unfolding thread_create_def Some by auto
  next
    case True
    obtain sm h where h: "sem_create (ma_sem ma) (ma_semname ma) (char_of i # ma_junk ma) 0 s = Some (sm, s\<lparr>sems := h\<rparr>)"
        "h = sems s \<or> h = (sems s)(ma_sem ma \<mapsto> \<lparr>sem_name = char_of i # ma_junk ma, sem_count = 0\<rparr>)"
      using sem_create_frame by (metis order_refl)
    let ?th = "(ma_block ma)\<lparr>t_name := name, t_sleepaddr := 0, t_stack := NULL, t_vmspace := 0, t_cwd := 0, t_pid := int i\<rparr>"
    let ?pr = "\<lparr>proc_me = ma_thread ma, parent_pid = t_pid c, exited = 0, exitcode = - 1, exit_sem = sm\<rparr>"
    let ?s1 = "s\<lparr>sems := h, threads := (threads s)(ma_thread ma \<mapsto> ?th), p_table := (p_table s)[i := Ptr ?pr]\<rparr>"
    have "thread_create ma name s = Some (ma_thread ma, ?s1)"
      unfolding thread_create_def Some Let_def using True assms sl(2) h(1) by simp
    moreover have "sem_added ma s ?s1" using h(2) by (auto simp: sem_added_def)
    then have "created ma name s i ?th ?pr ?s1" using True sl assms(3) by (simp add: created_def)
    ultimately show ?thesis by blast
  qed
qed

lemma stack_magic_check:
  assumes "4 \<le> length stk"
  shows "\<exists>stk1. stack_magic stk = Some stk1 \<and> (\<forall>t. t_stack t = Ptr stk1 \<longrightarrow> stack_check t = Some ())"
proof -
  have "0 < length stk" "1 < length stk" "2 < length stk" "3 < length stk" using assms by linarith+
  then show ?thesis
    by (intro exI [of _ "stk[0 := 0xae, 1 := 0x11, 2 := 0xda, 3 := 0x33]"])
      (simp add: stack_magic_def stack_check_def nth_list_update)
qed

lemma view_create [simp]:
  "sl_list (s\<lparr>sems := h\<rparr>) = sl_list s" "rq_list (s\<lparr>sems := h\<rparr>) = rq_list s" "zb_list (s\<lparr>sems := h\<rparr>) = zb_list s"
  "sl_cap (s\<lparr>sems := h\<rparr>) = sl_cap s" "rq_cap (s\<lparr>sems := h\<rparr>) = rq_cap s" "ds_inv (s\<lparr>sems := h\<rparr>) = ds_inv s"
  "sl_list (s\<lparr>p_table := p\<rparr>) = sl_list s" "rq_list (s\<lparr>p_table := p\<rparr>) = rq_list s" "zb_list (s\<lparr>p_table := p\<rparr>) = zb_list s"
  "sl_cap (s\<lparr>p_table := p\<rparr>) = sl_cap s" "rq_cap (s\<lparr>p_table := p\<rparr>) = rq_cap s" "ds_inv (s\<lparr>p_table := p\<rparr>) = ds_inv s"
  "sl_list (s\<lparr>frames := f\<rparr>) = sl_list s" "rq_list (s\<lparr>frames := f\<rparr>) = rq_list s" "zb_list (s\<lparr>frames := f\<rparr>) = zb_list s"
  "sl_cap (s\<lparr>frames := f\<rparr>) = sl_cap s" "rq_cap (s\<lparr>frames := f\<rparr>) = rq_cap s" "ds_inv (s\<lparr>frames := f\<rparr>) = ds_inv s"
  by (simp_all add: list_views ds_inv_def)

lemma numthreads_bound:
  assumes "ts_inv s"
  shows "0 \<le> numthreads s" "numthreads s < 2 ^ 28"
proof -
  note inv = ts_invD [OF assms]
  obtain sl q where sl: "arr_inv sl" "sl_list s = arr_list sl" and q: "q_inv q" "rq_list s = q_list q"
    using inv(1) by (rule ds_invE)
  have "int (length (sl_list s)) < 2 ^ 27" using sl arr_getnum_len [OF sl(1)] by (auto simp: arr_inv_def array_getnum_def)
  moreover have "int (length (rq_list s)) < 2 ^ 27 - 1 \<or> int (length (rq_list s)) < 2 ^ 27"
    using q q_count_less [OF q(1)] by (simp add: q_length q_inv_def)
  ultimately show "0 \<le> numthreads s" "numthreads s < 2 ^ 28" using inv(5) by auto
qed

text \<open>What the caller of \<open>thread_fork\<close> and its environment provide.\<close>

definition fork_env :: "'m kops \<Rightarrow> mallocs \<Rightarrow> 'm kstate \<Rightarrow> bool" where
  "fork_env ops ma s \<longleftrightarrow> km_ok (ma_cells ma) \<and> ma_thread ma \<notin> dom (threads s) \<and>
     length (p_table s) = MAXTHREADS \<and> (\<forall>stk. ma_stack ma = Ptr stk \<longrightarrow> length stk = STACK_SIZE) \<and>
     (\<forall>v w. op_incref ops v w \<noteq> None) \<and> (\<forall>v w. op_decref ops v w \<noteq> None)"

lemma only_lists_frame:
  assumes "only_lists s s'"
  shows "threads s' = threads s" "curthread s' = curthread s" "curspl s' = curspl s" "p_table s' = p_table s"
    "world s' = world s" "sems s' = sems s" "locks s' = locks s"
proof -
  show "threads s' = threads s" by (subst assms [unfolded only_lists_def]) simp
  show "curthread s' = curthread s" by (subst assms [unfolded only_lists_def]) simp
  show "curspl s' = curspl s" by (subst assms [unfolded only_lists_def]) simp
  show "p_table s' = p_table s" by (subst assms [unfolded only_lists_def]) simp
  show "world s' = world s" by (subst assms [unfolded only_lists_def]) simp
  show "sems s' = sems s" by (subst assms [unfolded only_lists_def]) simp
  show "locks s' = locks s" by (subst assms [unfolded only_lists_def]) simp
qed

lemma not_None_obtain:
  assumes "\<forall>v w. f v w \<noteq> None"
  shows "\<exists>w'. (if v \<noteq> 0 then f v w else Some w) = Some w'"
  using assms by (cases "v = 0") (auto simp: not_None_eq)

text \<open>
  The run of \<open>thread_fork\<close> after a successful \<open>thread_create\<close> and allocation of the stack, up to
  the outcome of its atomic part.
\<close>

lemma thread_fork_runs:
  assumes "ts_inv s" "fork_env ops ma s" "ma_stack ma = Ptr stk" "threads s (curthread s) = Some c"
    and cr: "thread_create ma name s = Some (ma_thread ma, s1)" "created ma name s i th pr s1"
  shows "\<exists>e s5 th1 w1. ds_inv s5 \<and> stack_check th1 = Some () \<and> t_pid th1 = int i \<and>
    threads s5 = (threads s)(ma_thread ma \<mapsto> th1) \<and> curthread s5 = curthread s \<and> sem_added ma s s5 \<and> locks s5 = locks s \<and>
    sl_list s5 = sl_list s \<and> zb_list s5 = zb_list s \<and> sl_cap s \<le> sl_cap s5 \<and> rq_cap s \<le> rq_cap s5 \<and>
    (e = ENOMEM \<and> rq_list s5 = rq_list s \<and> numthreads s5 = numthreads s \<and>
       thread_fork ops ma start name data1 data2 func s =
         Some (ENOMEM, 0, (snd (splx (curspl s) s5))\<lparr>threads := threads s, world := w1\<rparr>) \<or>
     e = 0 \<and> rq_list s5 = rq_list s @ [ma_thread ma] \<and> numthreads s5 = numthreads s + 1 \<and>
       numthreads s5 \<le> sl_cap s5 \<and> numthreads s5 \<le> rq_cap s5 \<and>
       thread_fork ops ma start name data1 data2 func s = Some (0, ma_thread ma, snd (splx (curspl s) s5)))"
proof -
  let ?n = "ma_thread ma"
  note inv = ts_invD [OF assms(1)]
  obtain h where s1: "s1 = s\<lparr>sems := h, threads := (threads s)(?n \<mapsto> th), p_table := (p_table s)[i := Ptr pr]\<rparr>"
    and th: "?n \<noteq> 0" "t_pid th = int i" and sa: "sem_added ma s s1"
    using cr(2) by (auto simp: created_def)
  have fresh: "?n \<notin> dom (threads s)" using assms(2) by (simp add: fork_env_def)
  then have un: "(threads s)(?n := None) = threads s" by auto
  have c1: "threads s1 (curthread s1) = Some c" using assms(4) fresh by (auto simp: s1)
  have "4 \<le> length stk" using assms(2,3) by (simp add: fork_env_def STACK_SIZE_def)
  then obtain stk1 where stk1: "stack_magic stk = Some stk1" "\<And>t. t_stack t = Ptr stk1 \<Longrightarrow> stack_check t = Some ()"
    using stack_magic_check by blast
  obtain w where w: "(if t_cwd c \<noteq> 0 then op_incref ops (t_cwd c) (world s1) else Some (world s1)) = Some w"
    using assms(2) not_None_obtain [of "op_incref ops"] unfolding fork_env_def by blast
  obtain pcb f where pcb: "md_initpcb start (ma_stackaddr ma) data1 data2 func s1 = (pcb, s1\<lparr>frames := f\<rparr>)"
    by (simp add: md_initpcb_def Let_def)
  let ?th = "th\<lparr>t_stack := Ptr stk1, t_cwd := t_cwd c, t_pcb := pcb\<rparr>"
  let ?s4 = "snd (splx SPL_HIGH (s1\<lparr>frames := f, threads := (threads s1)(?n \<mapsto> ?th), world := w\<rparr>))"
  have d4: "ds_inv ?s4" using inv(1) by (simp add: s1)
  have km: "km_ok (ma_cells ma)" using assms(2) by (simp add: fork_env_def)
  have nt: "0 \<le> numthreads ?s4" "numthreads ?s4 < 2 ^ 28" using numthreads_bound [OF assms(1)] by (simp_all add: s1)
  from fork_atomic_result [OF d4 km _ nt, of ?n] obtain e s5 where
    fa: "fork_atomic (ma_cells ma) ?n ?s4 = Some (e, s5)" "ds_inv s5" "only_lists ?s4 s5"
      "sl_list s5 = sl_list s" "zb_list s5 = zb_list s" "sl_cap s \<le> sl_cap s5" "rq_cap s \<le> rq_cap s5"
      "e = ENOMEM \<and> rq_list s5 = rq_list s \<and> numthreads s5 = numthreads s \<or>
       e = 0 \<and> rq_list s5 = rq_list s @ [?n] \<and> numthreads s5 = numthreads s + 1 \<and>
       numthreads s5 \<le> sl_cap s5 \<and> numthreads s5 \<le> zb_cap s5 \<and> numthreads s5 \<le> rq_cap s5"
    by (auto simp: s1)
  note fr = only_lists_frame [OF fa(3)]
  obtain w1 where w1: "(if t_cwd ?th \<noteq> 0 then op_decref ops (t_cwd ?th) w else Some w) = Some w1"
    using assms(2) not_None_obtain [of "op_decref ops"] unfolding fork_env_def by blast
  have run: "thread_fork ops ma start name data1 data2 func s =
      (if e = 0 then Some (0, ?n, snd (splx (curspl s) s5))
       else Some (e, 0, (snd (splx (curspl s) s5))\<lparr>threads := threads s, world := w1\<rparr>))"
  proof (cases "t_cwd c = 0")
    case True
    then show ?thesis using w w1 cr(1) th(1) assms(3) stk1(1) c1 pcb fa(1) fr un
      by (simp add: thread_fork_def Let_def split_beta) (simp add: s1)
  next
    case False
    then show ?thesis using w w1 cr(1) th(1) assms(3) stk1(1) c1 pcb fa(1) fr un
      by (simp add: thread_fork_def Let_def split_beta) (simp add: s1)
  qed
  have "threads s5 = (threads s)(?n \<mapsto> ?th)" "curthread s5 = curthread s" "locks s5 = locks s" using fr by (simp_all add: s1)
  moreover have "sem_added ma s s5" using sa fr(6) by (simp add: sem_added_def)
  ultimately show ?thesis
    using fa run stk1(2) th by (intro exI [of _ e] exI [of _ s5] exI [of _ ?th] exI [of _ w1]) auto
qed

lemma ts_inv_forked:
  assumes "ts_inv s" "ds_inv s5" "t \<noteq> 0" "t \<notin> dom (threads s)" "stack_check th = Some ()"
    and "threads s5 = (threads s)(t \<mapsto> th)" "curthread s5 = curthread s"
    and "sl_list s5 = sl_list s" "zb_list s5 = zb_list s" "rq_list s5 = rq_list s @ [t]"
    and "numthreads s5 = numthreads s + 1" "numthreads s5 \<le> sl_cap s5" "numthreads s5 \<le> rq_cap s5"
  shows "ts_inv s5"
proof -
  have nl: "t \<notin> set (live s)" "t \<notin> set (zb_list s)" using assms(1,4) by (auto simp: ts_inv_def)
  then have "distinct (live s5 @ zb_list s5)" "0 \<notin> set (live s5)" "set (live s5) = insert t (set (live s))"
    "numthreads s5 = int (length (live s5))"
    using assms(1,3,7-11) by (auto simp: ts_inv_def live_def)
  moreover have "blocks_ok (threads s5) (insert t (set (live s))) (set (zb_list s))"
    using assms(1,5,6) nl by (auto simp: ts_inv_blocks blocks_ok_def)
  ultimately show ?thesis using assms(2,9,12,13) by (simp add: ts_inv_blocks)
qed

lemma thread_fork_result:
  assumes "ts_inv s" "fork_env ops ma s"
  shows "\<exists>e t s'. thread_fork ops ma start name data1 data2 func s = Some (e, t, s') \<and> ts_inv s' \<and>
    curthread s' = curthread s \<and> curspl s' = curspl s \<and> sl_list s' = sl_list s \<and> zb_list s' = zb_list s \<and>
    sem_added ma s s' \<and> locks s' = locks s \<and>
    (e = ENOMEM \<and> t = 0 \<and> rq_list s' = rq_list s \<and> threads s' = threads s \<or>
     e = 0 \<and> t \<noteq> 0 \<and> t \<notin> dom (threads s) \<and> rq_list s' = rq_list s @ [t] \<and>
       (\<exists>th. threads s' = (threads s)(t \<mapsto> th) \<and> 1 \<le> t_pid th \<and> t_pid th < int MAXTHREADS \<and>
         p_table s ! nat (t_pid th) = NULL))"
proof -
  let ?n = "ma_thread ma"
  note inv = ts_invD [OF assms(1)]
  obtain c where c: "threads s (curthread s) = Some c" using inv(7) by blast
  have fresh: "?n \<notin> dom (threads s)" using assms(2) by (simp add: fork_env_def)
  then have un: "(threads s)(?n := None) = threads s" by auto
  have pt: "length (p_table s) = MAXTHREADS" using assms(2) by (simp add: fork_env_def)
  from thread_create_result [OF pt inv(2) c, of ma name] show ?thesis
  proof (elim disjE exE conjE)
    assume "thread_create ma name s = Some (0, s)"
    then show ?thesis using assms(1) by (simp add: thread_fork_def sem_added_def)
  next
    fix i th pr s1
    assume cr: "thread_create ma name s = Some (?n, s1)" "created ma name s i th pr s1"
    have i: "?n \<noteq> 0" "1 \<le> i" "i < MAXTHREADS" "p_table s ! i = NULL" using cr(2) by (auto simp: created_def)
    show ?thesis
    proof (cases "ma_stack ma")
      case NULL
      obtain h where s1: "s1 = s\<lparr>sems := h, threads := (threads s)(?n \<mapsto> th), p_table := (p_table s)[i := Ptr pr]\<rparr>"
        using cr(2) by (auto simp: created_def)
      have "ts_inv (s1\<lparr>threads := threads s\<rparr>)"
        using assms(1) by (intro ts_inv_perm [OF assms(1)]) (simp_all add: s1 live_def ts_inv_blocks inv(1))
      moreover have "sem_added ma s (s1\<lparr>threads := threads s\<rparr>)" using cr(2) by (simp add: created_def sem_added_def)
      ultimately show ?thesis using NULL cr(1) i(1) un by (simp add: thread_fork_def s1)
    next
      case (Ptr stk)
      from thread_fork_runs [OF assms Ptr c cr, of start data1 data2 func] show ?thesis
      proof (elim exE conjE disjE)
        fix e s5 th1 w1
        assume s5: "ds_inv s5" "stack_check th1 = Some ()" "t_pid th1 = int i"
            "threads s5 = (threads s)(?n \<mapsto> th1)" "curthread s5 = curthread s"
            "sl_list s5 = sl_list s" "zb_list s5 = zb_list s" "rq_list s5 = rq_list s @ [?n]"
            "numthreads s5 = numthreads s + 1" "numthreads s5 \<le> sl_cap s5" "numthreads s5 \<le> rq_cap s5"
          and so: "sem_added ma s s5" "locks s5 = locks s"
          and run: "thread_fork ops ma start name data1 data2 func s = Some (0, ?n, snd (splx (curspl s) s5))"
        have "ts_inv s5" by (rule ts_inv_forked [OF assms(1) s5(1) i(1) fresh s5(2,4-11)])
        then show ?thesis using run s5 i fresh so by (auto simp: sem_added_def)
      next
        fix e s5 th1 w1
        assume s5: "ds_inv s5" "curthread s5 = curthread s" "sl_list s5 = sl_list s" "zb_list s5 = zb_list s"
            "sl_cap s \<le> sl_cap s5" "rq_cap s \<le> rq_cap s5" "rq_list s5 = rq_list s" "numthreads s5 = numthreads s"
          and so: "sem_added ma s s5" "locks s5 = locks s"
          and run: "thread_fork ops ma start name data1 data2 func s =
            Some (ENOMEM, 0, (snd (splx (curspl s) s5))\<lparr>threads := threads s, world := w1\<rparr>)"
        have "ts_inv ((snd (splx (curspl s) s5))\<lparr>threads := threads s, world := w1\<rparr>)"
          using assms(1) s5 by (intro ts_inv_perm [OF assms(1)]) (simp_all add: live_def ts_inv_blocks)
        then show ?thesis using run s5 so by (auto simp: sem_added_def)
      qed
    qed
  qed
qed

subsection \<open>Wakeup keeps the invariant\<close>

lemma activates_total:
  assumes "\<forall>a w. op_as_activate ops a w \<noteq> None"
  shows "\<exists>w. activates ops s w"
proof (cases "threads s (curthread s)")
  case None
  then show ?thesis by (simp add: activates_def)
next
  case (Some th)
  then show ?thesis using not_None_obtain [OF assms, of "t_vmspace th" "world s"] by (simp add: activates_def)
qed

lemma thread_wakeup_inv:
  assumes "ts_inv s" "0 < curspl s"
  shows "\<exists>s'. thread_wakeup km a s = Some s' \<and> ts_inv s' \<and> curthread s' = curthread s \<and> threads s' = threads s \<and>
    rq_list s' = rq_list s @ filter (sleeping_on (threads s) a) (sl_list s) \<and>
    sl_list s' = filter (\<lambda>t. \<not> sleeping_on (threads s) a t) (sl_list s) \<and>
    zb_list s' = zb_list s \<and> rq_cap s' = rq_cap s \<and> curspl s' = curspl s \<and> in_interrupt s' = in_interrupt s \<and>
    same_objs s s' \<and> world s' = world s"
proof -
  note inv = ts_invD [OF assms(1)]
  let ?P = "sleeping_on (threads s) a"
  have part: "length (filter ?P (sl_list s)) + length (filter (\<lambda>t. \<not> ?P t) (sl_list s)) = length (sl_list s)"
    by (rule sum_length_filter_compl)
  have pos: "0 < rq_cap s" using inv(1) by (auto simp: ds_inv_def rq_cap_def q_inv_def)
  have "int (length (rq_list s) + length (filter ?P (sl_list s))) < rq_cap s"
  proof (cases "numthreads s = 1")
    case True
    then have "length (rq_list s) = 0" "length (sl_list s) = 0" using inv(5) by linarith+
    then show ?thesis using pos by simp
  next
    case False
    then have "numthreads s \<le> rq_cap s" using assms(1) by (simp add: ts_inv_def)
    then show ?thesis using inv(5) part by simp
  qed
  from thread_wakeup_result [OF inv(1) assms(2) inv(6) this, of km] obtain sl q where
    w: "thread_wakeup km a s = Some (s\<lparr>sleepers := Ptr sl, runqueue := Ptr q\<rparr>)" "arr_inv sl" "q_inv q"
      "arr_max sl = sl_cap s" "q_size q = rq_cap s" "arr_list sl = filter (\<lambda>t. \<not> ?P t) (sl_list s)"
      "q_list q = rq_list s @ filter ?P (sl_list s)" by blast
  let ?s' = "s\<lparr>sleepers := Ptr sl, runqueue := Ptr q\<rparr>"
  have "set (live ?s') = set (live s)" "length (live ?s') = length (live s)"
    using w(6,7) part by (auto simp: live_def)
  then have "ts_inv ?s'"
    using assms(1) w inv(1) by (intro ts_inv_perm [OF assms(1)]) (simp_all add: ts_inv_blocks)
  then show ?thesis using w by (intro exI [of _ ?s']) (simp add: same_objs_def)
qed

lemma thread_wakeup_one_result:
  assumes "ts_inv s" "0 < curspl s"
  shows "sl_list s = [] \<and> thread_wakeup_one km a s = None \<or>
    (\<exists>t ts. sl_list s = t # ts \<and> \<not> sleeping_on (threads s) a t \<and> thread_wakeup_one km a s = Some s) \<or>
    (\<exists>t ts s'. sl_list s = t # ts \<and> sleeping_on (threads s) a t \<and> thread_wakeup_one km a s = Some s' \<and> ts_inv s' \<and>
      sl_list s' = ts \<and> rq_list s' = rq_list s @ [t] \<and> curthread s' = curthread s \<and> threads s' = threads s \<and>
      zb_list s' = zb_list s \<and> rq_cap s' = rq_cap s \<and> curspl s' = curspl s \<and> in_interrupt s' = in_interrupt s \<and>
      same_objs s s' \<and> world s' = world s)"
proof (cases "sl_list s")
  case Nil
  obtain sl where sl: "sleepers s = Ptr sl" "arr_inv sl" "sl_list s = arr_list sl"
    using ts_invD(1) [OF assms(1)] by (rule ds_invE)
  then have "array_getguy sl 0 = None" using array_getguy_out [OF sl(2), of 0] Nil by simp
  then show ?thesis using Nil sl(1) assms(2) by (simp add: thread_wakeup_one_def)
next
  case (Cons t ts)
  note inv = ts_invD [OF assms(1)]
  obtain sl where sl: "sleepers s = Ptr sl" "arr_inv sl" "sl_list s = arr_list sl" "sl_cap s = arr_max sl"
    using inv(1) by (rule ds_invE)
  have get: "array_getguy sl 0 = Some t" using array_getguy_in [OF sl(2), of 0] Cons sl(3) by simp
  obtain th where th: "threads s t = Some th" using inv(6) Cons by auto
  show ?thesis
  proof (cases "t_sleepaddr th = a")
    case False
    then show ?thesis using Cons sl get th assms(2) by (simp add: thread_wakeup_one_def sleeping_on_def)
  next
    case True
    obtain sl1 where sl1: "array_remove sl 0 = Some sl1" "arr_inv sl1" "arr_list sl1 = ts" "arr_max sl1 = arr_max sl"
      using array_remove_nth [OF sl(2), of 0] Cons sl(3) by auto
    let ?s1 = "s\<lparr>sleepers := Ptr sl1\<rparr>"
    have "int (length (rq_list ?s1)) + 1 < rq_cap ?s1"
      using inv(5) Cons assms(1) by (auto simp: ts_inv_def)
    then obtain q where q: "make_runnable km t ?s1 = Some (0, ?s1\<lparr>runqueue := Ptr q\<rparr>)" "q_inv q"
        "q_list q = rq_list s @ [t]" "q_size q = rq_cap s"
      using make_runnable_room [of ?s1 km t] inv(1) assms(2) sl1(2) by auto
    let ?s' = "?s1\<lparr>runqueue := Ptr q\<rparr>"
    have "thread_wakeup_one km a s = Some ?s'"
      using assms(2) sl(1) get th True sl1(1) q(1) by (simp add: thread_wakeup_one_def)
    moreover have "set (live ?s') = set (live s)" "length (live ?s') = length (live s)"
      using sl1(3) q(3) Cons by (auto simp: live_def)
    then have "ts_inv ?s'"
      using assms(1) sl1 sl q inv(1) by (intro ts_inv_perm [OF assms(1)]) (simp_all add: ts_inv_blocks)
    ultimately show ?thesis using Cons th True sl1(3) q by (auto simp: sleeping_on_def same_objs_def)
  qed
qed

subsection \<open>A sample state\<close>

text \<open>
  Three threads: 1 is running, 2 is runnable, 3 sleeps on address 9. At this state the
  properties below are instantiated.
\<close>

definition sample_thread :: "int \<Rightarrow> addr \<Rightarrow> thread" where
  "sample_thread pid a = \<lparr>t_pcb = \<lparr>pcb_switchstack = 0, pcb_kstack = 0, pcb_ininterrupt = 0, pcb_badfaultfunc = 0\<rparr>,
     t_name = ''t'', t_sleepaddr = a, t_stack = NULL, t_vmspace = 0, t_cwd = 0, t_pid = pid\<rparr>"

definition sample_state :: "unit kstate" where
  "sample_state = \<lparr>threads = [1 \<mapsto> sample_thread 1 0, 2 \<mapsto> sample_thread 2 0, 3 \<mapsto> sample_thread 3 9],
     sems = Map.empty, locks = Map.empty, cvs = Map.empty, frames = Map.empty, curthread = 1,
     p_table = replicate MAXTHREADS NULL, process_lock = 0,
     sleepers = Ptr \<lparr>arr_num = 1, arr_max = 4, arr_v = Ptr [3, 0, 0, 0]\<rparr>,
     zombies = Ptr \<lparr>arr_num = 0, arr_max = 4, arr_v = Ptr [0, 0, 0, 0]\<rparr>,
     runqueue = Ptr \<lparr>q_size = 4, q_nextwrite = 1, q_nextread = 0, q_data = [2, 0, 0, 0]\<rparr>,
     numthreads = 3, curspl = 15, ie_c = False, in_interrupt = 0, curkstack = 0, lbolt_counter = 0, world = ()\<rparr>"

definition sample_ops :: "unit kops" where
  "sample_ops = \<lparr>op_as_activate = (\<lambda>a w. Some w), op_as_destroy = (\<lambda>a w. Some w), op_incref = (\<lambda>a w. Some w),
     op_decref = (\<lambda>a w. Some w), op_idle = Some\<rparr>"

definition sample_mallocs :: mallocs where
  "sample_mallocs = \<lparr>ma_process = True, ma_thread = 4, ma_block = sample_thread 0 0, ma_name = True, ma_sem = 5,
     ma_semname = True, ma_junk = [], ma_stack = Ptr (replicate STACK_SIZE 0), ma_stackaddr = 0x80010000,
     ma_cells = km_sample\<rparr>"

lemma sample_views:
  "rq_list sample_state = [2]" "sl_list sample_state = [3]" "zb_list sample_state = []"
  "rq_cap sample_state = 4" "sl_cap sample_state = 4" "zb_cap sample_state = 4" "curthread sample_state = 1"
  "numthreads sample_state = 3" "curspl sample_state = 15" "in_interrupt sample_state = 0"
  by (simp_all add: sample_state_def list_views arr_list_def q_list_def q_count_def ring_def)

lemma sample_inv: "ts_inv sample_state"
proof -
  have "ds_inv sample_state" by (simp add: ds_inv_def sample_state_def arr_inv_def q_inv_def)
  moreover have "threads sample_state t = Some (sample_thread (int t) (if t = 3 then 9 else 0))" if "t \<in> {1, 2, 3}" for t
    using that by (auto simp: sample_state_def)
  moreover have "stack_check (sample_thread i a) = Some ()" for i a by (simp add: sample_thread_def stack_check_def)
  ultimately show ?thesis by (auto simp: ts_inv_def live_def sample_views)
qed

lemma sample_fork_env: "fork_env sample_ops sample_mallocs sample_state"
  by (simp add: fork_env_def sample_ops_def sample_mallocs_def sample_state_def km_ok_sample)

subsection \<open>Properties\<close>

text \<open>
  C15: \<open>thread_wakeup\<close> moves exactly the threads that sleep on the given address to the end of
  the run queue, in the order in which they went to sleep, keeps the other sleepers in order,
  and keeps the invariant of the thread system. It needs no memory: whatever \<open>kmalloc\<close> answers,
  no assertion of the loop fails.
\<close>

theorem thread_wakeup_moves_sleepers:
  assumes "ts_inv s" "0 < curspl s"
  shows "\<exists>s'. thread_wakeup km a s = Some s' \<and> ts_inv s' \<and> curthread s' = curthread s \<and> threads s' = threads s \<and>
    rq_list s' = rq_list s @ filter (sleeping_on (threads s) a) (sl_list s) \<and>
    sl_list s' = filter (\<lambda>t. \<not> sleeping_on (threads s) a t) (sl_list s)"
  using thread_wakeup_inv [OF assms, of km a] by blast

theorem thread_wakeup_moves_sleepers_witness:
  "ts_inv sample_state \<and> (\<exists>s'. thread_wakeup km_sample 9 sample_state = Some s' \<and> rq_list s' = [2, 3] \<and> sl_list s' = [])"
proof -
  have "sleeping_on (threads sample_state) 9 3" by (simp add: sleeping_on_def sample_state_def sample_thread_def)
  then show ?thesis
    using thread_wakeup_moves_sleepers [OF sample_inv, of km_sample 9] sample_inv by (auto simp: sample_views)
qed

text \<open>
  C16: \<open>thread_fork\<close> either puts one new thread, with an unused process number, at the end of the
  run queue, or returns \<open>ENOMEM\<close> with the threads as they were. In both cases the invariant of
  the thread system holds afterwards and the interrupt level is restored.
\<close>

theorem thread_fork_adds_one:
  assumes "ts_inv s" "fork_env ops ma s"
  shows "\<exists>e t s'. thread_fork ops ma start name data1 data2 func s = Some (e, t, s') \<and> ts_inv s' \<and>
    curthread s' = curthread s \<and> curspl s' = curspl s \<and> sl_list s' = sl_list s \<and> zb_list s' = zb_list s \<and>
    (e = ENOMEM \<and> t = 0 \<and> rq_list s' = rq_list s \<and> threads s' = threads s \<or>
     e = 0 \<and> t \<noteq> 0 \<and> t \<notin> dom (threads s) \<and> rq_list s' = rq_list s @ [t] \<and>
       (\<exists>th. threads s' = (threads s)(t \<mapsto> th) \<and> 1 \<le> t_pid th \<and> t_pid th < int MAXTHREADS \<and>
         p_table s ! nat (t_pid th) = NULL))"
  using thread_fork_result [OF assms, of start name data1 data2 func] by blast

theorem thread_fork_adds_one_witness:
  "\<exists>e t s'. thread_fork sample_ops sample_mallocs 0 ''child'' 0 0 0 sample_state = Some (e, t, s') \<and> ts_inv s'"
  using thread_fork_adds_one [OF sample_inv sample_fork_env, of 0 "''child''" 0 0 0] by blast

text \<open>
  C17: \<open>thread_sleep\<close> with another thread runnable puts the current thread at the end of the
  sleeper table with its sleep address, and runs the first thread of the run queue. The table
  has a cell for every live thread, so it never fails for lack of memory.
\<close>

theorem thread_sleep_switches:
  assumes "ts_inv s" "0 < curspl s" "in_interrupt s = 0" "rq_list s = x # xs"
  shows "\<exists>s'. thread_sleep_out ops km a s = Some s' \<and> ts_inv s' \<and> curthread s' = x \<and> rq_list s' = xs \<and>
    sl_list s' = sl_list s @ [curthread s] \<and> sleeping_on (threads s') a (curthread s)"
  using thread_sleep_result [OF assms, of ops km a] by (fastforce simp: sleeping_on_def)

theorem thread_sleep_switches_witness:
  "\<exists>s'. thread_sleep_out sample_ops km_sample 7 sample_state = Some s' \<and> curthread s' = 2 \<and> sl_list s' = [3, 1]"
  using thread_sleep_switches [OF sample_inv, of 2 "[]" sample_ops km_sample 7] by (auto simp: sample_views)

text \<open>
  C18: \<open>thread_yield\<close> is round robin: while the ring of the run queue has a free cell (it holds
  one thread less than it has cells) it puts the current thread at the end of the run queue and
  runs the first thread of the result, whatever \<open>kmalloc\<close> answers.
\<close>

theorem thread_yield_round_robin:
  assumes "ts_inv s" "int (length (rq_list s)) + 1 < rq_cap s"
  shows "\<exists>s'. thread_yield_out ops km s = Some (curspl s, True, s') \<and> ts_inv s' \<and> curspl s' = SPL_HIGH \<and>
    curthread s' # rq_list s' = rq_list s @ [curthread s] \<and> sl_list s' = sl_list s"
  using thread_yield_result [OF assms, of ops km] unfolding yielded_def by blast

theorem thread_yield_round_robin_witness:
  "\<exists>s'. thread_yield_out sample_ops km_sample sample_state = Some (15, True, s') \<and> curthread s' = 2 \<and> rq_list s' = [1]"
  using thread_yield_round_robin [OF sample_inv, of sample_ops km_sample] by (auto simp: sample_views)

text \<open>
  C19: a thread that exits with another one runnable and a free cell in the list of zombies
  becomes a zombie, and when the next thread, one that left the processor in \<open>mi_switch\<close> before,
  comes out of the context switch there, it disposes of all zombies: their blocks, and no others,
  are freed, and the invariant holds again. (A new thread starts in \<open>mi_threadstart\<close>, which leaves
  the zombies to the next switch; without a free cell the exit depends on \<open>kmalloc\<close>.)
\<close>

theorem thread_exit_then_exorcise:
  assumes "ts_inv s" "rq_list s = x # xs" "int (length (zb_list s)) < zb_cap s"
    and "\<forall>a w. op_as_destroy ops a w \<noteq> None" "\<forall>a w. op_decref ops a w \<noteq> None" "\<forall>a w. op_as_activate ops a w \<noteq> None"
  shows "\<exists>s1 s2. thread_exit ops km s = Some s1 \<and> zb_list s1 = zb_list s @ [curthread s] \<and>
    mi_switch_in ops km s1 = Some s2 \<and> ts_inv s2 \<and> curthread s2 = x \<and> rq_list s2 = xs \<and> zb_list s2 = [] \<and>
    dom (threads s2) = dom (threads s) - set (curthread s # zb_list s)"
proof -
  obtain th where th: "threads s (curthread s) = Some th" using ts_invD(7) [OF assms(1)] by blast
  obtain w1 where w1: "(if t_vmspace th \<noteq> 0 then op_as_destroy ops (t_vmspace th) (world s) else Some (world s)) = Some w1"
    using not_None_obtain [OF assms(4)] by blast
  obtain w2 where w2: "(if t_cwd th \<noteq> 0 then op_decref ops (t_cwd th) w1 else Some w1) = Some w2"
    using not_None_obtain [OF assms(5)] by blast
  obtain s1 where s1: "thread_exit ops km s = Some s1" "exited_to s s1"
    using thread_exit_result [OF assms(1-3) th w1 w2, of km] by blast
  then have x1: "ts_inv s1" "curspl s1 = SPL_HIGH" "curthread s1 = x" "rq_list s1 = xs" "zb_list s1 = zb_list s @ [curthread s]"
      "dom (threads s1) = dom (threads s)"
    using assms(2) by (auto simp: exited_to_def split: if_splits)
  obtain w where "activates ops s1 w"
    using activates_total [OF assms(6)] by blast
  with mi_switch_in_result [of s1 ops w km] x1 obtain s2 where s2: "mi_switch_in ops km s1 = Some s2" "ts_inv s2"
      "curthread s2 = x" "rq_list s2 = xs" "zb_list s2 = []" "threads s2 = threads s1 |` (- set (zb_list s1))"
    by auto
  have "dom (threads s2) = dom (threads s) - set (curthread s # zb_list s)"
    unfolding s2(6) dom_restrict x1(5,6) by auto
  then show ?thesis using s1(1) x1(5) s2 by blast
qed

theorem thread_exit_then_exorcise_witness:
  "\<exists>s1 s2. thread_exit sample_ops km_sample sample_state = Some s1 \<and> zb_list s1 = [1] \<and>
    mi_switch_in sample_ops km_sample s1 = Some s2 \<and> curthread s2 = 2 \<and> zb_list s2 = []"
  using thread_exit_then_exorcise [OF sample_inv, of 2 "[]" sample_ops km_sample]
  by (auto simp: sample_views sample_ops_def)

text \<open>
  C20: \<open>thread_wakeup_one\<close> looks at the first sleeper only. It wakes it if it sleeps on the
  given address; otherwise nothing happens, even if a later sleeper sleeps on the address; and
  with no sleeper at all the assertion in \<open>array_getguy\<close> stops the kernel.
\<close>

theorem thread_wakeup_one_first_only:
  assumes "ts_inv s" "0 < curspl s"
  shows "case sl_list s of
      [] \<Rightarrow> thread_wakeup_one km a s = None
    | t # ts \<Rightarrow>
        if sleeping_on (threads s) a t
        then \<exists>s'. thread_wakeup_one km a s = Some s' \<and> ts_inv s' \<and> sl_list s' = ts \<and> rq_list s' = rq_list s @ [t]
        else thread_wakeup_one km a s = Some s"
  using thread_wakeup_one_result [OF assms, of km a] by (auto split: list.splits)

theorem thread_wakeup_one_first_only_witness:
  "thread_wakeup_one km_sample 8 sample_state = Some sample_state"
proof -
  have "\<not> sleeping_on (threads sample_state) 8 3" by (simp add: sleeping_on_def sample_state_def sample_thread_def)
  then show ?thesis using thread_wakeup_one_first_only [OF sample_inv, of km_sample 8] by (simp add: sample_views)
qed

text \<open>
  C21: a ring of \<open>n\<close> cells holds \<open>n - 1\<close> threads. When the run queue is full, whatever the number
  of sleepers, and no memory is left to enlarge it, \<open>thread_yield\<close> fails its assertion. Such a
  state satisfies the invariant: \<open>scheduler_preallocate(numthreads+1)\<close> reserves one cell too few.
\<close>

theorem thread_yield_full_queue_panics:
  assumes "ts_inv s" "int (length (rq_list s)) + 1 = rq_cap s" "\<forall>n. km n = NULL"
  shows "thread_yield_out ops km s = None"
proof -
  note inv = ts_invD [OF assms(1)]
  obtain q where q: "runqueue s = Ptr q" "q_inv q" "rq_list s = q_list q" "rq_cap s = q_size q"
    using inv(1) by (rule ds_invE)
  have "int (q_count q) + 1 = q_size q" using assms(2) q(3,4) by (simp add: q_length)
  note full = q_addtail_full_nomem [OF q(2) this assms(3)]
  obtain th where "threads s (curthread s) = Some th" "stack_check th = Some ()" using inv(7) by blast
  then have "mi_switch_out ops km S_READY (snd (splx SPL_HIGH s)) = None"
    using inv(2) q(1) full by (simp add: mi_switch_out_def make_runnable_def on_runqueue_def Let_def)
  then show ?thesis using inv(1) by (auto simp: thread_yield_out_def Let_def split_beta ds_inv_def)
qed

definition sample_full :: "unit kstate" where
  "sample_full = sample_state\<lparr>sleepers := Ptr \<lparr>arr_num = 0, arr_max = 4, arr_v = Ptr [0, 0, 0, 0]\<rparr>,
     runqueue := Ptr \<lparr>q_size = 2, q_nextwrite = 1, q_nextread = 0, q_data = [2, 0]\<rparr>, numthreads := 2\<rparr>"

theorem thread_yield_full_queue_panics_witness:
  "ts_inv sample_full \<and> thread_yield_out sample_ops (\<lambda>n. NULL) sample_full = None"
proof -
  have v: "rq_list sample_full = [2]" "sl_list sample_full = []" "zb_list sample_full = []" "rq_cap sample_full = 2"
    "sl_cap sample_full = 4" "curthread sample_full = 1" "numthreads sample_full = 2"
    by (simp_all add: sample_full_def sample_state_def list_views arr_list_def q_list_def q_count_def ring_def)
  have "ds_inv sample_full" by (simp add: ds_inv_def sample_full_def sample_state_def arr_inv_def q_inv_def)
  moreover have "threads sample_full 1 = Some (sample_thread 1 0)" "threads sample_full 2 = Some (sample_thread 2 0)"
    by (simp_all add: sample_full_def sample_state_def)
  moreover have "stack_check (sample_thread i a) = Some ()" for i a by (simp add: sample_thread_def stack_check_def)
  ultimately have "ts_inv sample_full" by (auto simp: ts_inv_def live_def v)
  then show ?thesis using thread_yield_full_queue_panics [of sample_full "\<lambda>n. NULL" sample_ops] by (simp add: v)
qed

text \<open>
  C22: emptying the list of zombies gives its memory back when it had more than 16 cells, so
  what \<open>thread_fork\<close> reserved is lost: if there is no memory when the next thread exits, the
  context switch fails its assertion.
\<close>

theorem exorcise_drops_reserved_cells:
  assumes "ts_inv s" "0 < curspl s" "16 < zb_cap s" "\<forall>n. km n = NULL"
  shows "\<exists>s'. exorcise km s = Some s' \<and> ts_inv s' \<and> zb_cap s' = 0 \<and> mi_switch_out ops km S_ZOMB s' = None"
proof -
  obtain z where z: "zombies s = Ptr z" "arr_inv z" "zb_cap s = arr_max z" using ts_invD(1) [OF assms(1)] by (rule ds_invE)
  have "arr_v z \<noteq> NULL" using z assms(3) by (auto simp: arr_inv_def)
  then have "array_setsize km z 0 = Some (0, z\<lparr>arr_v := NULL, arr_max := 0, arr_num := 0\<rparr>)"
    using z assms(3) by (simp add: array_setsize_def arr_inv_def)
  then have ex: "exorcise km s = Some (s\<lparr>threads := threads s |` (- set (zb_list s)),
      zombies := Ptr \<lparr>arr_num = 0, arr_max = 0, arr_v = NULL\<rparr>\<rparr>)"
    using exorcise_zombies [OF assms(1,2) z(1), of km] by simp
  let ?z = "\<lparr>arr_num = 0, arr_max = 0, arr_v = NULL\<rparr> :: addr karray"
  let ?s = "s\<lparr>threads := threads s |` (- set (zb_list s)), zombies := Ptr ?z\<rparr>"
  have zi: "arr_inv ?z" "arr_list ?z = []" by (simp_all add: arr_inv_def arr_list_def)
  have inv: "ts_inv ?s" by (rule ts_inv_no_zombies [OF assms(1) zi])
  obtain th where th: "threads ?s (curthread ?s) = Some th" "stack_check th = Some ()" using ts_invD(7) [OF inv] by blast
  have "array_add km ?z (curthread s) = Some (ENOMEM, ?z)"
    using array_add_full_nomem [OF zi(1) _ assms(4)] by simp
  then have "mi_switch_out ops km S_ZOMB ?s = None"
    using th assms(2) ts_invD(2) [OF inv] by (simp add: mi_switch_out_def on_zombies_def Let_def)
  then show ?thesis using ex inv by auto
qed

theorem exorcise_drops_reserved_cells_witness:
  "\<exists>s s'. ts_inv s \<and> exorcise (\<lambda>n. NULL) s = Some s' \<and> mi_switch_out sample_ops (\<lambda>n. NULL) S_ZOMB s' = None"
proof -
  let ?s = "sample_state\<lparr>zombies := Ptr \<lparr>arr_num = 0, arr_max = 20, arr_v = Ptr (replicate 20 0)\<rparr>\<rparr>"
  have a: "arr_inv \<lparr>arr_num = 0, arr_max = 20, arr_v = Ptr (replicate 20 0)\<rparr>" "arr_list \<lparr>arr_num = 0, arr_max = 20, arr_v = Ptr (replicate 20 0)\<rparr> = []"
    by (simp_all add: arr_inv_def arr_list_def)
  have "ts_inv ?s" using ts_inv_no_zombies [OF sample_inv a] by (simp add: sample_views restrict_map_def)
  moreover have "0 < curspl ?s" "16 < zb_cap ?s" by (simp_all add: sample_views)
  ultimately show ?thesis using exorcise_drops_reserved_cells [of ?s "\<lambda>n. NULL" sample_ops] by blast
qed

text \<open>
  C23: when \<open>thread_fork\<close> cannot allocate the stack it frees the new thread but leaves its entry
  in the process table, so the process number is never used again and the entry points to
  freed memory.
\<close>

theorem thread_fork_failure_leaks_pid:
  assumes "ts_inv s" "fork_env ops ma s" "ma_stack ma = NULL" "thread_create ma name s = Some (ma_thread ma, s1)" "ma_thread ma \<noteq> 0"
  shows "\<exists>s' i pr. thread_fork ops ma start name data1 data2 func s = Some (ENOMEM, 0, s') \<and>
    p_table s ! i = NULL \<and> p_table s' ! i = Ptr pr \<and> threads s' (proc_me pr) = None"
proof -
  obtain c where c: "threads s (curthread s) = Some c" using ts_invD(7) [OF assms(1)] by blast
  have pt: "length (p_table s) = MAXTHREADS" using assms(2) by (simp add: fork_env_def)
  obtain i th pr where "created ma name s i th pr s1"
    using thread_create_result [OF pt ts_invD(2) [OF assms(1)] c, of ma name] assms(4,5) by auto
  then obtain h where s1: "s1 = s\<lparr>sems := h, threads := (threads s)(ma_thread ma \<mapsto> th), p_table := (p_table s)[i := Ptr pr]\<rparr>"
    "i < MAXTHREADS" "p_table s ! i = NULL" "proc_me pr = ma_thread ma" by (auto simp: created_def)
  let ?s' = "s1\<lparr>threads := (threads s1)(ma_thread ma := None)\<rparr>"
  have "thread_fork ops ma start name data1 data2 func s = Some (ENOMEM, 0, ?s')"
    using assms(3-5) by (simp add: thread_fork_def)
  then show ?thesis using s1 pt by (intro exI [of _ ?s'] exI [of _ i] exI [of _ pr]) simp
qed

theorem thread_fork_failure_leaks_pid_witness:
  "\<exists>s' i pr. thread_fork sample_ops (sample_mallocs\<lparr>ma_stack := NULL\<rparr>) 0 ''child'' 0 0 0 sample_state = Some (ENOMEM, 0, s') \<and>
    p_table sample_state ! i = NULL \<and> p_table s' ! i = Ptr pr \<and> threads s' (proc_me pr) = None"
proof -
  let ?ma = "sample_mallocs\<lparr>ma_stack := NULL\<rparr>"
  have env: "fork_env sample_ops ?ma sample_state" using sample_fork_env by (simp add: fork_env_def sample_mallocs_def)
  have p: "[1..<MAXTHREADS] = 1 # [2..<MAXTHREADS]" by (simp add: MAXTHREADS_def upt_conv_Cons)
  have "\<exists>s1. thread_create ?ma ''child'' sample_state = Some (ma_thread ?ma, s1)"
    unfolding thread_create_def p
    by (simp add: sample_state_def sample_mallocs_def sem_create_def Let_def MAXTHREADS_def)
  then show ?thesis
    using thread_fork_failure_leaks_pid [OF sample_inv env, of "''child''" _ 0 0 0 0] by (auto simp: sample_mallocs_def)
qed

end
