(* ===== verification/K_Synch.thy ===== *)
theory K_Synch
  imports K_Thread_Laws
begin

section \<open>Synchronisation: \<^verbatim>\<open>kern/thread/synch.c\<close>\<close>

text \<open>
  Semaphores, locks and condition variables. An operation that can sleep comes in two parts:
  the run up to the point where it has either finished or put the thread to sleep, and the
  run from there when the thread is chosen again. The first component of the result tells
  whether the operation has finished; the interrupt level that \<open>splhigh\<close> returned is kept for
  the second part.
\<close>

subsection \<open>Semaphores\<close>

definition sem_destroy :: "addr \<Rightarrow> 'm kstate \<Rightarrow> 'm kstate option" where
  "sem_destroy a s = do {
     kassert (a \<noteq> 0);
     let (spl, s1) = splhigh s;
     busy \<leftarrow> thread_hassleepers a s1;
     kassert (\<not> busy);
     let s2 = snd (splx spl s1);
     sem \<leftarrow> sems s2 a;
     Some (s2\<lparr>sems := (sems s2)(a := None)\<rparr>)
   }"

text \<open>The loop \<open>while (sem->count==0) thread_sleep(sem);\<close> and what follows it.\<close>

definition P_loop :: "'m kops \<Rightarrow> (nat \<Rightarrow> addr list nullable) \<Rightarrow> addr \<Rightarrow> int \<Rightarrow> 'm kstate \<Rightarrow> (bool \<times> 'm kstate) option" where
  "P_loop ops km a spl s = do {
     sem \<leftarrow> sems s a;
     if sem_count sem = 0 then do {
       s1 \<leftarrow> thread_sleep_out ops km a s;
       Some (False, s1)
     } else do {
       kassert (sem_count sem > 0);
       Some (True, snd (splx spl (s\<lparr>sems := (sems s)(a \<mapsto> sem\<lparr>sem_count := sem_count sem - 1\<rparr>)\<rparr>)))
     }
   }"

definition P :: "'m kops \<Rightarrow> (nat \<Rightarrow> addr list nullable) \<Rightarrow> addr \<Rightarrow> 'm kstate \<Rightarrow> (bool \<times> int \<times> 'm kstate) option" where
  "P ops km a s = do {
     kassert (a \<noteq> 0);
     kassert (in_interrupt s = 0);
     let (spl, s1) = splhigh s;
     (fin, s2) \<leftarrow> P_loop ops km a spl s1;
     Some (fin, spl, s2)
   }"

definition P_resume :: "'m kops \<Rightarrow> (nat \<Rightarrow> addr list nullable) \<Rightarrow> addr \<Rightarrow> int \<Rightarrow> 'm kstate \<Rightarrow> (bool \<times> 'm kstate) option" where
  "P_resume ops km a spl s = do {
     s1 \<leftarrow> thread_sleep_in ops km s;
     P_loop ops km a spl s1
   }"

definition V :: "(nat \<Rightarrow> addr list nullable) \<Rightarrow> addr \<Rightarrow> 'm kstate \<Rightarrow> 'm kstate option" where
  "V km a s = do {
     kassert (a \<noteq> 0);
     let (spl, s1) = splhigh s;
     sem \<leftarrow> sems s1 a;
     n \<leftarrow> cint (sem_count sem + 1);
     kassert (n > 0);
     s2 \<leftarrow> thread_wakeup km a (s1\<lparr>sems := (sems s1)(a \<mapsto> sem\<lparr>sem_count := n\<rparr>)\<rparr>);
     Some (snd (splx spl s2))
   }"

subsection \<open>Locks\<close>

definition lock_destroy :: "addr \<Rightarrow> 'm kstate \<Rightarrow> 'm kstate option" where
  "lock_destroy a s = do {
     kassert (a \<noteq> 0);
     lock \<leftarrow> locks s a;
     Some (s\<lparr>locks := (locks s)(a := None)\<rparr>)
   }"

definition lock_do_i_hold :: "addr \<Rightarrow> 'm kstate \<Rightarrow> (bool \<times> 'm kstate) option" where
  "lock_do_i_hold a s = do {
     kassert (a \<noteq> 0);
     let (old_spl, s1) = splhigh s;
     lock \<leftarrow> locks s1 a;
     if lock_holder lock = curthread s1 then Some (True, snd (splx old_spl s1))
     else Some (False, snd (splx old_spl s1))
   }"

definition lock_acquire_loop :: "'m kops \<Rightarrow> (nat \<Rightarrow> addr list nullable) \<Rightarrow> addr \<Rightarrow> int \<Rightarrow> 'm kstate \<Rightarrow> (bool \<times> 'm kstate) option" where
  "lock_acquire_loop ops km a old_spl s = do {
     lock \<leftarrow> locks s a;
     if lock_holder lock \<noteq> 0 then do {
       s1 \<leftarrow> thread_sleep_out ops km a s;
       Some (False, s1)
     } else Some (True, snd (splx old_spl (s\<lparr>locks := (locks s)(a \<mapsto> lock\<lparr>lock_holder := curthread s\<rparr>)\<rparr>)))
   }"

definition lock_acquire :: "'m kops \<Rightarrow> (nat \<Rightarrow> addr list nullable) \<Rightarrow> addr \<Rightarrow> 'm kstate \<Rightarrow> (bool \<times> int \<times> 'm kstate) option" where
  "lock_acquire ops km a s = do {
     kassert (a \<noteq> 0);
     let (old_spl, s1) = splhigh s;
     (mine, s2) \<leftarrow> lock_do_i_hold a s1;
     kassert (\<not> mine);
     (fin, s3) \<leftarrow> lock_acquire_loop ops km a old_spl s2;
     Some (fin, old_spl, s3)
   }"

definition lock_acquire_resume :: "'m kops \<Rightarrow> (nat \<Rightarrow> addr list nullable) \<Rightarrow> addr \<Rightarrow> int \<Rightarrow> 'm kstate \<Rightarrow> (bool \<times> 'm kstate) option" where
  "lock_acquire_resume ops km a old_spl s = do {
     s1 \<leftarrow> thread_sleep_in ops km s;
     lock_acquire_loop ops km a old_spl s1
   }"

definition lock_release :: "(nat \<Rightarrow> addr list nullable) \<Rightarrow> addr \<Rightarrow> 'm kstate \<Rightarrow> 'm kstate option" where
  "lock_release km a s = do {
     kassert (a \<noteq> 0);
     let (old_spl, s1) = splhigh s;
     lock \<leftarrow> locks s1 a;
     kassert (lock_holder lock = curthread s1);
     s2 \<leftarrow> thread_wakeup km a (s1\<lparr>locks := (locks s1)(a \<mapsto> lock\<lparr>lock_holder := 0\<rparr>)\<rparr>);
     Some (snd (splx old_spl s2))
   }"

subsection \<open>Condition variables\<close>

definition cv_destroy :: "addr \<Rightarrow> 'm kstate \<Rightarrow> 'm kstate option" where
  "cv_destroy a s = do {
     kassert (a \<noteq> 0);
     name \<leftarrow> cvs s a;
     Some (s\<lparr>cvs := (cvs s)(a := None)\<rparr>)
   }"

text \<open>\<open>cv_wait\<close> up to the sleep on the condition variable.\<close>

definition cv_wait_out :: "'m kops \<Rightarrow> (nat \<Rightarrow> addr list nullable) \<Rightarrow> addr \<Rightarrow> addr \<Rightarrow> 'm kstate \<Rightarrow> (int \<times> 'm kstate) option" where
  "cv_wait_out ops km cv lock s = do {
     kassert (lock \<noteq> 0);
     kassert (cv \<noteq> 0);
     let (old_spl, s1) = splhigh s;
     s2 \<leftarrow> lock_release km lock s1;
     s3 \<leftarrow> thread_sleep_out ops km cv s2;
     Some (old_spl, s3)
   }"

text \<open>
  \<open>cv_wait\<close> after the wakeup; the thread may sleep again in \<open>lock_acquire\<close>, from where
  \<open>cv_wait_relock\<close> goes on.
\<close>

definition cv_wait_in :: "'m kops \<Rightarrow> (nat \<Rightarrow> addr list nullable) \<Rightarrow> addr \<Rightarrow> int \<Rightarrow> 'm kstate \<Rightarrow> (bool \<times> int \<times> 'm kstate) option" where
  "cv_wait_in ops km lock old_spl s = do {
     s1 \<leftarrow> thread_sleep_in ops km s;
     s2 \<leftarrow> thread_wakeup km lock s1;
     (fin, spl, s3) \<leftarrow> lock_acquire ops km lock s2;
     if fin then Some (True, spl, snd (splx old_spl s3)) else Some (False, spl, s3)
   }"

definition cv_wait_relock :: "'m kops \<Rightarrow> (nat \<Rightarrow> addr list nullable) \<Rightarrow> addr \<Rightarrow> int \<Rightarrow> int \<Rightarrow> 'm kstate \<Rightarrow> (bool \<times> 'm kstate) option" where
  "cv_wait_relock ops km lock spl old_spl s = do {
     (fin, s1) \<leftarrow> lock_acquire_resume ops km lock spl s;
     if fin then Some (True, snd (splx old_spl s1)) else Some (False, s1)
   }"

definition cv_signal :: "(nat \<Rightarrow> addr list nullable) \<Rightarrow> addr \<Rightarrow> addr \<Rightarrow> 'm kstate \<Rightarrow> 'm kstate option" where
  "cv_signal km cv lock s = do {
     kassert (lock \<noteq> 0);
     kassert (cv \<noteq> 0);
     let (old_spl, s1) = splhigh s;
     (mine, s2) \<leftarrow> lock_do_i_hold lock s1;
     kassert mine;
     s3 \<leftarrow> thread_wakeup_one km cv s2;
     Some (snd (splx old_spl s3))
   }"

definition cv_broadcast :: "(nat \<Rightarrow> addr list nullable) \<Rightarrow> addr \<Rightarrow> addr \<Rightarrow> 'm kstate \<Rightarrow> 'm kstate option" where
  "cv_broadcast km cv lock s = do {
     kassert (lock \<noteq> 0);
     kassert (cv \<noteq> 0);
     let (old_spl, s1) = splhigh s;
     (mine, s2) \<leftarrow> lock_do_i_hold lock s1;
     kassert mine;
     s3 \<leftarrow> thread_wakeup km cv s2;
     Some (snd (splx old_spl s3))
   }"

end
