(* ===== verification/K_Synch_System.thy ===== *)
theory K_Synch_System
  imports K_Synch
begin

section \<open>Threads that synchronise: a step relation and its invariants\<close>

text \<open>
  The kernel as a transition system. A state is the kernel state together with the point at
  which every thread that is not running its own code has stopped: in \<open>thread_yield\<close>, in the
  loop of \<open>P\<close> or \<open>lock_acquire\<close>, asleep in \<open>cv_wait\<close>, or newly created. Two components record
  the history: \<open>held\<close> the locks that threads have acquired and not yet released, \<open>bal\<close> the
  initial count of a semaphore plus the number of its \<open>V\<close>s minus the number of completed \<open>P\<close>s.

  A step is one run of the current thread: a whole call of an operation, up to its end or to the
  context switch in it, or the rest of an operation after a context switch. Interrupts are off
  during a run, so runs do not interleave. The steps cover the switches at which some thread
  is runnable; the idle loop of the scheduler is not a step.
\<close>

datatype kont =
    Run
  | K_start
  | K_yield int
  | K_P addr int
  | K_acquire addr int
  | K_cv addr addr int
  | K_relock addr int int

record 'm sys =
  ks :: "'m kstate"
  kont_of :: "addr \<Rightarrow> kont"
  held :: "(addr \<times> addr) set"
  bal :: "addr \<Rightarrow> int"

text \<open>The step of a thread: new kernel state and new stopping point of the current thread.\<close>

definition moved :: "'m sys \<Rightarrow> 'm kstate \<Rightarrow> kont \<Rightarrow> 'm sys" where
  "moved S s' k = S\<lparr>ks := s', kont_of := (kont_of S)(curthread (ks S) := k)\<rparr>"

definition took :: "addr \<Rightarrow> bool \<Rightarrow> 'm sys \<Rightarrow> 'm sys" where
  "took a fin S = (if fin then S\<lparr>bal := (bal S)(a := bal S a - 1)\<rparr> else S)"

definition locked :: "addr \<Rightarrow> addr \<Rightarrow> bool \<Rightarrow> 'm sys \<Rightarrow> 'm sys" where
  "locked t l fin S = (if fin then S\<lparr>held := insert (t, l) (held S)\<rparr> else S)"

definition unlocked :: "addr \<Rightarrow> addr \<Rightarrow> 'm sys \<Rightarrow> 'm sys" where
  "unlocked t l S = S\<lparr>held := held S - {(t, l)}\<rparr>"

inductive sys_step :: "'m kops \<Rightarrow> 'm sys \<Rightarrow> 'm sys \<Rightarrow> bool" for ops where
  step_P: "\<lbrakk>kont_of S (curthread (ks S)) = Run; km_ok km; P ops km a (ks S) = Some (fin, spl, s');
      fin \<or> rq_list (ks S) \<noteq> []\<rbrakk>
    \<Longrightarrow> sys_step ops S (took a fin (moved S s' (if fin then Run else K_P a spl)))"
| step_P_resume: "\<lbrakk>kont_of S (curthread (ks S)) = K_P a spl; km_ok km; P_resume ops km a spl (ks S) = Some (fin, s');
      fin \<or> rq_list (ks S) \<noteq> []\<rbrakk>
    \<Longrightarrow> sys_step ops S (took a fin (moved S s' (if fin then Run else K_P a spl)))"
| step_V: "\<lbrakk>kont_of S (curthread (ks S)) = Run; km_ok km; V km a (ks S) = Some s'\<rbrakk>
    \<Longrightarrow> sys_step ops S ((moved S s' Run)\<lparr>bal := (bal S)(a := bal S a + 1)\<rparr>)"
| step_acquire: "\<lbrakk>kont_of S (curthread (ks S)) = Run; km_ok km; lock_acquire ops km l (ks S) = Some (fin, spl, s');
      fin \<or> rq_list (ks S) \<noteq> []\<rbrakk>
    \<Longrightarrow> sys_step ops S (locked (curthread (ks S)) l fin (moved S s' (if fin then Run else K_acquire l spl)))"
| step_acquire_resume: "\<lbrakk>kont_of S (curthread (ks S)) = K_acquire l spl; km_ok km;
      lock_acquire_resume ops km l spl (ks S) = Some (fin, s'); fin \<or> rq_list (ks S) \<noteq> []\<rbrakk>
    \<Longrightarrow> sys_step ops S (locked (curthread (ks S)) l fin (moved S s' (if fin then Run else K_acquire l spl)))"
| step_release: "\<lbrakk>kont_of S (curthread (ks S)) = Run; km_ok km; lock_release km l (ks S) = Some s'\<rbrakk>
    \<Longrightarrow> sys_step ops S (unlocked (curthread (ks S)) l (moved S s' Run))"
| step_cv_wait: "\<lbrakk>kont_of S (curthread (ks S)) = Run; km_ok km; cv_wait_out ops km c l (ks S) = Some (spl, s');
      rq_list (ks S) \<noteq> []\<rbrakk>
    \<Longrightarrow> sys_step ops S (unlocked (curthread (ks S)) l (moved S s' (K_cv c l spl)))"
| step_cv_wake: "\<lbrakk>kont_of S (curthread (ks S)) = K_cv c l spl; km_ok km;
      cv_wait_in ops km l spl (ks S) = Some (fin, spl1, s'); fin \<or> rq_list (ks S) \<noteq> []\<rbrakk>
    \<Longrightarrow> sys_step ops S (locked (curthread (ks S)) l fin (moved S s' (if fin then Run else K_relock l spl1 spl)))"
| step_cv_relock: "\<lbrakk>kont_of S (curthread (ks S)) = K_relock l spl1 spl; km_ok km;
      cv_wait_relock ops km l spl1 spl (ks S) = Some (fin, s'); fin \<or> rq_list (ks S) \<noteq> []\<rbrakk>
    \<Longrightarrow> sys_step ops S (locked (curthread (ks S)) l fin (moved S s' (if fin then Run else K_relock l spl1 spl)))"
| step_cv_signal: "\<lbrakk>kont_of S (curthread (ks S)) = Run; km_ok km; cv_signal km c l (ks S) = Some s'\<rbrakk>
    \<Longrightarrow> sys_step ops S (moved S s' Run)"
| step_cv_broadcast: "\<lbrakk>kont_of S (curthread (ks S)) = Run; km_ok km; cv_broadcast km c l (ks S) = Some s'\<rbrakk>
    \<Longrightarrow> sys_step ops S (moved S s' Run)"
| step_yield: "\<lbrakk>kont_of S (curthread (ks S)) = Run; km_ok km; thread_yield_out ops km (ks S) = Some (spl, sw, s')\<rbrakk>
    \<Longrightarrow> sys_step ops S (moved S s' (K_yield spl))"
| step_yield_resume: "\<lbrakk>kont_of S (curthread (ks S)) = K_yield spl; km_ok km; thread_yield_in ops km spl (ks S) = Some s'\<rbrakk>
    \<Longrightarrow> sys_step ops S (moved S s' Run)"
| step_fork: "\<lbrakk>kont_of S (curthread (ks S)) = Run; fork_env ops ma (ks S);
      ma_sem ma \<notin> dom (sems (ks S));
      thread_fork ops ma start name data1 data2 func (ks S) = Some (e, t, s')\<rbrakk>
    \<Longrightarrow> sys_step ops S ((moved S s' Run)\<lparr>kont_of := (kont_of S)(t := K_start), bal := (bal S)(ma_sem ma := 0)\<rparr>)"
| step_start: "\<lbrakk>kont_of S (curthread (ks S)) = K_start; mi_threadstart ops (ks S) = Some s'\<rbrakk>
    \<Longrightarrow> sys_step ops S (moved S s' Run)"
| step_exit: "\<lbrakk>kont_of S (curthread (ks S)) = Run; km_ok km; thread_exit ops km (ks S) = Some s'; rq_list (ks S) \<noteq> []\<rbrakk>
    \<Longrightarrow> sys_step ops S (moved S s' Run)"

subsection \<open>Invariant\<close>

text \<open>What a stopped thread sleeps on, and why it may not go on.\<close>

fun waits_on :: "kont \<Rightarrow> addr option" where
  "waits_on (K_P a spl) = Some a"
| "waits_on (K_acquire l spl) = Some l"
| "waits_on (K_cv c l spl) = Some c"
| "waits_on (K_relock l spl1 spl) = Some l"
| "waits_on k = None"

fun stuck :: "'m kstate \<Rightarrow> kont \<Rightarrow> bool" where
  "stuck s (K_P a spl) = (\<exists>sem. sems s a = Some sem \<and> sem_count sem = 0)"
| "stuck s (K_acquire l spl) = (\<exists>lk. locks s l = Some lk \<and> lock_holder lk \<noteq> 0)"
| "stuck s (K_relock l spl1 spl) = (\<exists>lk. locks s l = Some lk \<and> lock_holder lk \<noteq> 0)"
| "stuck s k = True"

definition sleepers_ok :: "'m kstate \<Rightarrow> (addr \<Rightarrow> kont) \<Rightarrow> bool" where
  "sleepers_ok s k \<longleftrightarrow> (\<forall>t \<in> set (sl_list s). \<exists>th. threads s t = Some th \<and>
     waits_on (k t) = Some (t_sleepaddr th) \<and> stuck s (k t))"

definition locks_ok :: "'m kstate \<Rightarrow> (addr \<times> addr) set \<Rightarrow> bool" where
  "locks_ok s H \<longleftrightarrow> (\<forall>t l. (t, l) \<in> H \<longleftrightarrow> t \<noteq> 0 \<and> (\<exists>lk. locks s l = Some lk \<and> lock_holder lk = t))"

definition sems_ok :: "'m kstate \<Rightarrow> (addr \<Rightarrow> int) \<Rightarrow> bool" where
  "sems_ok s b \<longleftrightarrow> (\<forall>a sem. sems s a = Some sem \<longrightarrow> sem_count sem = b a \<and> 0 \<le> b a)"

definition sync_inv :: "'m sys \<Rightarrow> bool" where
  "sync_inv S \<longleftrightarrow> ts_inv (ks S) \<and> sleepers_ok (ks S) (kont_of S) \<and> locks_ok (ks S) (held S) \<and> sems_ok (ks S) (bal S)"

subsection \<open>Frame lemmas\<close>

declare sync_inv_def [inv_defs]

lemma stuck_cong: "sems s' = sems s \<Longrightarrow> locks s' = locks s \<Longrightarrow> stuck s' k = stuck s k"
  by (cases k) simp_all

lemma sleepers_ok_cong:
  assumes "sl_list s' = sl_list s" "sems s' = sems s" "locks s' = locks s"
    and "\<forall>t \<in> set (sl_list s). threads s' t = threads s t \<and> k' t = k t"
  shows "sleepers_ok s' k' = sleepers_ok s k"
proof -
  have "\<And>k. stuck s' k = stuck s k" using assms(2,3) by (rule stuck_cong)
  then show ?thesis using assms(1,4) by (simp add: sleepers_ok_def)
qed

lemma sleepers_ok_splx [simp]: "sleepers_ok (snd (splx n s)) k = sleepers_ok s k"
  by (rule sleepers_ok_cong) simp_all

lemma objs_splx [simp]: "locks_ok (snd (splx n s)) H = locks_ok s H" "sems_ok (snd (splx n s)) b = sems_ok s b"
  by (simp_all add: locks_ok_def sems_ok_def)

lemma cur_not_sleeping: "ts_inv s \<Longrightarrow> curthread s \<notin> set (sl_list s)"
  by (simp add: ts_inv_def live_def)

lemma zombie_not_sleeping: "ts_inv s \<Longrightarrow> t \<in> set (sl_list s) \<Longrightarrow> t \<notin> set (zb_list s)"
  by (auto simp: ts_inv_def live_def)

lemma sleepers_ok_cur [simp]: "ts_inv s \<Longrightarrow> sleepers_ok s (k(curthread s := x)) = sleepers_ok s k"
  by (rule sleepers_ok_cong) (auto dest: cur_not_sleeping)

text \<open>Going to sleep, with a reason to.\<close>

lemma sleep_out_ok:
  assumes "ts_inv s" "sleepers_ok s k" "0 < curspl s" "rq_list s \<noteq> []" "thread_sleep_out ops km a s = Some s'"
    and "waits_on kk = Some a" "stuck s kk"
  shows "ts_inv s'" "sleepers_ok s' (k(curthread s := kk))" "same_objs s s'"
proof -
  obtain x xs where x: "rq_list s = x # xs" using assms(4) by (cases "rq_list s") auto
  have "in_interrupt s = 0" using assms(5) by (auto simp: thread_sleep_out_def bind_eq_Some_conv)
  from thread_sleep_result [OF assms(1,3) this x, of ops km a] assms(5) obtain th p where
    s': "ts_inv s'" "sl_list s' = sl_list s @ [curthread s]" "same_objs s s'"
      "threads s' = (threads s)(curthread s \<mapsto> th\<lparr>t_sleepaddr := a, t_pcb := p\<rparr>)" by auto
  have st: "stuck s' kq = stuck s kq" for kq using s'(3) by (intro stuck_cong) (simp_all add: same_objs_def)
  show "ts_inv s'" "same_objs s s'" by (rule s')+
  show "sleepers_ok s' (k(curthread s := kk))"
    using assms(2,6,7) s'(2,4) cur_not_sleeping [OF assms(1)] by (auto simp: sleepers_ok_def st)
qed

text \<open>Waking up the sleepers on an object that has just changed.\<close>

lemma wakeup_ok:
  assumes "ts_inv s" "0 < curspl s" "thread_wakeup km a s = Some s'"
    and "\<forall>t \<in> set (sl_list s). \<exists>th. threads s t = Some th \<and> waits_on (k t) = Some (t_sleepaddr th) \<and>
      (t_sleepaddr th \<noteq> a \<longrightarrow> stuck s (k t))"
  shows "ts_inv s'" "sleepers_ok s' k" "same_objs s s'" "curthread s' = curthread s" "curspl s' = curspl s"
    "rq_list s' = rq_list s @ filter (sleeping_on (threads s) a) (sl_list s)" "in_interrupt s' = in_interrupt s"
proof -
  from thread_wakeup_inv [OF assms(1,2), of km a] assms(3) have
    s': "ts_inv s'" "curthread s' = curthread s" "threads s' = threads s" "curspl s' = curspl s" "same_objs s s'"
      "sl_list s' = filter (\<lambda>t. \<not> sleeping_on (threads s) a t) (sl_list s)" "in_interrupt s' = in_interrupt s"
      "rq_list s' = rq_list s @ filter (sleeping_on (threads s) a) (sl_list s)" by auto
  have st: "stuck s' kq = stuck s kq" for kq using s'(5) by (intro stuck_cong) (simp_all add: same_objs_def)
  show "sleepers_ok s' k" unfolding sleepers_ok_def
  proof
    fix t assume t: "t \<in> set (sl_list s')"
    then obtain th where "threads s t = Some th" "waits_on (k t) = Some (t_sleepaddr th)"
        "t_sleepaddr th \<noteq> a \<longrightarrow> stuck s (k t)" "\<not> sleeping_on (threads s) a t"
      using assms(4) s'(6) by auto
    then show "\<exists>th. threads s' t = Some th \<and> waits_on (k t) = Some (t_sleepaddr th) \<and> stuck s' (k t)"
      using s'(3) by (auto simp: sleeping_on_def st)
  qed
qed (use thread_wakeup_inv [OF assms(1,2), of km a] assms(3) in auto)

lemma sleepers_wakeable:
  assumes "sleepers_ok s k" "sl_list s1 = sl_list s" "threads s1 = threads s"
    and "\<And>kq. stuck s kq \<Longrightarrow> waits_on kq \<noteq> Some a \<Longrightarrow> stuck s1 kq"
  shows "\<forall>t \<in> set (sl_list s1). \<exists>th. threads s1 t = Some th \<and> waits_on (k t) = Some (t_sleepaddr th) \<and>
      (t_sleepaddr th \<noteq> a \<longrightarrow> stuck s1 (k t))"
  using assms unfolding sleepers_ok_def by fastforce

text \<open>Coming back from a context switch.\<close>

lemma switch_in_ok:
  assumes "ts_inv s" "sleepers_ok s k" "mi_switch_in ops km s = Some s'"
  shows "ts_inv s'" "sleepers_ok s' k" "same_objs s s'" "curthread s' = curthread s" "curspl s' = curspl s"
    "0 < curspl s" "rq_list s' = rq_list s" "in_interrupt s' = in_interrupt s"
proof -
  note i = mi_switch_in_some [OF assms(1,3)]
  have "sleepers_ok s' k = sleepers_ok s k"
    using i zombie_not_sleeping [OF assms(1)] by (intro sleepers_ok_cong) (auto simp: same_objs_def restrict_map_def)
  then show "sleepers_ok s' k" using assms(2) by simp
qed (use mi_switch_in_some [OF assms(1,3)] in auto)

lemma sleep_in_ok:
  assumes "ts_inv s" "sleepers_ok s k" "thread_sleep_in ops km s = Some s'"
  shows "ts_inv s'" "sleepers_ok s' k" "same_objs s s'" "curthread s' = curthread s" "curspl s' = curspl s"
    "0 < curspl s" "rq_list s' = rq_list s" "in_interrupt s' = in_interrupt s"
proof -
  obtain s1 th where s1: "mi_switch_in ops km s = Some s1" "threads s1 (curthread s1) = Some th"
      "s' = s1\<lparr>threads := (threads s1)(curthread s1 \<mapsto> th\<lparr>t_sleepaddr := 0\<rparr>)\<rparr>"
    using assms(3) by (auto simp: thread_sleep_in_def bind_eq_Some_conv)
  note i = switch_in_ok [OF assms(1,2) s1(1)]
  show "ts_inv s'"
    using i(1) s1(2) unfolding s1(3) by (intro ts_inv_perm [OF i(1)]) (auto simp: live_def ts_inv_blocks intro: blocks_upd)
  have "sleepers_ok s' k = sleepers_ok s1 k"
    using cur_not_sleeping [OF i(1)] unfolding s1(3) by (intro sleepers_ok_cong) auto
  then show "sleepers_ok s' k" using i(2) by simp
  show "same_objs s s'" "curthread s' = curthread s" "curspl s' = curspl s" "0 < curspl s" "rq_list s' = rq_list s"
    "in_interrupt s' = in_interrupt s"
    using i unfolding s1(3) by (simp_all add: same_objs_def)
qed

subsection \<open>Every operation keeps the invariant\<close>

definition ops_inv :: "'m kstate \<Rightarrow> (addr \<Rightarrow> kont) \<Rightarrow> (addr \<times> addr) set \<Rightarrow> (addr \<Rightarrow> int) \<Rightarrow> bool" where
  "ops_inv s k H b \<longleftrightarrow> ts_inv s \<and> sleepers_ok s k \<and> locks_ok s H \<and> sems_ok s b"

lemma sync_ops: "sync_inv S = ops_inv (ks S) (kont_of S) (held S) (bal S)"
  by (simp add: sync_inv_def ops_inv_def)

lemma ops_inv_splx [simp]: "ops_inv (snd (splx n s)) k H b = ops_inv s k H b"
  by (simp add: ops_inv_def)

lemma objs_ok: "same_objs s s' \<Longrightarrow> locks_ok s' H = locks_ok s H" "same_objs s s' \<Longrightarrow> sems_ok s' b = sems_ok s b"
  by (simp_all add: same_objs_def locks_ok_def sems_ok_def)

lemma cur_nonzero: "ts_inv s \<Longrightarrow> curthread s \<noteq> 0"
  by (rule ts_invD(2))

lemma view_sync [simp]:
  "sl_list (s\<lparr>locks := h\<rparr>) = sl_list s" "rq_list (s\<lparr>locks := h\<rparr>) = rq_list s"
  "ts_inv (s\<lparr>locks := h\<rparr>) = ts_inv s" "ts_inv (s\<lparr>sems := g\<rparr>) = ts_inv s"
  by (simp_all add: list_views ts_inv_def live_def ds_inv_def)

lemma sleep_in_inv:
  assumes "ops_inv s k H b" "thread_sleep_in ops km s = Some s'"
  shows "ops_inv s' k H b" "curthread s' = curthread s" "0 < curspl s'" "rq_list s' = rq_list s"
proof -
  have i: "ts_inv s" "sleepers_ok s k" using assms(1) by (simp_all add: ops_inv_def)
  note w = sleep_in_ok [OF i assms(2)]
  show "ops_inv s' k H b" using assms(1) w(1-3) by (simp add: ops_inv_def objs_ok)
  show "curthread s' = curthread s" "0 < curspl s'" "rq_list s' = rq_list s" using w by simp_all
qed

lemma P_loop_inv:
  assumes "ops_inv s k H b" "0 < curspl s" "fin \<or> rq_list s \<noteq> []" "P_loop ops km a spl s = Some (fin, s')"
  shows "ops_inv s' (k(curthread s := if fin then Run else K_P a spl)) H (if fin then b(a := b a - 1) else b)"
proof -
  have i: "ts_inv s" "sleepers_ok s k" using assms(1) by (simp_all add: ops_inv_def)
  obtain sem where sem: "sems s a = Some sem" using assms(4) by (auto simp: P_loop_def bind_eq_Some_conv)
  show ?thesis
  proof (cases "sem_count sem = 0")
    case True
    then have out: "thread_sleep_out ops km a s = Some s'" "\<not> fin"
      using assms(4) sem by (auto simp: P_loop_def bind_eq_Some_conv)
    have "waits_on (K_P a spl) = Some a" "stuck s (K_P a spl)" using sem True by simp_all
    from sleep_out_ok [OF i assms(2) _ out(1) this] assms(1,3) out(2) show ?thesis
      by (simp add: ops_inv_def objs_ok)
  next
    case False
    let ?s = "s\<lparr>sems := (sems s)(a \<mapsto> sem\<lparr>sem_count := sem_count sem - 1\<rparr>)\<rparr>"
    have fin: "fin" "sem_count sem > 0" "s' = snd (splx spl ?s)"
      using assms(4) sem False by (auto simp: P_loop_def bind_eq_Some_conv)
    have "stuck s kq \<Longrightarrow> stuck ?s kq" for kq using sem False by (cases kq) auto
    then have "sleepers_ok ?s k" using i(2) unfolding sleepers_ok_def by fastforce
    then have "sleepers_ok ?s (k(curthread s := Run))" using sleepers_ok_cur [of ?s k Run] i(1) by simp
    moreover have "sems_ok ?s (b(a := b a - 1))" using assms(1) sem fin(2) by (auto simp: ops_inv_def sems_ok_def)
    moreover have "locks_ok ?s H" using assms(1) by (simp add: ops_inv_def locks_ok_def)
    ultimately show ?thesis using fin i(1) by (simp add: ops_inv_def)
  qed
qed

lemma V_inv:
  assumes "ops_inv s k H b" "V km a s = Some s'"
  shows "ops_inv s' k H (b(a := b a + 1))" "curthread s' = curthread s"
proof -
  let ?s1 = "snd (splx SPL_HIGH s)"
  obtain sem s2 where sem: "sems s a = Some sem" "thread_wakeup km a (?s1\<lparr>sems := (sems s)(a \<mapsto> sem\<lparr>sem_count := sem_count sem + 1\<rparr>)\<rparr>) = Some s2"
      "s' = snd (splx (curspl s) s2)"
    using assms(2) by (auto simp: V_def bind_eq_Some_conv Let_def split_beta cint_Some)
  let ?s = "?s1\<lparr>sems := (sems s)(a \<mapsto> sem\<lparr>sem_count := sem_count sem + 1\<rparr>)\<rparr>"
  have i: "ts_inv ?s" "0 < curspl ?s" "sleepers_ok s k" using assms(1) by (simp_all add: ops_inv_def)
  have st: "stuck s kq \<Longrightarrow> waits_on kq \<noteq> Some a \<Longrightarrow> stuck ?s kq" for kq by (cases kq) auto
  note w = wakeup_ok [OF i(1,2) sem(2) sleepers_wakeable [OF i(3) _ _ st]]
  have wk: "ts_inv s2" "sleepers_ok s2 k" "same_objs ?s s2" "curthread s2 = curthread ?s" using w by simp_all
  have "sems_ok ?s (b(a := b a + 1))" using assms(1) sem(1) by (auto simp: ops_inv_def sems_ok_def)
  moreover have "locks_ok ?s H" using assms(1) by (simp add: ops_inv_def locks_ok_def)
  ultimately show "ops_inv s' k H (b(a := b a + 1))" "curthread s' = curthread s"
    using wk sem(3) by (simp_all add: ops_inv_def objs_ok)
qed

definition relocks :: "addr \<Rightarrow> kont \<Rightarrow> bool" where
  "relocks l k \<longleftrightarrow> (\<exists>spl. k = K_acquire l spl) \<or> (\<exists>spl1 spl. k = K_relock l spl1 spl)"

lemma relocks_simps [simp]: "relocks l (K_acquire l spl)" "relocks l (K_relock l spl1 spl)"
  by (auto simp: relocks_def)

lemma acquire_loop_inv:
  assumes "ops_inv s k H b" "0 < curspl s" "fin \<or> rq_list s \<noteq> []" "lock_acquire_loop ops km l spl s = Some (fin, s')"
    and kk: "relocks l kk"
  shows "ops_inv s' (k(curthread s := if fin then Run else kk)) (if fin then insert (curthread s, l) H else H) b"
proof -
  have i: "ts_inv s" "sleepers_ok s k" using assms(1) by (simp_all add: ops_inv_def)
  obtain lk where lk: "locks s l = Some lk" using assms(4) by (auto simp: lock_acquire_loop_def bind_eq_Some_conv)
  show ?thesis
  proof (cases "lock_holder lk = 0")
    case False
    then have out: "thread_sleep_out ops km l s = Some s'" "\<not> fin"
      using assms(4) lk by (auto simp: lock_acquire_loop_def bind_eq_Some_conv)
    have "waits_on kk = Some l" "stuck s kk" using kk lk False by (auto simp: relocks_def)
    from sleep_out_ok [OF i assms(2) _ out(1) this] assms(1,3) out(2) show ?thesis
      by (simp add: ops_inv_def objs_ok)
  next
    case True
    let ?s = "s\<lparr>locks := (locks s)(l \<mapsto> lk\<lparr>lock_holder := curthread s\<rparr>)\<rparr>"
    have fin: "fin" "s' = snd (splx spl ?s)" using assms(4) lk True by (auto simp: lock_acquire_loop_def)
    have "stuck s kq \<Longrightarrow> stuck ?s kq" for kq using lk True cur_nonzero [OF i(1)] by (cases kq) auto
    then have "sleepers_ok ?s k" using i(2) unfolding sleepers_ok_def by fastforce
    then have "sleepers_ok ?s (k(curthread s := Run))" using sleepers_ok_cur [of ?s k Run] i(1) by simp
    moreover have "locks_ok ?s (insert (curthread s, l) H)"
      using assms(1) lk True cur_nonzero [OF i(1)] unfolding ops_inv_def locks_ok_def by auto
    moreover have "sems_ok ?s b" using assms(1) by (simp add: ops_inv_def sems_ok_def)
    ultimately show ?thesis using fin i(1) by (simp add: ops_inv_def)
  qed
qed

lemma release_inv:
  assumes "ops_inv s k H b" "lock_release km l s = Some s'"
  shows "ops_inv s' k (H - {(curthread s, l)}) b" "curthread s' = curthread s" "curspl s' = curspl s"
    "rq_list s \<noteq> [] \<Longrightarrow> rq_list s' \<noteq> []" "in_interrupt s' = in_interrupt s" "(curthread s, l) \<in> H"
proof -
  let ?s1 = "snd (splx SPL_HIGH s)"
  obtain lk s2 where lk: "locks s l = Some lk" "lock_holder lk = curthread s"
      "thread_wakeup km l (?s1\<lparr>locks := (locks s)(l \<mapsto> lk\<lparr>lock_holder := 0\<rparr>)\<rparr>) = Some s2" "s' = snd (splx (curspl s) s2)"
    using assms(2) by (auto simp: lock_release_def bind_eq_Some_conv Let_def split_beta)
  let ?s = "?s1\<lparr>locks := (locks s)(l \<mapsto> lk\<lparr>lock_holder := 0\<rparr>)\<rparr>"
  have i: "ts_inv ?s" "0 < curspl ?s" "sleepers_ok s k" using assms(1) by (simp_all add: ops_inv_def)
  have st: "stuck s kq \<Longrightarrow> waits_on kq \<noteq> Some l \<Longrightarrow> stuck ?s kq" for kq by (cases kq) auto
  note w = wakeup_ok [OF i(1,2) lk(3) sleepers_wakeable [OF i(3) _ _ st]]
  have wk: "ts_inv s2" "sleepers_ok s2 k" "same_objs ?s s2" "curthread s2 = curthread s" "in_interrupt s2 = in_interrupt s"
      "rq_list s \<noteq> [] \<Longrightarrow> rq_list s2 \<noteq> []" using w by simp_all
  have lo: "locks_ok s H" using assms(1) by (simp add: ops_inv_def)
  then have "locks_ok ?s (H - {(curthread s, l)})"
    using lk(1,2) unfolding locks_ok_def by auto
  moreover have "sems_ok ?s b" using assms(1) by (simp add: ops_inv_def sems_ok_def)
  ultimately show "ops_inv s' k (H - {(curthread s, l)}) b" "curthread s' = curthread s" "curspl s' = curspl s"
      "rq_list s \<noteq> [] \<Longrightarrow> rq_list s' \<noteq> []" "in_interrupt s' = in_interrupt s"
    using wk lk(4) by (simp_all add: ops_inv_def objs_ok)
  show "(curthread s, l) \<in> H" using lo lk(1,2) cur_nonzero [of s] assms(1) by (simp add: locks_ok_def ops_inv_def)
qed

lemma P_inv:
  assumes "ops_inv s k H b" "fin \<or> rq_list s \<noteq> []" "P ops km a s = Some (fin, spl, s')"
  shows "ops_inv s' (k(curthread s := if fin then Run else K_P a spl)) H (if fin then b(a := b a - 1) else b)"
proof -
  have "P_loop ops km a spl (snd (splx SPL_HIGH s)) = Some (fin, s')"
    using assms(3) by (auto simp: P_def bind_eq_Some_conv Let_def split_beta)
  from P_loop_inv [OF _ _ _ this, of k H b] assms(1,2) show ?thesis by simp
qed

lemma P_resume_inv:
  assumes "ops_inv s k H b" "fin \<or> rq_list s \<noteq> []" "P_resume ops km a spl s = Some (fin, s')"
  shows "ops_inv s' (k(curthread s := if fin then Run else K_P a spl)) H (if fin then b(a := b a - 1) else b)"
proof -
  obtain s1 where s1: "thread_sleep_in ops km s = Some s1" "P_loop ops km a spl s1 = Some (fin, s')"
    using assms(3) by (auto simp: P_resume_def bind_eq_Some_conv)
  note i = sleep_in_inv [OF assms(1) s1(1)]
  from P_loop_inv [OF i(1,3) _ s1(2)] assms(2) i(2,4) show ?thesis by simp
qed

lemma do_i_hold_run:
  "lock_do_i_hold l s = Some (m, s') \<Longrightarrow> s' = snd (splx (curspl s) (snd (splx SPL_HIGH s)))"
  by (auto simp: lock_do_i_hold_def bind_eq_Some_conv Let_def split_beta split: if_splits)

lemma acquire_inv:
  assumes "ops_inv s k H b" "fin \<or> rq_list s \<noteq> []" "lock_acquire ops km l s = Some (fin, spl, s')"
    and kk: "relocks l kk"
  shows "ops_inv s' (k(curthread s := if fin then Run else kk)) (if fin then insert (curthread s, l) H else H) b"
proof -
  let ?s = "snd (splx SPL_HIGH (snd (splx SPL_HIGH (snd (splx SPL_HIGH s)))))"
  have "lock_acquire_loop ops km l spl ?s = Some (fin, s')"
    using assms(3) by (auto simp: lock_acquire_def bind_eq_Some_conv Let_def split_beta dest!: do_i_hold_run)
  from acquire_loop_inv [OF _ _ _ this kk, of k H b] assms(1,2) show ?thesis by (cases fin) simp_all
qed

lemma acquire_resume_inv:
  assumes "ops_inv s k H b" "fin \<or> rq_list s \<noteq> []" "lock_acquire_resume ops km l spl s = Some (fin, s')"
    and kk: "relocks l kk"
  shows "ops_inv s' (k(curthread s := if fin then Run else kk)) (if fin then insert (curthread s, l) H else H) b"
proof -
  obtain s1 where s1: "thread_sleep_in ops km s = Some s1" "lock_acquire_loop ops km l spl s1 = Some (fin, s')"
    using assms(3) by (auto simp: lock_acquire_resume_def bind_eq_Some_conv)
  note i = sleep_in_inv [OF assms(1) s1(1)]
  from acquire_loop_inv [OF i(1,3) _ s1(2) kk] assms(2) i(2,4) show ?thesis by (cases fin) simp_all
qed

lemma wakeup_inv:
  assumes "ops_inv s k H b" "0 < curspl s" "thread_wakeup km a s = Some s'"
  shows "ops_inv s' k H b" "curthread s' = curthread s" "rq_list s \<noteq> [] \<Longrightarrow> rq_list s' \<noteq> []" "curspl s' = curspl s"
proof -
  have i: "ts_inv s" "sleepers_ok s k" using assms(1) by (simp_all add: ops_inv_def)
  have st: "stuck s kq \<Longrightarrow> waits_on kq \<noteq> Some a \<Longrightarrow> stuck s kq" for kq .
  note w = wakeup_ok [OF i(1) assms(2,3) sleepers_wakeable [OF i(2) refl refl st]]
  show "ops_inv s' k H b" using assms(1) w(1-3) by (simp add: ops_inv_def objs_ok)
  show "curthread s' = curthread s" "rq_list s \<noteq> [] \<Longrightarrow> rq_list s' \<noteq> []" "curspl s' = curspl s" using w by simp_all
qed

lemma cv_wait_inv:
  assumes "ops_inv s k H b" "rq_list s \<noteq> []" "cv_wait_out ops km c l s = Some (spl, s')"
  shows "ops_inv s' (k(curthread s := K_cv c l spl)) (H - {(curthread s, l)}) b" "(curthread s, l) \<in> H"
proof -
  let ?s1 = "snd (splx SPL_HIGH s)"
  obtain s2 where s2: "lock_release km l ?s1 = Some s2" "thread_sleep_out ops km c s2 = Some s'"
    using assms(3) by (auto simp: cv_wait_out_def bind_eq_Some_conv Let_def split_beta)
  have "ops_inv ?s1 k H b" using assms(1) by simp
  note r = release_inv [OF this s2(1)]
  have i: "ts_inv s2" "sleepers_ok s2 k" "0 < curspl s2" using r(1,3) by (simp_all add: ops_inv_def)
  have "rq_list s2 \<noteq> []" using r(4) assms(2) by simp
  from sleep_out_ok [OF i this s2(2), of "K_cv c l spl"] r(1,2)
  show "ops_inv s' (k(curthread s := K_cv c l spl)) (H - {(curthread s, l)}) b" by (simp add: ops_inv_def objs_ok)
  show "(curthread s, l) \<in> H" using r(6) by simp
qed

lemma cv_wake_inv:
  assumes "ops_inv s k H b" "fin \<or> rq_list s \<noteq> []" "cv_wait_in ops km l spl s = Some (fin, spl1, s')"
  shows "ops_inv s' (k(curthread s := if fin then Run else K_relock l spl1 spl)) (if fin then insert (curthread s, l) H else H) b"
proof -
  obtain s1 s2 s3 where run: "thread_sleep_in ops km s = Some s1" "thread_wakeup km l s1 = Some s2"
      "lock_acquire ops km l s2 = Some (fin, spl1, s3)" "s' = (if fin then snd (splx spl s3) else s3)"
    using assms(3) by (auto simp: cv_wait_in_def bind_eq_Some_conv split: if_splits)
  note i = sleep_in_inv [OF assms(1) run(1)]
  note w = wakeup_inv [OF i(1,3) run(2)]
  have "fin \<or> rq_list s2 \<noteq> []" using assms(2) i(4) w(3) by auto
  from acquire_inv [OF w(1) this run(3), of "K_relock l spl1 spl"] w(2) i(2) run(4) show ?thesis by (cases fin) simp_all
qed

lemma cv_relock_inv:
  assumes "ops_inv s k H b" "fin \<or> rq_list s \<noteq> []" "cv_wait_relock ops km l spl1 spl s = Some (fin, s')"
  shows "ops_inv s' (k(curthread s := if fin then Run else K_relock l spl1 spl)) (if fin then insert (curthread s, l) H else H) b"
proof -
  obtain s1 where run: "lock_acquire_resume ops km l spl1 s = Some (fin, s1)" "s' = (if fin then snd (splx spl s1) else s1)"
    using assms(3) by (auto simp: cv_wait_relock_def bind_eq_Some_conv split: if_splits)
  from acquire_resume_inv [OF assms(1,2) run(1), of "K_relock l spl1 spl"] run(2) show ?thesis by (cases fin) simp_all
qed

lemma cv_signal_inv:
  assumes "ops_inv s k H b" "cv_signal km c l s = Some s'"
  shows "ops_inv s' k H b" "curthread s' = curthread s"
proof -
  let ?s = "snd (splx SPL_HIGH (snd (splx SPL_HIGH (snd (splx SPL_HIGH s)))))"
  obtain s3 where run: "thread_wakeup_one km c ?s = Some s3" "s' = snd (splx (curspl s) s3)"
    using assms(2) by (auto simp: cv_signal_def bind_eq_Some_conv Let_def split_beta dest!: do_i_hold_run)
  have i: "ts_inv ?s" "0 < curspl ?s" using assms(1) by (simp_all add: ops_inv_def)
  have s3: "ops_inv s3 k H b \<and> curthread s3 = curthread s"
  proof (cases "s3 = ?s")
    case True
    then show ?thesis using assms(1) by simp
  next
    case False
    with thread_wakeup_one_result [OF i, of km c] run(1) obtain t ts where
      w: "sl_list s = t # ts" "ts_inv s3" "sl_list s3 = ts" "threads s3 = threads s" "same_objs ?s s3" "curthread s3 = curthread s"
      by auto
    have st: "stuck s3 kq = stuck s kq" for kq using w(5) by (intro stuck_cong) (simp_all add: same_objs_def)
    have "sleepers_ok s3 k" using assms(1) w(1,3,4) by (simp add: ops_inv_def sleepers_ok_def st)
    then show ?thesis using assms(1) w(2,5,6) by (simp add: ops_inv_def objs_ok)
  qed
  then show "ops_inv s' k H b" "curthread s' = curthread s" using run(2) by simp_all
qed

lemma cv_broadcast_inv:
  assumes "ops_inv s k H b" "cv_broadcast km c l s = Some s'"
  shows "ops_inv s' k H b" "curthread s' = curthread s"
proof -
  let ?s = "snd (splx SPL_HIGH (snd (splx SPL_HIGH (snd (splx SPL_HIGH s)))))"
  obtain s3 where run: "thread_wakeup km c ?s = Some s3" "s' = snd (splx (curspl s) s3)"
    using assms(2) by (auto simp: cv_broadcast_def bind_eq_Some_conv Let_def split_beta dest!: do_i_hold_run)
  have "ops_inv ?s k H b" "0 < curspl ?s" using assms(1) by simp_all
  from wakeup_inv [OF this run(1)] run(2) show "ops_inv s' k H b" "curthread s' = curthread s" by simp_all
qed

lemma yield_inv:
  assumes "ops_inv s k H b" "km_ok km" "thread_yield_out ops km s = Some (spl, sw, s')"
  shows "ops_inv s' (k(curthread s := kk)) H b"
proof -
  have i: "ts_inv s" "sleepers_ok s k" using assms(1) by (simp_all add: ops_inv_def)
  have y: "yielded s s'" by (rule thread_yield_some [OF i(1) assms(2,3)])
  have "sleepers_ok s' (k(curthread s := kk)) = sleepers_ok s k"
    using y cur_not_sleeping [OF i(1)] by (intro sleepers_ok_cong) (auto simp: yielded_def same_objs_def)
  moreover have "ts_inv s'" "same_objs s s'" using y by (simp_all add: yielded_def)
  ultimately show ?thesis using assms(1) by (simp add: ops_inv_def objs_ok)
qed

lemma yield_resume_inv:
  assumes "ops_inv s k H b" "thread_yield_in ops km spl s = Some s'"
  shows "ops_inv s' k H b" "curthread s' = curthread s"
proof -
  have i: "ts_inv s" "sleepers_ok s k" using assms(1) by (simp_all add: ops_inv_def)
  obtain s1 where s1: "mi_switch_in ops km s = Some s1" "s' = snd (splx spl s1)"
    using assms(2) by (auto simp: thread_yield_in_def bind_eq_Some_conv)
  note w = switch_in_ok [OF i s1(1)]
  show "ops_inv s' k H b" using assms(1) w(1-3) s1(2) by (simp add: ops_inv_def objs_ok)
  show "curthread s' = curthread s" using w(4) s1(2) by simp
qed

lemma start_inv:
  assumes "ops_inv s k H b" "mi_threadstart ops s = Some s'"
  shows "ops_inv s' k H b" "curthread s' = curthread s"
proof -
  obtain w where s': "s' = snd (splx 0 (s\<lparr>world := w\<rparr>))"
    using assms(2) by (auto simp: mi_threadstart_def spl0_def bind_eq_Some_conv)
  have "sleepers_ok (s\<lparr>world := w\<rparr>) k = sleepers_ok s k" by (rule sleepers_ok_cong) simp_all
  then show "ops_inv s' k H b" "curthread s' = curthread s"
    using assms(1) s' by (simp_all add: ops_inv_def locks_ok_def sems_ok_def)
qed

lemma exit_inv:
  assumes "ops_inv s k H b" "km_ok km" "rq_list s \<noteq> []" "thread_exit ops km s = Some s'"
  shows "ops_inv s' (k(curthread s := kk)) H b"
proof -
  have i: "ts_inv s" "sleepers_ok s k" using assms(1) by (simp_all add: ops_inv_def)
  obtain x xs where "rq_list s = x # xs" using assms(3) by (cases "rq_list s") auto
  from thread_exit_some [OF i(1) this assms(2,4)] have e: "exited_to s s'" .
  have "sleepers_ok s' (k(curthread s := kk)) = sleepers_ok s k"
    using e cur_not_sleeping [OF i(1)] by (intro sleepers_ok_cong) (auto simp: exited_to_def same_objs_def)
  moreover have "ts_inv s'" "same_objs s s'" using e by (simp_all add: exited_to_def)
  ultimately show ?thesis using assms(1) by (simp add: ops_inv_def objs_ok)
qed

lemma fork_inv:
  assumes "ops_inv s k H b" "fork_env ops ma s" "ma_sem ma \<notin> dom (sems s)"
    and "thread_fork ops ma start name data1 data2 func s = Some (e, t, s')"
  shows "ops_inv s' (k(t := K_start)) H (b(ma_sem ma := 0))" "curthread s' = curthread s"
proof -
  have i: "ts_inv s" "sleepers_ok s k" using assms(1) by (simp_all add: ops_inv_def)
  from thread_fork_result [OF i(1) assms(2), of start name data1 data2 func] assms(4) obtain th where
    f: "ts_inv s'" "curthread s' = curthread s" "sl_list s' = sl_list s" "sem_added ma s s'" "locks s' = locks s"
      "threads s' = threads s \<and> t = 0 \<or> threads s' = (threads s)(t \<mapsto> th) \<and> t \<notin> dom (threads s)" by auto
  have nt: "t \<notin> set (sl_list s)" using f(6) i(1) ts_invD(6) [OF i(1)] by (auto simp: ts_inv_def live_def)
  have eq: "threads s' u = threads s u" "(k(t := K_start)) u = k u" if "u \<in> set (sl_list s)" for u
    using that f(6) nt by (auto split: if_splits)
  have st: "stuck s kq \<Longrightarrow> stuck s' kq" for kq
    using f(4,5) assms(3) by (cases kq) (auto simp: sem_added_def split: if_splits)
  have "sleepers_ok s' (k(t := K_start))"
    using i(2) st unfolding sleepers_ok_def f(3) by (metis eq)
  moreover have "sems_ok s' (b(ma_sem ma := 0))"
    using assms(1,3) f(4) by (auto simp: ops_inv_def sems_ok_def sem_added_def)
  ultimately show "ops_inv s' (k(t := K_start)) H (b(ma_sem ma := 0))"
    using assms(1) f(1,5) by (simp add: ops_inv_def locks_ok_def)
  show "curthread s' = curthread s" by (rule f(2))
qed

subsection \<open>Reachable states\<close>

lemma Run_upd: "k c = Run \<Longrightarrow> k(c := Run) = k"
  by auto

lemma ops_inv_stop: "ops_inv s k H b \<Longrightarrow> ops_inv s (k(curthread s := x)) H b"
  by (simp add: ops_inv_def)

lemma sync_step:
  assumes "sys_step ops S S'" "sync_inv S"
  shows "sync_inv S'"
  using assms
proof (induction rule: sys_step.induct)
  case (step_P S km a fin spl s')
  then show ?case using P_inv [of "ks S" "kont_of S" "held S" "bal S" fin ops km a spl s']
    by (cases fin) (simp_all add: sync_ops took_def moved_def)
next
  case (step_P_resume S a spl km fin s')
  then show ?case using P_resume_inv [of "ks S" "kont_of S" "held S" "bal S" fin ops km a spl s']
    by (cases fin) (simp_all add: sync_ops took_def moved_def)
next
  case (step_V S km a s')
  then show ?case using V_inv [of "ks S" "kont_of S" "held S" "bal S" km a s']
    by (simp add: sync_ops moved_def Run_upd)
next
  case (step_acquire S km l fin spl s')
  then show ?case using acquire_inv [of "ks S" "kont_of S" "held S" "bal S" fin ops km l spl s' "K_acquire l spl"]
    by (cases fin) (simp_all add: sync_ops locked_def moved_def)
next
  case (step_acquire_resume S l spl km fin s')
  then show ?case using acquire_resume_inv [of "ks S" "kont_of S" "held S" "bal S" fin ops km l spl s' "K_acquire l spl"]
    by (cases fin) (simp_all add: sync_ops locked_def moved_def)
next
  case (step_release S km l s')
  then show ?case using release_inv(1) [of "ks S" "kont_of S" "held S" "bal S" km l s']
    by (simp add: sync_ops unlocked_def moved_def Run_upd)
next
  case (step_cv_wait S km c l spl s')
  then show ?case using cv_wait_inv(1) [of "ks S" "kont_of S" "held S" "bal S" ops km c l spl s']
    by (simp add: sync_ops unlocked_def moved_def)
next
  case (step_cv_wake S c l spl km fin spl1 s')
  then show ?case using cv_wake_inv [of "ks S" "kont_of S" "held S" "bal S" fin ops km l spl spl1 s']
    by (cases fin) (simp_all add: sync_ops locked_def moved_def)
next
  case (step_cv_relock S l spl1 spl km fin s')
  then show ?case using cv_relock_inv [of "ks S" "kont_of S" "held S" "bal S" fin ops km l spl1 spl s']
    by (cases fin) (simp_all add: sync_ops locked_def moved_def)
next
  case (step_cv_signal S km c l s')
  then show ?case using cv_signal_inv [of "ks S" "kont_of S" "held S" "bal S" km c l s']
    by (simp add: sync_ops moved_def Run_upd)
next
  case (step_cv_broadcast S km c l s')
  then show ?case using cv_broadcast_inv [of "ks S" "kont_of S" "held S" "bal S" km c l s']
    by (simp add: sync_ops moved_def Run_upd)
next
  case (step_yield S km spl sw s')
  then show ?case using yield_inv [of "ks S" "kont_of S" "held S" "bal S" km ops spl sw s' "K_yield spl"]
    by (simp add: sync_ops moved_def)
next
  case (step_yield_resume S spl km s')
  then show ?case using yield_resume_inv [of "ks S" "kont_of S" "held S" "bal S" ops km spl s']
      ops_inv_stop [of s' "kont_of S" "held S" "bal S" Run]
    by (simp add: sync_ops moved_def)
next
  case (step_fork S ma start name data1 data2 func e t s')
  then show ?case using fork_inv [of "ks S" "kont_of S" "held S" "bal S" ops ma start name data1 data2 func e t s']
    by (simp add: sync_ops moved_def)
next
  case (step_start S s')
  then show ?case using start_inv [of "ks S" "kont_of S" "held S" "bal S" ops s']
      ops_inv_stop [of s' "kont_of S" "held S" "bal S" Run]
    by (simp add: sync_ops moved_def)
next
  case (step_exit S km s')
  then show ?case using exit_inv [of "ks S" "kont_of S" "held S" "bal S" km ops s' Run]
    by (simp add: sync_ops moved_def)
qed

lemma sync_steps: "(sys_step ops)\<^sup>*\<^sup>* S S' \<Longrightarrow> sync_inv S \<Longrightarrow> sync_inv S'"
  by (induction rule: rtranclp_induct) (auto intro: sync_step)

subsection \<open>A sample system\<close>

text \<open>
  The sample state of the thread system with a lock at address 20, a semaphore with one unit at 21
  and one with none at 22; thread 3 waits on a condition variable at 9.
\<close>

definition sample_sys :: "unit sys" where
  "sample_sys = \<lparr>ks = sample_state\<lparr>locks := [20 \<mapsto> \<lparr>lock_name = ''l'', lock_holder = 0\<rparr>],
       sems := [21 \<mapsto> \<lparr>sem_name = ''s'', sem_count = 1\<rparr>, 22 \<mapsto> \<lparr>sem_name = ''e'', sem_count = 0\<rparr>]\<rparr>,
     kont_of = (\<lambda>t. if t = 3 then K_cv 9 20 0 else Run), held = {}, bal = (\<lambda>a. if a = 22 then 0 else 1)\<rparr>"

lemma sample_sys_inv: "sync_inv sample_sys"
proof -
  have "sleepers_ok (ks sample_sys) (kont_of sample_sys)"
    by (simp add: sleepers_ok_def sample_sys_def sample_views sample_state_def sample_thread_def sl_list_def arr_list_def)
  then show ?thesis
    using sample_inv by (auto simp: sync_inv_def sample_sys_def locks_ok_def sems_ok_def)
qed

definition sample_locked :: "unit sys" where
  "sample_locked = locked 1 20 True (moved sample_sys
     (snd (splx 15 ((snd (splx 15 (snd (splx 15 (snd (splx 15 (ks sample_sys)))))))\<lparr>locks := [20 \<mapsto> \<lparr>lock_name = ''l'', lock_holder = 1\<rparr>]\<rparr>))) Run)"

lemma sample_acquire: "sys_step sample_ops sample_sys sample_locked"
proof -
  have "lock_acquire sample_ops km_sample 20 (ks sample_sys) = Some (True, 15,
      snd (splx 15 ((snd (splx 15 (snd (splx 15 (snd (splx 15 (ks sample_sys)))))))\<lparr>locks := [20 \<mapsto> \<lparr>lock_name = ''l'', lock_holder = 1\<rparr>]\<rparr>)))"
    by (simp add: lock_acquire_def lock_do_i_hold_def lock_acquire_loop_def sample_sys_def sample_state_def SPL_HIGH_def split_beta Let_def)
  moreover have "kont_of sample_sys (curthread (ks sample_sys)) = Run" "curthread (ks sample_sys) = 1"
    by (simp_all add: sample_sys_def sample_state_def)
  ultimately show ?thesis
    using sys_step.step_acquire [of sample_sys km_sample sample_ops 20 True 15] km_ok_sample
    by (simp add: sample_locked_def)
qed

text \<open>Thread 1 falls asleep in a \<open>P\<close> of the semaphore without units, and completes one of the other.\<close>

lemma sample_P_sleeps:
  "\<exists>S'. sys_step sample_ops sample_sys S' \<and> 1 \<in> set (sl_list (ks S')) \<and> kont_of S' 1 = K_P 22 15"
proof -
  let ?s = "snd (splx SPL_HIGH (ks sample_sys))"
  have c: "curthread (ks sample_sys) = 1" "rq_list (ks sample_sys) = [2]" "kont_of sample_sys 1 = Run"
    by (simp_all add: sample_sys_def sample_views)
  have "ts_inv ?s" "0 < curspl ?s" "in_interrupt ?s = 0" "rq_list ?s = 2 # []"
    using sample_inv by (simp_all add: sample_sys_def sample_views)
  from thread_sleep_result [OF this, of sample_ops km_sample 22] obtain s'
    where s': "thread_sleep_out sample_ops km_sample 22 ?s = Some s'" "sl_list s' = sl_list ?s @ [curthread ?s]" by blast
  have "P sample_ops km_sample 22 (ks sample_sys) = Some (False, 15, s')"
    using s'(1) by (simp add: P_def P_loop_def Let_def split_beta sample_sys_def sample_state_def)
  then have "sys_step sample_ops sample_sys (took 22 False (moved sample_sys s' (K_P 22 15)))"
    using sys_step.step_P [of sample_sys km_sample sample_ops 22 False 15 s'] km_ok_sample c by simp
  moreover have "1 \<in> set (sl_list s')" using s'(2) c(1) by simp
  ultimately show ?thesis
    by (intro exI [of _ "took 22 False (moved sample_sys s' (K_P 22 15))"]) (simp add: took_def moved_def c(1))
qed

lemma sample_P_takes:
  "\<exists>S'. sys_step sample_ops sample_sys S' \<and> sems (ks S') 21 = Some \<lparr>sem_name = ''s'', sem_count = 0\<rparr>"
proof -
  let ?s = "snd (splx 15 ((snd (splx SPL_HIGH (ks sample_sys)))
    \<lparr>sems := (sems (ks sample_sys))(21 \<mapsto> \<lparr>sem_name = ''s'', sem_count = 0\<rparr>)\<rparr>))"
  have "P sample_ops km_sample 21 (ks sample_sys) = Some (True, 15, ?s)"
    by (simp add: P_def P_loop_def Let_def split_beta sample_sys_def sample_state_def)
  moreover have "kont_of sample_sys (curthread (ks sample_sys)) = Run" by (simp add: sample_sys_def sample_state_def)
  ultimately have "sys_step sample_ops sample_sys (took 21 True (moved sample_sys ?s Run))"
    using sys_step.step_P [of sample_sys km_sample sample_ops 21 True 15 ?s] km_ok_sample by simp
  then show ?thesis by (intro exI [of _ "took 21 True (moved sample_sys ?s Run)"] conjI) (simp_all add: took_def moved_def)
qed

subsection \<open>Properties\<close>

text \<open>
  C1: mutual exclusion. In every state that the threads can reach, no two different threads are
  between the return of \<open>lock_acquire\<close> (or \<open>cv_wait\<close>) and the next \<open>lock_release\<close> (or
  \<open>cv_wait\<close>) of the same lock.
\<close>

theorem lock_mutual_exclusion:
  assumes "(sys_step ops)\<^sup>*\<^sup>* S S'" "sync_inv S" "(t, l) \<in> held S'" "(t', l) \<in> held S'"
  shows "t = t'"
  using sync_steps [OF assms(1,2)] assms(3,4) unfolding sync_inv_def locks_ok_def by fastforce

theorem lock_mutual_exclusion_witness:
  "(sys_step sample_ops)\<^sup>*\<^sup>* sample_sys sample_locked \<and> {t. (t, 20) \<in> held sample_locked} = {1}"
proof -
  have st: "(sys_step sample_ops)\<^sup>*\<^sup>* sample_sys sample_locked" using sample_acquire by blast
  have h: "(1, 20) \<in> held sample_locked" by (simp add: sample_locked_def locked_def)
  show ?thesis using lock_mutual_exclusion [OF st sample_sys_inv _ h] st h by blast
qed

text \<open>
  C2: no lost wakeup. In every reachable state a sleeping thread is in \<open>P\<close>, \<open>lock_acquire\<close> or
  \<open>cv_wait\<close>, and its sleep address is the object it waits for, so that the wakeup of that object finds
  it. If it is in \<open>P\<close> the count of the semaphore is 0, and if it is in \<open>lock_acquire\<close> or in the second
  half of \<open>cv_wait\<close> the lock is held: nobody sleeps on a semaphore that has a unit or on a free lock.
\<close>

theorem no_lost_wakeup:
  assumes "(sys_step ops)\<^sup>*\<^sup>* S S'" "sync_inv S" "t \<in> set (sl_list (ks S'))"
  shows "case kont_of S' t of
      K_P a spl \<Rightarrow> sleeping_on (threads (ks S')) a t \<and> (\<exists>sem. sems (ks S') a = Some sem \<and> sem_count sem = 0)
    | K_acquire l spl \<Rightarrow> sleeping_on (threads (ks S')) l t \<and> (\<exists>lk. locks (ks S') l = Some lk \<and> lock_holder lk \<noteq> 0)
    | K_relock l spl1 spl \<Rightarrow> sleeping_on (threads (ks S')) l t \<and> (\<exists>lk. locks (ks S') l = Some lk \<and> lock_holder lk \<noteq> 0)
    | K_cv c l spl \<Rightarrow> sleeping_on (threads (ks S')) c t
    | _ \<Rightarrow> False"
proof -
  have "sleepers_ok (ks S') (kont_of S')" using sync_steps [OF assms(1,2)] by (simp add: sync_inv_def)
  then obtain th where "threads (ks S') t = Some th" "waits_on (kont_of S' t) = Some (t_sleepaddr th)" "stuck (ks S') (kont_of S' t)"
    using assms(3) unfolding sleepers_ok_def by blast
  then show ?thesis by (cases "kont_of S' t") (simp_all add: sleeping_on_def)
qed

theorem no_lost_wakeup_witness:
  "\<exists>S'. (sys_step sample_ops)\<^sup>*\<^sup>* sample_sys S' \<and> 1 \<in> set (sl_list (ks S')) \<and> kont_of S' 1 = K_P 22 15 \<and>
     sleeping_on (threads (ks S')) 22 1 \<and> (\<exists>sem. sems (ks S') 22 = Some sem \<and> sem_count sem = 0)"
proof -
  obtain S' where S': "sys_step sample_ops sample_sys S'" "1 \<in> set (sl_list (ks S'))" "kont_of S' 1 = K_P 22 15"
    using sample_P_sleeps by blast
  have "(sys_step sample_ops)\<^sup>*\<^sup>* sample_sys S'" using S'(1) by blast
  with no_lost_wakeup [OF this sample_sys_inv S'(2)] S'(2,3) show ?thesis by auto
qed

text \<open>
  C8: in every reachable state the count of a semaphore is its initial count plus the number of
  its \<open>V\<close>s minus the number of completed \<open>P\<close>s, and it is never negative.
\<close>

theorem semaphore_conservation:
  assumes "(sys_step ops)\<^sup>*\<^sup>* S S'" "sync_inv S" "sems (ks S') a = Some sem"
  shows "sem_count sem = bal S' a \<and> 0 \<le> bal S' a"
  using sync_steps [OF assms(1,2)] assms(3) by (auto simp: sync_inv_def sems_ok_def)

theorem semaphore_conservation_witness:
  "bal sample_sys 21 = 1 \<and> (\<exists>S'. (sys_step sample_ops)\<^sup>*\<^sup>* sample_sys S' \<and> bal S' 21 = 0)"
proof -
  obtain S' where S': "sys_step sample_ops sample_sys S'" "sems (ks S') 21 = Some \<lparr>sem_name = ''s'', sem_count = 0\<rparr>"
    using sample_P_takes by blast
  have st: "(sys_step sample_ops)\<^sup>*\<^sup>* sample_sys S'" using S'(1) by blast
  have "bal S' 21 = 0" using semaphore_conservation [OF st sample_sys_inv S'(2)] by simp
  moreover have "bal sample_sys 21 = 1" by (simp add: sample_sys_def)
  ultimately show ?thesis using st by blast
qed

text \<open>
  C11: \<open>V\<close> by one thread lets a thread sleeping in \<open>P\<close> go on: after it every thread that slept
  on the semaphore is runnable, and if the first of them runs before anybody else takes the
  unit, its \<open>P\<close> completes.
\<close>

theorem V_makes_P_succeed:
  fixes S :: "'m sys" and ops :: "'m kops"
  assumes "sync_inv S" "V km a (ks S) = Some s1" "t \<in> set (sl_list (ks S))" "kont_of S t = K_P a spl"
  shows "t \<in> set (rq_list s1) \<and> t \<notin> set (sl_list s1) \<and>
    (\<exists>sem. sems s1 a = Some sem \<and> sem_count sem > 0 \<and>
      (\<forall>s spl'. sems s a = Some sem \<longrightarrow> (\<exists>s'. P_loop ops km a spl' s = Some (True, s'))))"
proof -
  have i: "ops_inv (ks S) (kont_of S) (held S) (bal S)" using assms(1) by (simp add: sync_ops)
  let ?s1 = "snd (splx SPL_HIGH (ks S))"
  obtain sem s2 where sem: "sems (ks S) a = Some sem"
      "thread_wakeup km a (?s1\<lparr>sems := (sems (ks S))(a \<mapsto> sem\<lparr>sem_count := sem_count sem + 1\<rparr>)\<rparr>) = Some s2"
      "s1 = snd (splx (curspl (ks S)) s2)"
    using assms(2) by (auto simp: V_def bind_eq_Some_conv Let_def split_beta cint_Some)
  let ?s = "?s1\<lparr>sems := (sems (ks S))(a \<mapsto> sem\<lparr>sem_count := sem_count sem + 1\<rparr>)\<rparr>"
  have ts: "ts_inv ?s" "0 < curspl ?s" using i by (simp_all add: ops_inv_def)
  from thread_wakeup_inv [OF ts, of km a] sem(2) have
    w: "rq_list s2 = rq_list (ks S) @ filter (sleeping_on (threads (ks S)) a) (sl_list (ks S))"
      "sl_list s2 = filter (\<lambda>t. \<not> sleeping_on (threads (ks S)) a t) (sl_list (ks S))" "same_objs ?s s2" by auto
  have "sleeping_on (threads (ks S)) a t"
    using i assms(3,4) unfolding ops_inv_def sleepers_ok_def by (force simp: sleeping_on_def)
  moreover have "0 \<le> sem_count sem" using i sem(1) by (auto simp: ops_inv_def sems_ok_def)
  ultimately show ?thesis
    using w sem(3) assms(3) by (auto simp: same_objs_def P_loop_def)
qed

theorem V_makes_P_succeed_witness:
  "\<exists>(S :: unit sys) s1. sync_inv S \<and> V km_sample 9 (ks S) = Some s1 \<and> 3 \<in> set (rq_list s1)"
proof -
  let ?S = "sample_sys\<lparr>ks := (ks sample_sys)\<lparr>sems := [9 \<mapsto> \<lparr>sem_name = ''s'', sem_count = 0\<rparr>]\<rparr>,
    kont_of := (\<lambda>t. if t = 3 then K_P 9 0 else Run), bal := (\<lambda>a. 0)\<rparr>"
  have ts: "ts_inv (ks ?S)" using sample_inv by (simp add: sample_sys_def)
  have sl: "sl_list (ks ?S) = [3]" by (simp add: sample_sys_def sample_views)
  have "threads (ks ?S) 3 = Some (sample_thread 3 9)" "sems (ks ?S) 9 = Some \<lparr>sem_name = ''s'', sem_count = 0\<rparr>"
    by (simp_all add: sample_sys_def sample_state_def)
  then have "sleepers_ok (ks ?S) (kont_of ?S)"
    unfolding sleepers_ok_def sl by (simp add: sample_thread_def)
  moreover have "locks_ok (ks ?S) (held ?S)" "sems_ok (ks ?S) (bal ?S)"
    by (auto simp: sample_sys_def locks_ok_def sems_ok_def)
  ultimately have inv: "sync_inv ?S" using ts unfolding sync_inv_def by blast
  let ?s = "(snd (splx SPL_HIGH (ks ?S)))\<lparr>sems := [9 \<mapsto> \<lparr>sem_name = ''s'', sem_count = 1\<rparr>]\<rparr>"
  have "ts_inv ?s" "0 < curspl ?s" using ts by simp_all
  from thread_wakeup_inv [OF this, of km_sample 9] obtain s2 where "thread_wakeup km_sample 9 ?s = Some s2" by blast
  then obtain s1 where v: "V km_sample 9 (ks ?S) = Some s1"
    by (simp add: V_def Let_def split_beta)
  have "3 \<in> set (sl_list (ks ?S))" "kont_of ?S 3 = K_P 9 0" using sl by simp_all
  from V_makes_P_succeed [OF inv v this, of sample_ops] v inv show ?thesis by blast
qed


end
