(* ===== verification/K_Coremap.thy ===== *)
theory K_Coremap
  imports K_Machine
begin

unbundle bit_operations_syntax

section \<open>Physical memory: \<^verbatim>\<open>arch/mips/mips/ram.c\<close>, \<^verbatim>\<open>kern/vm/coremap.c\<close>\<close>

text \<open>
  The memory of the machine before the virtual memory system is up, and the coremap, which
  has one entry per page frame and hands out runs of contiguous frames first fit. Addresses
  are 32-bit words.
\<close>

definition PAGE_SIZE :: "32 word" where "PAGE_SIZE = 4096"

definition PAGE_FRAME :: "32 word" where "PAGE_FRAME = 0xfffff000"

definition MIPS_KSEG0 :: "32 word" where "MIPS_KSEG0 = 0x80000000"

definition PADDR_TO_KVADDR :: "32 word \<Rightarrow> 32 word" where
  "PADDR_TO_KVADDR paddr = paddr + MIPS_KSEG0"

definition KVADDR_TO_PADDR :: "32 word \<Rightarrow> 32 word" where
  "KVADDR_TO_PADDR vaddr = vaddr - MIPS_KSEG0"

record cm_entry =
  p_addr :: "32 word"
  v_addr :: "32 word"
  cm_free :: int
  cm_length :: int

record addrspace =
  as_vbase1 :: "32 word"
  as_pbase1 :: "32 word"
  as_npages1 :: "32 word"
  as_vbase2 :: "32 word"
  as_pbase2 :: "32 word"
  as_npages2 :: "32 word"
  as_stackpbase :: "32 word"

text \<open>
  The state of the memory system: the bounds of the memory not yet given away, the coremap, the
  contents of physical memory, the address spaces on the kernel heap, and the processor's TLB.
\<close>

record vmem =
  firstfree :: "32 word"
  firstpaddr :: "32 word"
  lastpaddr :: "32 word"
  firstvaddr :: "32 word"
  coremap :: "cm_entry list"
  cm_end :: nat
  freepaddr :: "32 word"
  coremap_ready :: bool
  pmem :: "32 word \<Rightarrow> 8 word"
  spaces :: "addr \<rightharpoonup> addrspace"
  tlb :: "(32 word \<times> 32 word) list"
  next_victim :: nat

subsection \<open>Before the coremap\<close>

text \<open>\<open>ramsize\<close> is what \<open>mips_ramsize\<close> reports.\<close>

definition ram_bootstrap :: "32 word \<Rightarrow> vmem \<Rightarrow> vmem" where
  "ram_bootstrap ramsize s = (
     let r = (if ramsize > 508 * 1024 * 1024 then 508 * 1024 * 1024 else ramsize)
     in s\<lparr>lastpaddr := r, firstpaddr := firstfree s - MIPS_KSEG0\<rparr>)"

definition ram_stealmem :: "32 word \<Rightarrow> vmem \<Rightarrow> 32 word \<times> vmem" where
  "ram_stealmem npages s = (
     let sz = npages * PAGE_SIZE in
     if firstpaddr s + sz > lastpaddr s then (0, s)
     else (firstpaddr s, s\<lparr>firstpaddr := firstpaddr s + sz\<rparr>))"

definition ram_getsize :: "vmem \<Rightarrow> 32 word \<times> 32 word \<times> vmem" where
  "ram_getsize s = (firstpaddr s, lastpaddr s,
     s\<lparr>firstvaddr := PADDR_TO_KVADDR (firstpaddr s), firstpaddr := 0, lastpaddr := 0\<rparr>)"

subsection \<open>The coremap\<close>

text \<open>An entry has four words; the table occupies the first pages of the free memory.\<close>

definition cm_bootstrap :: "vmem \<Rightarrow> vmem option" where
  "cm_bootstrap s0 = do {
     let (lo, hi, s) = ram_getsize (s0\<lparr>coremap_ready := False\<rparr>);
     kassert (lo AND PAGE_FRAME = lo);
     kassert (hi AND PAGE_FRAME = hi);
     let num_pages = (hi - lo) div PAGE_SIZE;
     let cm_size = num_pages * 16;
     let cm_size1 = ((cm_size + PAGE_SIZE - 1) div PAGE_SIZE) * PAGE_SIZE;
     let free = lo + cm_size1;
     kassert (free < hi);
     let n = unat ((hi - free) div PAGE_SIZE);
     kassert (PADDR_TO_KVADDR lo \<noteq> 0);
     Some (s\<lparr>freepaddr := free, cm_end := n,
       coremap := map (\<lambda>i. \<lparr>p_addr = free + of_nat i * PAGE_SIZE,
         v_addr = PADDR_TO_KVADDR (free + of_nat i * PAGE_SIZE), cm_free = 1, cm_length = 0\<rparr>) [0..<n],
       coremap_ready := True\<rparr>)
   }"

text \<open>
  The search of \<open>cm_getppages\<close> from entry \<open>i\<close> on, over the \<open>free\<close> flags of the entries that are
  left; the result is the first and the last index of the block.
\<close>

fun cm_scan :: "int \<Rightarrow> bool list \<Rightarrow> nat \<Rightarrow> int \<Rightarrow> nat \<Rightarrow> (nat \<times> nat) option" where
  "cm_scan npages [] i free_count block_start = None"
| "cm_scan npages (f # fs) i free_count block_start =
     (if f then
        (let free_count1 = free_count + 1;
             block_start1 = (if free_count1 = 1 then i else block_start)
         in if free_count1 = npages then Some (block_start1, i)
            else cm_scan npages fs (Suc i) free_count1 block_start1)
      else cm_scan npages fs (Suc i) 0 block_start)"

definition cm_flags :: "vmem \<Rightarrow> bool list" where
  "cm_flags s = map (\<lambda>e. cm_free e \<noteq> 0) (take (cm_end s) (coremap s))"

text \<open>Writing the flag of the entries \<open>lo\<close> to \<open>hi - 1\<close>.\<close>

definition cm_set_free :: "int \<Rightarrow> nat \<Rightarrow> nat \<Rightarrow> cm_entry list \<Rightarrow> cm_entry list" where
  "cm_set_free v lo hi cm = foldl (\<lambda>c j. c[j := (c ! j)\<lparr>cm_free := v\<rparr>]) cm [lo..<hi]"

definition cm_getppages :: "int \<Rightarrow> vmem \<Rightarrow> (32 word \<times> vmem) option" where
  "cm_getppages npages s = do {
     kassert (coremap_ready s);
     (case cm_scan npages (cm_flags s) 0 0 0 of
        None \<Rightarrow> Some (0, s)
      | Some (b, i) \<Rightarrow> do {
          e \<leftarrow> rd (coremap s) b;
          cm1 \<leftarrow> wr (coremap s) b (e\<lparr>cm_length := npages\<rparr>);
          Some (p_addr e, s\<lparr>coremap := cm_set_free 0 b (Suc i) cm1\<rparr>)
        })
   }"

text \<open>Giving back the block of entry \<open>ix\<close>; the end of the loop is the length stored in that entry.\<close>

definition cm_free_block :: "nat \<Rightarrow> vmem \<Rightarrow> vmem option" where
  "cm_free_block ix s = do {
     kassert (ix < cm_end s);
     e \<leftarrow> rd (coremap s) ix;
     kassert (cm_length e > 0);
     let n = nat (cm_length e);
     kassert (n \<le> length (coremap s) \<or> n \<le> ix);
     let cm1 = cm_set_free 1 ix n (coremap s);
     e1 \<leftarrow> rd cm1 ix;
     cm2 \<leftarrow> wr cm1 ix (e1\<lparr>cm_length := 0\<rparr>);
     Some (s\<lparr>coremap := cm2\<rparr>)
   }"

definition cm_freekpages :: "32 word \<Rightarrow> vmem kstate \<Rightarrow> vmem kstate option" where
  "cm_freekpages a s = do {
     let p_address = KVADDR_TO_PADDR a;
     let ix = unat ((p_address - freepaddr (world s)) div PAGE_SIZE);
     let (spl, s1) = splhigh s;
     w \<leftarrow> cm_free_block ix (world s1);
     Some (snd (splx spl (s1\<lparr>world := w\<rparr>)))
   }"

definition alloc_kpages :: "int \<Rightarrow> vmem \<Rightarrow> (32 word \<times> vmem) option" where
  "alloc_kpages npages s = do {
     (pa, s1) \<leftarrow> cm_getppages npages s;
     if pa = 0 then Some (0, s1) else Some (PADDR_TO_KVADDR pa, s1)
   }"

definition free_kpages :: "32 word \<Rightarrow> vmem kstate \<Rightarrow> vmem kstate option" where
  "free_kpages a s = cm_freekpages a s"

text \<open>The frames of early allocations; interrupts are off around the call.\<close>

definition getppages :: "32 word \<Rightarrow> vmem kstate \<Rightarrow> 32 word \<times> vmem kstate" where
  "getppages npages s = (
     let (spl, s1) = splhigh s;
         (a, w) = ram_stealmem npages (world s1)
     in (a, snd (splx spl (s1\<lparr>world := w\<rparr>))))"

subsection \<open>Pages\<close>

lemma frame_word: "x AND PAGE_FRAME = (x div 4096) * 4096"
proof -
  have "NOT (mask 12) = (0xfffff000 :: 32 word)" by code_simp
  then have "x AND PAGE_FRAME = x AND NOT (mask 12)" by (simp only: PAGE_FRAME_def)
  also have "\<dots> = push_bit 12 (drop_bit 12 x)" by (rule bit_eqI) (auto simp: bit_simps)
  also have "\<dots> = (x div 4096) * 4096" by (simp add: push_bit_eq_mult drop_bit_eq_div)
  finally show ?thesis .
qed

lemma frame_unat: "unat (x AND PAGE_FRAME) = unat x div 4096 * 4096"
proof -
  have "unat x < 2 ^ 32" using unsigned_less [of x, where 'a = nat] by simp
  then have "unat x div 4096 * 4096 < 2 ^ 32" by (rule le_less_trans [OF div_times_less_eq_dividend])
  then show ?thesis by (simp add: frame_word unat_word_ariths unat_div)
qed

lemma frame_aligned: "x AND PAGE_FRAME = x \<longleftrightarrow> 4096 dvd unat x"
  unfolding word_unat_eq_iff frame_unat by (metis dvd_div_mult_self dvd_triv_right)

subsection \<open>First fit\<close>

text \<open>A run of \<open>n\<close> free entries that starts at \<open>b\<close>.\<close>

definition is_run :: "bool list \<Rightarrow> nat \<Rightarrow> nat \<Rightarrow> bool" where
  "is_run ws n b \<longleftrightarrow> b + n \<le> length ws \<and> (\<forall>j < n. ws ! (b + j))"

lemma is_runD: "is_run ws n b \<Longrightarrow> b \<le> k \<Longrightarrow> k < b + n \<Longrightarrow> ws ! k"
  unfolding is_run_def by (metis add_less_cancel_left le_add_diff_inverse)

text \<open>
  What the search knows at entry \<open>i\<close>: \<open>fc\<close> entries before \<open>i\<close> are free, the one before them
  is not, and no run of \<open>n\<close> entries ends at or before \<open>i\<close>.
\<close>

definition scan_inv :: "bool list \<Rightarrow> nat \<Rightarrow> nat \<Rightarrow> nat \<Rightarrow> nat \<Rightarrow> bool" where
  "scan_inv ws n i fc b \<longleftrightarrow> fc < n \<and> fc \<le> i \<and> i \<le> length ws \<and> (0 < fc \<longrightarrow> b = i - fc) \<and>
     (\<forall>j. i - fc \<le> j \<and> j < i \<longrightarrow> ws ! j) \<and> (fc = i \<or> \<not> ws ! (i - fc - 1)) \<and>
     (\<forall>b. is_run ws n b \<longrightarrow> i < b + n)"

lemma run_ends_at:
  assumes "scan_inv ws n i fc b" "is_run ws n r" "r + n = Suc i"
  shows "n = Suc fc"
proof (rule ccontr)
  assume "n \<noteq> Suc fc"
  then have lt: "Suc fc < n" using assms(1) by (simp add: scan_inv_def)
  then have "r \<le> i - fc - 1" "fc < i" using assms(3) by linarith+
  moreover from this have "ws ! (i - fc - 1)"
    using assms(3) lt by (intro is_runD [OF assms(2)]) auto
  ultimately show False using assms(1) by (simp add: scan_inv_def)
qed

lemma scan_inv_used:
  assumes "scan_inv ws n i fc b" "i < length ws" "\<not> ws ! i" "0 < n"
  shows "scan_inv ws n (Suc i) 0 b'"
proof -
  have "Suc i < r + n" if "is_run ws n r" for r
  proof -
    have "i < r + n" using assms(1) that by (simp add: scan_inv_def)
    moreover have "r + n \<noteq> Suc i"
    proof
      assume "r + n = Suc i"
      then have "ws ! i" using assms(4) by (intro is_runD [OF that]) auto
      then show False using assms(3) by simp
    qed
    ultimately show ?thesis by simp
  qed
  then show ?thesis using assms by (simp add: scan_inv_def)
qed

lemma scan_inv_free:
  assumes "scan_inv ws n i fc b" "i < length ws" "ws ! i" "Suc fc \<noteq> n"
  shows "scan_inv ws n (Suc i) (Suc fc) (if fc = 0 then i else b)"
proof -
  have "Suc i < r + n" if "is_run ws n r" for r
  proof -
    have "i < r + n" using assms(1) that by (simp add: scan_inv_def)
    moreover have "r + n \<noteq> Suc i" using run_ends_at [OF assms(1) that] assms(4) by auto
    ultimately show ?thesis by simp
  qed
  then show ?thesis using assms unfolding scan_inv_def by (auto simp: less_Suc_eq)
qed

lemma scan_inv_found:
  assumes "scan_inv ws n i fc b" "i < length ws" "ws ! i" "Suc fc = n"
  shows "is_run ws n (if fc = 0 then i else b)" "i = (if fc = 0 then i else b) + n - 1"
    "r < (if fc = 0 then i else b) \<Longrightarrow> \<not> is_run ws n r"
proof -
  have b: "(if fc = 0 then i else b) = i - fc" "fc \<le> i" using assms(1) by (auto simp: scan_inv_def)
  show "is_run ws n (if fc = 0 then i else b)"
    unfolding is_run_def b(1)
  proof (intro conjI allI impI)
    fix j assume "j < n"
    show "ws ! (i - fc + j)"
    proof (cases "j = fc")
      case False
      then have "i - fc \<le> i - fc + j \<and> i - fc + j < i" using \<open>j < n\<close> assms(4) b(2) by linarith
      then show ?thesis using assms(1) unfolding scan_inv_def by blast
    qed (use assms(3) b(2) in simp)
  qed (use assms b(2) in simp)
  show "i = (if fc = 0 then i else b) + n - 1" unfolding b(1) using b(2) assms(4) by simp
  assume r: "r < (if fc = 0 then i else b)"
  show "\<not> is_run ws n r"
  proof
    assume "is_run ws n r"
    then have "i < r + n" using assms(1) by (simp add: scan_inv_def)
    then show False using r b assms(4) by simp
  qed
qed

text \<open>The search of \<open>cm_getppages\<close> finds the first run of \<open>n\<close> free entries, or there is none.\<close>

lemma cm_scan_result:
  assumes "scan_inv ws n i fc b" "fs = drop i ws" "0 < n"
  shows "case cm_scan (int n) fs i (int fc) b of
      None \<Rightarrow> \<forall>r. \<not> is_run ws n r
    | Some (r, e) \<Rightarrow> is_run ws n r \<and> e = r + n - 1 \<and> (\<forall>r' < r. \<not> is_run ws n r')"
  using assms
proof (induction fs arbitrary: i fc b)
  case Nil
  then show ?case by (auto simp: scan_inv_def is_run_def)
next
  case (Cons f fs)
  have i: "i < length ws" using Cons.prems(2) by (metis drop_eq_Nil leI list.distinct(1))
  then have f: "f = ws ! i" "fs = drop (Suc i) ws"
    using Cons.prems(2) Cons_nth_drop_Suc [of i ws] by (metis list.inject)+
  show ?case
  proof (cases f)
    case False
    then show ?thesis
      using Cons.IH [OF scan_inv_used [OF Cons.prems(1) i] f(2), of b] f(1) assms(3) by simp
  next
    case True
    show ?thesis
    proof (cases "Suc fc = n")
      case found: True
      note sf = scan_inv_found [OF Cons.prems(1) i _ found]
      show ?thesis using sf f True found by (auto simp: Let_def)
    next
      case False
      then show ?thesis
        using Cons.IH [OF scan_inv_free [OF Cons.prems(1) i _ False] f(2) assms(3)] f(1) True
        by (auto simp: Let_def add.commute)
    qed
  qed
qed

lemma cm_scan_first_fit:
  assumes "0 < n"
  shows "case cm_scan (int n) ws 0 0 0 of
      None \<Rightarrow> \<forall>r. \<not> is_run ws n r
    | Some (r, e) \<Rightarrow> is_run ws n r \<and> e = r + n - 1 \<and> (\<forall>r' < r. \<not> is_run ws n r')"
proof -
  have "scan_inv ws n 0 0 0" using assms by (auto simp: scan_inv_def)
  from cm_scan_result [OF this _ assms, of ws] show ?thesis by simp
qed

subsection \<open>The invariant of the coremap\<close>

text \<open>
  Entry \<open>i\<close> describes the \<open>i\<close>th frame above the table, all frames lie below the 508 megabytes
  \<open>ram_bootstrap\<close> allows, and an entry with a length starts a block of that many entries in use,
  none of which starts another one.
\<close>

definition block_at :: "cm_entry list \<Rightarrow> nat \<Rightarrow> bool" where
  "block_at cm i \<longleftrightarrow> 0 \<le> cm_length (cm ! i) \<and>
     (0 < cm_length (cm ! i) \<longrightarrow>
        i + nat (cm_length (cm ! i)) \<le> length cm \<and>
        (\<forall>j. i \<le> j \<and> j < i + nat (cm_length (cm ! i)) \<longrightarrow>
           cm_free (cm ! j) = 0 \<and> (i \<noteq> j \<longrightarrow> cm_length (cm ! j) = 0)))"

definition cm_inv :: "vmem \<Rightarrow> bool" where
  "cm_inv s \<longleftrightarrow> coremap_ready s \<and> length (coremap s) = cm_end s \<and>
     freepaddr s \<noteq> 0 \<and> 4096 dvd unat (freepaddr s) \<and>
     unat (freepaddr s) + cm_end s * 4096 \<le> 508 * 1024 * 1024 \<and>
     (\<forall>i < cm_end s. p_addr (coremap s ! i) = freepaddr s + of_nat i * PAGE_SIZE \<and>
        v_addr (coremap s ! i) = PADDR_TO_KVADDR (p_addr (coremap s ! i)) \<and> block_at (coremap s) i)"

declare cm_inv_def [inv_defs] block_at_def [inv_defs]

lemma block_atD:
  assumes "block_at cm i" "0 < cm_length (cm ! i)"
  shows "i + nat (cm_length (cm ! i)) \<le> length cm"
    "i \<le> j \<Longrightarrow> j < i + nat (cm_length (cm ! i)) \<Longrightarrow> cm_free (cm ! j) = 0"
    "i < j \<Longrightarrow> j < i + nat (cm_length (cm ! i)) \<Longrightarrow> cm_length (cm ! j) = 0"
    "i \<le> j \<Longrightarrow> j < i + nat (cm_length (cm ! i)) \<Longrightarrow> j < length cm"
  using assms unfolding block_at_def by (blast, blast, metis less_imp_le less_irrefl, metis less_le_trans)

lemma block_at_nonneg: "block_at cm i \<Longrightarrow> 0 \<le> cm_length (cm ! i)"
  by (simp add: block_at_def)

lemma cm_set_free_length [simp]: "length (cm_set_free v lo hi cm) = length cm"
  unfolding cm_set_free_def by (induction hi) auto

lemma cm_set_free_nth:
  "hi \<le> length cm \<Longrightarrow> i < length cm \<Longrightarrow>
     cm_set_free v lo hi cm ! i = (if lo \<le> i \<and> i < hi then (cm ! i)\<lparr>cm_free := v\<rparr> else cm ! i)"
proof (induction hi)
  case (Suc hi)
  have "length (cm_set_free v lo hi cm) = length cm" by simp
  then show ?case using Suc by (auto simp: cm_set_free_def nth_list_update less_Suc_eq)
qed (simp add: cm_set_free_def)

lemma frame_addr:
  assumes "cm_inv s" "i < cm_end s"
  shows "unat (freepaddr s + of_nat i * PAGE_SIZE) = unat (freepaddr s) + i * 4096"
proof -
  have b: "unat (freepaddr s) + i * 4096 < 2 ^ 32" "i < 2 ^ 32"
    using assms by (auto simp: cm_inv_def)
  then have "unat (of_nat i * PAGE_SIZE) = i * 4096"
    by (simp add: PAGE_SIZE_def unat_word_ariths unat_of_nat)
  then show ?thesis using b by (simp add: unat_word_ariths)
qed

lemma frame_nonzero:
  assumes "cm_inv s" "i < cm_end s"
  shows "freepaddr s + of_nat i * PAGE_SIZE \<noteq> 0"
  using frame_addr [OF assms] assms by (auto simp: cm_inv_def unat_eq_zero dest: arg_cong [of _ _ unat])

text \<open>The entries of a block \<open>b\<close> of \<open>n\<close> frames after \<open>cm_getppages\<close>.\<close>

definition take_run :: "nat \<Rightarrow> nat \<Rightarrow> cm_entry list \<Rightarrow> cm_entry list" where
  "take_run n b cm = cm_set_free 0 b (b + n) (cm[b := (cm ! b)\<lparr>cm_length := int n\<rparr>])"

lemma take_run_nth:
  "b + n \<le> length cm \<Longrightarrow> i < length cm \<Longrightarrow> take_run n b cm ! i =
     (if i = b then (if 0 < n then (cm ! b)\<lparr>cm_length := int n, cm_free := 0\<rparr> else (cm ! b)\<lparr>cm_length := int n\<rparr>)
      else if b \<le> i \<and> i < b + n then (cm ! i)\<lparr>cm_free := 0\<rparr> else cm ! i)"
  by (auto simp: take_run_def cm_set_free_nth nth_list_update)

lemma take_run_length [simp]: "length (take_run n b cm) = length cm"
  by (simp add: take_run_def)

lemma flags_nth [simp]:
  "cm_inv s \<Longrightarrow> length (cm_flags s) = cm_end s"
  "cm_inv s \<Longrightarrow> i < cm_end s \<Longrightarrow> cm_flags s ! i = (cm_free (coremap s ! i) \<noteq> 0)"
  by (auto simp: cm_flags_def cm_inv_def)

lemma run_length_zero:
  assumes "cm_inv s" "is_run (cm_flags s) n b" "b \<le> i" "i < b + n"
  shows "cm_length (coremap s ! i) = 0"
proof -
  have i: "i < cm_end s" using assms by (simp add: is_run_def)
  then have ba: "block_at (coremap s) i" using assms(1) by (simp add: cm_inv_def)
  have "cm_free (coremap s ! i) \<noteq> 0" using assms(1) is_runD [OF assms(2-4)] i by simp
  then have "\<not> 0 < cm_length (coremap s ! i)" using block_atD(2) [OF ba, of i] by auto
  then show ?thesis using block_at_nonneg [OF ba] by simp
qed

lemma block_misses_run:
  assumes "cm_inv s" "is_run (cm_flags s) n b" "i < cm_end s" "0 < cm_length (coremap s ! i)"
    "i \<le> j" "j < i + nat (cm_length (coremap s ! i))"
  shows "\<not> (b \<le> j \<and> j < b + n)"
proof
  assume j: "b \<le> j \<and> j < b + n"
  have ba: "block_at (coremap s) i" "length (coremap s) = cm_end s" using assms(1,3) by (simp_all add: cm_inv_def)
  have "cm_free (coremap s ! j) = 0" "j < cm_end s"
    using block_atD(2,4) [OF ba(1) assms(4-6)] ba(2) by simp_all
  then show False using is_runD [OF assms(2), of j] j assms(1) by simp
qed

lemma take_run_block:
  assumes "cm_inv s" "is_run (cm_flags s) n b" "0 < n" "i < cm_end s"
  shows "block_at (take_run n b (coremap s)) i"
proof -
  let ?cm = "coremap s" and ?cm' = "take_run n b (coremap s)"
  have len: "length ?cm = cm_end s" "b + n \<le> length ?cm" using assms(1,2) by (auto simp: cm_inv_def is_run_def)
  show ?thesis
  proof (cases "i = b")
    case True
    have l: "cm_length (?cm' ! b) = int n" using len assms(3) by (simp add: take_run_nth)
    show ?thesis unfolding block_at_def True l
    proof (intro conjI impI allI)
      fix j assume j: "b \<le> j \<and> j < b + nat (int n)"
      then show "cm_free (?cm' ! j) = 0" using len assms(3) by (simp add: take_run_nth)
      show "cm_length (?cm' ! j) = 0" if "b \<noteq> j"
        using len j that run_length_zero [OF assms(1,2), of j] by (simp add: take_run_nth)
    qed (use len in simp_all)
  next
    case False
    have ba: "block_at ?cm i" using assms(1,4) by (simp add: cm_inv_def)
    have l: "cm_length (?cm' ! i) = cm_length (?cm ! i)" using False len assms(4) by (simp add: take_run_nth)
    show ?thesis unfolding block_at_def l
    proof (intro conjI impI allI)
      fix j assume lt: "0 < cm_length (?cm ! i)" and j: "i \<le> j \<and> j < i + nat (cm_length (?cm ! i))"
      have nb: "\<not> (b \<le> j \<and> j < b + n)" using block_misses_run [OF assms(1,2,4) lt] j by blast
      have jl: "j < length ?cm" using block_atD(4) [OF ba lt] j by simp
      then have eq: "?cm' ! j = ?cm ! j" using nb len assms(3) by (auto simp: take_run_nth)
      show "cm_free (?cm' ! j) = 0" using block_atD(2) [OF ba lt] j eq by simp
      show "cm_length (?cm' ! j) = 0" if "i \<noteq> j" using block_atD(3) [OF ba lt] j eq that by simp
    qed (use block_atD(1) [OF ba] block_at_nonneg [OF ba] in simp_all)
  qed
qed

lemma take_run_inv:
  assumes "cm_inv s" "is_run (cm_flags s) n b" "0 < n"
  shows "cm_inv (s\<lparr>coremap := take_run n b (coremap s)\<rparr>)"
proof -
  have "b + n \<le> length (coremap s)" "length (coremap s) = cm_end s"
    using assms by (simp_all add: cm_inv_def is_run_def)
  then show ?thesis using assms(1,3) take_run_block [OF assms] by (simp add: cm_inv_def take_run_nth)
qed

lemma cm_getppages_result:
  assumes "cm_inv s" "0 < n"
  shows "(cm_getppages (int n) s = Some (0, s) \<and> (\<forall>b. \<not> is_run (cm_flags s) n b)) \<or>
    (\<exists>b. is_run (cm_flags s) n b \<and> (\<forall>b' < b. \<not> is_run (cm_flags s) n b') \<and>
       cm_getppages (int n) s =
         Some (freepaddr s + of_nat b * PAGE_SIZE, s\<lparr>coremap := take_run n b (coremap s)\<rparr>))"
proof (cases "cm_scan (int n) (cm_flags s) 0 0 0")
  case None
  then show ?thesis using cm_scan_first_fit [OF assms(2), of "cm_flags s"] assms(1)
    by (simp add: cm_getppages_def cm_inv_def)
next
  case (Some r)
  obtain b e where r: "r = (b, e)" by (cases r)
  have b: "is_run (cm_flags s) n b" "e = b + n - 1" "\<forall>b' < b. \<not> is_run (cm_flags s) n b'"
    using cm_scan_first_fit [OF assms(2), of "cm_flags s"] Some r by auto
  then have "b < length (coremap s)" "Suc e = b + n" "p_addr (coremap s ! b) = freepaddr s + of_nat b * PAGE_SIZE"
    "coremap_ready s"
    using assms by (auto simp: is_run_def cm_inv_def cm_flags_def)
  then have "cm_getppages (int n) s =
      Some (freepaddr s + of_nat b * PAGE_SIZE, s\<lparr>coremap := take_run n b (coremap s)\<rparr>)"
    using Some r by (simp add: cm_getppages_def take_run_def)
  then show ?thesis using b by blast
qed

lemma frame_index:
  assumes "cm_inv s" "b < cm_end s"
  shows "unat ((KVADDR_TO_PADDR (PADDR_TO_KVADDR (freepaddr s + of_nat b * PAGE_SIZE)) - freepaddr s) div PAGE_SIZE) = b"
proof -
  have "b * 4096 < 2 ^ 32" "b < 2 ^ 32" using assms by (auto simp: cm_inv_def)
  then have "unat (of_nat b * PAGE_SIZE) = b * 4096"
    by (simp add: PAGE_SIZE_def unat_word_ariths unat_of_nat)
  then show ?thesis by (simp add: KVADDR_TO_PADDR_def PADDR_TO_KVADDR_def unat_div PAGE_SIZE_def)
qed

lemma blocks_disjoint:
  assumes "cm_inv s" "i < cm_end s" "k < cm_end s" "i \<noteq> k"
    "0 < cm_length (coremap s ! i)" "0 < cm_length (coremap s ! k)"
    "i \<le> j" "j < i + nat (cm_length (coremap s ! i))"
  shows "\<not> (k \<le> j \<and> j < k + nat (cm_length (coremap s ! k)))"
proof
  assume k: "k \<le> j \<and> j < k + nat (cm_length (coremap s ! k))"
  have b: "block_at (coremap s) i" "block_at (coremap s) k" using assms(1-3) by (simp_all add: cm_inv_def)
  show False
  proof (cases "i < k")
    case True
    then have "cm_length (coremap s ! k) = 0" using block_atD(3) [OF b(1) assms(5), of k] k assms(8) by simp
    then show False using assms(6) by simp
  next
    case False
    then have "cm_length (coremap s ! i) = 0" using block_atD(3) [OF b(2) assms(6), of i] k assms(4,7) by simp
    then show False using assms(5) by simp
  qed
qed

text \<open>The table after the block of entry \<open>ix\<close> is given back.\<close>

definition drop_run :: "nat \<Rightarrow> cm_entry list \<Rightarrow> cm_entry list" where
  "drop_run ix cm = (let c = cm_set_free 1 ix (nat (cm_length (cm ! ix))) cm
     in c[ix := (c ! ix)\<lparr>cm_length := 0\<rparr>])"

lemma drop_run_length [simp]: "length (drop_run ix cm) = length cm"
  by (simp add: drop_run_def Let_def)

lemma drop_run_nth:
  assumes "nat (cm_length (cm ! ix)) \<le> length cm" "ix < length cm" "i < length cm"
  shows "cm_length (drop_run ix cm ! i) = (if i = ix then 0 else cm_length (cm ! i))"
    "cm_free (drop_run ix cm ! i) =
       (if ix \<le> i \<and> i < nat (cm_length (cm ! ix)) then 1 else cm_free (cm ! i))"
    "p_addr (drop_run ix cm ! i) = p_addr (cm ! i)" "v_addr (drop_run ix cm ! i) = v_addr (cm ! i)"
  using assms by (simp_all add: drop_run_def Let_def nth_list_update cm_set_free_nth)

lemma cm_free_block_eq:
  assumes "cm_inv s" "ix < cm_end s"
  shows "cm_free_block ix s =
    (if 0 < cm_length (coremap s ! ix) then Some (s\<lparr>coremap := drop_run ix (coremap s)\<rparr>) else None)"
proof -
  have b: "block_at (coremap s) ix" "length (coremap s) = cm_end s" using assms by (simp_all add: cm_inv_def)
  show ?thesis
  proof (cases "0 < cm_length (coremap s ! ix)")
    case True
    then have "nat (cm_length (coremap s ! ix)) \<le> cm_end s" using block_atD(1) [OF b(1)] b(2) by simp
    then show ?thesis using True assms(2) b(2) by (simp add: cm_free_block_def drop_run_def Let_def)
  qed (use assms(2) b(2) in \<open>simp add: cm_free_block_def\<close>)
qed

lemma drop_run_block:
  assumes "cm_inv s" "ix < cm_end s" "0 < cm_length (coremap s ! ix)" "i < cm_end s"
  shows "block_at (drop_run ix (coremap s)) i"
proof -
  let ?cm = "coremap s" and ?cm' = "drop_run ix (coremap s)"
  have b: "block_at ?cm ix" "block_at ?cm i" "length ?cm = cm_end s" using assms by (simp_all add: cm_inv_def)
  then have n: "nat (cm_length (?cm ! ix)) \<le> length ?cm" using block_atD(1) [OF b(1) assms(3)] by simp
  note nths = drop_run_nth [OF n]
  show ?thesis
  proof (cases "i = ix \<or> cm_length (?cm ! i) = 0")
    case True
    then have "cm_length (?cm' ! i) = 0" using nths(1) [of i] assms(2,4) b(3) by auto
    then show ?thesis by (simp add: block_at_def)
  next
    case False
    then have ne: "i \<noteq> ix" and pos: "0 < cm_length (?cm ! i)" using block_at_nonneg [OF b(2)] by auto
    have l: "cm_length (?cm' ! i) = cm_length (?cm ! i)" using nths(1) [of i] assms(2,4) b(3) ne by simp
    show ?thesis unfolding block_at_def l
    proof (intro conjI impI allI)
      fix j assume j: "i \<le> j \<and> j < i + nat (cm_length (?cm ! i))"
      have jl: "j < length ?cm" using block_atD(4) [OF b(2) pos] j by simp
      have "\<not> (ix \<le> j \<and> j < nat (cm_length (?cm ! ix)))"
        using blocks_disjoint [OF assms(1) assms(4,2) ne pos assms(3), of j] j by linarith
      then show "cm_free (?cm' ! j) = 0"
        using nths(2) [of j] jl assms(2) b(3) block_atD(2) [OF b(2) pos] j by auto
      show "cm_length (?cm' ! j) = 0" if "i \<noteq> j"
        using nths(1) [of j] jl assms(2) b(3) block_atD(3) [OF b(2) pos] j that by auto
    qed (use block_atD(1) [OF b(2) pos] pos in simp_all)
  qed
qed

lemma cm_free_block_inv:
  assumes "cm_inv s" "ix < cm_end s" "cm_free_block ix s = Some s'"
  shows "cm_inv s'"
proof -
  have pos: "0 < cm_length (coremap s ! ix)" and s': "s' = s\<lparr>coremap := drop_run ix (coremap s)\<rparr>"
    using cm_free_block_eq [OF assms(1,2)] assms(3) by (auto split: if_splits)
  have b: "block_at (coremap s) ix" "length (coremap s) = cm_end s" using assms by (simp_all add: cm_inv_def)
  have "nat (cm_length (coremap s ! ix)) \<le> length (coremap s)" using block_atD(1) [OF b(1) pos] by simp
  then show ?thesis
    using assms(1,2) drop_run_block [OF assms(1,2) pos] b(2)
    by (simp add: s' cm_inv_def drop_run_nth)
qed

lemma cm_scan_nonpos: "n \<le> 0 \<Longrightarrow> 0 \<le> fc \<Longrightarrow> cm_scan n fs i fc b = None"
  by (induction fs arbitrary: i fc b) (simp_all add: Let_def)

lemma cm_getppages_inv:
  assumes "cm_inv s" "cm_getppages n s = Some (pa, s')"
  shows "cm_inv s'"
proof (cases "0 < n")
  case True
  then obtain m where m: "n = int m" "0 < m" by (metis zero_less_imp_eq_int)
  show ?thesis using cm_getppages_result [OF assms(1) m(2)] assms take_run_inv [OF assms(1) _ m(2)] m(1) by auto
next
  case False
  then show ?thesis using assms by (auto simp: cm_getppages_def cm_scan_nonpos)
qed

subsection \<open>Bootstrap\<close>

lemma unat_PAGE_SIZE [simp]: "unat PAGE_SIZE = 4096"
  by (simp add: PAGE_SIZE_def)

lemma unat_page_round:
  assumes "unat x + 4095 < 2 ^ 32"
  shows "unat ((x + PAGE_SIZE - 1) div PAGE_SIZE * PAGE_SIZE) = (unat x + 4095) div 4096 * 4096"
proof -
  have e: "x + PAGE_SIZE - 1 = x + 4095" by (simp add: PAGE_SIZE_def)
  have "unat (x + 4095) = unat x + 4095" using assms by (simp add: unat_word_ariths)
  moreover have "(unat x + 4095) div 4096 * 4096 < 2 ^ 32"
    using assms by (rule le_less_trans [OF div_times_less_eq_dividend])
  ultimately show ?thesis unfolding e by (simp add: unat_word_ariths unat_div)
qed

lemma table_size:
  assumes "lo \<le> hi" "unat hi \<le> 508 * 1024 * 1024"
  shows "unat (lo + ((((hi - lo) div PAGE_SIZE) * 16 + PAGE_SIZE - 1) div PAGE_SIZE) * PAGE_SIZE) =
    unat lo + ((unat hi - unat lo) div 4096 * 16 + 4095) div 4096 * 4096" (is "unat (lo + ?r) = _ + ?m")
proof -
  have d: "unat (hi - lo) = unat hi - unat lo" using assms(1) by (simp add: unat_sub_if' word_le_nat_alt)
  have pages: "(unat hi - unat lo) div 4096 \<le> 130048" using assms(2) by simp
  then have u: "unat ((hi - lo) div PAGE_SIZE * 16) = (unat hi - unat lo) div 4096 * 16"
    by (simp add: unat_word_ariths unat_div d)
  have r: "unat ?r = ?m" using unat_page_round [of "(hi - lo) div PAGE_SIZE * 16"] pages unfolding u by simp
  have "?m \<le> (unat hi - unat lo) div 4096 * 16 + 4095" by simp
  then have "?m \<le> 130048 * 16 + 4095" using pages by linarith
  moreover have "unat lo \<le> 508 * 1024 * 1024" using assms by (simp add: word_le_nat_alt)
  ultimately show ?thesis using r by (simp add: unat_word_ariths)
qed

lemma cm_bootstrap_result:
  assumes "cm_bootstrap s = Some s'" "firstpaddr s \<le> lastpaddr s" "unat (lastpaddr s) \<le> 508 * 1024 * 1024"
  shows "cm_inv s'" "unat (freepaddr s') + cm_end s' * 4096 = unat (lastpaddr s)"
    "unat (firstpaddr s) + 16 * cm_end s' \<le> unat (freepaddr s')"
    "cm_flags s' = replicate (cm_end s') True" "firstpaddr s' = 0" "lastpaddr s' = 0"
proof -
  let ?lo = "firstpaddr s" and ?hi = "lastpaddr s"
  define free where "free = ?lo + ((((?hi - ?lo) div PAGE_SIZE) * 16 + PAGE_SIZE - 1) div PAGE_SIZE) * PAGE_SIZE"
  define n where "n = unat ((?hi - free) div PAGE_SIZE)"
  have al: "4096 dvd unat ?lo" "4096 dvd unat ?hi" "free < ?hi" and
    s': "s' = s\<lparr>coremap_ready := True, firstvaddr := PADDR_TO_KVADDR ?lo, firstpaddr := 0, lastpaddr := 0,
       freepaddr := free, cm_end := n,
       coremap := map (\<lambda>i. \<lparr>p_addr = free + of_nat i * PAGE_SIZE,
         v_addr = PADDR_TO_KVADDR (free + of_nat i * PAGE_SIZE), cm_free = 1, cm_length = 0\<rparr>) [0..<n]\<rparr>"
    using assms(1) by (auto simp: cm_bootstrap_def ram_getsize_def Let_def frame_aligned free_def n_def)
  let ?m = "((unat ?hi - unat ?lo) div 4096 * 16 + 4095) div 4096 * 4096"
  have f: "unat free = unat ?lo + ?m" unfolding free_def by (rule table_size [OF assms(2,3)])
  have lt: "unat free < unat ?hi" using al(3) by (simp add: word_less_nat_alt)
  have fal: "4096 dvd unat free" unfolding f using al(1) by simp
  have "unat (?hi - free) = unat ?hi - unat free" using al(3) by (simp add: unat_sub_if' word_less_nat_alt)
  then have n: "n * 4096 = unat ?hi - unat free" using al(2) fal by (simp add: n_def unat_div dvd_diff_nat)
  show eq: "unat (freepaddr s') + cm_end s' * 4096 = unat (lastpaddr s)" using n lt by (simp add: s')
  have "(unat ?hi - unat ?lo) div 4096 * 16 \<le> ?m" 
    using dividend_less_div_times [of 4096 "(unat ?hi - unat ?lo) div 4096 * 16 + 4095"] by simp
  moreover have "n * 4096 \<le> unat ?hi - unat ?lo" using n f by linarith
  then have "n \<le> (unat ?hi - unat ?lo) div 4096" by (simp add: less_eq_div_iff_mult_less_eq)
  ultimately show sz: "unat (firstpaddr s) + 16 * cm_end s' \<le> unat (freepaddr s')" by (simp add: s' f)
  have "0 < n" using n lt by (cases n) simp_all
  then have "free \<noteq> 0" using sz by (auto simp: s')
  then show "cm_inv s'" using eq fal assms(3) by (simp add: s' cm_inv_def block_at_def)
  show "cm_flags s' = replicate (cm_end s') True"
    by (rule nth_equalityI) (simp_all add: s' cm_flags_def)
  show "firstpaddr s' = 0" "lastpaddr s' = 0" by (simp_all add: s')
qed

text \<open>A machine with 16 pages of memory of which the kernel takes the first four.\<close>

definition sample_ram :: vmem where
  "sample_ram = \<lparr>firstfree = 0x80004000, firstpaddr = 0x4000, lastpaddr = 0x10000, firstvaddr = 0,
     coremap = [], cm_end = 0, freepaddr = 0, coremap_ready = False, pmem = (\<lambda>_. 0),
     spaces = Map.empty, tlb = replicate 64 (0, 0), next_victim = 0\<rparr>"

definition sample_cm :: vmem where
  "sample_cm = the (cm_bootstrap sample_ram)"

lemma sample_cm_boot: "cm_bootstrap sample_ram = Some sample_cm"
proof -
  have "cm_bootstrap sample_ram \<noteq> None" by code_simp
  then show ?thesis by (simp add: sample_cm_def)
qed

lemma sample_cm_inv: "cm_inv sample_cm"
  by (rule cm_bootstrap_result(1) [OF sample_cm_boot]) (simp_all add: sample_ram_def)

text \<open>The same machine with one block of one frame and one of two frames handed out.\<close>

definition sample_used :: vmem where
  "sample_used = snd (the (cm_getppages 2 (snd (the (cm_getppages 1 sample_cm)))))"

lemma sample_used_inv: "cm_inv sample_used"
proof -
  have "\<exists>x. cm_getppages n s = Some x" if "cm_inv s" for n s
    using that cm_getppages_result [OF that, of "nat n"] by (cases "0 < n") (auto simp: cm_getppages_def cm_scan_nonpos cm_inv_def)
  then have "cm_inv (snd (the (cm_getppages n s)))" if "cm_inv s" for n s
    using cm_getppages_inv [OF that, of n] that by fastforce
  then show ?thesis using sample_cm_inv by (simp add: sample_used_def)
qed

subsection \<open>Properties\<close>

text \<open>
  C31: The frames the coremap hands out. After \<open>cm_bootstrap\<close> on a memory of at most 508
  megabytes every frame is free, the frames are exactly those from the first page behind the table
  up to the end of memory, the table itself (16 bytes per frame) fits below them, and the memory
  \<open>ram_stealmem\<close> could still give away is empty, so no frame has two owners.
\<close>

theorem cm_bootstrap_frames:
  assumes "cm_bootstrap s = Some s'" "firstpaddr s \<le> lastpaddr s" "unat (lastpaddr s) \<le> 508 * 1024 * 1024"
  shows "cm_inv s' \<and> cm_flags s' = replicate (cm_end s') True \<and>
    unat (freepaddr s') + cm_end s' * 4096 = unat (lastpaddr s) \<and>
    unat (firstpaddr s) + 16 * cm_end s' \<le> unat (freepaddr s') \<and>
    (0 < unat npages \<and> unat npages < 2 ^ 20 \<longrightarrow> fst (ram_stealmem npages s') = 0)"
proof -
  note r = cm_bootstrap_result [OF assms]
  have "0 < npages * PAGE_SIZE" if "0 < unat npages" "unat npages < 2 ^ 20"
    using that by (simp add: word_less_nat_alt unat_word_ariths)
  then show ?thesis using r by (auto simp: ram_stealmem_def Let_def)
qed

theorem cm_bootstrap_frames_witness:
  "cm_inv sample_cm \<and> cm_flags sample_cm = replicate (cm_end sample_cm) True \<and>
   fst (ram_stealmem 1 sample_cm) = 0"
  using cm_bootstrap_frames [OF sample_cm_boot, of 1] by (simp add: sample_ram_def)

text \<open>
  C30: First fit. A request for \<open>n > 0\<close> frames returns 0 and changes nothing exactly when no \<open>n\<close>
  consecutive frames are free; otherwise it returns the address of the lowest such run, which is
  disjoint from every block handed out before, marks exactly these frames as used, and keeps the
  invariant of the coremap.
\<close>

theorem cm_getppages_first_fit:
  assumes "cm_inv s" "0 < n"
  shows "\<exists>pa s'. cm_getppages (int n) s = Some (pa, s') \<and> cm_inv s' \<and>
    (if \<exists>b. is_run (cm_flags s) n b
     then \<exists>b. is_run (cm_flags s) n b \<and> (\<forall>b' < b. \<not> is_run (cm_flags s) n b') \<and>
       unat pa = unat (freepaddr s) + b * 4096 \<and>
       (\<forall>i < cm_end s. cm_flags s' ! i = (cm_flags s ! i \<and> \<not> (b \<le> i \<and> i < b + n))) \<and>
       (\<forall>i j. i < cm_end s \<and> i \<le> j \<and> j < i + nat (cm_length (coremap s ! i)) \<longrightarrow> \<not> (b \<le> j \<and> j < b + n))
     else pa = 0 \<and> s' = s)"
  using cm_getppages_result [OF assms]
proof (elim disjE exE conjE)
  fix b assume b: "is_run (cm_flags s) n b" "\<forall>b' < b. \<not> is_run (cm_flags s) n b'"
    and g: "cm_getppages (int n) s =
      Some (freepaddr s + of_nat b * PAGE_SIZE, s\<lparr>coremap := take_run n b (coremap s)\<rparr>)"
  let ?s' = "s\<lparr>coremap := take_run n b (coremap s)\<rparr>"
  have inv: "cm_inv ?s'" using take_run_inv [OF assms(1) b(1) assms(2)] .
  have len: "b + n \<le> length (coremap s)" "length (coremap s) = cm_end s"
    using b(1) assms(1) by (simp_all add: is_run_def cm_inv_def)
  have fl: "cm_flags ?s' ! i = (cm_flags s ! i \<and> \<not> (b \<le> i \<and> i < b + n))" if "i < cm_end s" for i
    using that flags_nth [OF inv] flags_nth [OF assms(1)] len assms(2) by (auto simp: take_run_nth)
  have ua: "unat (freepaddr s + of_nat b * PAGE_SIZE) = unat (freepaddr s) + b * 4096"
    using frame_addr [OF assms(1), of b] len assms(2) by simp
  have dj: "\<not> (b \<le> j \<and> j < b + n)"
    if "i < cm_end s \<and> i \<le> j \<and> j < i + nat (cm_length (coremap s ! i))" for i j
    using block_misses_run [OF assms(1) b(1), of i j] that by linarith
  show ?thesis using b g inv fl ua dj by auto
qed (use assms(1) in auto)

theorem cm_getppages_first_fit_witness:
  "\<exists>pa s'. cm_getppages 3 sample_cm = Some (pa, s') \<and> cm_inv s'"
  using cm_getppages_first_fit [OF sample_cm_inv, of 3] by auto

text \<open>
  C32: Giving a block back. \<open>free_kpages\<close> on the address of a block of \<open>n\<close> frames that starts at
  entry \<open>b\<close> returns with the interrupt level restored and the invariant kept, but the loop ends at
  entry \<open>n\<close> and not at entry \<open>b + n\<close>: a frame \<open>i\<close> of the block is free again only if \<open>i < n\<close>. So a
  block with \<open>n \<le> b\<close> is never given back at all. A second \<open>free_kpages\<close> fails its assertion.
\<close>

theorem free_kpages_leaks:
  assumes "cm_inv (world s)" "b < cm_end (world s)" "cm_length (coremap (world s) ! b) = int n" "0 < n"
  shows "\<exists>s'. free_kpages (PADDR_TO_KVADDR (freepaddr (world s) + of_nat b * PAGE_SIZE)) s = Some s' \<and>
    cm_inv (world s') \<and> curspl s' = curspl s \<and>
    (\<forall>i. b \<le> i \<and> i < b + n \<longrightarrow> cm_flags (world s') ! i = (i < n)) \<and>
    free_kpages (PADDR_TO_KVADDR (freepaddr (world s) + of_nat b * PAGE_SIZE)) s' = None"
proof -
  let ?w = "world s" and ?va = "PADDR_TO_KVADDR (freepaddr (world s) + of_nat b * PAGE_SIZE)"
  let ?w' = "?w\<lparr>coremap := drop_run b (coremap ?w)\<rparr>"
  have ba: "block_at (coremap ?w) b" "length (coremap ?w) = cm_end ?w" using assms by (simp_all add: cm_inv_def)
  have fb: "cm_free_block b ?w = Some ?w'" using cm_free_block_eq [OF assms(1,2)] assms(3,4) by simp
  have inv: "cm_inv ?w'" by (rule cm_free_block_inv [OF assms(1,2) fb])
  have n: "b + n \<le> length (coremap ?w)" using block_atD(1) [OF ba(1)] assms(3,4) by simp
  define s' where "s' = snd (splx (curspl s) (snd (splhigh s)\<lparr>world := ?w'\<rparr>))"
  have s': "world s' = ?w'" "curspl s' = curspl s" by (simp_all add: s'_def spl_simps)
  have run: "free_kpages ?va t = Some (snd (splx (curspl t) (snd (splhigh t)\<lparr>world := x\<rparr>)))"
    if "freepaddr (world t) = freepaddr ?w" "cm_free_block b (world t) = Some x" for t x
    using that frame_index [OF assms(1,2)] by (simp add: free_kpages_def cm_freekpages_def spl_simps split_def)
  have fl: "cm_flags ?w' ! i = (i < n)" if "b \<le> i \<and> i < b + n" for i
    using that n ba assms(3,4) flags_nth(2) [OF inv, of i] block_atD(2) [OF ba(1), of i]
    by (simp add: drop_run_nth)
  have "cm_free_block b ?w' = None"
    using cm_free_block_eq [OF inv, of b] assms(2,3) n ba by (simp add: drop_run_nth)
  then have "free_kpages ?va s' = None" using frame_index [OF assms(1,2)] s'
    by (simp add: free_kpages_def cm_freekpages_def spl_simps split_def)
  then show ?thesis using run [OF refl fb] inv s' fl by (auto simp: s'_def)
qed

theorem free_kpages_leaks_witness:
  "\<exists>s'. free_kpages (PADDR_TO_KVADDR (freepaddr sample_used + PAGE_SIZE)) (quiet sample_used) = Some s' \<and>
     \<not> cm_flags (world s') ! 2"
proof -
  have "1 < cm_end sample_used" "cm_length (coremap sample_used ! 1) = int 2" by code_simp+
  then show ?thesis using free_kpages_leaks [of "quiet sample_used" 1 2] sample_used_inv by (auto simp: quiet_def)
qed

end
