(* ===== verification/L_String.thy ===== *)
theory L_String
  imports K_Prelude
begin

unbundle bit_operations_syntax

section \<open>Memory and strings: \<^verbatim>\<open>lib/libc\<close>\<close>

text \<open>
  The functions on blocks of memory and on C strings that the kernel and the C library share.
  Memory is a map from 32-bit addresses to bytes, a pointer is an address and \<open>p[i]\<close> is the byte at
  \<open>p + i\<close>. A \<open>long\<close> is stored as its four bytes. The type \<open>char\<close> is signed on this machine, so a
  comparison with an \<open>int\<close> goes through \<open>sint\<close>. A loop that looks for the end of a string
  does not end when there is none; it is the outcome \<open>None\<close>.
\<close>

type_synonym mem = "32 word \<Rightarrow> 8 word"

subsection \<open>Blocks\<close>

primrec store_bytes :: "8 word list \<Rightarrow> 32 word \<Rightarrow> mem \<Rightarrow> mem" where
  "store_bytes [] a m = m"
| "store_bytes (b # bs) a m = store_bytes bs (a + 1) (m(a := b))"

definition load_long :: "mem \<Rightarrow> 32 word \<Rightarrow> 8 word list" where
  "load_long m a = [m a, m (a + 1), m (a + 2), m (a + 3)]"

text \<open>The loops of \<open>memcpy\<close>, front to back, and of \<open>memmove\<close>, back to front, over \<open>n\<close> elements.\<close>

primrec cpy_longs :: "nat \<Rightarrow> 32 word \<Rightarrow> 32 word \<Rightarrow> mem \<Rightarrow> mem" where
  "cpy_longs 0 d s m = m"
| "cpy_longs (Suc i) d s m = (let m1 = cpy_longs i d s m
     in store_bytes (load_long m1 (s + 4 * of_nat i)) (d + 4 * of_nat i) m1)"

primrec cpy_chars :: "nat \<Rightarrow> 32 word \<Rightarrow> 32 word \<Rightarrow> mem \<Rightarrow> mem" where
  "cpy_chars 0 d s m = m"
| "cpy_chars (Suc i) d s m = (let m1 = cpy_chars i d s m
     in m1(d + of_nat i := m1 (s + of_nat i)))"

primrec cpyback_longs :: "nat \<Rightarrow> 32 word \<Rightarrow> 32 word \<Rightarrow> mem \<Rightarrow> mem" where
  "cpyback_longs 0 d s m = m"
| "cpyback_longs (Suc i) d s m =
     cpyback_longs i d s (store_bytes (load_long m (s + 4 * of_nat i)) (d + 4 * of_nat i) m)"

primrec cpyback_chars :: "nat \<Rightarrow> 32 word \<Rightarrow> 32 word \<Rightarrow> mem \<Rightarrow> mem" where
  "cpyback_chars 0 d s m = m"
| "cpyback_chars (Suc i) d s m = cpyback_chars i d s (m(d + of_nat i := m (s + of_nat i)))"

definition memcpy :: "32 word \<Rightarrow> 32 word \<Rightarrow> 32 word \<Rightarrow> mem \<Rightarrow> mem" where
  "memcpy dst src len m =
     (if dst mod 4 = 0 \<and> src mod 4 = 0 \<and> len mod 4 = 0
      then cpy_longs (unat (len div 4)) dst src m
      else cpy_chars (unat len) dst src m)"

definition memmove :: "32 word \<Rightarrow> 32 word \<Rightarrow> 32 word \<Rightarrow> mem \<Rightarrow> mem" where
  "memmove dst src len m =
     (if dst < src then memcpy dst src len m
      else if dst mod 4 = 0 \<and> src mod 4 = 0 \<and> len mod 4 = 0
      then cpyback_longs (unat (len div 4)) dst src m
      else cpyback_chars (unat len) dst src m)"

primrec memset_loop :: "nat \<Rightarrow> 32 word \<Rightarrow> 8 word \<Rightarrow> mem \<Rightarrow> mem" where
  "memset_loop 0 p c m = m"
| "memset_loop (Suc i) p c m = (memset_loop i p c m)(p + of_nat i := c)"

text \<open>The argument \<open>ch\<close> is an \<open>int\<close>, cut to a \<open>char\<close> when it is stored.\<close>

definition memset :: "32 word \<Rightarrow> int \<Rightarrow> 32 word \<Rightarrow> mem \<Rightarrow> mem" where
  "memset ptr ch len m = memset_loop (unat len) ptr (word_of_int ch) m"

primrec bzero_longs :: "nat \<Rightarrow> 32 word \<Rightarrow> mem \<Rightarrow> mem" where
  "bzero_longs 0 p m = m"
| "bzero_longs (Suc i) p m = store_bytes [0, 0, 0, 0] (p + 4 * of_nat i) (bzero_longs i p m)"

definition bzero :: "32 word \<Rightarrow> 32 word \<Rightarrow> mem \<Rightarrow> mem" where
  "bzero vblock len m =
     (if vblock mod 4 = 0 \<and> len mod 4 = 0 then bzero_longs (unat (len div 4)) vblock m
      else memset_loop (unat len) vblock 0 m)"

text \<open>\<open>k\<close> bytes are left, from offset \<open>i\<close> on.\<close>

primrec memcmp_loop :: "nat \<Rightarrow> 32 word \<Rightarrow> mem \<Rightarrow> 32 word \<Rightarrow> 32 word \<Rightarrow> int" where
  "memcmp_loop 0 i m a b = 0"
| "memcmp_loop (Suc k) i m a b =
     (if m (a + i) \<noteq> m (b + i) then uint (m (a + i)) - uint (m (b + i))
      else memcmp_loop k (i + 1) m a b)"

definition memcmp :: "mem \<Rightarrow> 32 word \<Rightarrow> 32 word \<Rightarrow> 32 word \<Rightarrow> int" where
  "memcmp m a b len = memcmp_loop (unat len) 0 m a b"

subsection \<open>Strings\<close>

partial_function (option) strlen_loop :: "mem \<Rightarrow> 32 word \<Rightarrow> 32 word \<Rightarrow> 32 word option" where
  "strlen_loop m s ret = (if m (s + ret) \<noteq> 0 then strlen_loop m s (ret + 1) else Some ret)"

definition strlen :: "mem \<Rightarrow> 32 word \<Rightarrow> 32 word option" where
  "strlen m s = strlen_loop m s 0"

partial_function (option) strcpy_loop :: "32 word \<Rightarrow> 32 word \<Rightarrow> 32 word \<Rightarrow> mem \<Rightarrow> mem option" where
  "strcpy_loop dest src i m =
     (if m (src + i) \<noteq> 0 then strcpy_loop dest src (i + 1) (m(dest + i := m (src + i)))
      else Some (m(dest + i := 0)))"

definition strcpy :: "32 word \<Rightarrow> 32 word \<Rightarrow> mem \<Rightarrow> mem option" where
  "strcpy dest src m = strcpy_loop dest src 0 m"

definition strcat :: "32 word \<Rightarrow> 32 word \<Rightarrow> mem \<Rightarrow> mem option" where
  "strcat dest src m = do {
     offset \<leftarrow> strlen m dest;
     strcpy (dest + offset) src m
   }"

partial_function (option) strcmp_loop :: "mem \<Rightarrow> 32 word \<Rightarrow> 32 word \<Rightarrow> 32 word \<Rightarrow> 32 word option" where
  "strcmp_loop m a b i =
     (if m (a + i) \<noteq> 0 \<and> m (a + i) = m (b + i) then strcmp_loop m a b (i + 1) else Some i)"

definition strcmp :: "mem \<Rightarrow> 32 word \<Rightarrow> 32 word \<Rightarrow> int option" where
  "strcmp m a b = do {
     i \<leftarrow> strcmp_loop m a b 0;
     Some (if sint (m (a + i)) > sint (m (b + i)) then 1 else if m (a + i) = m (b + i) then 0 else -1)
   }"

text \<open>A pointer result is an address, 0 for NULL.\<close>

partial_function (option) strchr :: "mem \<Rightarrow> 32 word \<Rightarrow> int \<Rightarrow> 32 word option" where
  "strchr m s ch =
     (if m s \<noteq> 0 then if sint (m s) = ch then Some s else strchr m (s + 1) ch
      else if sint (m s) = ch then Some s else Some 0)"

primrec strrchr_loop :: "nat \<Rightarrow> mem \<Rightarrow> 32 word \<Rightarrow> int \<Rightarrow> 32 word" where
  "strrchr_loop 0 m s ch = 0"
| "strrchr_loop (Suc i) m s ch =
     (if sint (m (s + of_nat i)) = ch then s + of_nat i else strrchr_loop i m s ch)"

definition strrchr :: "mem \<Rightarrow> 32 word \<Rightarrow> int \<Rightarrow> 32 word option" where
  "strrchr m s ch = do {
     n \<leftarrow> strlen m s;
     Some (strrchr_loop (unat (n + 1)) m s ch)
   }"

partial_function (option) skip_seps :: "mem \<Rightarrow> 32 word \<Rightarrow> 32 word \<Rightarrow> 32 word option" where
  "skip_seps m seps head =
     (if m head = 0 then Some head
      else do {
        r \<leftarrow> strchr m seps (sint (m head));
        if r \<noteq> 0 then skip_seps m seps (head + 1) else Some head
      })"

partial_function (option) skip_word :: "mem \<Rightarrow> 32 word \<Rightarrow> 32 word \<Rightarrow> 32 word option" where
  "skip_word m seps tail =
     (if m tail = 0 then Some tail
      else do {
        r \<leftarrow> strchr m seps (sint (m tail));
        if r = 0 then skip_word m seps (tail + 1) else Some tail
      })"

text \<open>The result is the returned pointer, the new value of \<open>*context\<close> and the memory.\<close>

definition strtok_r :: "32 word \<Rightarrow> 32 word \<Rightarrow> 32 word \<Rightarrow> mem \<Rightarrow> (32 word \<times> 32 word \<times> mem) option" where
  "strtok_r str seps context0 m = do {
     let context = (if str \<noteq> 0 then str else context0);
     if context = 0 then Some (0, context, m)
     else do {
       head \<leftarrow> skip_seps m seps context;
       if m head = 0 then Some (0, 0, m)
       else do {
         tail \<leftarrow> skip_word m seps head;
         if m tail = 0 then Some (head, 0, m)
         else Some (head, tail + 1, m(tail := 0))
       }
     }
   }"

text \<open>\<open>km\<close> is \<open>kmalloc\<close>.\<close>

definition kstrdup :: "(32 word \<Rightarrow> 32 word) \<Rightarrow> 32 word \<Rightarrow> mem \<Rightarrow> (32 word \<times> mem) option" where
  "kstrdup km s m = do {
     n \<leftarrow> strlen m s;
     let z = km (n + 1);
     if z = 0 then Some (0, m)
     else do { m1 \<leftarrow> strcpy z s m; Some (z, m1) }
   }"

subsection \<open>Numbers\<close>

text \<open>
  A string constant is the list of its characters; \<open>strchr\<close> on it gives the index of the
  character it finds.
\<close>

fun strchr_const :: "8 word list \<Rightarrow> int \<Rightarrow> nat option" where
  "strchr_const [] ch = (if ch = 0 then Some 0 else None)"
| "strchr_const (c # cs) ch = (if sint c = ch then Some 0 else map_option Suc (strchr_const cs ch))"

definition codes :: "string \<Rightarrow> 8 word list" where
  "codes s = map (\<lambda>c. word_of_nat (of_char c)) s"

partial_function (option) skip_white :: "mem \<Rightarrow> 32 word \<Rightarrow> 32 word option" where
  "skip_white m s = (if m s = 32 \<or> m s = 9 then skip_white m (s + 1) else Some s)"

partial_function (option) atoi_digits :: "mem \<Rightarrow> 32 word \<Rightarrow> 32 word \<Rightarrow> 32 word option" where
  "atoi_digits m s val =
     (if m s = 0 then Some val
      else case strchr_const (codes ''0123456789'') (sint (m s)) of
        None \<Rightarrow> Some val
      | Some digit \<Rightarrow> atoi_digits m (s + 1) (val * 10 + of_nat digit))"

definition atoi :: "mem \<Rightarrow> 32 word \<Rightarrow> int option" where
  "atoi m s0 = do {
     s \<leftarrow> skip_white m s0;
     let (neg, s1) = (if m s = 45 then (True, s + 1) else if m s = 43 then (False, s + 1) else (False, s));
     val \<leftarrow> atoi_digits m s1 0;
     Some (sint (if neg then - val else val))
   }"

subsection \<open>Copying\<close>

text \<open>What \<open>memmove\<close> promises: the block at \<open>dst\<close> becomes what the block at \<open>src\<close> was.\<close>

definition moved :: "32 word \<Rightarrow> 32 word \<Rightarrow> nat \<Rightarrow> mem \<Rightarrow> mem" where
  "moved dst src n m = (\<lambda>x. if unat (x - dst) < n then m (src + (x - dst)) else m x)"

lemma unat_of_nat_ok: "n < 4294967296 \<Longrightarrow> unat (of_nat n :: 32 word) = n"
  by (simp add: unat_of_nat)

lemma word_offset: "j < 4294967296 \<Longrightarrow> unat (y - of_nat j :: 32 word) =
    (if j \<le> unat y then unat y - j else unat y + 4294967296 - j)"
  by (simp add: unat_sub_if' unat_of_nat_ok)

lemma offset_eq:
  assumes "k < 4294967296"
  shows "x = d + of_nat k \<longleftrightarrow> unat (x - d :: 32 word) = k"
proof -
  have "unat (x - d) = k \<longleftrightarrow> x - d = of_nat k"
    using assms by (simp add: word_unat_eq_iff unat_of_nat_ok)
  then show ?thesis by (simp add: diff_eq_eq add.commute)
qed

lemma store_bytes_apply:
  "length bs \<le> 4294967296 \<Longrightarrow>
     store_bytes bs a m x = (if unat (x - a) < length bs then bs ! unat (x - a) else m x)"
proof (induction bs arbitrary: a m)
  case (Cons b bs)
  have d: "x - (a + 1) = (x - a) - of_nat 1" by simp
  show ?case
  proof (cases "x = a")
    case True
    have "unat (- 1 :: 32 word) = 4294967295" by (simp add: unsigned_minus_1_eq_mask mask_eq_exp_minus_1)
    then show ?thesis using Cons True by simp
  next
    case False
    then have "unat (x - a) \<noteq> 0" by (simp add: unat_eq_zero)
    then obtain k where k: "unat (x - a) = Suc k" by (cases "unat (x - a)") auto
    then show ?thesis using Cons False word_offset [of 1 "x - a"] by (simp add: d)
  qed
qed simp

lemma load_long_nth: "t < 4 \<Longrightarrow> load_long m a ! t = m (a + of_nat t)"
  by (auto simp: load_long_def nth_Cons less_Suc_eq numeral_eq_Suc)

text \<open>
  Front to back is right when the target lies below the source or does not overlap it: the source
  byte read at step \<open>k\<close> has not been written yet.
\<close>

definition front_ok :: "32 word \<Rightarrow> 32 word \<Rightarrow> nat \<Rightarrow> bool" where
  "front_ok d s n \<longleftrightarrow> unat d + n \<le> 4294967296 \<and> unat s + n \<le> 4294967296 \<and> (d \<le> s \<or> unat s + n \<le> unat d)"

lemma front_unread:
  assumes "front_ok d s n" "k < n"
  shows "k \<le> unat (s + of_nat k - d)"
proof -
  have k: "unat (of_nat k :: 32 word) = k" using assms by (simp add: front_ok_def unat_of_nat_ok)
  have sk: "unat (s + of_nat k) = unat s + k" using assms by (simp add: front_ok_def unat_plus_ok k)
  show ?thesis
    using assms sk unat_less_32 [of d] by (auto simp: front_ok_def unat_sub_if' word_le_nat_alt)
qed

lemma cpy_chars_moved:
  assumes "front_ok d s n"
  shows "k \<le> n \<Longrightarrow> cpy_chars k d s m = moved d s k m"
proof (induction k)
  case 0
  then show ?case by (simp add: moved_def)
next
  case (Suc k)
  have k: "k < 4294967296" using Suc.prems assms by (simp add: front_ok_def)
  have rd: "cpy_chars k d s m (s + of_nat k) = m (s + of_nat k)"
    using Suc front_unread [OF assms, of k] by (simp add: moved_def not_less)
  then show ?case using Suc rd offset_eq [OF k, of _ d] by (auto simp: Let_def moved_def fun_eq_iff less_Suc_eq)
qed

lemma store_long_apply:
  assumes "j \<le> 4294967292"
  shows "store_bytes (load_long m (s + of_nat j)) (d + of_nat j) m x =
    (if j \<le> unat (x - d) \<and> unat (x - d) < j + 4 then m (s + (x - d)) else m x)"
proof -
  have off: "unat (x - (d + of_nat j)) = (if j \<le> unat (x - d) then unat (x - d) - j else unat (x - d) + 4294967296 - j)"
    using word_offset [of j "x - d"] assms by (simp add: diff_diff_eq)
  have len: "length (load_long m' a) = 4" for m' a by (simp add: load_long_def)
  show ?thesis
  proof (cases "j \<le> unat (x - d) \<and> unat (x - d) < j + 4")
    case True
    have "s + of_nat j + of_nat (unat (x - d) - j) = s + of_nat (j + (unat (x - d) - j))" by simp
    also have "\<dots> = s + (x - d)" using True by simp
    finally have "s + of_nat j + of_nat (unat (x - d) - j) = s + (x - d)" .
    moreover have "unat (x - d) - j < 4" using True by linarith
    ultimately show ?thesis using True off by (simp add: store_bytes_apply len load_long_nth)
  next
    case False
    then have "\<not> unat (x - (d + of_nat j)) < 4" using off unat_less_32 [of "x - d"] assms by auto
    then show ?thesis using False by (auto simp: store_bytes_apply len)
  qed
qed

lemma cpy_longs_moved:
  assumes "front_ok d s n"
  shows "4 * k \<le> n \<Longrightarrow> cpy_longs k d s m = moved d s (4 * k) m"
proof (induction k)
  case 0
  then show ?case by (simp add: moved_def)
next
  case (Suc k)
  let ?m = "moved d s (4 * k) m"
  have j: "4 * k \<le> 4294967292" using Suc.prems assms by (simp add: front_ok_def)
  have IH: "cpy_longs k d s m = ?m" using Suc by simp
  show ?case
  proof
    fix x
    have st: "cpy_longs (Suc k) d s m x =
        (if 4 * k \<le> unat (x - d) \<and> unat (x - d) < 4 * k + 4 then ?m (s + (x - d)) else ?m x)"
      using store_long_apply [OF j, of ?m s d x] by (simp add: Let_def IH)
    have "?m (s + (x - d)) = m (s + (x - d))" if "4 * k \<le> unat (x - d)" "unat (x - d) < 4 * k + 4"
      using front_unread [OF assms, of "unat (x - d)"] that Suc.prems by (simp add: moved_def)
    then show "cpy_longs (Suc k) d s m x = moved d s (4 * Suc k) m x"
      unfolding st by (auto simp: moved_def)
  qed
qed

text \<open>Back to front is right when the target lies above the source.\<close>

definition back_ok :: "32 word \<Rightarrow> 32 word \<Rightarrow> nat \<Rightarrow> bool" where
  "back_ok d s n \<longleftrightarrow> unat d + n \<le> 4294967296 \<and> s \<le> d"

lemma back_unwritten:
  assumes "back_ok d s n" "j < i" "i < n"
  shows "unat (s + of_nat j - d) \<noteq> i" "i \<le> unat (s + of_nat j - d) \<Longrightarrow> n \<le> unat (s + of_nat j - d)"
proof -
  have "unat (of_nat j :: 32 word) = j" using assms by (simp add: back_ok_def unat_of_nat_ok)
  then have "unat (s + of_nat j) = unat s + j" using assms by (simp add: back_ok_def unat_plus_ok word_le_nat_alt)
  then have "i \<le> unat (s + of_nat j - d) \<longrightarrow> n \<le> unat (s + of_nat j - d)"
    using assms by (auto simp: back_ok_def unat_sub_if' word_le_nat_alt)
  then show "unat (s + of_nat j - d) \<noteq> i" "i \<le> unat (s + of_nat j - d) \<Longrightarrow> n \<le> unat (s + of_nat j - d)"
    using assms(3) by auto
qed

lemma cpyback_chars_moved:
  assumes "back_ok d s n"
  shows "k \<le> n \<Longrightarrow> cpyback_chars k d s m = moved d s k m"
proof (induction k arbitrary: m)
  case 0
  then show ?case by (simp add: moved_def)
next
  case (Suc k)
  let ?m = "m(d + of_nat k := m (s + of_nat k))"
  have k: "k < 4294967296" using Suc.prems assms by (simp add: back_ok_def)
  have IH: "cpyback_chars k d s ?m = moved d s k ?m" using Suc by simp
  show ?case
  proof
    fix x
    show "cpyback_chars (Suc k) d s m x = moved d s (Suc k) m x"
    proof (cases "unat (x - d) < k")
      case True
      then have "?m (s + (x - d)) = m (s + (x - d))"
        using back_unwritten(1) [OF assms, of "unat (x - d)" k] Suc.prems offset_eq [OF k, of "s + (x - d)" d] by simp
      then show ?thesis using True IH by (simp add: moved_def)
    next
      case False
      then show ?thesis using IH offset_eq [OF k, of x d] by (auto simp: moved_def less_Suc_eq)
    qed
  qed
qed

lemma cpyback_longs_moved:
  assumes "back_ok d s n"
  shows "4 * k \<le> n \<Longrightarrow> cpyback_longs k d s m = moved d s (4 * k) m"
proof (induction k arbitrary: m)
  case 0
  then show ?case by (simp add: moved_def)
next
  case (Suc k)
  let ?m = "store_bytes (load_long m (s + 4 * of_nat k)) (d + 4 * of_nat k) m"
  have j: "4 * k \<le> 4294967292" using Suc.prems assms by (simp add: back_ok_def) 
  have st: "?m x = (if 4 * k \<le> unat (x - d) \<and> unat (x - d) < 4 * k + 4 then m (s + (x - d)) else m x)" for x
    using store_long_apply [OF j, of m s d x] by simp
  have IH: "cpyback_longs k d s ?m = moved d s (4 * k) ?m" using Suc by simp
  show ?case
  proof
    fix x
    show "cpyback_longs (Suc k) d s m x = moved d s (4 * Suc k) m x"
    proof (cases "unat (x - d) < 4 * k")
      case True
      then have "\<not> (4 * k \<le> unat (s + (x - d) - d) \<and> unat (s + (x - d) - d) < 4 * k + 4)"
        using back_unwritten(2) [OF assms, of "unat (x - d)" "4 * k"] Suc.prems by auto
      then have "?m (s + (x - d)) = m (s + (x - d))" using st [of "s + (x - d)"] by auto
      then show ?thesis using True IH by (simp add: moved_def)
    next
      case False
      then show ?thesis using IH st [of x] by (auto simp: moved_def)
    qed
  qed
qed

lemma mod4_longs: "len mod 4 = 0 \<Longrightarrow> 4 * unat (len div 4 :: 32 word) = unat len"
proof -
  assume "len mod 4 = 0"
  then have "unat len mod 4 = 0" by (simp add: word_unat_eq_iff unat_mod)
  then have "4 dvd unat len" by presburger
  then show ?thesis by (simp add: unat_div)
qed

lemma memcpy_moved:
  assumes "front_ok dst src (unat len)"
  shows "memcpy dst src len m = moved dst src (unat len) m"
  using cpy_chars_moved [OF assms order.refl] cpy_longs_moved [OF assms, of "unat (len div 4)"] mod4_longs [of len]
  by (simp add: memcpy_def)

lemma memmove_moved:
  assumes "unat dst + unat len \<le> 4294967296" "unat src + unat len \<le> 4294967296"
  shows "memmove dst src len m = moved dst src (unat len) m"
proof (cases "dst < src")
  case True
  then have "front_ok dst src (unat len)" using assms by (auto simp: front_ok_def)
  then show ?thesis using True by (simp add: memmove_def memcpy_moved)
next
  case False
  then have "back_ok dst src (unat len)" using assms by (simp add: back_ok_def)
  then show ?thesis
    using False cpyback_chars_moved [of dst src "unat len" "unat len"] cpyback_longs_moved [of dst src "unat len" "unat (len div 4)"]
      mod4_longs [of len] by (simp add: memmove_def)
qed

lemma memset_loop_apply: "n \<le> 4294967296 \<Longrightarrow> memset_loop n p c m x = (if unat (x - p) < n then c else m x)"
proof (induction n)
  case (Suc n)
  then show ?case using offset_eq [of n x p] by (auto simp: less_Suc_eq)
qed simp

lemma bzero_longs_apply: "4 * n \<le> 4294967296 \<Longrightarrow> bzero_longs n p m x = (if unat (x - p) < 4 * n then 0 else m x)"
proof (induction n)
  case (Suc n)
  have off: "unat (x - (p + 4 * of_nat n)) =
      (if 4 * n \<le> unat (x - p) then unat (x - p) - 4 * n else unat (x - p) + 4294967296 - 4 * n)"
    using word_offset [of "4 * n" "x - p"] Suc.prems by (simp add: diff_diff_eq)
  have z: "[0, 0, 0, 0] ! k = (0 :: 8 word)" if "k < 4" for k using that by (auto simp: nth_Cons less_Suc_eq numeral_eq_Suc)
  have "bzero_longs (Suc n) p m x =
      (if unat (x - (p + 4 * of_nat n)) < 4 then [0, 0, 0, 0] ! unat (x - (p + 4 * of_nat n)) else bzero_longs n p m x)"
    using store_bytes_apply [of "[0, 0, 0, 0]" "p + 4 * of_nat n" "bzero_longs n p m" x] by (simp del: store_bytes.simps)
  also have "\<dots> = (if unat (x - (p + 4 * of_nat n)) < 4 then 0 else bzero_longs n p m x)" using z by simp
  finally show ?case
    using Suc off unat_less_32 [of "x - p"] by (auto split: if_splits)
qed simp

lemma bzero_apply: "bzero p len m x = (if unat (x - p) < unat len then 0 else m x)"
proof (cases "p mod 4 = 0 \<and> len mod 4 = 0")
  case True
  then have "4 * unat (len div 4) = unat len" by (intro mod4_longs) (rule conjunct2)
  then show ?thesis
    using True bzero_longs_apply [of "unat (len div 4)" p m x] unat_less_32 [of len] by (simp add: bzero_def)
next
  case False
  then have "bzero p len m = memset_loop (unat len) p 0 m" unfolding bzero_def by (rule if_not_P)
  then show ?thesis using memset_loop_apply [of "unat len" p 0 m x] unat_less_32 [of len] by simp
qed

lemma memset_apply: "memset p ch len m x = (if unat (x - p) < unat len then word_of_int ch else m x)"
  using memset_loop_apply [of "unat len"] unat_less_32 [of len] by (simp add: memset_def)

lemma memcmp_loop_zero:
  "unat i + k \<le> 4294967296 \<Longrightarrow> memcmp_loop k i m a b = 0 \<longleftrightarrow> (\<forall>j < k. m (a + i + of_nat j) = m (b + i + of_nat j))"
proof (induction k arbitrary: i)
  case (Suc k)
  have IH: "memcmp_loop k (i + 1) m a b = 0 \<longleftrightarrow> (\<forall>j < k. m (a + (i + 1) + of_nat j) = m (b + (i + 1) + of_nat j))"
  proof (cases "k = 0")
    case False
    then have "unat (i + 1) = unat i + 1" using Suc.prems by (simp add: unat_plus_ok)
    then show ?thesis using Suc by simp
  qed simp
  have "uint x - uint y = 0 \<longleftrightarrow> x = y" for x y :: "8 word" by (auto simp: word_uint_eq_iff)
  then show ?case using IH by (simp add: All_less_Suc2 ac_simps)
qed simp

subsection \<open>C strings\<close>

text \<open>The string at \<open>p\<close>, with its terminator, is \<open>xs\<close>, and does not roll over the top of memory.\<close>

fun cstr :: "mem \<Rightarrow> 32 word \<Rightarrow> 8 word list \<Rightarrow> bool" where
  "cstr m p [] \<longleftrightarrow> m p = 0"
| "cstr m p (x # xs) \<longleftrightarrow> m p = x \<and> x \<noteq> 0 \<and> p + 1 \<noteq> 0 \<and> cstr m (p + 1) xs"

lemma cstr_frame:
  "(\<And>k. k \<le> length xs \<Longrightarrow> m' (p + of_nat k) = m (p + of_nat k)) \<Longrightarrow> cstr m' p xs = cstr m p xs"
proof (induction xs arbitrary: p)
  case Nil
  from Nil [of 0] show ?case by simp
next
  case (Cons x xs)
  have "m' (p + 1 + of_nat k) = m (p + 1 + of_nat k)" if "k \<le> length xs" for k
    using Cons.prems [of "Suc k"] that by (simp add: ac_simps)
  then show ?case using Cons.IH [of "p + 1"] Cons.prems [of 0] by simp
qed

lemma cstr_no_wrap: "cstr m p xs \<Longrightarrow> unat p + length xs < 4294967296"
proof (induction xs arbitrary: p)
  case Nil
  then show ?case by (simp add: unat_less_32)
next
  case (Cons x xs)
  have "unat (p + 1) = unat p + 1"
    using Cons.prems unatSuc [of p] by (simp add: add.commute)
  then show ?case using Cons by fastforce
qed

lemma cstr_ptr_nonzero: "cstr m p xs \<Longrightarrow> p \<noteq> 0 \<Longrightarrow> i \<le> length xs \<Longrightarrow> p + of_nat i \<noteq> 0"
proof -
  assume h: "cstr m p xs" "p \<noteq> 0" "i \<le> length xs"
  have i: "unat (of_nat i :: 32 word) = i" using cstr_no_wrap [OF h(1)] h(3) by (simp add: unat_of_nat_ok)
  have "unat (p + of_nat i) = unat p + i" using cstr_no_wrap [OF h(1)] h(3) by (simp add: unat_plus_ok i)
  then show "p + of_nat i \<noteq> 0" using h(2) by (auto simp: unat_eq_zero)
qed

lemma cstr_append: "cstr m p (xs @ ys) \<longleftrightarrow>
    (\<forall>i < length xs. m (p + of_nat i) = xs ! i \<and> xs ! i \<noteq> 0 \<and> p + of_nat i + 1 \<noteq> 0) \<and> cstr m (p + of_nat (length xs)) ys"
proof (induction xs arbitrary: p)
  case (Cons x xs)
  show ?case using Cons.IH [of "p + 1"] by (auto simp: All_less_Suc2 ac_simps)
qed simp

lemma strlen_cstr: "cstr m s xs \<Longrightarrow> strlen m s = Some (of_nat (length xs))"
proof -
  have "cstr m (s + r) xs \<Longrightarrow> strlen_loop m s r = Some (r + of_nat (length xs))" for r
    by (induction xs arbitrary: r) (subst strlen_loop.simps, simp add: ac_simps)+
  from this [of 0] show "cstr m s xs \<Longrightarrow> strlen m s = Some (of_nat (length xs))" by (simp add: strlen_def)
qed

text \<open>
  \<open>strcpy\<close> stores the string and its terminator, unless the target starts inside the source.
\<close>

lemma strcpy_cstr:
  assumes "cstr m src xs" "dest = src \<or> length xs < unat (dest - src)"
  shows "strcpy dest src m = Some (store_bytes (xs @ [0]) dest m)"
proof -
  have "strcpy_loop dest src i m = Some (store_bytes (xs @ [0]) (dest + i) m)"
    if "cstr m (src + i) xs" "dest = src \<or> length xs < unat (dest - src)" for i m
    using that
  proof (induction xs arbitrary: i m)
    case Nil
    then show ?case by (subst strcpy_loop.simps) simp
  next
    case (Cons x xs)
    define m' where "m' = m(dest + i := x)"
    have "cstr m' (src + (i + 1)) xs = cstr m (src + (i + 1)) xs"
    proof (rule cstr_frame)
      fix k assume k: "k \<le> length xs"
      then have len: "Suc k < 4294967296" using cstr_no_wrap [OF Cons.prems(1)] by simp
      have "dest + i \<noteq> src + (i + 1) + of_nat k"
      proof
        assume "dest + i = src + (i + 1) + of_nat k"
        then have e: "dest - src = of_nat (Suc k)" by (simp add: algebra_simps)
        then have "unat (dest - src) = Suc k" using unat_of_nat_ok [OF len] by simp
        then show False using Cons.prems(2) k by auto
      qed
      then show "m' (src + (i + 1) + of_nat k) = m (src + (i + 1) + of_nat k)" by (simp add: m'_def)
    qed
    then have "cstr m' (src + (i + 1)) xs" using Cons.prems(1) by (simp add: ac_simps)
    then have "strcpy_loop dest src (i + 1) m' = Some (store_bytes (xs @ [0]) (dest + (i + 1)) m')"
      using Cons.prems(2) Cons.IH [of m' "i + 1"] by auto
    then show ?case using Cons.prems(1) by (subst strcpy_loop.simps) (simp add: add.assoc m'_def [symmetric])
  qed
  from this [of m 0] show ?thesis using assms by (simp add: strcpy_def)
qed

lemma cstr_stored:
  "\<forall>x \<in> set xs. x \<noteq> 0 \<Longrightarrow> unat p + length xs < 4294967296 \<Longrightarrow> cstr (store_bytes (xs @ [0]) p m) p xs"
proof (induction xs arbitrary: p m)
  case (Cons x xs)
  have u: "unat (p + 1) = unat p + 1" using Cons.prems(2) by (simp add: unat_plus_ok)
  have "unat (p - (p + 1)) = 4294967295" by (simp add: unsigned_minus_1_eq_mask mask_eq_exp_minus_1)
  then have "store_bytes (xs @ [0]) (p + 1) (m(p := x)) p = x"
    using Cons.prems(2) by (simp add: store_bytes_apply del: diff_add_cancel)
  moreover have "p + 1 \<noteq> 0" using u by (auto simp: word_unat_eq_iff)
  ultimately show ?case using Cons u by simp
qed simp

subsection \<open>Comparing and searching\<close>

fun str_order :: "8 word list \<Rightarrow> 8 word list \<Rightarrow> int" where
  "str_order [] [] = 0"
| "str_order [] (y # ys) = (if sint y < 0 then 1 else -1)"
| "str_order (x # xs) [] = (if 0 < sint x then 1 else -1)"
| "str_order (x # xs) (y # ys) =
     (if x = y then str_order xs ys else if sint y < sint x then 1 else -1)"

lemma sint_inject: "sint x = sint y \<longleftrightarrow> x = (y :: 8 word)"
  by (auto intro: signed_word_eqI)

lemma sint_zero: "sint x = 0 \<longleftrightarrow> x = (0 :: 8 word)"
  using sint_inject [of x 0] by simp

lemma strcmp_cstr:
  assumes "cstr m a xs" "cstr m b ys"
  shows "strcmp m a b = Some (str_order xs ys)"
proof -
  have "\<exists>j. strcmp_loop m a b i = Some j \<and>
      (if sint (m (a + j)) > sint (m (b + j)) then 1 else if m (a + j) = m (b + j) then 0 else -1) = str_order xs ys"
    if "cstr m (a + i) xs" "cstr m (b + i) ys" for i
    using that
  proof (induction xs ys arbitrary: i rule: str_order.induct)
    case (4 x xs y ys)
    show ?case
    proof (cases "x = y")
      case True
      then show ?thesis using 4 "4.IH" [OF True, of "i + 1"] by (subst strcmp_loop.simps) (simp add: ac_simps)
    qed (use 4 in \<open>subst strcmp_loop.simps, simp\<close>)
  qed (subst strcmp_loop.simps, simp)+
  from this [of 0] show ?thesis using assms by (auto simp: strcmp_def)
qed

lemma str_order_eq:
  "0 \<notin> set xs \<Longrightarrow> 0 \<notin> set ys \<Longrightarrow> str_order xs ys = 0 \<longleftrightarrow> xs = ys"
  "0 \<notin> set xs \<Longrightarrow> 0 \<notin> set ys \<Longrightarrow> str_order ys xs = - str_order xs ys"
  by (induction xs ys rule: str_order.induct) (auto simp: sint_inject sint_zero not_less le_less)

lemma cstr_nonzero: "cstr m p xs \<Longrightarrow> 0 \<notin> set xs"
  by (induction xs arbitrary: p) auto

lemma strchr_cstr:
  "cstr m s xs \<Longrightarrow> strchr m s ch = Some (case strchr_const xs ch of None \<Rightarrow> 0 | Some i \<Rightarrow> s + of_nat i)"
proof (induction xs arbitrary: s)
  case Nil
  then show ?case by (subst strchr.simps) simp
next
  case (Cons x xs)
  then show ?case by (subst strchr.simps) (auto simp: ac_simps split: option.splits)
qed

lemma strchr_const_in: "c \<noteq> 0 \<Longrightarrow> strchr_const ss (sint c) = None \<longleftrightarrow> c \<notin> set ss"
proof (induction ss)
  case Nil
  then show ?case using sint_inject [of c 0] by simp
qed (auto simp: sint_inject)

lemma strchr_seps:
  assumes "cstr m seps ss" "seps \<noteq> 0" "c \<noteq> 0"
  shows "\<exists>r. strchr m seps (sint c) = Some r \<and> (r \<noteq> 0 \<longleftrightarrow> c \<in> set ss)"
proof (cases "strchr_const ss (sint c)")
  case None
  moreover have "c \<notin> set ss" using strchr_const_in [OF assms(3), of ss] None by simp
  ultimately show ?thesis using strchr_cstr [OF assms(1), of "sint c"] by simp
next
  case (Some i)
  have "strchr_const ss ch = Some i \<Longrightarrow> i \<le> length ss" for ch i
    by (induction ss arbitrary: i) (auto split: if_splits)
  then have "seps + of_nat i \<noteq> 0" using Some cstr_ptr_nonzero [OF assms(1,2)] by blast
  moreover have "c \<in> set ss" using strchr_const_in [OF assms(3), of ss] Some by simp
  ultimately show ?thesis using Some strchr_cstr [OF assms(1), of "sint c"] by simp
qed

lemma skip_seps_cstr:
  assumes "cstr m seps ss" "seps \<noteq> 0"
  shows "cstr m p xs \<Longrightarrow> skip_seps m seps p = Some (p + of_nat (length (takeWhile (\<lambda>c. c \<in> set ss) xs)))"
proof (induction xs arbitrary: p)
  case Nil
  then show ?case by (subst skip_seps.simps) simp
next
  case (Cons x xs)
  obtain r where "strchr m seps (sint x) = Some r" "r \<noteq> 0 \<longleftrightarrow> x \<in> set ss"
    using strchr_seps [OF assms, of x] Cons.prems by auto
  then show ?case using Cons by (subst skip_seps.simps) (simp add: add.assoc)
qed

lemma skip_word_cstr:
  assumes "cstr m seps ss" "seps \<noteq> 0"
  shows "cstr m p xs \<Longrightarrow> skip_word m seps p = Some (p + of_nat (length (takeWhile (\<lambda>c. c \<notin> set ss) xs)))"
proof (induction xs arbitrary: p)
  case Nil
  then show ?case by (subst skip_word.simps) simp
next
  case (Cons x xs)
  obtain r where "strchr m seps (sint x) = Some r" "r \<noteq> 0 \<longleftrightarrow> x \<in> set ss"
    using strchr_seps [OF assms, of x] Cons.prems by auto
  then show ?case using Cons by (subst skip_word.simps) (auto simp: add.assoc)
qed

lemma cstr_drop: "cstr m p (xs @ ys) \<Longrightarrow> cstr m (p + of_nat (length xs)) ys"
  by (simp add: cstr_append)

lemma cstr_cut:
  assumes "cstr m p (xs @ c # ys)"
  shows "cstr (m(p + of_nat (length xs) := 0)) p xs"
    "cstr (m(p + of_nat (length xs) := 0)) (p + of_nat (length xs) + 1) ys"
proof -
  let ?q = "p + of_nat (length xs)"
  have w: "unat p + Suc (length xs + length ys) < 4294967296" using cstr_no_wrap [OF assms] by simp
  have "p + of_nat i \<noteq> ?q" if "i < length xs" for i
  proof
    assume "p + of_nat i = ?q"
    then have "unat (of_nat i :: 32 word) = unat (of_nat (length xs) :: 32 word)" by simp
    then show False using that w by (simp add: unat_of_nat_ok)
  qed
  then show "cstr (m(?q := 0)) p xs"
    using assms cstr_append [of "m(?q := 0)" p xs "[]"] by (simp add: cstr_append)
  have "?q \<noteq> ?q + 1 + of_nat k" if "k \<le> length ys" for k
  proof
    assume "?q = ?q + 1 + of_nat k"
    then have "of_nat (Suc k) = (0 :: 32 word)" by simp
    then have "unat (of_nat (Suc k) :: 32 word) = 0" by (metis unat_0)
    moreover have "Suc k < 4294967296" using that w by simp
    ultimately show False using unat_of_nat_ok [of "Suc k"] by simp
  qed
  then have "cstr (m(?q := 0)) (?q + 1) ys = cstr m (?q + 1) ys" by (intro cstr_frame) auto
  then show "cstr (m(?q := 0)) (?q + 1) ys" using cstr_drop [OF assms] by simp
qed

text \<open>One call of \<open>strtok_r\<close>: the next word, and where to go on.\<close>

lemma strtok_r_word:
  assumes "cstr m seps ss" "seps \<noteq> 0" "cstr m p xs" "p \<noteq> 0" "str = p \<or> str = 0 \<and> context = p"
    and l: "l = takeWhile (\<lambda>c. c \<in> set ss) xs" and y: "y = dropWhile (\<lambda>c. c \<in> set ss) xs"
    and w: "w = takeWhile (\<lambda>c. c \<notin> set ss) y" and r: "r = dropWhile (\<lambda>c. c \<notin> set ss) y"
  shows "strtok_r str seps context m =
    (if y = [] then Some (0, 0, m)
     else if r = [] then Some (p + of_nat (length l), 0, m)
     else Some (p + of_nat (length l), p + of_nat (length l) + of_nat (length w) + 1,
       m(p + of_nat (length l) + of_nat (length w) := 0)))"
proof -
  let ?h = "p + of_nat (length l)"
  have xs: "xs = l @ y" "y = w @ r" by (simp_all add: l y w r)
  have h: "cstr m ?h y" using cstr_drop [of m p l y] xs(1) assms(3) by simp
  then have t: "cstr m (?h + of_nat (length w)) r" using cstr_drop [of m ?h w r] xs(2) by simp
  have ctx: "(if str \<noteq> 0 then str else context) = p" using assms(4,5) by auto
  have sk: "skip_seps m seps p = Some ?h" using skip_seps_cstr [OF assms(1-3)] l by simp
  have sw: "skip_word m seps ?h = Some (?h + of_nat (length w))" using skip_word_cstr [OF assms(1,2) h] w by simp
  have y0: "m ?h = 0 \<longleftrightarrow> y = []" using h by (cases y) auto
  have r0: "m (?h + of_nat (length w)) = 0 \<longleftrightarrow> r = []" using t by (cases r) auto
  show ?thesis using assms(4) ctx sk sw y0 r0 by (simp add: strtok_r_def Let_def)
qed

lemma kstrdup_cstr:
  assumes "cstr m s xs" "z = km (of_nat (length xs) + 1)"
    "z \<noteq> 0 \<longrightarrow> unat z + length xs < 4294967296 \<and> length xs < unat (z - s) \<and> length xs < unat (s - z)"
  shows "\<exists>m'. kstrdup km s m = Some (z, m') \<and> (if z = 0 then m' = m else cstr m' z xs \<and> cstr m' s xs)"
proof (cases "z = 0")
  case True
  then show ?thesis using assms by (simp add: kstrdup_def strlen_cstr)
next
  case False
  let ?m = "store_bytes (xs @ [0]) z m"
  have "kstrdup km s m = Some (z, ?m)"
    using False assms strcpy_cstr [OF assms(1), of z] by (simp add: kstrdup_def strlen_cstr Let_def)
  moreover have "cstr ?m z xs" using False assms cstr_nonzero [OF assms(1)] by (intro cstr_stored) auto
  moreover have "cstr ?m s xs = cstr m s xs"
  proof (rule cstr_frame)
    fix k assume k: "k \<le> length xs"
    have w: "unat s + length xs < 4294967296" by (rule cstr_no_wrap [OF assms(1)])
    have uk: "unat (of_nat k :: 32 word) = k" using k w by (simp add: unat_of_nat_ok)
    have "unat (s - z) + k < 4294967296 \<or> unat z \<le> unat s" using w k False assms(3) by (auto simp: unat_sub_if' split: if_splits)
    then have "length xs < unat (s + of_nat k - z)"
      using False assms(3) w k uk unat_less_32 [of z]
      by (auto simp: unat_sub_if' unat_plus_ok uk split: if_splits)
    then show "?m (s + of_nat k) = m (s + of_nat k)" using w by (simp add: store_bytes_apply)
  qed
  ultimately show ?thesis using False assms(1) by auto
qed

subsection \<open>Decimal numbers\<close>

text \<open>The text of a list of digits, and its value.\<close>

definition dec :: "nat list \<Rightarrow> 8 word list" where
  "dec ds = map (\<lambda>d. of_nat (48 + d)) ds"

definition dec_val :: "nat list \<Rightarrow> nat" where
  "dec_val ds = foldl (\<lambda>v d. v * 10 + d) 0 ds"

definition is_digit :: "8 word \<Rightarrow> bool" where
  "is_digit c \<longleftrightarrow> 48 \<le> c \<and> c \<le> 57"

lemma digit_table: "codes ''0123456789'' = [48, 49, 50, 51, 52, 53, 54, 55, 56, 57]"
  by (simp add: codes_def)

lemma digit_index: "d < 10 \<Longrightarrow> strchr_const (codes ''0123456789'') (sint (of_nat (48 + d) :: 8 word)) = Some d"
proof -
  assume "d < 10"
  then have "d \<in> {0, 1, 2, 3, 4, 5, 6, 7, 8, 9}" by auto
  then show ?thesis unfolding digit_table by auto
qed

lemma no_digit_index:
  assumes "\<not> is_digit c" "c \<noteq> 0"
  shows "strchr_const (codes ''0123456789'') (sint c) = None"
proof -
  have "c \<notin> {48, 49, 50, 51, 52, 53, 54, 55, 56, 57}" using assms(1) by (auto simp: is_digit_def)
  then have "c \<notin> set (codes ''0123456789'')" by (simp add: digit_table)
  then show ?thesis by (simp only: strchr_const_in [OF assms(2)] not_False_eq_True)
qed

lemma atoi_digits_cstr:
  assumes "\<forall>d \<in> set ds. d < 10" "cstr m s (dec ds @ rest)" "\<forall>c cs. rest = c # cs \<longrightarrow> \<not> is_digit c"
  shows "atoi_digits m s v = Some (foldl (\<lambda>v d. v * 10 + of_nat d) v ds)"
  using assms
proof (induction ds arbitrary: s v)
  case Nil
  then show ?case using no_digit_index by (subst atoi_digits.simps) (cases rest, auto simp: dec_def)
next
  case (Cons d ds)
  have d: "d < 10" "m s = of_nat (48 + d)" "m s \<noteq> 0" "cstr m (s + 1) (dec ds @ rest)"
    using Cons.prems by (auto simp: dec_def)
  then have "strchr_const (codes ''0123456789'') (sint (m s)) = Some d" using digit_index [OF d(1)] by simp
  then show ?case using d Cons by (subst atoi_digits.simps) simp
qed

lemma foldl_of_nat: "foldl (\<lambda>v d. v * 10 + of_nat d) (of_nat v) ds = (of_nat (foldl (\<lambda>v d. v * 10 + d) v ds) :: 32 word)"
proof (induction ds arbitrary: v)
  case (Cons d ds)
  from Cons [of "v * 10 + d"] show ?case by simp
qed simp

lemma skip_white_cstr:
  assumes "set ws \<subseteq> {32, 9}" "cstr m s (ws @ xs)" "\<forall>c cs. xs = c # cs \<longrightarrow> c \<noteq> 32 \<and> c \<noteq> 9"
  shows "skip_white m s = Some (s + of_nat (length ws))"
  using assms
proof (induction ws arbitrary: s)
  case Nil
  then show ?case by (subst skip_white.simps) (cases xs, auto)
next
  case (Cons w ws)
  then show ?case by (subst skip_white.simps) (auto simp: add.assoc)
qed

lemma sint_of_nat_ok: "v < 2147483648 \<Longrightarrow> sint (of_nat v :: 32 word) = int v"
  by (simp add: sint_uint uint_nat unat_of_nat signed_take_bit_int_eq_self)

lemma sint_neg_of_nat_ok: "v \<le> 2147483648 \<Longrightarrow> sint (- of_nat v :: 32 word) = - int v"
proof -
  assume v: "v \<le> 2147483648"
  have "sint (- of_nat v :: 32 word) = sint (word_of_int (- int v) :: 32 word)" by simp
  also have "\<dots> = signed_take_bit 31 (- int v)" by (subst sint_sbintrunc') simp
  also have "\<dots> = - int v" using v by (intro signed_take_bit_int_eq_self) simp_all
  finally show ?thesis .
qed

text \<open>Blanks, a sign, digits and any rest that does not start with a digit.\<close>

lemma atoi_cstr:
  assumes "set ws \<subseteq> {32, 9}" "sg \<in> {[], [45], [43]}" "ds \<noteq> []" "\<forall>d \<in> set ds. d < 10"
    "\<forall>c cs. rest = c # cs \<longrightarrow> \<not> is_digit c" "cstr m s (ws @ sg @ dec ds @ rest)"
  shows "atoi m s = Some (sint (if sg = [45] then - of_nat (dec_val ds) else of_nat (dec_val ds) :: 32 word))"
proof -
  obtain d ds' where ds: "ds = d # ds'" using assms(3) by (cases ds) auto
  have d48: "of_nat (48 + d) \<notin> {32, 9, 45, 43 :: 8 word}"
  proof -
    have "d \<in> {0, 1, 2, 3, 4, 5, 6, 7, 8, 9}" using assms(4) ds by auto
    then show ?thesis by auto
  qed
  let ?s = "s + of_nat (length ws)"
  have "\<forall>c cs. sg @ dec ds @ rest = c # cs \<longrightarrow> c \<noteq> 32 \<and> c \<noteq> 9"
    using assms(2) d48 by (auto simp: ds dec_def)
  then have wh: "skip_white m s = Some ?s" using skip_white_cstr [OF assms(1)] assms(6) by blast
  have c: "cstr m ?s (sg @ dec ds @ rest)" by (rule cstr_drop [OF assms(6)])
  have dig: "atoi_digits m (?s + of_nat (length sg)) 0 = Some (of_nat (dec_val ds))"
    using atoi_digits_cstr [OF assms(4) cstr_drop [OF c] assms(5), of 0] foldl_of_nat [of 0 ds] by (simp add: dec_val_def)
  consider "sg = []" "m ?s = of_nat (48 + d)" | "sg = [45]" "m ?s = 45" | "sg = [43]" "m ?s = 43"
    using assms(2) c by (auto simp: ds dec_def)
  then show ?thesis
  proof cases
    case 1
    then show ?thesis using wh dig d48 by (simp add: atoi_def)
  qed (use wh dig in \<open>simp_all add: atoi_def\<close>)
qed

text \<open>A memory with the text \<^verbatim>\<open> -42;\<close> at address 100.\<close>

definition sample_text :: mem where
  "sample_text = (\<lambda>x. if x = 100 then 32 else if x = 101 then 45 else if x = 102 then 52 else if x = 103 then 50
     else if x = 104 then 59 else 0)"

subsection \<open>Properties\<close>

text \<open>
  C33: \<open>memmove\<close> is correct for any overlap: whenever neither block rolls over the top of memory,
  the block at the target becomes exactly what the block at the source was before the call and
  every other byte stays, whether the bytes or the words are copied and in whichever direction.
\<close>

theorem memmove_any_overlap:
  assumes "unat dst + unat len \<le> 2 ^ 32" "unat src + unat len \<le> 2 ^ 32"
  shows "memmove dst src len m x = (if unat (x - dst) < unat len then m (src + (x - dst)) else m x)"
  using memmove_moved [of dst len src m] assms by (simp add: moved_def)

theorem memmove_any_overlap_witness: "memmove 101 100 4 sample_text 102 = 45"
  using memmove_any_overlap [of 101 4 100 sample_text 102] by (simp add: sample_text_def)

text \<open>
  \<open>bzero\<close> is an optimised \<open>memset\<close>: writing by words or by bytes, it leaves the memory
  \<open>memset\<close> with 0 leaves, for every address and length.
\<close>

lemma bzero_is_memset: "bzero p len m = memset p 0 len m"
  by (rule ext) (simp add: bzero_apply memset_apply)

text \<open>
  \<open>strcmp\<close> on two C strings returns, and tells whether they are equal: the result is 0 exactly
  for equal strings, and swapping the arguments changes its sign.
\<close>

lemma strcmp_decides:
  assumes "cstr m a xs" "cstr m b ys"
  shows "\<exists>r. strcmp m a b = Some r \<and> strcmp m b a = Some (- r) \<and> (r = 0 \<longleftrightarrow> xs = ys)"
  using strcmp_cstr [OF assms] strcmp_cstr [OF assms(2,1)] str_order_eq [OF cstr_nonzero [OF assms(1)] cstr_nonzero [OF assms(2)]]
  by auto

lemma strcmp_decides_witness: "\<exists>r. strcmp sample_text 100 102 = Some r \<and> r \<noteq> 0"
proof -
  have "cstr sample_text 100 [32, 45, 52, 50, 59]" "cstr sample_text 102 [52, 50, 59]" by (simp_all add: sample_text_def)
  from strcmp_decides [OF this] show ?thesis by auto
qed

text \<open>
  C37: \<open>strtok_r\<close> splits off the next word. On a string that is blanks, a word, a separator
  and a rest, it returns the word as a C string of its own and a context at which the rest is again a
  C string; without a separator after the word the context becomes NULL, and on a string of
  separators only it returns NULL.
\<close>

theorem strtok_r_splits:
  assumes "cstr m seps ss" "seps \<noteq> 0" "p \<noteq> 0" "cstr m p (l @ w @ r)" "str = p \<or> str = 0 \<and> context = p"
    "\<forall>c \<in> set l. c \<in> set ss" "\<forall>c \<in> set w. c \<notin> set ss" "w = [] \<longrightarrow> r = []" "\<forall>c cs. r = c # cs \<longrightarrow> c \<in> set ss"
  shows "\<exists>head context' m'. strtok_r str seps context m = Some (head, context', m') \<and>
    (if w = [] then head = 0 \<and> context' = 0 \<and> m' = m
     else head = p + of_nat (length l) \<and> cstr m' head w \<and>
       (case r of [] \<Rightarrow> context' = 0 \<and> m' = m
        | c # cs \<Rightarrow> context' = head + of_nat (length w) + 1 \<and> cstr m' context' cs))"
proof -
  have tl: "takeWhile (\<lambda>c. c \<in> set ss) (l @ w @ r) = l" "dropWhile (\<lambda>c. c \<in> set ss) (l @ w @ r) = w @ r"
    using assms(6-8) by (cases w; auto simp: takeWhile_append dropWhile_append)+
  have tw: "takeWhile (\<lambda>c. c \<notin> set ss) (w @ r) = w" "dropWhile (\<lambda>c. c \<notin> set ss) (w @ r) = r"
    using assms(7,9) by (cases r; auto simp: takeWhile_append dropWhile_append)+
  note st = strtok_r_word [OF assms(1,2,4,3,5) tl(1) [symmetric] tl(2) [symmetric] tw(1) [symmetric] tw(2) [symmetric]]
  have h: "cstr m (p + of_nat (length l)) (w @ r)" by (rule cstr_drop [OF assms(4)])
  show ?thesis
  proof (cases r)
    case Nil
    then show ?thesis using st h by (cases "w = []") simp_all
  next
    case (Cons c cs)
    moreover from this have "w \<noteq> []" using assms(8) by auto
    ultimately show ?thesis using st cstr_cut [of m "p + of_nat (length l)" w c cs] h by simp
  qed
qed

theorem strtok_r_splits_witness:
  "\<exists>m'. strtok_r 100 104 0 sample_text = Some (100, 105, m') \<and> cstr m' 100 [32, 45, 52, 50]"
proof -
  have "cstr sample_text 104 [59]" "cstr sample_text 100 ([] @ [32, 45, 52, 50] @ [59])" by (simp_all add: sample_text_def)
  from strtok_r_splits [OF this(1) _ _ this(2), of 100 0] show ?thesis by auto
qed

end
