(* ===== verification/K_VM.thy ===== *)
theory K_VM
  imports K_Coremap L_String
begin

unbundle bit_operations_syntax

section \<open>Address spaces and page faults: \<^verbatim>\<open>kern/vm/addrspace.c\<close>, \<^verbatim>\<open>kern/vm/vm.c\<close>\<close>

text \<open>
  An address space has two regions and a stack, each backed by one block of frames. The
  processor translates addresses through a TLB of 64 entries, which \<open>as_activate\<close> empties and
  \<open>vm_fault\<close> fills on demand.
\<close>

definition NUM_TLB :: nat where "NUM_TLB = 64"

definition TLBLO_DIRTY :: "32 word" where "TLBLO_DIRTY = 0x400"

definition TLBLO_VALID :: "32 word" where "TLBLO_VALID = 0x200"

definition TLBHI_INVALID :: "nat \<Rightarrow> 32 word" where
  "TLBHI_INVALID entryno = push_bit 12 (0x80000 + of_nat entryno)"

definition USERSTACK :: "32 word" where "USERSTACK = MIPS_KSEG0"

definition DUMBVM_STACKPAGES :: "32 word" where "DUMBVM_STACKPAGES = 24"

definition VM_FAULT_READ :: int where "VM_FAULT_READ = 0"

definition VM_FAULT_WRITE :: int where "VM_FAULT_WRITE = 1"

definition VM_FAULT_READONLY :: int where "VM_FAULT_READONLY = 2"

subsection \<open>The TLB\<close>

definition TLB_Write :: "32 word \<Rightarrow> 32 word \<Rightarrow> nat \<Rightarrow> vmem \<Rightarrow> vmem option" where
  "TLB_Write entryhi entrylo index s = do {
     t \<leftarrow> wr (tlb s) index (entryhi, entrylo);
     Some (s\<lparr>tlb := t\<rparr>)
   }"

definition TLB_Read :: "nat \<Rightarrow> vmem \<Rightarrow> (32 word \<times> 32 word) option" where
  "TLB_Read index s = rd (tlb s) index"

definition tlb_get_rr_victim :: "vmem \<Rightarrow> nat \<times> vmem" where
  "tlb_get_rr_victim s = (next_victim s, s\<lparr>next_victim := (next_victim s + 1) mod NUM_TLB\<rparr>)"

subsection \<open>Address spaces\<close>

text \<open>\<open>p\<close> is the address \<open>kmalloc\<close> returns.\<close>

definition as_create :: "addr \<Rightarrow> vmem \<Rightarrow> addr \<times> vmem" where
  "as_create p s = (
     if p = 0 then (0, s)
     else (p, s\<lparr>spaces := (spaces s)(p \<mapsto> \<lparr>as_vbase1 = 0, as_pbase1 = 0, as_npages1 = 0, as_vbase2 = 0,
       as_pbase2 = 0, as_npages2 = 0, as_stackpbase = 0\<rparr>)\<rparr>))"

definition as_destroy :: "addr \<Rightarrow> vmem \<Rightarrow> vmem option" where
  "as_destroy as s = do {
     a \<leftarrow> spaces s as;
     Some (s\<lparr>spaces := (spaces s)(as := None)\<rparr>)
   }"

primrec tlb_clear :: "nat \<Rightarrow> vmem \<Rightarrow> vmem option" where
  "tlb_clear 0 s = Some s"
| "tlb_clear (Suc i) s = tlb_clear i s \<bind> TLB_Write (TLBHI_INVALID i) 0 i"

definition as_activate :: "addr \<Rightarrow> vmem kstate \<Rightarrow> vmem kstate option" where
  "as_activate as s = do {
     let (spl, s1) = splhigh s;
     w \<leftarrow> tlb_clear NUM_TLB (world s1);
     Some (snd (splx spl (s1\<lparr>world := w\<rparr>)))
   }"

definition as_define_region :: "addr \<Rightarrow> 32 word \<Rightarrow> 32 word \<Rightarrow> vmem \<Rightarrow> (int \<times> vmem) option" where
  "as_define_region as vaddr0 sz0 s = do {
     a \<leftarrow> spaces s as;
     let sz1 = sz0 + (vaddr0 AND NOT PAGE_FRAME);
     let vaddr = vaddr0 AND PAGE_FRAME;
     let sz = (sz1 + PAGE_SIZE - 1) AND PAGE_FRAME;
     let npages = sz div PAGE_SIZE;
     if as_vbase1 a = 0 then
       Some (0, s\<lparr>spaces := (spaces s)(as \<mapsto> a\<lparr>as_vbase1 := vaddr, as_npages1 := npages\<rparr>)\<rparr>)
     else if as_vbase2 a = 0 then
       Some (0, s\<lparr>spaces := (spaces s)(as \<mapsto> a\<lparr>as_vbase2 := vaddr, as_npages2 := npages\<rparr>)\<rparr>)
     else Some (EUNIMP, s)
   }"

text \<open>The number of pages, a \<open>size_t\<close>, is passed to \<open>cm_getppages\<close> as an \<open>int\<close>.\<close>

definition as_prepare_load :: "addr \<Rightarrow> vmem \<Rightarrow> (int \<times> vmem) option" where
  "as_prepare_load as s = do {
     a \<leftarrow> spaces s as;
     kassert (as_pbase1 a = 0);
     kassert (as_pbase2 a = 0);
     kassert (as_stackpbase a = 0);
     (p1, s1) \<leftarrow> cm_getppages (sint (as_npages1 a)) s;
     let a1 = a\<lparr>as_pbase1 := p1\<rparr>;
     let s1 = s1\<lparr>spaces := (spaces s1)(as \<mapsto> a1)\<rparr>;
     if p1 = 0 then Some (ENOMEM, s1)
     else do {
       (p2, s2) \<leftarrow> cm_getppages (sint (as_npages2 a)) s1;
       let a2 = a1\<lparr>as_pbase2 := p2\<rparr>;
       let s2 = s2\<lparr>spaces := (spaces s2)(as \<mapsto> a2)\<rparr>;
       if p2 = 0 then Some (ENOMEM, s2)
       else do {
         (p3, s3) \<leftarrow> cm_getppages (sint DUMBVM_STACKPAGES) s2;
         let s3 = s3\<lparr>spaces := (spaces s3)(as \<mapsto> a2\<lparr>as_stackpbase := p3\<rparr>)\<rparr>;
         if p3 = 0 then Some (ENOMEM, s3) else Some (0, s3)
       }
     }
   }"

definition as_complete_load :: "addr \<Rightarrow> vmem \<Rightarrow> int \<times> vmem" where
  "as_complete_load as s = (0, s)"

definition as_define_stack :: "addr \<Rightarrow> vmem \<Rightarrow> (int \<times> 32 word) option" where
  "as_define_stack as s = do {
     a \<leftarrow> spaces s as;
     kassert (as_stackpbase a \<noteq> 0);
     Some (0, USERSTACK)
   }"

text \<open>
  \<open>memmove\<close> between two blocks of physical memory, through the direct-mapped kernel segment.
\<close>

definition phys_memmove :: "32 word \<Rightarrow> 32 word \<Rightarrow> 32 word \<Rightarrow> mem \<Rightarrow> mem" where
  "phys_memmove dst src n m = (\<lambda>x. memmove (PADDR_TO_KVADDR dst) (PADDR_TO_KVADDR src) n
     (\<lambda>v. m (KVADDR_TO_PADDR v)) (PADDR_TO_KVADDR x))"

definition as_copy :: "addr \<Rightarrow> addr \<Rightarrow> vmem \<Rightarrow> (int \<times> addr \<times> vmem) option" where
  "as_copy p old s = do {
     let (new, s1) = as_create p s;
     if new = 0 then Some (ENOMEM, 0, s1)
     else do {
       ol \<leftarrow> spaces s1 old;
       n0 \<leftarrow> spaces s1 new;
       let s2 = s1\<lparr>spaces := (spaces s1)(new \<mapsto> n0\<lparr>as_vbase1 := as_vbase1 ol, as_npages1 := as_npages1 ol,
         as_vbase2 := as_vbase2 ol, as_npages2 := as_npages2 ol\<rparr>)\<rparr>;
       (result, s3) \<leftarrow> as_prepare_load new s2;
       if result \<noteq> 0 then do {
         s4 \<leftarrow> as_destroy new s3;
         Some (ENOMEM, 0, s4)
       }
       else do {
         n1 \<leftarrow> spaces s3 new;
         kassert (as_pbase1 n1 \<noteq> 0);
         kassert (as_pbase2 n1 \<noteq> 0);
         kassert (as_stackpbase n1 \<noteq> 0);
         let m1 = phys_memmove (as_pbase1 n1) (as_pbase1 ol) (as_npages1 ol * PAGE_SIZE) (pmem s3);
         let m2 = phys_memmove (as_pbase2 n1) (as_pbase2 ol) (as_npages2 ol * PAGE_SIZE) m1;
         let m3 = phys_memmove (as_stackpbase n1) (as_stackpbase ol) (DUMBVM_STACKPAGES * PAGE_SIZE) m2;
         Some (0, new, s3\<lparr>pmem := m3\<rparr>)
       }
     }
   }"

subsection \<open>Page faults\<close>

text \<open>The first TLB entry from \<open>i\<close> on that is not valid; there are \<open>k\<close> entries left.\<close>

primrec tlb_free_slot :: "nat \<Rightarrow> nat \<Rightarrow> vmem \<Rightarrow> nat option option" where
  "tlb_free_slot 0 i s = Some None"
| "tlb_free_slot (Suc k) i s = do {
     (ehi, elo) \<leftarrow> TLB_Read i s;
     if elo AND TLBLO_VALID \<noteq> 0 then tlb_free_slot k (Suc i) s else Some (Some i)
   }"

definition vm_fault :: "int \<Rightarrow> 32 word \<Rightarrow> vmem kstate \<Rightarrow> (int \<times> vmem kstate) option" where
  "vm_fault faulttype faultaddress0 s0 = do {
     let (spl, s) = splhigh s0;
     let faultaddress = faultaddress0 AND PAGE_FRAME;
     if faulttype = VM_FAULT_READONLY then None
     else if faulttype \<noteq> VM_FAULT_READ \<and> faulttype \<noteq> VM_FAULT_WRITE then Some (EINVAL, snd (splx spl s))
     else do {
       th \<leftarrow> threads s (curthread s);
       if t_vmspace th = 0 then Some (EFAULT, s)
       else do {
         a \<leftarrow> spaces (world s) (t_vmspace th);
         kassert (as_vbase1 a \<noteq> 0);
         kassert (as_pbase1 a \<noteq> 0);
         kassert (as_npages1 a \<noteq> 0);
         kassert (as_vbase2 a \<noteq> 0);
         kassert (as_pbase2 a \<noteq> 0);
         kassert (as_npages2 a \<noteq> 0);
         kassert (as_stackpbase a \<noteq> 0);
         kassert (as_vbase1 a AND PAGE_FRAME = as_vbase1 a);
         kassert (as_pbase1 a AND PAGE_FRAME = as_pbase1 a);
         kassert (as_vbase2 a AND PAGE_FRAME = as_vbase2 a);
         kassert (as_pbase2 a AND PAGE_FRAME = as_pbase2 a);
         kassert (as_stackpbase a AND PAGE_FRAME = as_stackpbase a);
         let vbase1 = as_vbase1 a;
         let vtop1 = vbase1 + as_npages1 a * PAGE_SIZE;
         let vbase2 = as_vbase2 a;
         let vtop2 = vbase2 + as_npages2 a * PAGE_SIZE;
         let stackbase = USERSTACK - DUMBVM_STACKPAGES * PAGE_SIZE;
         let stacktop = USERSTACK;
         let target = (if faultaddress \<ge> vbase1 \<and> faultaddress < vtop1
             then Some ((faultaddress - vbase1) + as_pbase1 a)
             else if faultaddress \<ge> vbase2 \<and> faultaddress < vtop2
             then Some ((faultaddress - vbase2) + as_pbase2 a)
             else if faultaddress \<ge> stackbase \<and> faultaddress < stacktop
             then Some ((faultaddress - stackbase) + as_stackpbase a)
             else None);
         (case target of
            None \<Rightarrow> Some (EFAULT, snd (splx spl s))
          | Some paddr \<Rightarrow> do {
              kassert (paddr AND PAGE_FRAME = paddr);
              slot \<leftarrow> tlb_free_slot NUM_TLB 0 (world s);
              (case slot of
                 None \<Rightarrow> Some (EFAULT, snd (splx spl s))
               | Some i \<Rightarrow> do {
                   w \<leftarrow> TLB_Write faultaddress (paddr OR TLBLO_DIRTY OR TLBLO_VALID) i (world s);
                   Some (0, snd (splx spl (s\<lparr>world := w\<rparr>)))
                 })
            })
       }
     }
   }"

subsection \<open>Translation\<close>

text \<open>
  What an address space promises: the physical address behind a virtual address, byte by byte.
\<close>

definition in_region :: "32 word \<Rightarrow> 32 word \<Rightarrow> 32 word \<Rightarrow> bool" where
  "in_region base npages v \<longleftrightarrow> base \<le> v \<and> v < base + npages * PAGE_SIZE"

definition STACKBASE :: "32 word" where "STACKBASE = 0x7ffe8000"

definition as_translate :: "addrspace \<Rightarrow> 32 word \<Rightarrow> 32 word option" where
  "as_translate a v =
     (if in_region (as_vbase1 a) (as_npages1 a) v then Some (v - as_vbase1 a + as_pbase1 a)
      else if in_region (as_vbase2 a) (as_npages2 a) v then Some (v - as_vbase2 a + as_pbase2 a)
      else if in_region STACKBASE DUMBVM_STACKPAGES v then Some (v - STACKBASE + as_stackpbase a)
      else None)"

text \<open>A region that is not empty, page-aligned and below the limit \<open>lim\<close>.\<close>

definition region_ok :: "nat \<Rightarrow> 32 word \<Rightarrow> 32 word \<Rightarrow> bool" where
  "region_ok lim base npages \<longleftrightarrow> base \<noteq> 0 \<and> npages \<noteq> 0 \<and> 4096 dvd unat base \<and>
     unat base + unat npages * 4096 \<le> lim"

definition as_ok :: "addrspace \<Rightarrow> bool" where
  "as_ok a \<longleftrightarrow> region_ok (2 ^ 31) (as_vbase1 a) (as_npages1 a) \<and>
     region_ok (2 ^ 31) (as_vbase2 a) (as_npages2 a) \<and>
     region_ok (508 * 1024 * 1024) (as_pbase1 a) (as_npages1 a) \<and>
     region_ok (508 * 1024 * 1024) (as_pbase2 a) (as_npages2 a) \<and>
     region_ok (508 * 1024 * 1024) (as_stackpbase a) DUMBVM_STACKPAGES"

lemma unat_times_page: "unat x * 4096 < 4294967296 \<Longrightarrow> unat (x * PAGE_SIZE) = unat x * 4096"
  by (simp add: unat_word_ariths)

lemma unat_region_end:
  assumes "region_ok lim base n" "lim \<le> 2 ^ 31"
  shows "unat (base + n * PAGE_SIZE) = unat base + unat n * 4096"
  using assms unat_times_page [of n] unat_plus_ok [of base "n * PAGE_SIZE"]
  by (simp add: region_ok_def)

lemma in_region_unat:
  assumes "region_ok lim base n" "lim \<le> 2 ^ 31"
  shows "in_region base n v \<longleftrightarrow> unat base \<le> unat v \<and> unat v < unat base + unat n * 4096"
  using unat_region_end [OF assms] by (simp add: in_region_def word_le_nat_alt word_less_nat_alt)

lemma stack_region_ok: "region_ok (2 ^ 31) STACKBASE DUMBVM_STACKPAGES"
  by (simp add: region_ok_def STACKBASE_def DUMBVM_STACKPAGES_def)

lemma page_bounds:
  fixes B T V :: nat
  assumes "4096 dvd B" "4096 dvd T"
  shows "B \<le> V div 4096 * 4096 \<longleftrightarrow> B \<le> V" "V div 4096 * 4096 < T \<longleftrightarrow> V < T"
proof -
  obtain b t where bt: "B = b * 4096" "T = t * 4096" using assms by (auto elim!: dvdE)
  show "B \<le> V div 4096 * 4096 \<longleftrightarrow> B \<le> V" "V div 4096 * 4096 < T \<longleftrightarrow> V < T"
    unfolding bt by (simp_all add: less_eq_div_iff_mult_less_eq div_less_iff_less_mult)
qed

lemma in_region_page:
  assumes "region_ok lim base n" "lim \<le> 2 ^ 31"
  shows "in_region base n (v AND PAGE_FRAME) = in_region base n v"
proof -
  have "4096 dvd unat base" "4096 dvd unat base + unat n * 4096" using assms(1) by (auto simp: region_ok_def)
  then show ?thesis unfolding in_region_unat [OF assms] frame_unat by (simp add: page_bounds)
qed

lemma page_offset: "v = (v AND PAGE_FRAME) + (v AND NOT PAGE_FRAME)"
proof -
  have "v = (v AND PAGE_FRAME) OR (v AND NOT PAGE_FRAME)" by (rule bit_eqI) (auto simp: bit_simps)
  also have "\<dots> = (v AND PAGE_FRAME) + (v AND NOT PAGE_FRAME)"
    by (rule disjunctive_add [symmetric]) (auto simp: bit_simps)
  finally show ?thesis .
qed

lemma as_ok_regions:
  assumes "as_ok a"
  shows "region_ok (2 ^ 31) (as_vbase1 a) (as_npages1 a)" "region_ok (2 ^ 31) (as_vbase2 a) (as_npages2 a)"
    "region_ok (508 * 1024 * 1024) (as_pbase1 a) (as_npages1 a)"
    "region_ok (508 * 1024 * 1024) (as_pbase2 a) (as_npages2 a)"
    "region_ok (508 * 1024 * 1024) (as_stackpbase a) DUMBVM_STACKPAGES"
  using assms by (auto simp: as_ok_def)

lemma translate_page:
  assumes "as_ok a"
  shows "as_translate a v = map_option (\<lambda>p. p + (v AND NOT PAGE_FRAME)) (as_translate a (v AND PAGE_FRAME))"
proof -
  note ok = as_ok_regions [OF assms]
  note pg = in_region_page [OF ok(1) order.refl, of v] in_region_page [OF ok(2) order.refl, of v]
    in_region_page [OF stack_region_ok order.refl, of v]
  have "(v AND PAGE_FRAME) - b + p + (v AND NOT PAGE_FRAME) = v - b + p" for b p
    using page_offset [of v] by (metis (no_types, lifting) ab_semigroup_add_class.add_ac(1) add.commute add_diff_eq)
  then show ?thesis by (simp add: as_translate_def pg)
qed

lemma aligned_sum:
  assumes "region_ok t1 vb n" "region_ok t2 pb n" "t1 \<le> 2 ^ 31" "t2 \<le> 2 ^ 31" "in_region vb n v" "4096 dvd unat v"
  shows "4096 dvd unat (v - vb + pb)" "unat (v - vb + pb) = unat v - unat vb + unat pb"
proof -
  have v: "unat vb \<le> unat v" "unat v < unat vb + unat n * 4096" using in_region_unat [OF assms(1,3)] assms(5) by auto
  have "unat (v - vb) = unat v - unat vb" using v(1) by (simp add: unat_minus_ok word_le_nat_alt)
  moreover have "unat pb + unat n * 4096 \<le> 2147483648" using assms(2,4) by (auto simp: region_ok_def)
  then have "unat v - unat vb + unat pb < 4294967296" using v by linarith
  ultimately show u: "unat (v - vb + pb) = unat v - unat vb + unat pb" by (simp add: unat_plus_ok)
  show "4096 dvd unat (v - vb + pb)" unfolding u using assms(1,2,6) by (simp add: region_ok_def dvd_diff_nat)
qed

lemma translate_aligned:
  assumes "as_ok a" "as_translate a (v AND PAGE_FRAME) = Some p"
  shows "4096 dvd unat p"
proof -
  note ok = as_ok_regions [OF assms(1)]
  have al: "4096 dvd unat (v AND PAGE_FRAME)" by (simp add: frame_unat)
  show ?thesis
    using assms(2) aligned_sum(1) [OF ok(1,3) _ _ _ al] aligned_sum(1) [OF ok(2,4) _ _ _ al]
      aligned_sum(1) [OF stack_region_ok ok(5) _ _ _ al]
    by (auto simp: as_translate_def split: if_splits)
qed

subsection \<open>The TLB\<close>

text \<open>Every valid entry of the TLB agrees, byte by byte, with the translation of the address space.\<close>

definition tlb_ok :: "addrspace \<Rightarrow> (32 word \<times> 32 word) list \<Rightarrow> bool" where
  "tlb_ok a t \<longleftrightarrow> length t = NUM_TLB \<and>
     (\<forall>(hi, lo) \<in> set t. lo AND TLBLO_VALID \<noteq> 0 \<longrightarrow>
        (\<forall>v. v AND PAGE_FRAME = hi \<longrightarrow>
           as_translate a v = Some ((lo AND PAGE_FRAME) + (v AND NOT PAGE_FRAME))))"

lemma entry_lo:
  assumes "4096 dvd unat p"
  shows "(p OR TLBLO_DIRTY OR TLBLO_VALID) AND PAGE_FRAME = p"
    "(p OR TLBLO_DIRTY OR TLBLO_VALID) AND TLBLO_VALID \<noteq> 0"
proof -
  have p: "p AND PAGE_FRAME = p" using assms by (simp add: frame_aligned)
  have c: "TLBLO_DIRTY AND PAGE_FRAME = 0" "TLBLO_VALID AND PAGE_FRAME = 0"
    by (simp_all add: TLBLO_DIRTY_def TLBLO_VALID_def PAGE_FRAME_def)
  show "(p OR TLBLO_DIRTY OR TLBLO_VALID) AND PAGE_FRAME = p"
    by (simp add: bit.conj_disj_distrib2 p c)
  have "bit ((p OR TLBLO_DIRTY OR TLBLO_VALID) AND TLBLO_VALID) 9"
    by (simp add: TLBLO_VALID_def bit_simps)
  then show "(p OR TLBLO_DIRTY OR TLBLO_VALID) AND TLBLO_VALID \<noteq> 0" by auto
qed

lemma tlb_free_slot_result:
  assumes "i + k \<le> length (tlb w)"
  shows "\<exists>r. tlb_free_slot k i w = Some r \<and>
    (case r of None \<Rightarrow> \<forall>j. i \<le> j \<and> j < i + k \<longrightarrow> snd (tlb w ! j) AND TLBLO_VALID \<noteq> 0
     | Some j \<Rightarrow> i \<le> j \<and> j < i + k \<and> snd (tlb w ! j) AND TLBLO_VALID = 0)"
  using assms
proof (induction k arbitrary: i)
  case (Suc k)
  show ?case
  proof (cases "snd (tlb w ! i) AND TLBLO_VALID = 0")
    case True
    then show ?thesis using Suc.prems by (auto simp: TLB_Read_def split: prod.splits)
  next
    case False
    obtain r where r: "tlb_free_slot k (Suc i) w = Some r"
      "case r of None \<Rightarrow> \<forall>j. Suc i \<le> j \<and> j < Suc i + k \<longrightarrow> snd (tlb w ! j) AND TLBLO_VALID \<noteq> 0
       | Some j \<Rightarrow> Suc i \<le> j \<and> j < Suc i + k \<and> snd (tlb w ! j) AND TLBLO_VALID = 0"
      using Suc.IH [of "Suc i"] Suc.prems by auto
    have "tlb_free_slot (Suc k) i w = Some r"
      using False r(1) Suc.prems by (auto simp: TLB_Read_def split: prod.splits)
    moreover have "snd (tlb w ! j) AND TLBLO_VALID \<noteq> 0" if "r = None" "i \<le> j" "j < i + Suc k" for j
      using that r(2) False by (cases "j = i") auto
    ultimately show ?thesis using r(2) by (cases r) auto
  qed
qed auto

lemma tlb_ok_write:
  assumes "as_ok a" "tlb_ok a t" "i < NUM_TLB" "as_translate a (v AND PAGE_FRAME) = Some p"
  shows "tlb_ok a (t[i := (v AND PAGE_FRAME, p OR TLBLO_DIRTY OR TLBLO_VALID)])"
proof -
  note lo = entry_lo [OF translate_aligned [OF assms(1,4)]]
  have "as_translate a u = Some (p + (u AND NOT PAGE_FRAME))" if "u AND PAGE_FRAME = v AND PAGE_FRAME" for u
    using translate_page [OF assms(1), of u] assms(4) that by simp
  then show ?thesis
    using assms(2,3) lo unfolding tlb_ok_def
    by (auto dest!: set_update_subset_insert [THEN subsetD])
qed

lemma stack_const: "USERSTACK - DUMBVM_STACKPAGES * PAGE_SIZE = STACKBASE" "USERSTACK = STACKBASE + DUMBVM_STACKPAGES * PAGE_SIZE"
  by (simp_all add: USERSTACK_def MIPS_KSEG0_def DUMBVM_STACKPAGES_def PAGE_SIZE_def STACKBASE_def)

lemma vm_fault_eq:
  fixes s :: "vmem kstate"
  assumes "threads s (curthread s) = Some th" "t_vmspace th \<noteq> 0" "spaces (world s) (t_vmspace th) = Some a" "as_ok a"
    "length (tlb (world s)) = NUM_TLB" "ft = VM_FAULT_READ \<or> ft = VM_FAULT_WRITE"
  shows "vm_fault ft v s = (let s1 = snd (splhigh s); quit = snd (splx (curspl s) s1) in
    case as_translate a (v AND PAGE_FRAME) of
      None \<Rightarrow> Some (EFAULT, quit)
    | Some p \<Rightarrow> (case the (tlb_free_slot NUM_TLB 0 (world s)) of
        None \<Rightarrow> Some (EFAULT, quit)
      | Some i \<Rightarrow> Some (0, snd (splx (curspl s) (s1\<lparr>world := (world s)\<lparr>tlb := (tlb (world s))[i :=
            (v AND PAGE_FRAME, p OR TLBLO_DIRTY OR TLBLO_VALID)]\<rparr>\<rparr>)))))"
proof -
  note ok = as_ok_regions [OF assms(4)]
  have ty: "ft \<noteq> VM_FAULT_READONLY" using assms(6) by (auto simp: VM_FAULT_READONLY_def VM_FAULT_READ_def VM_FAULT_WRITE_def)
  obtain r where r: "tlb_free_slot NUM_TLB 0 (world s) = Some r" "case r of Some j \<Rightarrow> j < NUM_TLB | None \<Rightarrow> True"
    using tlb_free_slot_result [of 0 NUM_TLB "world s"] assms(5) by (auto split: option.splits)
  have al: "as_vbase1 a AND PAGE_FRAME = as_vbase1 a" "as_vbase2 a AND PAGE_FRAME = as_vbase2 a"
    "as_pbase1 a AND PAGE_FRAME = as_pbase1 a" "as_pbase2 a AND PAGE_FRAME = as_pbase2 a"
    "as_stackpbase a AND PAGE_FRAME = as_stackpbase a"
    using ok by (simp_all add: region_ok_def frame_aligned)
  have nz: "as_vbase1 a \<noteq> 0" "as_vbase2 a \<noteq> 0" "as_pbase1 a \<noteq> 0" "as_pbase2 a \<noteq> 0" "as_stackpbase a \<noteq> 0"
    "as_npages1 a \<noteq> 0" "as_npages2 a \<noteq> 0"
    using ok by (simp_all add: region_ok_def)
  have pal: "p AND PAGE_FRAME = p" if "as_translate a (v AND PAGE_FRAME) = Some p" for p
    using translate_aligned [OF assms(4) that] by (simp add: frame_aligned)
  define tr where "tr = as_translate a (v AND PAGE_FRAME)"
  have tr: "(if as_vbase1 a \<le> v AND PAGE_FRAME \<and> v AND PAGE_FRAME < as_vbase1 a + as_npages1 a * PAGE_SIZE
      then Some ((v AND PAGE_FRAME) - as_vbase1 a + as_pbase1 a)
      else if as_vbase2 a \<le> v AND PAGE_FRAME \<and> v AND PAGE_FRAME < as_vbase2 a + as_npages2 a * PAGE_SIZE
      then Some ((v AND PAGE_FRAME) - as_vbase2 a + as_pbase2 a)
      else if USERSTACK - DUMBVM_STACKPAGES * PAGE_SIZE \<le> v AND PAGE_FRAME \<and> v AND PAGE_FRAME < USERSTACK
      then Some ((v AND PAGE_FRAME) - (USERSTACK - DUMBVM_STACKPAGES * PAGE_SIZE) + as_stackpbase a)
      else None) = tr"
    unfolding tr_def as_translate_def in_region_def stack_const(1) by (simp only: stack_const(2))
  show ?thesis
    using assms(1-3,5,6) ty al nz r pal [folded tr_def]
    by (simp add: vm_fault_def Let_def tr tr_def [symmetric] split_def TLB_Write_def split: option.splits)
qed

lemma tlb_clear_result:
  assumes "k \<le> length (tlb w)"
  shows "\<exists>t. tlb_clear k w = Some (w\<lparr>tlb := t\<rparr>) \<and> length t = length (tlb w) \<and>
    (\<forall>i < k. t ! i = (TLBHI_INVALID i, 0)) \<and> drop k t = drop k (tlb w)"
  using assms
proof (induction k)
  case 0
  then show ?case by (intro exI [of _ "tlb w"]) simp
next
  case (Suc k)
  then obtain t where t: "tlb_clear k w = Some (w\<lparr>tlb := t\<rparr>)" "length t = length (tlb w)"
    "\<forall>i < k. t ! i = (TLBHI_INVALID i, 0)" "drop k t = drop k (tlb w)" by auto
  have d: "drop (Suc k) t = drop (Suc k) (tlb w)" using arg_cong [OF t(4), of "drop 1"] by simp
  show ?case using t(1-3) d Suc.prems
    by (intro exI [of _ "t[k := (TLBHI_INVALID k, 0)]"]) (auto simp: TLB_Write_def nth_list_update less_Suc_eq)
qed

lemma as_activate_result:
  assumes "length (tlb (world s)) = NUM_TLB"
  shows "\<exists>s' t. as_activate as s = Some s' \<and> world s' = (world s)\<lparr>tlb := t\<rparr> \<and> length t = NUM_TLB \<and>
    (\<forall>i < NUM_TLB. snd (t ! i) = 0) \<and> curspl s' = curspl s \<and> threads s' = threads s \<and> curthread s' = curthread s"
proof -
  obtain t where "tlb_clear NUM_TLB (world s) = Some ((world s)\<lparr>tlb := t\<rparr>)" "length t = NUM_TLB"
    "\<forall>i < NUM_TLB. t ! i = (TLBHI_INVALID i, 0)"
    using tlb_clear_result [of NUM_TLB "world s"] assms by auto
  then show ?thesis by (auto simp: as_activate_def split_def)
qed

lemma tlb_ok_empty: "length t = NUM_TLB \<Longrightarrow> \<forall>i < NUM_TLB. snd (t ! i) = 0 \<Longrightarrow> tlb_ok a t"
  by (fastforce simp: tlb_ok_def in_set_conv_nth)

subsection \<open>Frames of an address space\<close>

declare flags_nth(2) [simp del]

text \<open>The block of \<open>n\<close> frames at \<open>p\<close> is one the coremap has handed out.\<close>

definition owns :: "vmem \<Rightarrow> 32 word \<Rightarrow> nat \<Rightarrow> bool" where
  "owns w p n \<longleftrightarrow> 0 < n \<and> (\<exists>b < cm_end w. p = freepaddr w + of_nat b * PAGE_SIZE \<and> cm_length (coremap w ! b) = int n)"

definition as_backed :: "vmem \<Rightarrow> addrspace \<Rightarrow> bool" where
  "as_backed w a \<longleftrightarrow> owns w (as_pbase1 a) (unat (as_npages1 a)) \<and> owns w (as_pbase2 a) (unat (as_npages2 a)) \<and>
     owns w (as_stackpbase a) (unat DUMBVM_STACKPAGES)"

text \<open>The bytes of \<open>n\<close> pages at \<open>p\<close>.\<close>

definition bytes :: "32 word \<Rightarrow> nat \<Rightarrow> nat set" where
  "bytes p n = {unat p ..< unat p + n * 4096}"

lemma owns_region:
  assumes "cm_inv w" "owns w p n"
  shows "p \<noteq> 0" "4096 dvd unat p" "unat p + n * 4096 \<le> 508 * 1024 * 1024" "unat (freepaddr w) \<le> unat p"
proof -
  obtain b where b: "b < cm_end w" "p = freepaddr w + of_nat b * PAGE_SIZE" "cm_length (coremap w ! b) = int n" "0 < n"
    using assms(2) by (auto simp: owns_def)
  have "block_at (coremap w) b" "length (coremap w) = cm_end w" using assms(1) b(1) by (simp_all add: cm_inv_def)
  then have "b + n \<le> cm_end w" using block_atD(1) [of "coremap w" b] b(3,4) by simp
  moreover have u: "unat p = unat (freepaddr w) + b * 4096" unfolding b(2) by (rule frame_addr [OF assms(1) b(1)])
  moreover have inv: "4096 dvd unat (freepaddr w)" "unat (freepaddr w) + cm_end w * 4096 \<le> 508 * 1024 * 1024"
    using assms(1) by (simp_all add: cm_inv_def)
  ultimately show "4096 dvd unat p" "unat p + n * 4096 \<le> 508 * 1024 * 1024" "unat (freepaddr w) \<le> unat p"
    by simp_all
  show "p \<noteq> 0" unfolding b(2) by (rule frame_nonzero [OF assms(1) b(1)])
qed

lemma owns_disjoint:
  assumes "cm_inv w" "owns w p n" "owns w q m" "p \<noteq> q"
  shows "bytes p n \<inter> bytes q m = {}"
proof (rule ccontr)
  assume "bytes p n \<inter> bytes q m \<noteq> {}"
  then obtain x where "x \<in> bytes p n" "x \<in> bytes q m" by blast
  then have x: "unat p \<le> x" "x < unat p + n * 4096" "unat q \<le> x" "x < unat q + m * 4096"
    by (auto simp: bytes_def)
  obtain b where b: "b < cm_end w" "p = freepaddr w + of_nat b * PAGE_SIZE" "cm_length (coremap w ! b) = int n" "0 < n"
    using assms(2) by (auto simp: owns_def)
  obtain c where c: "c < cm_end w" "q = freepaddr w + of_nat c * PAGE_SIZE" "cm_length (coremap w ! c) = int m" "0 < m"
    using assms(3) by (auto simp: owns_def)
  have u: "unat p = unat (freepaddr w) + b * 4096" "unat q = unat (freepaddr w) + c * 4096"
    unfolding b(2) c(2) by (rule frame_addr [OF assms(1) b(1)], rule frame_addr [OF assms(1) c(1)])
  have "b \<noteq> c" using assms(4) b(2) c(2) by auto
  moreover have "c < b + n" "b < c + m" using x u by linarith+
  ultimately show False
    using blocks_disjoint [OF assms(1) b(1) c(1), of "max b c"] b(3,4) c(3,4) by (cases "b \<le> c") (auto simp: max_def)
qed

lemma getppages_owns:
  assumes "cm_inv w" "cm_getppages (int n) w = Some (p, w')" "0 < n"
  shows "cm_inv w'" "\<exists>cm. w' = w\<lparr>coremap := cm\<rparr>" "p = 0 \<Longrightarrow> w' = w"
    "p \<noteq> 0 \<Longrightarrow> owns w' p n" "owns w q m \<Longrightarrow> owns w' q m \<and> q \<noteq> p"
    "p \<noteq> 0 \<Longrightarrow> i < cm_end w \<Longrightarrow> \<not> cm_flags w ! i \<Longrightarrow> unat (freepaddr w) + i * 4096 \<le> x \<Longrightarrow>
       x < unat (freepaddr w) + Suc i * 4096 \<Longrightarrow> x \<notin> bytes p n"
proof -
  show inv': "cm_inv w'" by (rule cm_getppages_inv [OF assms(1,2)])
  consider (none) "p = 0" "w' = w" | (some) b where "is_run (cm_flags w) n b"
      "p = freepaddr w + of_nat b * PAGE_SIZE" "w' = w\<lparr>coremap := take_run n b (coremap w)\<rparr>"
    using cm_getppages_result [OF assms(1,3)] assms(2) by auto
  note cs = this
  show "\<exists>cm. w' = w\<lparr>coremap := cm\<rparr>" by (rule cs) (auto intro: exI [of _ "coremap w"])
  show "w' = w" if "p = 0"
  proof (rule cs)
    fix b assume b: "is_run (cm_flags w) n b" "p = freepaddr w + of_nat b * PAGE_SIZE"
    then have "b < cm_end w" using assms(1,3) by (simp add: is_run_def)
    then show ?thesis using frame_nonzero [OF assms(1)] b(2) that by auto
  qed
  have run: "b < cm_end w" "b + n \<le> length (coremap w)" if "is_run (cm_flags w) n b" for b
    using that assms(1,3) by (auto simp: is_run_def cm_inv_def cm_flags_def)
  show "owns w' p n" if "p \<noteq> 0"
  proof (rule cs)
    fix b assume "is_run (cm_flags w) n b" "p = freepaddr w + of_nat b * PAGE_SIZE"
      "w' = w\<lparr>coremap := take_run n b (coremap w)\<rparr>"
    then show ?thesis using run [of b] assms(3) by (auto simp: owns_def take_run_nth intro!: exI [of _ b])
  qed (use that in simp)
  show "owns w' q m \<and> q \<noteq> p" if o: "owns w q m"
  proof (rule cs)
    fix b assume b: "is_run (cm_flags w) n b" "p = freepaddr w + of_nat b * PAGE_SIZE"
      "w' = w\<lparr>coremap := take_run n b (coremap w)\<rparr>"
    obtain c where c: "c < cm_end w" "q = freepaddr w + of_nat c * PAGE_SIZE" "cm_length (coremap w ! c) = int m" "0 < m"
      using o by (auto simp: owns_def)
    have "c \<noteq> b" using block_misses_run [OF assms(1) b(1) c(1), of c] c(3,4) assms(3) by auto
    moreover have "c < length (coremap w)" using c(1) assms(1) by (simp add: cm_inv_def)
    ultimately have "owns w' q m" using c run(2) [OF b(1)] by (auto simp: owns_def b(3) take_run_nth intro!: exI [of _ c])
    moreover have "unat q \<noteq> unat p"
      unfolding b(2) c(2) frame_addr [OF assms(1) c(1)] frame_addr [OF assms(1) run(1) [OF b(1)]] using \<open>c \<noteq> b\<close> by simp
    ultimately show ?thesis by auto
  qed (use o owns_region(1) [OF assms(1) o] in simp)
  show "x \<notin> bytes p n" if h: "p \<noteq> 0" "i < cm_end w" "\<not> cm_flags w ! i" "unat (freepaddr w) + i * 4096 \<le> x"
    "x < unat (freepaddr w) + Suc i * 4096"
  proof (rule cs)
    fix b assume b: "is_run (cm_flags w) n b" "p = freepaddr w + of_nat b * PAGE_SIZE"
    have "\<not> (b \<le> i \<and> i < b + n)" using is_runD [OF b(1), of i] h(3) by blast
    moreover have "unat p = unat (freepaddr w) + b * 4096"
      unfolding b(2) by (rule frame_addr [OF assms(1) run(1) [OF b(1)]])
    ultimately show ?thesis using h(4,5) by (auto simp: bytes_def)
  qed (use h(1) in simp)
qed

text \<open>What \<open>cm_getppages\<close> keeps, however often it is called.\<close>

definition cm_grown :: "vmem \<Rightarrow> vmem \<Rightarrow> bool" where
  "cm_grown w w' \<longleftrightarrow> cm_inv w' \<and> pmem w' = pmem w \<and> freepaddr w' = freepaddr w \<and> cm_end w' = cm_end w \<and>
     tlb w' = tlb w \<and> (\<forall>q m. owns w q m \<longrightarrow> owns w' q m) \<and> (\<forall>i < cm_end w. \<not> cm_flags w ! i \<longrightarrow> \<not> cm_flags w' ! i)"

lemma cm_grown_refl: "cm_inv w \<Longrightarrow> cm_grown w w"
  by (simp add: cm_grown_def)

lemma cm_grown_trans: "cm_grown w w' \<Longrightarrow> cm_grown w' w'' \<Longrightarrow> cm_grown w w''"
  by (simp add: cm_grown_def)

lemma spaces_irrelevant [simp]:
  "cm_inv (w\<lparr>spaces := m\<rparr>) = cm_inv w" "owns (w\<lparr>spaces := m\<rparr>) = owns w" "cm_flags (w\<lparr>spaces := m\<rparr>) = cm_flags w"
  "cm_inv (w\<lparr>pmem := f\<rparr>) = cm_inv w" "owns (w\<lparr>pmem := f\<rparr>) = owns w"
  "as_backed (w\<lparr>pmem := f\<rparr>) = as_backed w" "as_backed (w\<lparr>spaces := m\<rparr>) = as_backed w"
  by (auto simp: cm_inv_def owns_def cm_flags_def as_backed_def fun_eq_iff)

lemma cm_grown_spaces [simp]:
  "cm_grown w (w'\<lparr>spaces := m\<rparr>) = cm_grown w w'" "cm_grown (w\<lparr>spaces := m\<rparr>) w' = cm_grown w w'"
  by (simp_all add: cm_grown_def)

lemma getppages_grown:
  assumes "cm_inv w" "0 < n"
  shows "\<exists>p w'. cm_getppages (int n) w = Some (p, w') \<and> cm_grown w w' \<and> spaces w' = spaces w \<and>
    (p \<noteq> 0 \<longrightarrow> owns w' p n \<and> (\<forall>q m. owns w q m \<longrightarrow> q \<noteq> p) \<and>
       (\<forall>i x. i < cm_end w \<and> \<not> cm_flags w ! i \<and> unat (freepaddr w) + i * 4096 \<le> x \<and>
          x < unat (freepaddr w) + Suc i * 4096 \<longrightarrow> x \<notin> bytes p n))"
proof -
  obtain p w' where g: "cm_getppages (int n) w = Some (p, w')"
    using cm_getppages_result [OF assms] by auto
  note o = getppages_owns [OF assms(1) g assms(2)]
  have "\<not> cm_flags w' ! i" if "i < cm_end w" "\<not> cm_flags w ! i" for i
  proof -
    have "length (coremap w) = cm_end w" using assms(1) by (simp add: cm_inv_def)
    moreover have "cm_end w' = cm_end w" using o(2) by auto
    ultimately show ?thesis
      using cm_getppages_result [OF assms] g that flags_nth(2) [OF o(1), of i] flags_nth(2) [OF assms(1), of i]
        flags_nth(1) [OF assms(1)]
      by (auto simp: take_run_nth is_run_def split: if_splits)
  qed
  then have "cm_grown w w'" using o(1,2,5) by (auto simp: cm_grown_def)
  then show ?thesis using g o(2,4,5,6) by auto
qed

lemma sint_small: "unat x < 2 ^ 31 \<Longrightarrow> sint (x :: 32 word) = int (unat x)"
proof -
  assume "unat x < 2 ^ 31"
  then have "unat x < 2147483648" by simp
  moreover have "uint x = int (unat x)" by simp
  ultimately have "uint x < 2147483648" by linarith
  then have "signed_take_bit 31 (uint x) = uint x" by (intro signed_take_bit_int_eq_self) (simp_all add: order.trans [OF _ uint_nonnegative])
  then show ?thesis by (simp add: sint_uint)
qed

definition prepared :: "vmem \<Rightarrow> vmem \<Rightarrow> 32 word \<Rightarrow> nat \<Rightarrow> bool" where
  "prepared w w' p n \<longleftrightarrow> owns w' p n \<and> (\<forall>q m. owns w q m \<longrightarrow> q \<noteq> p) \<and>
     (\<forall>i x. i < cm_end w \<and> \<not> cm_flags w ! i \<and> unat (freepaddr w) + i * 4096 \<le> x \<and>
        x < unat (freepaddr w) + Suc i * 4096 \<longrightarrow> x \<notin> bytes p n)"

lemma prepared_later: "prepared w w' p n \<Longrightarrow> cm_grown w' w'' \<Longrightarrow> prepared w w'' p n"
  by (simp add: prepared_def cm_grown_def)

lemma prepared_earlier: "cm_grown w w' \<Longrightarrow> prepared w' w'' p n \<Longrightarrow> prepared w w'' p n"
  unfolding prepared_def cm_grown_def by metis

lemma prepared_spaces [simp]:
  "prepared (w\<lparr>spaces := m\<rparr>) w' = prepared w w'" "prepared w (w'\<lparr>spaces := m\<rparr>) = prepared w w'"
  by (simp_all add: prepared_def fun_eq_iff)

lemma getppages_prepared:
  assumes "cm_inv w" "0 < unat (n :: 32 word)" "unat n < 2 ^ 31"
  shows "\<exists>p w'. cm_getppages (sint n) w = Some (p, w') \<and> cm_grown w w' \<and> spaces w' = spaces w \<and>
    (p \<noteq> 0 \<longrightarrow> prepared w w' p (unat n))"
  using getppages_grown [OF assms(1,2)] unfolding sint_small [OF assms(3)] prepared_def by blast

subsection \<open>Loading and copying\<close>

lemma as_prepare_load_result:
  assumes "cm_inv w" "spaces w as = Some a" "as_pbase1 a = 0" "as_pbase2 a = 0" "as_stackpbase a = 0"
    "0 < unat (as_npages1 a)" "unat (as_npages1 a) < 2 ^ 31" "0 < unat (as_npages2 a)" "unat (as_npages2 a) < 2 ^ 31"
  shows "\<exists>r w' p1 p2 p3. as_prepare_load as w = Some (r, w') \<and> cm_grown w w' \<and>
    spaces w' = (spaces w)(as \<mapsto> a\<lparr>as_pbase1 := p1, as_pbase2 := p2, as_stackpbase := p3\<rparr>) \<and>
    (r = ENOMEM \<or> (r = 0 \<and> p1 \<noteq> 0 \<and> p2 \<noteq> 0 \<and> p3 \<noteq> 0 \<and> p1 \<noteq> p2 \<and> p1 \<noteq> p3 \<and> p2 \<noteq> p3 \<and>
       prepared w w' p1 (unat (as_npages1 a)) \<and> prepared w w' p2 (unat (as_npages2 a)) \<and>
       prepared w w' p3 (unat DUMBVM_STACKPAGES)))"
proof -
  have zero: "a\<lparr>as_pbase1 := p\<rparr> = a\<lparr>as_pbase1 := p, as_pbase2 := 0, as_stackpbase := 0\<rparr>"
    "a\<lparr>as_pbase1 := p, as_pbase2 := q\<rparr> = a\<lparr>as_pbase1 := p, as_pbase2 := q, as_stackpbase := 0\<rparr>" for p q
    using assms(4,5) by (cases a, simp)+
  obtain p1 w1 where 1: "cm_getppages (sint (as_npages1 a)) w = Some (p1, w1)" "cm_grown w w1" "spaces w1 = spaces w"
    "p1 \<noteq> 0 \<Longrightarrow> prepared w w1 p1 (unat (as_npages1 a))"
    using getppages_prepared [OF assms(1,6,7)] by blast
  let ?w1 = "w1\<lparr>spaces := (spaces w)(as \<mapsto> a\<lparr>as_pbase1 := p1\<rparr>)\<rparr>"
  show ?thesis
  proof (cases "p1 = 0")
    case True
    then have "as_prepare_load as w = Some (ENOMEM, ?w1)" using 1(1,3) assms(2-5) by (simp add: as_prepare_load_def Let_def)
    moreover have "cm_grown w ?w1" using 1(2) by simp
    ultimately show ?thesis
      by (intro exI [of _ ENOMEM] exI [of _ ?w1] exI [of _ p1] exI [of _ 0] exI [of _ 0]) (simp add: zero(1) [symmetric])
  next
    case p1: False
    have "cm_inv ?w1" using 1(2) by (simp add: cm_grown_def)
    then obtain p2 w2 where 2: "cm_getppages (sint (as_npages2 a)) ?w1 = Some (p2, w2)" "cm_grown ?w1 w2"
      "spaces w2 = spaces ?w1" "p2 \<noteq> 0 \<Longrightarrow> prepared ?w1 w2 p2 (unat (as_npages2 a))"
      using getppages_prepared [OF _ assms(8,9)] by blast
    let ?w2 = "w2\<lparr>spaces := (spaces w)(as \<mapsto> a\<lparr>as_pbase1 := p1, as_pbase2 := p2\<rparr>)\<rparr>"
    have g2: "cm_grown w ?w2" using cm_grown_trans [OF 1(2), of w2] 2(2) by simp
    show ?thesis
    proof (cases "p2 = 0")
      case True
      then have "as_prepare_load as w = Some (ENOMEM, ?w2)" using 1(1,3) 2(1,3) p1 assms(2-5)
        by (simp add: as_prepare_load_def Let_def)
      then show ?thesis using g2
        by (intro exI [of _ ENOMEM] exI [of _ ?w2] exI [of _ p1] exI [of _ p2] exI [of _ 0]) (simp add: zero(2) [symmetric])
    next
      case p2: False
      have "cm_inv ?w2" using g2 by (simp add: cm_grown_def)
      then obtain p3 w3 where 3: "cm_getppages (sint DUMBVM_STACKPAGES) ?w2 = Some (p3, w3)" "cm_grown ?w2 w3"
        "spaces w3 = spaces ?w2" "p3 \<noteq> 0 \<Longrightarrow> prepared ?w2 w3 p3 (unat DUMBVM_STACKPAGES)"
        using getppages_prepared [of ?w2 DUMBVM_STACKPAGES] by (auto simp: DUMBVM_STACKPAGES_def)
      let ?w3 = "w3\<lparr>spaces := (spaces w)(as \<mapsto> a\<lparr>as_pbase1 := p1, as_pbase2 := p2, as_stackpbase := p3\<rparr>)\<rparr>"
      have g3: "cm_grown w ?w3" "cm_grown w1 w3" "cm_grown w2 w3"
        using cm_grown_trans [OF g2] cm_grown_trans [of w1 w2 w3] 2(2) 3(2) by simp_all
      have run: "as_prepare_load as w = Some (if p3 = 0 then ENOMEM else 0, ?w3)"
        using 1(1,3) 2(1,3) 3(1,3) p1 p2 assms(2-5) by (simp add: as_prepare_load_def Let_def)
      have r1: "prepared w w1 p1 (unat (as_npages1 a))" using 1(4) p1 by simp
      have r2: "prepared w1 w2 p2 (unat (as_npages2 a))" using 2(4) p2 by simp
      have "p1 \<noteq> p2" using r1 r2 by (auto simp: prepared_def)
      moreover have "prepared w ?w3 p1 (unat (as_npages1 a))" "prepared w ?w3 p2 (unat (as_npages2 a))"
        using prepared_later [OF r1 g3(2)] prepared_earlier [OF 1(2) prepared_later [OF r2 g3(3)]] by simp_all
      moreover have "p1 \<noteq> p3 \<and> p2 \<noteq> p3 \<and> prepared w ?w3 p3 (unat DUMBVM_STACKPAGES)" if "p3 \<noteq> 0"
      proof -
        have r3: "prepared w2 w3 p3 (unat DUMBVM_STACKPAGES)" using 3(4) that by simp
        moreover have "owns w2 p1 (unat (as_npages1 a))" "owns w2 p2 (unat (as_npages2 a))"
          using r1 r2 2(2) by (auto simp: prepared_def cm_grown_def)
        ultimately show ?thesis using prepared_earlier [OF g2, of w3] by (auto simp: prepared_def [of w2])
      qed
      ultimately show ?thesis using run g3(1) p1 p2
        by (intro exI [of _ "if p3 = 0 then ENOMEM else 0"] exI [of _ ?w3] exI [of _ p1] exI [of _ p2] exI [of _ p3]) auto
    qed
  qed
qed

lemma unat_kseg0: "unat p + n \<le> 2147483648 \<Longrightarrow> unat (PADDR_TO_KVADDR p) + n \<le> 4294967296"
proof -
  assume h: "unat p + n \<le> 2147483648"
  show "unat (PADDR_TO_KVADDR p) + n \<le> 4294967296"
  proof (cases "unat p = 2147483648")
    case True
    then have "unat (PADDR_TO_KVADDR p) = 0" by (simp add: PADDR_TO_KVADDR_def MIPS_KSEG0_def unat_word_ariths)
    then show ?thesis using h by simp
  next
    case False
    then have "unat (PADDR_TO_KVADDR p) = unat p + 2147483648"
      using h by (simp add: PADDR_TO_KVADDR_def MIPS_KSEG0_def unat_plus_ok)
    then show ?thesis using h by simp
  qed
qed

lemma phys_memmove_unat:
  assumes "unat dst + unat n \<le> 2147483648" "unat src + unat n \<le> 2147483648"
  shows "phys_memmove dst src n m x =
    (if unat dst \<le> unat x \<and> unat x < unat dst + unat n then m (src + (x - dst)) else m x)"
proof -
  have "unat (x - dst) < unat n \<longleftrightarrow> unat dst \<le> unat x \<and> unat x < unat dst + unat n"
    using assms(1) unat_less_32 [of x] unat_less_32 [of dst] by (auto simp: unat_sub_if')
  then show ?thesis
    using memmove_moved [OF unat_kseg0 [OF assms(1)] unat_kseg0 [OF assms(2)]]
    by (simp add: phys_memmove_def moved_def PADDR_TO_KVADDR_def KVADDR_TO_PADDR_def)
qed

text \<open>The byte a program sees at a virtual address.\<close>

definition content :: "vmem \<Rightarrow> addrspace \<Rightarrow> 32 word \<Rightarrow> 8 word option" where
  "content w a v = map_option (pmem w) (as_translate a v)"

text \<open>
  One copy: the target block receives the source block, every byte outside the target stays.
\<close>

lemma copy_block:
  assumes "region_ok (508 * 1024 * 1024) q n" "region_ok (508 * 1024 * 1024) p n" "region_ok (2 ^ 31) vb n"
  shows "in_region vb n v \<Longrightarrow> unat (v - vb + q) \<in> bytes q (unat n)"
    "in_region vb n v \<Longrightarrow> phys_memmove q p (n * PAGE_SIZE) m (v - vb + q) = m (v - vb + p)"
    "unat x \<notin> bytes q (unat n) \<Longrightarrow> phys_memmove q p (n * PAGE_SIZE) m x = m x"
proof -
  have n: "unat (n * PAGE_SIZE) = unat n * 4096" "unat q + unat n * 4096 \<le> 2147483648"
    "unat p + unat n * 4096 \<le> 2147483648"
    using assms(1,2) unat_times_page [of n] by (auto simp: region_ok_def)
  note mm = phys_memmove_unat [of q "n * PAGE_SIZE" p, unfolded n(1), OF n(2,3)]
  show "phys_memmove q p (n * PAGE_SIZE) m x = m x" if "unat x \<notin> bytes q (unat n)"
    using that by (auto simp: mm bytes_def)
  assume v: "in_region vb n v"
  have "unat (v - vb) < unat n * 4096" using v in_region_unat [OF assms(3)] by (auto simp: unat_minus_ok word_le_nat_alt)
  moreover from this have "unat (v - vb + q) = unat (v - vb) + unat q"
    using n(2) by (intro unat_plus_ok) simp
  ultimately show b: "unat (v - vb + q) \<in> bytes q (unat n)" by (simp add: bytes_def)
  then show "phys_memmove q p (n * PAGE_SIZE) m (v - vb + q) = m (v - vb + p)"
    by (simp add: mm bytes_def add.commute)
qed

lemma owns_region_ok:
  assumes "cm_inv w" "owns w p (unat n)"
  shows "region_ok (508 * 1024 * 1024) p n"
  using owns_region [OF assms] assms(2) by (auto simp: region_ok_def owns_def)

text \<open>The three copies of \<open>as_copy\<close>, when the six blocks are blocks of the coremap.\<close>

lemma copied_contents:
  assumes "cm_inv w" "as_ok a" "as_backed w a"
    and new: "owns w q1 (unat (as_npages1 a))" "owns w q2 (unat (as_npages2 a))" "owns w q3 (unat DUMBVM_STACKPAGES)"
    and fresh: "\<And>p n. p \<in> {as_pbase1 a, as_pbase2 a, as_stackpbase a} \<Longrightarrow> p \<notin> {q1, q2, q3}"
    and dist: "q1 \<noteq> q2" "q1 \<noteq> q3" "q2 \<noteq> q3"
  defines "m' \<equiv> phys_memmove q3 (as_stackpbase a) (DUMBVM_STACKPAGES * PAGE_SIZE)
    (phys_memmove q2 (as_pbase2 a) (as_npages2 a * PAGE_SIZE)
      (phys_memmove q1 (as_pbase1 a) (as_npages1 a * PAGE_SIZE) (pmem w)))"
  shows "content (w\<lparr>pmem := m'\<rparr>) (a\<lparr>as_pbase1 := q1, as_pbase2 := q2, as_stackpbase := q3\<rparr>) v = content w a v"
    "unat x \<notin> bytes q1 (unat (as_npages1 a)) \<Longrightarrow> unat x \<notin> bytes q2 (unat (as_npages2 a)) \<Longrightarrow>
       unat x \<notin> bytes q3 (unat DUMBVM_STACKPAGES) \<Longrightarrow> m' x = pmem w x"
proof -
  note ok = as_ok_regions [OF assms(2)]
  have old: "owns w (as_pbase1 a) (unat (as_npages1 a))" "owns w (as_pbase2 a) (unat (as_npages2 a))"
    "owns w (as_stackpbase a) (unat DUMBVM_STACKPAGES)" using assms(3) by (auto simp: as_backed_def)
  note q = owns_region_ok [OF assms(1) new(1)] owns_region_ok [OF assms(1) new(2)] owns_region_ok [OF assms(1) new(3)]
  note c1 = copy_block [OF q(1) ok(3) ok(1)] and c2 = copy_block [OF q(2) ok(4) ok(2)]
    and c3 = copy_block [OF q(3) ok(5) stack_region_ok]
  note d = owns_disjoint [OF assms(1) new(1) new(2) dist(1)] owns_disjoint [OF assms(1) new(1) new(3) dist(2)]
    owns_disjoint [OF assms(1) new(2) new(3) dist(3)]
  have ne: "as_pbase2 a \<noteq> q1" "as_stackpbase a \<noteq> q1" "as_stackpbase a \<noteq> q2" using fresh by blast+
  note e = owns_disjoint [OF assms(1) old(2) new(1) ne(1)] owns_disjoint [OF assms(1) old(3) new(1) ne(2)]
    owns_disjoint [OF assms(1) old(3) new(2) ne(3)]
  note o2 = copy_block(1) [OF ok(4) ok(4) ok(2)] and o3 = copy_block(1) [OF ok(5) ok(5) stack_region_ok]
  show "m' x = pmem w x" if "unat x \<notin> bytes q1 (unat (as_npages1 a))" "unat x \<notin> bytes q2 (unat (as_npages2 a))"
    "unat x \<notin> bytes q3 (unat DUMBVM_STACKPAGES)"
    using that by (simp add: m'_def c1(3) c2(3) c3(3))
  have 1: "m' (v - as_vbase1 a + q1) = pmem w (v - as_vbase1 a + as_pbase1 a)"
    if i: "in_region (as_vbase1 a) (as_npages1 a) v"
  proof -
    have "unat (v - as_vbase1 a + q1) \<notin> bytes q2 (unat (as_npages2 a))"
      "unat (v - as_vbase1 a + q1) \<notin> bytes q3 (unat DUMBVM_STACKPAGES)" using c1(1) [OF i] d(1,2) by blast+
    then show ?thesis by (simp add: m'_def c2(3) c3(3) c1(2) [OF i])
  qed
  have 2: "m' (v - as_vbase2 a + q2) = pmem w (v - as_vbase2 a + as_pbase2 a)"
    if i: "in_region (as_vbase2 a) (as_npages2 a) v"
  proof -
    have "unat (v - as_vbase2 a + q2) \<notin> bytes q3 (unat DUMBVM_STACKPAGES)"
      "unat (v - as_vbase2 a + as_pbase2 a) \<notin> bytes q1 (unat (as_npages1 a))" using c2(1) [OF i] o2 [OF i] d(3) e(1) by blast+
    then show ?thesis by (simp add: m'_def c3(3) c2(2) [OF i] c1(3))
  qed
  have 3: "m' (v - STACKBASE + q3) = pmem w (v - STACKBASE + as_stackpbase a)"
    if i: "in_region STACKBASE DUMBVM_STACKPAGES v"
  proof -
    have "unat (v - STACKBASE + as_stackpbase a) \<notin> bytes q1 (unat (as_npages1 a))"
      "unat (v - STACKBASE + as_stackpbase a) \<notin> bytes q2 (unat (as_npages2 a))" using o3 [OF i] e(2,3) by blast+
    then show ?thesis by (simp add: m'_def c3(2) [OF i] c1(3) c2(3))
  qed
  show "content (w\<lparr>pmem := m'\<rparr>) (a\<lparr>as_pbase1 := q1, as_pbase2 := q2, as_stackpbase := q3\<rparr>) v = content w a v"
    using 1 2 3 by (simp add: content_def as_translate_def)
qed

text \<open>A byte of a frame that is in use.\<close>

definition used_byte :: "vmem \<Rightarrow> 32 word \<Rightarrow> bool" where
  "used_byte w x \<longleftrightarrow> (\<exists>i < cm_end w. \<not> cm_flags w ! i \<and> unat (freepaddr w) + i * 4096 \<le> unat x \<and>
     unat x < unat (freepaddr w) + Suc i * 4096)"

lemma as_copy_result:
  assumes "cm_inv w" "spaces w old = Some a" "as_ok a" "as_backed w a" "p \<noteq> 0" "spaces w p = None"
  shows "\<exists>r q w'. as_copy p old w = Some (r, q, w') \<and> cm_inv w' \<and>
    (if r = 0 then q = p \<and> (\<exists>a'. spaces w' = (spaces w)(p \<mapsto> a') \<and> as_ok a' \<and> as_backed w' a' \<and>
         (\<forall>v. content w' a' v = content w a v)) \<and> (\<forall>x. used_byte w x \<longrightarrow> pmem w' x = pmem w x)
     else r = ENOMEM \<and> q = 0 \<and> spaces w' = spaces w \<and> pmem w' = pmem w)"
proof -
  note ok = as_ok_regions [OF assms(3)]
  have po: "p \<noteq> old" using assms(2,6) by auto
  define a0 where "a0 = a\<lparr>as_pbase1 := 0, as_pbase2 := 0, as_stackpbase := 0\<rparr>"
  define w2 where "w2 = w\<lparr>spaces := (spaces w)(p \<mapsto> a0)\<rparr>"
  have a0: "as_npages1 a0 = as_npages1 a" "as_npages2 a0 = as_npages2 a" by (simp_all add: a0_def)
  have n: "0 < unat (as_npages1 a0)" "unat (as_npages1 a0) < 2 ^ 31" "0 < unat (as_npages2 a0)" "unat (as_npages2 a0) < 2 ^ 31"
    using ok by (auto simp: a0 region_ok_def unat_eq_zero intro!: Nat.gr0I)
  have "cm_inv w2" "spaces w2 p = Some a0" "as_pbase1 a0 = 0" "as_pbase2 a0 = 0" "as_stackpbase a0 = 0"
    using assms(1) by (simp_all add: w2_def a0_def)
  from as_prepare_load_result [OF this n] obtain r w3 p1 p2 p3 where
    l: "as_prepare_load p w2 = Some (r, w3)" "cm_grown w2 w3"
    "spaces w3 = (spaces w2)(p \<mapsto> a0\<lparr>as_pbase1 := p1, as_pbase2 := p2, as_stackpbase := p3\<rparr>)"
    "r = ENOMEM \<or> (r = 0 \<and> p1 \<noteq> 0 \<and> p2 \<noteq> 0 \<and> p3 \<noteq> 0 \<and> p1 \<noteq> p2 \<and> p1 \<noteq> p3 \<and> p2 \<noteq> p3 \<and>
       prepared w2 w3 p1 (unat (as_npages1 a0)) \<and> prepared w2 w3 p2 (unat (as_npages2 a0)) \<and>
       prepared w2 w3 p3 (unat DUMBVM_STACKPAGES))"
    by blast
  let ?a' = "a0\<lparr>as_pbase1 := p1, as_pbase2 := p2, as_stackpbase := p3\<rparr>"
  have a': "?a' = a\<lparr>as_pbase1 := p1, as_pbase2 := p2, as_stackpbase := p3\<rparr>" by (simp add: a0_def)
  have g: "cm_grown w w3" using l(2) by (simp add: w2_def)
  have sp: "spaces w3 = (spaces w)(p \<mapsto> ?a')" using l(3) by (simp add: w2_def)
  have init: "\<lparr>as_vbase1 = as_vbase1 a, as_pbase1 = 0, as_npages1 = as_npages1 a, as_vbase2 = as_vbase2 a,
      as_pbase2 = 0, as_npages2 = as_npages2 a, as_stackpbase = 0\<rparr> = a0"
    by (cases a) (simp add: a0_def)
  show ?thesis
  proof (cases "r = 0")
    case False
    have "as_copy p old w = Some (ENOMEM, 0, w3\<lparr>spaces := spaces w\<rparr>)"
      using assms(2,5,6) po l(1) sp False
      by (simp add: as_copy_def as_create_def Let_def init w2_def [symmetric] as_destroy_def fun_upd_idem)
    then show ?thesis using g by (simp add: cm_grown_def)
  next
    case True
    then have pr: "prepared w w3 p1 (unat (as_npages1 a))" "prepared w w3 p2 (unat (as_npages2 a))"
      "prepared w w3 p3 (unat DUMBVM_STACKPAGES)" "p1 \<noteq> p2" "p1 \<noteq> p3" "p2 \<noteq> p3" "p1 \<noteq> 0" "p2 \<noteq> 0" "p3 \<noteq> 0"
      using l(4) by (auto simp: w2_def a0)
    have inv: "cm_inv w3" "as_backed w3 a" "pmem w3 = pmem w"
      using g assms(4) by (auto simp: cm_grown_def as_backed_def)
    have new: "owns w3 p1 (unat (as_npages1 a))" "owns w3 p2 (unat (as_npages2 a))" "owns w3 p3 (unat DUMBVM_STACKPAGES)"
      using pr by (auto simp: prepared_def)
    have fresh: "x \<notin> {p1, p2, p3}" if "x \<in> {as_pbase1 a, as_pbase2 a, as_stackpbase a}" for x
      using that pr(1-3) assms(4) by (auto simp: prepared_def as_backed_def)
    define m' where "m' = phys_memmove p3 (as_stackpbase a) (DUMBVM_STACKPAGES * PAGE_SIZE)
      (phys_memmove p2 (as_pbase2 a) (as_npages2 a * PAGE_SIZE)
        (phys_memmove p1 (as_pbase1 a) (as_npages1 a * PAGE_SIZE) (pmem w3)))"
    note cc = copied_contents [OF inv(1) assms(3) inv(2) new fresh pr(4-6), folded m'_def a']
    have run: "as_copy p old w = Some (0, p, w3\<lparr>pmem := m'\<rparr>)"
      using assms(2,5,6) po l(1) sp True pr(7-9)
      by (simp add: as_copy_def as_create_def Let_def init w2_def [symmetric] m'_def)
    have "as_ok ?a'" using assms(3) owns_region_ok [OF inv(1) new(1)] owns_region_ok [OF inv(1) new(2)]
        owns_region_ok [OF inv(1) new(3)] by (simp add: as_ok_def a0_def)
    moreover have "as_backed (w3\<lparr>pmem := m'\<rparr>) ?a'" using new by (simp add: as_backed_def a0)
    moreover have "content (w3\<lparr>pmem := m'\<rparr>) ?a' v = content w a v" for v
      using cc(1) [of v] inv(3) by (simp add: content_def)
    moreover have "m' x = pmem w x" if "used_byte w x" for x
      using that cc(2) [of x] pr(1-3) inv(3) by (auto simp: prepared_def used_byte_def)
    ultimately show ?thesis using run inv(1) sp by auto
  qed
qed

lemma page_rest: "unat (v AND NOT PAGE_FRAME) = unat v mod 4096"
proof -
  have "unat (v AND PAGE_FRAME) + unat (v AND NOT PAGE_FRAME) = unat v \<or>
      unat (v AND PAGE_FRAME) + unat (v AND NOT PAGE_FRAME) = unat v + 4294967296"
    using arg_cong [OF page_offset [of v], of unat] unat_less_32 [of "v AND PAGE_FRAME"] unat_less_32 [of "v AND NOT PAGE_FRAME"]
    by (auto simp: unat_word_ariths mod_if split: if_splits)
  moreover have "v AND NOT PAGE_FRAME \<le> 0xfff"
  proof -
    have "NOT PAGE_FRAME = (0xfff :: 32 word)" by code_simp
    then show ?thesis by (simp add: word_and_le1)
  qed
  then have "unat (v AND NOT PAGE_FRAME) \<le> 4095" by (simp add: word_le_nat_alt)
  ultimately show ?thesis unfolding frame_unat using unat_less_32 [of v] by (auto simp: minus_div_mult_eq_mod [symmetric])
qed

lemma define_region_pages:
  assumes "unat v + unat sz \<le> 2 ^ 31"
  shows "unat (((sz + (v AND NOT PAGE_FRAME) + PAGE_SIZE - 1) AND PAGE_FRAME) div PAGE_SIZE) =
    (unat sz + unat v mod 4096 + 4095) div 4096"
proof -
  have m: "unat v mod 4096 < 4096" by simp
  have e: "sz + (v AND NOT PAGE_FRAME) + PAGE_SIZE - 1 = sz + (v AND NOT PAGE_FRAME) + 4095" by (simp add: PAGE_SIZE_def)
  have "unat (sz + (v AND NOT PAGE_FRAME)) = unat sz + unat v mod 4096"
    using assms m by (subst unat_plus_ok) (simp_all add: page_rest)
  then have "unat (sz + (v AND NOT PAGE_FRAME) + 4095) = unat sz + unat v mod 4096 + 4095"
    using assms m by (subst unat_plus_ok) simp_all
  then show ?thesis by (simp add: e unat_div frame_unat)
qed

text \<open>A machine with 96 pages and one process with a code and a data segment.\<close>

definition sample_proc :: vmem where
  "sample_proc = the (do {
     w0 \<leftarrow> cm_bootstrap (sample_ram\<lparr>lastpaddr := 0x60000\<rparr>);
     let (as, w1) = as_create 1 w0;
     (r2, w2) \<leftarrow> as_define_region as 0x400000 100 w1;
     (r3, w3) \<leftarrow> as_define_region as 0x10000123 5000 w2;
     Some w3
   })"

definition sample_vm :: vmem where
  "sample_vm = snd (the (as_prepare_load 1 sample_proc))"

definition sample_space :: addrspace where
  "sample_space = the (spaces sample_vm 1)"

lemma sample_proc_inv: "cm_inv sample_proc"
proof -
  define w0 where "w0 = the (cm_bootstrap (sample_ram\<lparr>lastpaddr := 0x60000\<rparr>))"
  have "cm_bootstrap (sample_ram\<lparr>lastpaddr := 0x60000\<rparr>) \<noteq> None" by code_simp
  then have w0: "cm_bootstrap (sample_ram\<lparr>lastpaddr := 0x60000\<rparr>) = Some w0" by (simp add: w0_def)
  then have "cm_inv w0" by (rule cm_bootstrap_result(1)) (simp_all add: sample_ram_def)
  then show ?thesis using w0 by (simp add: sample_proc_def as_create_def as_define_region_def Let_def)
qed

lemma sample_proc_values:
  "spaces sample_proc = [1 \<mapsto> \<lparr>as_vbase1 = 0x400000, as_pbase1 = 0, as_npages1 = 1, as_vbase2 = 0x10000000,
     as_pbase2 = 0, as_npages2 = 2, as_stackpbase = 0\<rparr>]" "tlb sample_proc = replicate NUM_TLB (0, 0)"
proof -
  define w0 where "w0 = the (cm_bootstrap (sample_ram\<lparr>lastpaddr := 0x60000\<rparr>))"
  have "cm_bootstrap (sample_ram\<lparr>lastpaddr := 0x60000\<rparr>) \<noteq> None" by code_simp
  then have w0: "cm_bootstrap (sample_ram\<lparr>lastpaddr := 0x60000\<rparr>) = Some w0" by (simp add: w0_def)
  then have "spaces w0 = Map.empty" "tlb w0 = replicate NUM_TLB (0, 0)"
    by (auto simp: cm_bootstrap_def ram_getsize_def Let_def sample_ram_def NUM_TLB_def)
  then show "spaces sample_proc = [1 \<mapsto> \<lparr>as_vbase1 = 0x400000, as_pbase1 = 0, as_npages1 = 1, as_vbase2 = 0x10000000,
      as_pbase2 = 0, as_npages2 = 2, as_stackpbase = 0\<rparr>]" "tlb sample_proc = replicate NUM_TLB (0, 0)"
    using w0 by (simp_all add: sample_proc_def as_create_def as_define_region_def Let_def PAGE_FRAME_def PAGE_SIZE_def)
qed

lemma sample_vm_values:
  "spaces sample_vm 1 = Some sample_space" "spaces sample_vm 2 = None" "tlb sample_vm = replicate NUM_TLB (0, 0)"
  "as_vbase1 sample_space = 0x400000" "as_npages1 sample_space = 1" "as_vbase2 sample_space = 0x10000000"
  "as_npages2 sample_space = 2"
  and sample_vm_ok: "cm_inv sample_vm" "as_ok sample_space" "as_backed sample_vm sample_space"
proof -
  define a where "a = the (spaces sample_proc 1)"
  have h: "spaces sample_proc 1 = Some a" "as_pbase1 a = 0" "as_pbase2 a = 0" "as_stackpbase a = 0"
    "0 < unat (as_npages1 a)" "unat (as_npages1 a) < 2 ^ 31" "0 < unat (as_npages2 a)" "unat (as_npages2 a) < 2 ^ 31"
    by (simp_all add: sample_proc_values a_def)
  from as_prepare_load_result [OF sample_proc_inv h] obtain r w' p1 p2 p3 where
    l: "as_prepare_load 1 sample_proc = Some (r, w')" "cm_grown sample_proc w'"
      "spaces w' = (spaces sample_proc)(1 \<mapsto> a\<lparr>as_pbase1 := p1, as_pbase2 := p2, as_stackpbase := p3\<rparr>)"
      "r = ENOMEM \<or> (r = 0 \<and> p1 \<noteq> 0 \<and> p2 \<noteq> 0 \<and> p3 \<noteq> 0 \<and> p1 \<noteq> p2 \<and> p1 \<noteq> p3 \<and> p2 \<noteq> p3 \<and>
       prepared sample_proc w' p1 (unat (as_npages1 a)) \<and> prepared sample_proc w' p2 (unat (as_npages2 a)) \<and>
       prepared sample_proc w' p3 (unat DUMBVM_STACKPAGES))" by blast
  have "fst (the (as_prepare_load 1 sample_proc)) = 0" by code_simp
  then have r: "r = 0" using l(1) by simp
  have w': "w' = sample_vm" "sample_space = a\<lparr>as_pbase1 := p1, as_pbase2 := p2, as_stackpbase := p3\<rparr>"
    using l(1,3) by (simp_all add: sample_vm_def sample_space_def)
  show v: "spaces sample_vm 1 = Some sample_space" "spaces sample_vm 2 = None" "tlb sample_vm = replicate NUM_TLB (0, 0)"
    "as_vbase1 sample_space = 0x400000" "as_npages1 sample_space = 1" "as_vbase2 sample_space = 0x10000000"
    "as_npages2 sample_space = 2"
    using l(2,3) unfolding w'(1) by (simp_all add: w'(2) sample_proc_values cm_grown_def a_def)
  show inv: "cm_inv sample_vm" using l(2) by (simp add: cm_grown_def w'(1))
  show b: "as_backed sample_vm sample_space" using l(4) r by (simp add: as_backed_def prepared_def w')
  then show "as_ok sample_space"
    using owns_region_ok [OF inv] v(4-7) by (simp add: as_ok_def as_backed_def) (simp add: region_ok_def)
qed

text \<open>The kernel in which thread 1 runs this process.\<close>

definition sample_user :: "vmem kstate" where
  "sample_user = (quiet sample_vm)\<lparr>curthread := 1, threads := [1 \<mapsto> \<lparr>t_pcb = md_initpcb0 (quiet sample_vm), t_name = ''p'',
     t_sleepaddr = 0, t_stack = NULL, t_vmspace = 1, t_cwd = 0, t_pid = 1\<rparr>]\<rparr>"

text \<open>A read or write fault in a thread with an address space.\<close>

lemma vm_fault_mapped:
  fixes s :: "vmem kstate"
  assumes "threads s (curthread s) = Some th" "t_vmspace th \<noteq> 0" "spaces (world s) (t_vmspace th) = Some a"
    "as_ok a" "tlb_ok a (tlb (world s))" "ft = VM_FAULT_READ \<or> ft = VM_FAULT_WRITE"
  shows "\<exists>r s'. vm_fault ft v s = Some (r, s') \<and> curspl s' = curspl s \<and> tlb_ok a (tlb (world s')) \<and>
    (if as_translate a v \<noteq> None \<and> (\<exists>(hi, lo) \<in> set (tlb (world s)). lo AND TLBLO_VALID = 0)
     then r = 0 \<and> (\<exists>(hi, lo) \<in> set (tlb (world s')). hi = v AND PAGE_FRAME \<and> lo AND TLBLO_VALID \<noteq> 0)
     else r = EFAULT \<and> world s' = world s)"
proof -
  have len: "length (tlb (world s)) = NUM_TLB" using assms(5) by (simp add: tlb_ok_def)
  note eq = vm_fault_eq [OF assms(1-4) len assms(6), of v]
  obtain slot where slot: "tlb_free_slot NUM_TLB 0 (world s) = Some slot"
    "case slot of None \<Rightarrow> \<forall>j. 0 \<le> j \<and> j < 0 + NUM_TLB \<longrightarrow> snd (tlb (world s) ! j) AND TLBLO_VALID \<noteq> 0
     | Some j \<Rightarrow> 0 \<le> j \<and> j < 0 + NUM_TLB \<and> snd (tlb (world s) ! j) AND TLBLO_VALID = 0"
    using tlb_free_slot_result [of 0 NUM_TLB "world s"] len by auto
  have free: "(\<exists>(hi, lo) \<in> set (tlb (world s)). lo AND TLBLO_VALID = 0) \<longleftrightarrow> slot \<noteq> None"
  proof -
    have "(\<exists>(hi, lo) \<in> set (tlb (world s)). lo AND TLBLO_VALID = 0) \<longleftrightarrow>
        (\<exists>j < NUM_TLB. snd (tlb (world s) ! j) AND TLBLO_VALID = 0)"
      unfolding split_beta Bex_def in_set_conv_nth len by metis
    then show ?thesis using slot(2) by (auto split: option.splits)
  qed
  have tr: "as_translate a v \<noteq> None \<longleftrightarrow> as_translate a (v AND PAGE_FRAME) \<noteq> None"
    using translate_page [OF assms(4), of v] by simp
  show ?thesis
  proof (cases "as_translate a (v AND PAGE_FRAME)")
    case None
    then show ?thesis using eq tr assms(5) by (simp add: Let_def)
  next
    case p: (Some p)
    show ?thesis
    proof (cases slot)
      case None
      then show ?thesis using eq p slot free assms(5) by (simp add: Let_def)
    next
      case (Some i)
      then have i: "i < NUM_TLB" using slot(2) by simp
      let ?e = "(v AND PAGE_FRAME, p OR TLBLO_DIRTY OR TLBLO_VALID)"
      have "?e \<in> set ((tlb (world s))[i := ?e])" using i len by (metis set_update_memI)
      moreover note entry_lo(2) [OF translate_aligned [OF assms(4) p]]
      moreover note tlb_ok_write [OF assms(4,5) i p]
      ultimately show ?thesis using eq p slot(1) Some free tr by (auto simp: Let_def)
    qed
  qed
qed

subsection \<open>Properties\<close>

text \<open>
  C29: What \<open>vm_fault\<close> does on any fault of a thread whose address space, if it has one, is well formed.
  The fault type for read-only pages panics, an unknown type returns EINVAL and changes nothing.
  On a read or write fault with an address space it returns with the interrupt level restored. It
  returns 0 exactly when the address is mapped by the address space and some TLB entry is invalid;
  then the TLB has a valid entry for the page, and all valid entries still translate every byte the
  way the address space does. Otherwise it returns EFAULT and changes nothing. Without an address
  space it returns EFAULT and leaves the interrupts off, whatever their level was.
\<close>

theorem vm_fault_translates:
  fixes s :: "vmem kstate"
  assumes "threads s (curthread s) = Some th"
    "t_vmspace th \<noteq> 0 \<longrightarrow> spaces (world s) (t_vmspace th) = Some a \<and> as_ok a \<and> tlb_ok a (tlb (world s))"
  shows "if ft = VM_FAULT_READONLY then vm_fault ft v s = None
    else if ft \<noteq> VM_FAULT_READ \<and> ft \<noteq> VM_FAULT_WRITE
    then \<exists>s'. vm_fault ft v s = Some (EINVAL, s') \<and> curspl s' = curspl s \<and> world s' = world s
    else if t_vmspace th = 0
    then \<exists>s'. vm_fault ft v s = Some (EFAULT, s') \<and> curspl s' = SPL_HIGH \<and> world s' = world s
    else \<exists>r s'. vm_fault ft v s = Some (r, s') \<and> curspl s' = curspl s \<and> tlb_ok a (tlb (world s')) \<and>
      (if as_translate a v \<noteq> None \<and> (\<exists>(hi, lo) \<in> set (tlb (world s)). lo AND TLBLO_VALID = 0)
       then r = 0 \<and> (\<exists>(hi, lo) \<in> set (tlb (world s')). hi = v AND PAGE_FRAME \<and> lo AND TLBLO_VALID \<noteq> 0)
       else r = EFAULT \<and> world s' = world s)"
proof (cases "(ft = VM_FAULT_READ \<or> ft = VM_FAULT_WRITE) \<and> t_vmspace th \<noteq> 0")
  case True
  then have "ft \<noteq> VM_FAULT_READONLY" by (auto simp: VM_FAULT_READONLY_def VM_FAULT_READ_def VM_FAULT_WRITE_def)
  then show ?thesis using vm_fault_mapped [OF assms(1), of a ft v] assms(2) True by (simp, blast)
next
  case False
  then show ?thesis using assms(1) by (auto simp: vm_fault_def Let_def split_beta)
qed

theorem vm_fault_translates_witness:
  "(\<exists>s'. vm_fault VM_FAULT_READ 0x10001abc sample_user = Some (0, s') \<and> tlb_ok sample_space (tlb (world s'))) \<and>
   (\<exists>s'. vm_fault VM_FAULT_READ 0x20000000 sample_user = Some (EFAULT, s'))"
proof -
  have t: "as_translate sample_space 0x10001abc \<noteq> None" "as_translate sample_space 0x20000000 = None" by code_simp+
  have u: "threads sample_user (curthread sample_user) = Some (the (threads sample_user 1))"
    "t_vmspace (the (threads sample_user 1)) = 1" "world sample_user = sample_vm"
    by (simp_all add: sample_user_def quiet_def)
  have "spaces sample_vm 1 = Some sample_space \<and> as_ok sample_space \<and> tlb_ok sample_space (tlb sample_vm)"
    using sample_vm_ok(2) sample_vm_values(1,3) by (simp add: tlb_ok_def)
  then show ?thesis
    using vm_fault_translates [OF u(1), of sample_space VM_FAULT_READ "0x10001abc"]
      vm_fault_translates [OF u(1), of sample_space VM_FAULT_READ "0x20000000"] t u(2,3) sample_vm_values(3)
    by (auto simp: VM_FAULT_READONLY_def VM_FAULT_READ_def NUM_TLB_def)
qed

text \<open>
  Switching address spaces. After \<open>as_activate\<close> no TLB entry is valid, so the TLB is
  consistent with whatever address space becomes current, and the interrupt level is restored.
\<close>

lemma as_activate_flushes:
  assumes "length (tlb (world s)) = NUM_TLB"
  shows "\<exists>s'. as_activate as s = Some s' \<and> curspl s' = curspl s \<and> (\<forall>a. tlb_ok a (tlb (world s'))) \<and>
    (\<forall>i < NUM_TLB. snd (tlb (world s') ! i) AND TLBLO_VALID = 0) \<and> spaces (world s') = spaces (world s) \<and>
    pmem (world s') = pmem (world s)"
  using as_activate_result [OF assms, of as] tlb_ok_empty by fastforce

lemma as_activate_flushes_witness:
  "\<exists>s'. as_activate 0 (quiet sample_cm) = Some s' \<and> snd (tlb (world s') ! 5) AND TLBLO_VALID = 0"
proof -
  have "length (tlb sample_cm) = NUM_TLB" by code_simp
  then show ?thesis using as_activate_flushes [of "quiet sample_cm" 0] by (auto simp: quiet_def NUM_TLB_def)
qed

text \<open>
  C28: \<open>fork\<close> copies memory. \<open>as_copy\<close> of a well-formed address space either returns ENOMEM and
  leaves memory and all address spaces as they were, or returns a new address space in which a
  program reads, at every virtual address, the byte it reads at this address in the old one. No
  byte of a frame that was in use before changes, so no other process notices.
\<close>

theorem as_copy_same_contents:
  assumes "cm_inv w" "spaces w old = Some a" "as_ok a" "as_backed w a" "p \<noteq> 0" "spaces w p = None"
  shows "\<exists>r q w'. as_copy p old w = Some (r, q, w') \<and> cm_inv w' \<and>
    (if r = 0 then q = p \<and> (\<exists>a'. spaces w' = (spaces w)(p \<mapsto> a') \<and> as_ok a' \<and> as_backed w' a' \<and>
         (\<forall>v. content w' a' v = content w a v)) \<and> (\<forall>x. used_byte w x \<longrightarrow> pmem w' x = pmem w x)
     else r = ENOMEM \<and> q = 0 \<and> spaces w' = spaces w \<and> pmem w' = pmem w)"
  by (rule as_copy_result [OF assms])

theorem as_copy_same_contents_witness:
  "\<exists>w' a'. as_copy 2 1 sample_vm = Some (0, 2, w') \<and> spaces w' 2 = Some a' \<and> content w' a' 0x400042 = content sample_vm sample_space 0x400042"
proof -
  let ?w = "sample_vm\<lparr>spaces := (spaces sample_vm)(2 \<mapsto> \<lparr>as_vbase1 = 0x400000, as_pbase1 = 0, as_npages1 = 1,
    as_vbase2 = 0x10000000, as_pbase2 = 0, as_npages2 = 2, as_stackpbase = 0\<rparr>)\<rparr>"
  obtain r q w' where c: "as_copy 2 1 sample_vm = Some (r, q, w')"
    "if r = 0 then q = 2 \<and> (\<exists>a'. spaces w' = (spaces sample_vm)(2 \<mapsto> a') \<and> as_ok a' \<and> as_backed w' a' \<and>
         (\<forall>v. content w' a' v = content sample_vm sample_space v)) \<and>
         (\<forall>x. used_byte sample_vm x \<longrightarrow> pmem w' x = pmem sample_vm x)
     else r = ENOMEM \<and> q = 0 \<and> spaces w' = spaces sample_vm \<and> pmem w' = pmem sample_vm"
    using as_copy_same_contents [OF sample_vm_ok(1) sample_vm_values(1) sample_vm_ok(2,3), of 2] sample_vm_values(2) by auto
  have "fst (the (as_prepare_load 2 ?w)) = 0" by code_simp
  then have "r = 0"
    using c(1) sample_vm_values by (cases "as_prepare_load 2 ?w") (auto simp: as_copy_def as_create_def Let_def bind_eq_Some_conv)
  then show ?thesis using c by auto
qed

text \<open>
  \<open>as_define_region\<close> on a segment of user space records, in the first unused slot, the smallest
  run of whole pages that covers the segment: every byte of the segment lies in the run, which
  starts less than a page before it and ends less than a page after it. With both slots in use it
  returns EUNIMP and changes nothing.
\<close>

lemma as_define_region_covers:
  assumes "spaces w as = Some a" "unat v + unat sz \<le> 2 ^ 31"
  shows "\<exists>base n. unat base = unat v div 4096 * 4096 \<and>
    unat base + unat n * 4096 \<le> unat v + unat sz + 4095 \<and> unat v + unat sz \<le> unat base + unat n * 4096 \<and>
    as_define_region as v sz w =
      (if as_vbase1 a = 0 then Some (0, w\<lparr>spaces := (spaces w)(as \<mapsto> a\<lparr>as_vbase1 := base, as_npages1 := n\<rparr>)\<rparr>)
       else if as_vbase2 a = 0 then Some (0, w\<lparr>spaces := (spaces w)(as \<mapsto> a\<lparr>as_vbase2 := base, as_npages2 := n\<rparr>)\<rparr>)
       else Some (EUNIMP, w))"
proof -
  let ?base = "v AND PAGE_FRAME" and ?n = "((sz + (v AND NOT PAGE_FRAME) + PAGE_SIZE - 1) AND PAGE_FRAME) div PAGE_SIZE"
  let ?t = "unat sz + unat v mod 4096"
  have b: "unat ?base = unat v - unat v mod 4096" by (simp add: frame_unat minus_mod_eq_div_mult)
  have n: "unat ?n = (?t + 4095) div 4096" by (rule define_region_pages [OF assms(2)])
  have "(?t + 4095) div 4096 * 4096 \<le> ?t + 4095" "?t \<le> (?t + 4095) div 4096 * 4096"
    using dividend_less_div_times [of 4096 "?t + 4095"] by simp_all
  moreover have "unat v mod 4096 \<le> unat v" by simp
  ultimately have "unat ?base + unat ?n * 4096 \<le> unat v + unat sz + 4095" "unat v + unat sz \<le> unat ?base + unat ?n * 4096"
    unfolding b n by linarith+
  then show ?thesis using assms(1)
    by (intro exI [of _ ?base] exI [of _ ?n]) (simp add: as_define_region_def Let_def frame_unat)
qed

lemma as_define_region_covers_witness:
  "\<exists>base n. unat base = 0x400000 \<and>
    as_define_region 1 0x400123 5000 (snd (as_create 1 sample_cm)) = Some (0, (snd (as_create 1 sample_cm))\<lparr>spaces :=
      (spaces (snd (as_create 1 sample_cm)))(1 \<mapsto> (the (spaces (snd (as_create 1 sample_cm)) 1))\<lparr>as_vbase1 := base, as_npages1 := n\<rparr>)\<rparr>)"
  using as_define_region_covers [of "snd (as_create 1 sample_cm)" 1 "the (spaces (snd (as_create 1 sample_cm)) 1)" "0x400123" 5000]
  by (auto simp: as_create_def)

end
