(* ===== verification/L_Printf.thy ===== *)
theory L_Printf
  imports L_String
begin

section \<open>Formatted output and console input: \<^verbatim>\<open>lib/libc/__printf.c\<close>, \<^verbatim>\<open>snprintf.c\<close>, \<^verbatim>\<open>kern/lib/kgets.c\<close>\<close>

text \<open>
  The guts of \<open>printf\<close>. Strings that are only read (the format, string arguments, prefixes) are
  lists of characters without terminator. The argument list is a list of typed arguments; fetching an
  argument of another type than the one passed is undefined, and so is \<open>-n\<close> for the least \<open>int\<close>.
\<close>

type_synonym ctext = "8 word list"

datatype arg = IntArg "32 word" | StrArg "ctext nullable"

datatype intsize = INTSZ | LONGSZ

record 'c PF =
  sendfunc :: "'c \<Rightarrow> ctext \<Rightarrow> 'c option"
  clientdata :: 'c
  pf_ap :: "arg list"
  charcount :: int
  in_pct :: int
  pf_size :: intsize
  pf_num :: "32 word"
  pf_sign :: int
  spacing :: int
  rightspc :: int
  fillchar :: int
  pf_base :: int
  baseprefix :: int
  altformat :: int

definition pf_print :: "'c PF \<Rightarrow> ctext \<Rightarrow> 'c PF option" where
  "pf_print pf txt = do {
     d \<leftarrow> sendfunc pf (clientdata pf) txt;
     n \<leftarrow> cint (charcount pf + int (length txt));
     Some (pf\<lparr>clientdata := d, charcount := n\<rparr>)
   }"

definition pf_endfield :: "'c PF \<Rightarrow> 'c PF" where
  "pf_endfield pf = pf\<lparr>in_pct := 0, pf_size := INTSZ, pf_num := 0, pf_sign := 0, spacing := 0, rightspc := 0,
     fillchar := 32, pf_base := 0, baseprefix := 0, altformat := 0\<rparr>"

definition pf_modifier :: "'c PF \<Rightarrow> int \<Rightarrow> 'c PF option" where
  "pf_modifier pf ch =
     (if ch = 35 then Some (pf\<lparr>altformat := 1\<rparr>)
      else if ch = 45 then Some (pf\<lparr>rightspc := 1\<rparr>)
      else if ch = 108 then Some (if pf_size pf = LONGSZ then pf else pf\<lparr>pf_size := LONGSZ\<rparr>)
      else if ch = 113 then Some (pf\<lparr>pf_size := LONGSZ\<rparr>)
      else if ch = 48 then
        (if spacing pf > 0 then do { n \<leftarrow> cint (spacing pf * 10); Some (pf\<lparr>spacing := n\<rparr>) }
         else Some (pf\<lparr>fillchar := 48\<rparr>))
      else do {
        kassert (ch > 48 \<and> ch \<le> 57);
        n \<leftarrow> cint (spacing pf * 10);
        n1 \<leftarrow> cint (n + (ch - 48));
        Some (pf\<lparr>spacing := n1\<rparr>)
      })"

definition va_int :: "'c PF \<Rightarrow> (32 word \<times> 'c PF) option" where
  "va_int pf = (case pf_ap pf of IntArg w # ap \<Rightarrow> Some (w, pf\<lparr>pf_ap := ap\<rparr>) | _ \<Rightarrow> None)"

definition va_str :: "'c PF \<Rightarrow> (ctext nullable \<times> 'c PF) option" where
  "va_str pf = (case pf_ap pf of StrArg t # ap \<Rightarrow> Some (t, pf\<lparr>pf_ap := ap\<rparr>) | _ \<Rightarrow> None)"

text \<open>\<open>int\<close>, \<open>long\<close> and pointers have 32 bits, so the size flag selects between equal types.\<close>

definition pf_getnum :: "'c PF \<Rightarrow> int \<Rightarrow> 'c PF option" where
  "pf_getnum pf ch =
     (if ch = 112 then do { (w, pf1) \<leftarrow> va_int pf; Some (pf1\<lparr>pf_num := w\<rparr>) }
      else if ch = 100 then do {
        (w, pf1) \<leftarrow> va_int pf;
        let signednum = sint w;
        if signednum < 0 then do {
          n \<leftarrow> cint (- signednum);
          Some (pf1\<lparr>pf_sign := -1, pf_num := word_of_int n\<rparr>)
        }
        else Some (pf1\<lparr>pf_num := word_of_int signednum\<rparr>)
      }
      else do { (w, pf1) \<leftarrow> va_int pf; Some (pf1\<lparr>pf_num := w\<rparr>) })"

definition pf_setbase :: "'c PF \<Rightarrow> int \<Rightarrow> 'c PF" where
  "pf_setbase pf ch = (
     let pf1 = (if ch = 100 \<or> ch = 117 then pf\<lparr>pf_base := 10\<rparr>
                else if ch = 120 \<or> ch = 112 then pf\<lparr>pf_base := 16\<rparr>
                else if ch = 111 then pf\<lparr>pf_base := 8\<rparr> else pf)
     in if altformat pf1 \<noteq> 0 \<or> ch = 112 then pf1\<lparr>baseprefix := 1\<rparr> else pf1)"

primrec pf_fill_loop :: "nat \<Rightarrow> 8 word \<Rightarrow> 'c PF \<Rightarrow> 'c PF option" where
  "pf_fill_loop 0 f pf = Some pf"
| "pf_fill_loop (Suc n) f pf = pf_print pf [f] \<bind> pf_fill_loop n f"

definition pf_fill :: "'c PF \<Rightarrow> int \<Rightarrow> 'c PF option" where
  "pf_fill pf spc = pf_fill_loop (nat spc) (word_of_int (fillchar pf)) pf"

definition pf_printstuff :: "'c PF \<Rightarrow> ctext \<Rightarrow> ctext \<Rightarrow> ctext \<Rightarrow> 'c PF option" where
  "pf_printstuff pf prefix prefix2 stuff = do {
     len \<leftarrow> cint (int (length prefix + length prefix2 + length stuff));
     let spc = (if spacing pf > len then spacing pf - len else 0);
     pf1 \<leftarrow> (if spc > 0 \<and> rightspc pf = 0 \<and> fillchar pf \<noteq> 48 then pf_fill pf spc else Some pf);
     pf2 \<leftarrow> pf_print pf1 prefix;
     pf3 \<leftarrow> pf_print pf2 prefix2;
     pf4 \<leftarrow> (if spc > 0 \<and> rightspc pf3 = 0 \<and> fillchar pf3 = 48 then pf_fill pf3 spc else Some pf3);
     pf5 \<leftarrow> pf_print pf4 stuff;
     if spc > 0 \<and> rightspc pf5 \<noteq> 0 then pf_fill pf5 spc else Some pf5
   }"

text \<open>
  The digits are written from right to left in a buffer of \<open>NUMBER_BUF_SIZE\<close> bytes; \<open>x\<close> is the
  index of the next one, and a write outside the buffer is undefined.
\<close>

definition NUMBER_BUF_SIZE :: nat where "NUMBER_BUF_SIZE = 32 div 3 + 2"

partial_function (option) printnum_loop :: "32 word \<Rightarrow> 32 word \<Rightarrow> int \<Rightarrow> ctext \<Rightarrow> (int \<times> ctext) option" where
  "printnum_loop base xnum x buf = do {
     kassert (base \<noteq> 0);
     c \<leftarrow> rd (codes ''0123456789abcdef'') (unat (xnum mod base));
     buf1 \<leftarrow> wri buf x c;
     let xnum1 = xnum div base;
     if xnum1 > 0 then printnum_loop base xnum1 (x - 1) buf1 else Some (x - 1, buf1)
   }"

definition pf_printnum :: "'c PF \<Rightarrow> 'c PF option" where
  "pf_printnum pf = do {
     buf0 \<leftarrow> wri (replicate NUMBER_BUF_SIZE 0) (int NUMBER_BUF_SIZE - 1) 0;
     (x0, buf) \<leftarrow> printnum_loop (word_of_int (pf_base pf)) (pf_num pf) (int NUMBER_BUF_SIZE - 2) buf0;
     let x = x0 + 1;
     let bprefix = (if baseprefix pf \<noteq> 0 \<and> pf_base pf = 16 then codes ''0x''
                    else if baseprefix pf \<noteq> 0 \<and> pf_base pf = 8 then codes ''0'' else []);
     let sprefix = (if pf_sign pf \<noteq> 0 then codes ''-'' else []);
     pf_printstuff pf sprefix bprefix (takeWhile (\<lambda>c. c \<noteq> 0) (drop (nat x) buf))
   }"

definition pf_send :: "'c PF \<Rightarrow> int \<Rightarrow> 'c PF option" where
  "pf_send pf ch = do {
     kassert (ch \<noteq> 0);
     if in_pct pf = 0 \<and> ch \<noteq> 37 then pf_print pf [word_of_int ch]
     else if in_pct pf = 0 then Some (pf\<lparr>in_pct := 1\<rparr>)
     else if strchr_const (codes ''#-ql0123456789'') ch \<noteq> None then pf_modifier pf ch
     else if strchr_const (codes ''doupx'') ch \<noteq> None then do {
       pf1 \<leftarrow> pf_getnum pf ch;
       pf2 \<leftarrow> pf_printnum (pf_setbase pf1 ch);
       Some (pf_endfield pf2)
     }
     else if ch = 115 then do {
       (str, pf1) \<leftarrow> va_str pf;
       pf2 \<leftarrow> pf_printstuff pf1 [] [] (case str of NULL \<Rightarrow> codes ''(null)'' | Ptr t \<Rightarrow> t);
       Some (pf_endfield pf2)
     }
     else do {
       (c, pf1) \<leftarrow> (if ch = 99 then map_option (\<lambda>(w, p). (word_of_int (sint w), p)) (va_int pf)
                   else Some (word_of_int ch, pf));
       pf2 \<leftarrow> pf_printstuff pf1 [] [] (takeWhile (\<lambda>c. c \<noteq> 0) [c]);
       Some (pf_endfield pf2)
     }
   }"

fun pf_send_all :: "'c PF \<Rightarrow> ctext \<Rightarrow> 'c PF option" where
  "pf_send_all pf [] = Some pf"
| "pf_send_all pf (c # cs) = do { pf1 \<leftarrow> pf_send pf (sint c); pf_send_all pf1 cs }"

text \<open>The result is the number of characters and the client's data.\<close>

definition vprintf :: "('c \<Rightarrow> ctext \<Rightarrow> 'c option) \<Rightarrow> 'c \<Rightarrow> ctext \<Rightarrow> arg list \<Rightarrow> (int \<times> 'c) option" where
  "vprintf func cdata format ap = do {
     let pf = pf_endfield \<lparr>sendfunc = func, clientdata = cdata, pf_ap = ap, charcount = 0, in_pct = 0, pf_size = INTSZ,
       pf_num = 0, pf_sign = 0, spacing = 0, rightspc = 0, fillchar = 0, pf_base = 0, baseprefix = 0, altformat = 0\<rparr>;
     pf1 \<leftarrow> pf_send_all pf format;
     Some (charcount pf1, clientdata pf1)
   }"

subsection \<open>Printing into a buffer\<close>

record SNP =
  snp_buf :: ctext
  snp_buflen :: nat
  snp_bufpos :: nat

fun snprintf_send :: "SNP \<Rightarrow> ctext \<Rightarrow> SNP option" where
  "snprintf_send snp [] = Some snp"
| "snprintf_send snp (c # cs) =
     (if snp_bufpos snp < snp_buflen snp then do {
        b \<leftarrow> wr (snp_buf snp) (snp_bufpos snp) c;
        snprintf_send (snp\<lparr>snp_buf := b, snp_bufpos := snp_bufpos snp + 1\<rparr>) cs
      }
      else snprintf_send snp cs)"

definition vsnprintf :: "ctext \<Rightarrow> nat \<Rightarrow> ctext \<Rightarrow> arg list \<Rightarrow> (int \<times> ctext) option" where
  "vsnprintf buf len fmt ap = do {
     let snp = \<lparr>snp_buf = buf, snp_buflen = (if len = 0 then 0 else len - 1), snp_bufpos = 0\<rparr>;
     (chars, snp1) \<leftarrow> vprintf snprintf_send snp fmt ap;
     b \<leftarrow> (if len > 0 then wr (snp_buf snp1) (snp_bufpos snp1) 0 else Some (snp_buf snp1));
     Some (chars, b)
   }"

definition snprintf :: "ctext \<Rightarrow> nat \<Rightarrow> ctext \<Rightarrow> arg list \<Rightarrow> (int \<times> ctext) option" where
  "snprintf buf len fmt ap = vsnprintf buf len fmt ap"

subsection \<open>Reading a line from the console\<close>

text \<open>
  The state of the console: the characters typed and not read yet, and the characters sent, and how often it beeped. Waiting
  for input that does not come is no return.
\<close>

record console =
  con_in :: "int list"
  con_out :: "int list"
  con_beeps :: nat

definition getch :: "console \<Rightarrow> (int \<times> console) option" where
  "getch c = (case con_in c of [] \<Rightarrow> None | ch # r \<Rightarrow> Some (ch, c\<lparr>con_in := r\<rparr>))"

definition putch :: "int \<Rightarrow> console \<Rightarrow> console" where
  "putch ch c = c\<lparr>con_out := con_out c @ [ch]\<rparr>"

definition beep :: "console \<Rightarrow> console" where
  "beep c = c\<lparr>con_beeps := con_beeps c + 1\<rparr>"

definition backsp :: "console \<Rightarrow> console" where
  "backsp c = putch 8 (putch 32 (putch 8 c))"

primrec erase_line :: "nat \<Rightarrow> console \<Rightarrow> console" where
  "erase_line 0 c = c"
| "erase_line (Suc pos) c = erase_line pos (backsp c)"

text \<open>Erasing while the character before the cursor is a space, or is not one.\<close>

primrec erase_while :: "bool \<Rightarrow> nat \<Rightarrow> ctext \<Rightarrow> console \<Rightarrow> (nat \<times> console) option" where
  "erase_while sp 0 buf c = Some (0, c)"
| "erase_while sp (Suc pos) buf c = do {
     b \<leftarrow> rd buf pos;
     if (b = 32) = sp then erase_while sp pos buf (backsp c) else Some (Suc pos, c)
   }"

text \<open>The sender of \<open>kprintf\<close>.\<close>

definition console_send :: "console \<Rightarrow> ctext \<Rightarrow> console option" where
  "console_send c data = Some (foldl (\<lambda>k ch. putch (sint ch) k) c data)"

definition kgets_reprint :: "ctext \<Rightarrow> console \<Rightarrow> console option" where
  "kgets_reprint buf c = map_option snd (vprintf console_send c
     (codes ''^R'' @ [10] @ codes ''%s'') [StrArg (Ptr (takeWhile (\<lambda>c. c \<noteq> 0) buf))])"

text \<open>\<open>maxlen - 1\<close> is computed in \<open>size_t\<close>, so it wraps around when \<open>maxlen\<close> is 0.\<close>

partial_function (option) kgets_loop :: "32 word \<Rightarrow> nat \<Rightarrow> ctext \<Rightarrow> console \<Rightarrow> (nat \<times> ctext \<times> console) option" where
  "kgets_loop maxlen pos buf c = do {
     (ch, c1) \<leftarrow> getch c;
     if ch = 10 \<or> ch = 13 then Some (pos, buf, putch 10 c1)
     else if 32 \<le> ch \<and> ch < 127 \<and> pos < unat (maxlen - 1) then do {
       buf1 \<leftarrow> wr buf pos (word_of_int ch);
       kgets_loop maxlen (pos + 1) buf1 (putch ch c1)
     }
     else if (ch = 8 \<or> ch = 127) \<and> pos > 0 then kgets_loop maxlen (pos - 1) buf (backsp c1)
     else if ch = 3 then Some (0, buf, putch 10 (putch 67 (putch 94 c1)))
     else if ch = 18 then do {
       buf1 \<leftarrow> wr buf pos 0;
       c2 \<leftarrow> kgets_reprint buf1 c1;
       kgets_loop maxlen pos buf1 c2
     }
     else if ch = 21 then kgets_loop maxlen 0 buf (erase_line pos c1)
     else if ch = 23 then do {
       (pos1, c2) \<leftarrow> erase_while True pos buf c1;
       (pos2, c3) \<leftarrow> erase_while False pos1 buf c2;
       kgets_loop maxlen pos2 buf c3
     }
     else kgets_loop maxlen pos buf (beep c1)
   }"

definition kgets :: "ctext \<Rightarrow> 32 word \<Rightarrow> console \<Rightarrow> (ctext \<times> console) option" where
  "kgets buf maxlen c = do {
     (pos, buf1, c1) \<leftarrow> kgets_loop maxlen 0 buf c;
     buf2 \<leftarrow> wr buf1 pos 0;
     Some (buf2, c1)
   }"

subsection \<open>Digits\<close>

text \<open>The digits of \<open>n\<close> in base \<open>b\<close>, most significant first.\<close>

function digs :: "nat \<Rightarrow> nat \<Rightarrow> nat list" where
  "digs b n = (if b \<le> 1 \<or> n < b then [n] else digs b (n div b) @ [n mod b])"
  by auto
termination
  by (relation "measure snd") (auto intro: div_less_dividend)

declare digs.simps [simp del]

definition dchar :: "nat \<Rightarrow> 8 word" where
  "dchar d = codes ''0123456789abcdef'' ! d"

lemma digit_codes:
  "codes ''0123456789abcdef'' = [48, 49, 50, 51, 52, 53, 54, 55, 56, 57, 97, 98, 99, 100, 101, 102]"
  by (simp add: codes_def)

lemma dchar_nonzero: "d < 16 \<Longrightarrow> dchar d \<noteq> 0"
proof -
  assume "d < 16"
  then have "dchar d \<in> set (codes ''0123456789abcdef'')" unfolding dchar_def by (intro nth_mem) (simp add: digit_codes)
  then show ?thesis by (auto simp: digit_codes)
qed

lemma dchar_dec: "d < 10 \<Longrightarrow> dchar d = of_nat (48 + d)"
proof -
  assume "d < 10"
  then have "d \<in> {0, 1, 2, 3, 4, 5, 6, 7, 8, 9}" by auto
  then show ?thesis by (auto simp: dchar_def digit_codes)
qed

lemma digs_bound: "1 < b \<Longrightarrow> d \<in> set (digs b n) \<Longrightarrow> d < b"
  by (induction b n rule: digs.induct) (subst (asm) (2) digs.simps, auto split: if_splits)

lemma digs_length: "1 < b \<Longrightarrow> n < b ^ k \<Longrightarrow> 0 < k \<Longrightarrow> length (digs b n) \<le> k"
proof (induction k arbitrary: n)
  case (Suc k)
  show ?case
  proof (cases "n < b")
    case False
    then have "0 < k" using Suc.prems by (cases k) auto
    moreover have "n div b < b ^ k" using Suc.prems by (simp add: less_mult_imp_div_less mult.commute)
    ultimately show ?thesis using Suc False by (subst digs.simps) simp
  qed (use Suc in \<open>subst digs.simps, simp\<close>)
qed simp

lemma digs_nonempty: "digs b n \<noteq> []"
  by (subst digs.simps) simp

lemma dec_val_append: "dec_val (xs @ [d]) = dec_val xs * 10 + d"
  by (simp add: dec_val_def)

lemma dec_val_digs: "dec_val (digs 10 n) = n"
proof (induction "10 :: nat" n rule: digs.induct)
  case (1 n)
  then show ?case
    by (subst digs.simps) (simp add: dec_val_append dec_val_def del: digs.simps)
qed

lemma printnum_loop_digs:
  assumes "1 < b" "b \<le> 16" "unat base = b"
  shows "length (digs b (unat xnum)) \<le> Suc x \<Longrightarrow> x < length buf \<Longrightarrow>
    \<exists>buf'. printnum_loop base xnum (int x) buf = Some (int (Suc x) - int (length (digs b (unat xnum))) - 1, buf') \<and>
      length buf' = length buf \<and>
      drop (Suc x - length (digs b (unat xnum))) buf' = map dchar (digs b (unat xnum)) @ drop (Suc x) buf"
proof (induction "unat xnum" arbitrary: xnum x buf rule: less_induct)
  case less
  let ?n = "unat xnum"
  have md: "unat (xnum mod base) = ?n mod b" "unat (xnum div base) = ?n div b"
    using assms(3) by (simp_all add: unat_mod unat_div)
  have c: "rd (codes ''0123456789abcdef'') (unat (xnum mod base)) = Some (dchar (?n mod b))"
  proof -
    have "?n mod b < b" using assms(1) by simp
    then show ?thesis using assms(2) by (simp add: md dchar_def rd_def digit_codes)
  qed
  have b0: "base \<noteq> 0" using assms(1,3) by auto
  let ?buf = "buf[x := dchar (?n mod b)]"
  have w: "wri buf (int x) (dchar (?n mod b)) = Some ?buf" using less.prems(2) by simp
  have dr: "drop x ?buf = dchar (?n mod b) # drop (Suc x) buf"
    using less.prems(2) by (simp add: drop_update_swap Cons_nth_drop_Suc [symmetric])
  show ?case
  proof (cases "?n < b")
    case True
    then have "xnum div base = 0" using md(2) by (simp add: word_unat_eq_iff)
    moreover have "digs b ?n = [?n]" using True by (subst digs.simps) simp
    ultimately show ?thesis using c w b0 dr True less.prems(2)
      by (subst printnum_loop.simps) (auto simp: Let_def)
  next
    case False
    have dg: "digs b ?n = digs b (?n div b) @ [?n mod b]" using False assms(1) by (subst digs.simps) simp
    have lt: "unat (xnum div base) < ?n" unfolding md(2) using False assms(1) by (intro div_less_dividend) auto
    have pos: "xnum div base > 0" using md(2) False assms(1) by (simp add: word_less_nat_alt div_greater_zero_iff)
    obtain y where y: "x = Suc y" using less.prems(1) dg digs_nonempty [of b "?n div b"] by (cases x) auto
    obtain buf' where IH: "printnum_loop base (xnum div base) (int y) ?buf =
          Some (int (Suc y) - int (length (digs b (?n div b))) - 1, buf')"
        "length buf' = length ?buf"
        "drop (Suc y - length (digs b (?n div b))) buf' = map dchar (digs b (?n div b)) @ drop (Suc y) ?buf"
      using less.hyps [OF lt, of y ?buf] less.prems dg y md(2) by auto
    have "printnum_loop base xnum (int x) buf = printnum_loop base (xnum div base) (int y) ?buf"
      using c w b0 pos y by (subst printnum_loop.simps) (simp add: Let_def)
    then show ?thesis using IH dg dr y by simp
  qed
qed

text \<open>The number text never leaves its buffer, in any of the three bases.\<close>

lemma printnum_text:
  assumes "b = 8 \<or> b = 10 \<or> b = 16"
  shows "\<exists>buf. printnum_loop (word_of_int (int b)) w (int NUMBER_BUF_SIZE - 2) (replicate NUMBER_BUF_SIZE 0) =
      Some (int NUMBER_BUF_SIZE - 2 - int (length (digs b (unat w))), buf) \<and> length buf = NUMBER_BUF_SIZE \<and>
    length (digs b (unat w)) < NUMBER_BUF_SIZE \<and>
    takeWhile (\<lambda>c. c \<noteq> 0) (drop (nat (int NUMBER_BUF_SIZE - 1 - int (length (digs b (unat w))))) buf) =
      map dchar (digs b (unat w))"
proof -
  let ?ds = "digs b (unat w)"
  have b: "1 < b" "b \<le> 16" "unat (word_of_int (int b) :: 32 word) = b" using assms by auto
  have "unat w < b ^ 11" using assms unat_less_32 [of w] by auto
  then have len: "length ?ds \<le> 11" by (intro digs_length) (use b in auto)
  have N: "NUMBER_BUF_SIZE = 12" by (simp add: NUMBER_BUF_SIZE_def)
  obtain buf where p: "printnum_loop (word_of_int (int b)) w (int 10) (replicate NUMBER_BUF_SIZE 0) =
      Some (int (Suc 10) - int (length ?ds) - 1, buf)" "length buf = length (replicate NUMBER_BUF_SIZE (0 :: 8 word))"
    "drop (Suc 10 - length ?ds) buf = map dchar ?ds @ drop (Suc 10) (replicate NUMBER_BUF_SIZE 0)"
    using printnum_loop_digs [OF b, of w 10 "replicate NUMBER_BUF_SIZE 0"] len by (auto simp: N)
  have nz: "\<forall>c \<in> set (map dchar ?ds). c \<noteq> 0"
  proof
    fix c assume "c \<in> set (map dchar ?ds)"
    then obtain d where d: "d \<in> set ?ds" "c = dchar d" by auto
    then have "d < 16" using digs_bound [OF b(1) d(1)] b(2) by simp
    then show "c \<noteq> 0" using d(2) dchar_nonzero by simp
  qed
  have "nat (int NUMBER_BUF_SIZE - 1 - int (length ?ds)) = Suc 10 - length ?ds" using len by (simp add: N)
  moreover have "takeWhile (\<lambda>c. c \<noteq> 0) (drop (Suc 10 - length ?ds) buf) = map dchar ?ds"
    unfolding p(3) using nz by (simp add: takeWhile_append N)
  ultimately show ?thesis using p(1,2) len by (auto simp: N)
qed

lemma pf_printnum_text:
  assumes "pf_base pf = 8 \<or> pf_base pf = 10 \<or> pf_base pf = 16"
  shows "pf_printnum pf = pf_printstuff pf (if pf_sign pf \<noteq> 0 then codes ''-'' else [])
    (if baseprefix pf \<noteq> 0 \<and> pf_base pf = 16 then codes ''0x''
     else if baseprefix pf \<noteq> 0 \<and> pf_base pf = 8 then codes ''0'' else [])
    (map dchar (digs (nat (pf_base pf)) (unat (pf_num pf))))"
proof -
  define b where "b = nat (pf_base pf)"
  have b: "pf_base pf = int b" "b = 8 \<or> b = 10 \<or> b = 16" using assms by (auto simp: b_def)
  have w: "wri (replicate NUMBER_BUF_SIZE 0) (int NUMBER_BUF_SIZE - 1) (0 :: 8 word) = Some (replicate NUMBER_BUF_SIZE 0)"
    by (simp add: NUMBER_BUF_SIZE_def list_eq_iff_nth_eq nth_list_update)
  obtain buf where p: "printnum_loop (word_of_int (int b)) (pf_num pf) (int NUMBER_BUF_SIZE - 2) (replicate NUMBER_BUF_SIZE 0) =
      Some (int NUMBER_BUF_SIZE - 2 - int (length (digs b (unat (pf_num pf)))), buf)"
    "takeWhile (\<lambda>c. c \<noteq> 0) (drop (nat (int NUMBER_BUF_SIZE - 1 - int (length (digs b (unat (pf_num pf)))))) buf) =
      map dchar (digs b (unat (pf_num pf)))"
    using printnum_text [OF b(2), of "pf_num pf"] by blast
  have x: "int NUMBER_BUF_SIZE - 2 - k + 1 = int NUMBER_BUF_SIZE - 1 - k" for k by simp
  show ?thesis unfolding pf_printnum_def w b(1) using p b(2) by (simp add: Let_def x)
qed

subsection \<open>The collected output\<close>

definition collect :: "ctext \<Rightarrow> ctext \<Rightarrow> ctext option" where
  "collect out t = Some (out @ t)"

lemma pf_print_collect:
  "sendfunc pf = collect \<Longrightarrow> 0 \<le> charcount pf \<Longrightarrow> charcount pf + int (length t) < 2147483648 \<Longrightarrow>
     pf_print pf t = Some (pf\<lparr>clientdata := clientdata pf @ t, charcount := charcount pf + int (length t)\<rparr>)"
  by (simp add: pf_print_def collect_def)

lemma printstuff_collect:
  assumes "sendfunc pf = collect" "0 \<le> charcount pf" "spacing pf = 0"
    "charcount pf + int (length a + length b + length c) < 2147483648"
  shows "pf_printstuff pf a b c = Some (pf\<lparr>clientdata := clientdata pf @ a @ b @ c,
    charcount := charcount pf + int (length a + length b + length c)\<rparr>)"
  using assms by (simp add: pf_printstuff_def pf_print_collect)

lemma dec_length [simp]: "length (dec ds) = length ds"
  by (simp add: dec_def)

lemma unat_abs_sint:
  assumes "- 2147483648 < sint w"
  shows "unat (if sint w < 0 then - w else w :: 32 word) = nat \<bar>sint w\<bar>"
proof -
  have "sint w < 2147483648" using sint_lt [of w] by simp
  then have "unat (word_of_int \<bar>sint w\<bar> :: 32 word) = nat \<bar>sint w\<bar>"
    using assms by (simp add: unat_eq_nat_uint uint_word_of_int)
  then show ?thesis by (cases "sint w < 0") simp_all
qed

lemma printf_d:
  assumes "- 2147483648 < sint w"
  shows "\<exists>k. vprintf collect [] (codes ''%d'') [IntArg w] =
    Some (k, (if sint w < 0 then [45] else []) @ dec (digs 10 (nat \<bar>sint w\<bar>)))"
proof -
  have sw: "sint w < 2147483648" using sint_lt [of w] by simp
  let ?n = "nat \<bar>sint w\<bar>"
  have dd: "map dchar (digs 10 ?n) = dec (digs 10 ?n)"
    using digs_bound [of 10] by (auto simp: dec_def dchar_dec)
  have len: "length (digs 10 ?n) \<le> 10"
    using assms sw by (intro digs_length) auto
  define pf0 :: "ctext PF" where "pf0 = \<lparr>sendfunc = collect, clientdata = [], pf_ap = [], charcount = 0, in_pct = 1,
    pf_size = INTSZ, pf_num = 0, pf_sign = 0, spacing = 0, rightspc = 0,
    fillchar = 32, pf_base = 10, baseprefix = 0, altformat = 0\<rparr>"
  define pf1 where "pf1 = pf0\<lparr>pf_num := (if sint w < 0 then - w else w), pf_sign := (if sint w < 0 then -1 else 0)\<rparr>"
  have cs: "codes ''%d'' = [37, 100]" "codes ''#-ql0123456789'' = [35, 45, 113, 108, 48, 49, 50, 51, 52, 53, 54, 55, 56, 57]"
    "codes ''doupx'' = [100, 111, 117, 112, 120]" "codes ''-'' = [45]" by (simp_all add: codes_def)
  have f: "pf_base pf1 = 10" "baseprefix pf1 = 0" "sendfunc pf1 = collect" "charcount pf1 = 0" "spacing pf1 = 0"
    "clientdata pf1 = []" "pf_sign pf1 = (if sint w < 0 then -1 else 0)" "pf_num pf1 = (if sint w < 0 then - w else w)"
    by (simp_all add: pf1_def pf0_def)
  define sg where "sg = (if sint w < 0 then [45 :: 8 word] else [])"
  have sg: "length sg \<le> 1" "(if pf_sign pf1 \<noteq> 0 then codes ''-'' else []) = sg" by (simp_all add: sg_def f cs(4))
  have "pf_printnum pf1 = pf_printstuff pf1 sg [] (map dchar (digs (nat (pf_base pf1)) (unat (pf_num pf1))))"
    using pf_printnum_text [of pf1] unfolding sg(2) by (simp add: f(1,2))
  also have "map dchar (digs (nat (pf_base pf1)) (unat (pf_num pf1))) = dec (digs 10 ?n)"
    unfolding f(1,8) unat_abs_sint [OF assms] using dd by simp
  also have "pf_printstuff pf1 sg [] (dec (digs 10 ?n)) = Some (pf1\<lparr>clientdata := sg @ dec (digs 10 ?n),
      charcount := int (length sg + length (digs 10 ?n))\<rparr>)"
    using printstuff_collect [of pf1 sg "[]" "dec (digs 10 ?n)"] len sg(1) by (simp add: f)
  finally have pn: "\<exists>pf2. pf_printnum pf1 = Some pf2 \<and> clientdata pf2 = sg @ dec (digs 10 ?n)" by simp
  have "vprintf collect [] (codes ''%d'') [IntArg w] =
      pf_printnum pf1 \<bind> (\<lambda>pf2. Some (charcount (pf_endfield pf2), clientdata (pf_endfield pf2)))"
    using assms sw
    by (cases "sint w < 0") (simp_all add: vprintf_def cs pf_send_def pf_endfield_def pf_getnum_def va_int_def pf_setbase_def
        pf1_def pf0_def Let_def cint_def)
  then show ?thesis using pn unfolding sg_def by (auto simp: pf_endfield_def)
qed

subsection \<open>Senders\<close>

text \<open>
  The contract of a send function: text may be sent in any pieces, and sending does not fail as
  long as the client's invariant holds. Then \<open>vprintf\<close> does for every send function what it does for
  the one that collects the output: it sends exactly the collected text and returns the same count.
\<close>

definition redirect :: "('d \<Rightarrow> ctext \<Rightarrow> 'd option) \<Rightarrow> 'd \<Rightarrow> int \<Rightarrow> 'c PF \<Rightarrow> 'd PF" where
  "redirect f d k pf = \<lparr>sendfunc = f, clientdata = d, pf_ap = pf_ap pf, charcount = k, in_pct = in_pct pf,
     pf_size = pf_size pf, pf_num = pf_num pf, pf_sign = pf_sign pf, spacing = spacing pf, rightspc = rightspc pf,
     fillchar = fillchar pf, pf_base = pf_base pf, baseprefix = baseprefix pf, altformat = altformat pf\<rparr>"

lemma redirect_simps [simp]:
  "sendfunc (redirect f d k pf) = f" "clientdata (redirect f d k pf) = d" "pf_ap (redirect f d k pf) = pf_ap pf"
  "charcount (redirect f d k pf) = k" "in_pct (redirect f d k pf) = in_pct pf" "pf_size (redirect f d k pf) = pf_size pf"
  "pf_num (redirect f d k pf) = pf_num pf" "pf_sign (redirect f d k pf) = pf_sign pf" "spacing (redirect f d k pf) = spacing pf"
  "rightspc (redirect f d k pf) = rightspc pf" "fillchar (redirect f d k pf) = fillchar pf" "pf_base (redirect f d k pf) = pf_base pf"
  "baseprefix (redirect f d k pf) = baseprefix pf" "altformat (redirect f d k pf) = altformat pf"
  by (simp_all add: redirect_def)

lemma redirect_update:
  "(redirect f d k pf)\<lparr>pf_ap := ap\<rparr> = redirect f d k (pf\<lparr>pf_ap := ap\<rparr>)"
  "(redirect f d k pf)\<lparr>in_pct := i\<rparr> = redirect f d k (pf\<lparr>in_pct := i\<rparr>)"
  "(redirect f d k pf)\<lparr>pf_size := sz\<rparr> = redirect f d k (pf\<lparr>pf_size := sz\<rparr>)"
  "(redirect f d k pf)\<lparr>pf_num := n\<rparr> = redirect f d k (pf\<lparr>pf_num := n\<rparr>)"
  "(redirect f d k pf)\<lparr>pf_sign := i\<rparr> = redirect f d k (pf\<lparr>pf_sign := i\<rparr>)"
  "(redirect f d k pf)\<lparr>spacing := i\<rparr> = redirect f d k (pf\<lparr>spacing := i\<rparr>)"
  "(redirect f d k pf)\<lparr>rightspc := i\<rparr> = redirect f d k (pf\<lparr>rightspc := i\<rparr>)"
  "(redirect f d k pf)\<lparr>fillchar := i\<rparr> = redirect f d k (pf\<lparr>fillchar := i\<rparr>)"
  "(redirect f d k pf)\<lparr>pf_base := i\<rparr> = redirect f d k (pf\<lparr>pf_base := i\<rparr>)"
  "(redirect f d k pf)\<lparr>baseprefix := i\<rparr> = redirect f d k (pf\<lparr>baseprefix := i\<rparr>)"
  "(redirect f d k pf)\<lparr>altformat := i\<rparr> = redirect f d k (pf\<lparr>altformat := i\<rparr>)"
  by (simp_all add: redirect_def)

lemma redirect_sent: "(redirect f d k pf)\<lparr>clientdata := e, charcount := i\<rparr> = redirect f e i (pf\<lparr>clientdata := c, charcount := i\<rparr>)"
  by (simp add: redirect_def)

lemma redirect_if: "(if b then redirect f d k p else redirect f d k q) = redirect f d k (if b then p else q)"
  by simp

lemma endfield_redirect: "pf_endfield (redirect f d k pf) = redirect f d k (pf_endfield pf)"
  unfolding pf_endfield_def redirect_update ..

lemma setbase_redirect: "pf_setbase (redirect f d k pf) ch = redirect f d k (pf_setbase pf ch)"
  unfolding pf_setbase_def Let_def redirect_update redirect_simps redirect_if ..

lemma modifier_redirect: "pf_modifier (redirect f d k pf) ch = map_option (redirect f d k) (pf_modifier pf ch)"
  unfolding pf_modifier_def redirect_update redirect_simps redirect_if
  by (cases "cint (spacing pf * 10)") (auto simp: kassert_def cint_def)

lemma va_redirect:
  "va_int (redirect f d k pf) = map_option (map_prod id (redirect f d k)) (va_int pf)"
  "va_str (redirect f d k pf) = map_option (map_prod id (redirect f d k)) (va_str pf)"
  unfolding va_int_def va_str_def redirect_update redirect_simps
  by (simp_all split: list.splits arg.splits)

lemma getnum_redirect: "pf_getnum (redirect f d k pf) ch = map_option (redirect f d k) (pf_getnum pf ch)"
proof (cases "va_int pf")
  case None
  then show ?thesis by (simp add: pf_getnum_def va_redirect)
next
  case (Some r)
  obtain w pf1 where r: "r = (w, pf1)" by (cases r)
  show ?thesis using Some
    by (cases "cint (- sint w)") (simp_all add: pf_getnum_def va_redirect r Let_def redirect_update)
qed

text \<open>A state redirected to itself is itself, so these operations leave the client alone.\<close>

lemma redirect_self: "redirect (sendfunc pf) (clientdata pf) (charcount pf) pf = pf"
  by (simp add: redirect_def)

lemma quiet_ops:
  "pf_modifier pf ch = Some pf1 \<Longrightarrow> sendfunc pf1 = sendfunc pf \<and> clientdata pf1 = clientdata pf \<and> charcount pf1 = charcount pf"
  "pf_getnum pf ch = Some pf1 \<Longrightarrow> sendfunc pf1 = sendfunc pf \<and> clientdata pf1 = clientdata pf \<and> charcount pf1 = charcount pf"
  "va_int pf = Some (w, pf1) \<Longrightarrow> sendfunc pf1 = sendfunc pf \<and> clientdata pf1 = clientdata pf \<and> charcount pf1 = charcount pf"
  "va_str pf = Some (t, pf1) \<Longrightarrow> sendfunc pf1 = sendfunc pf \<and> clientdata pf1 = clientdata pf \<and> charcount pf1 = charcount pf"
  "sendfunc (pf_endfield pf) = sendfunc pf" "clientdata (pf_endfield pf) = clientdata pf" "charcount (pf_endfield pf) = charcount pf"
  "sendfunc (pf_setbase pf ch) = sendfunc pf" "clientdata (pf_setbase pf ch) = clientdata pf" "charcount (pf_setbase pf ch) = charcount pf"
proof -
  let ?r = "redirect (sendfunc pf) (clientdata pf) (charcount pf)"
  have 1: "pf_modifier pf ch = map_option ?r (pf_modifier pf ch)" "pf_getnum pf ch = map_option ?r (pf_getnum pf ch)"
    "va_int pf = map_option (map_prod id ?r) (va_int pf)" "va_str pf = map_option (map_prod id ?r) (va_str pf)"
    "pf_endfield pf = ?r (pf_endfield pf)" "pf_setbase pf ch = ?r (pf_setbase pf ch)"
    using modifier_redirect [of _ _ _ pf] getnum_redirect [of _ _ _ pf] va_redirect [of _ _ _ pf] endfield_redirect [of _ _ _ pf]
      setbase_redirect [of _ _ _ pf] redirect_self [of pf] by metis+
  have r: "p = ?r q \<Longrightarrow> sendfunc p = sendfunc pf \<and> clientdata p = clientdata pf \<and> charcount p = charcount pf" for p q by simp
  show "pf_modifier pf ch = Some pf1 \<Longrightarrow> sendfunc pf1 = sendfunc pf \<and> clientdata pf1 = clientdata pf \<and> charcount pf1 = charcount pf"
    using 1(1) r [of pf1 pf1] by simp
  show "pf_getnum pf ch = Some pf1 \<Longrightarrow> sendfunc pf1 = sendfunc pf \<and> clientdata pf1 = clientdata pf \<and> charcount pf1 = charcount pf"
    using 1(2) r [of pf1 pf1] by simp
  show "va_int pf = Some (w, pf1) \<Longrightarrow> sendfunc pf1 = sendfunc pf \<and> clientdata pf1 = clientdata pf \<and> charcount pf1 = charcount pf"
    using 1(3) r [of pf1 pf1] by simp
  show "va_str pf = Some (t, pf1) \<Longrightarrow> sendfunc pf1 = sendfunc pf \<and> clientdata pf1 = clientdata pf \<and> charcount pf1 = charcount pf"
    using 1(4) r [of pf1 pf1] by simp
  show "sendfunc (pf_endfield pf) = sendfunc pf" "clientdata (pf_endfield pf) = clientdata pf" "charcount (pf_endfield pf) = charcount pf"
    "sendfunc (pf_setbase pf ch) = sendfunc pf" "clientdata (pf_setbase pf ch) = clientdata pf" "charcount (pf_setbase pf ch) = charcount pf"
    using r [OF 1(5)] r [OF 1(6)] by simp_all
qed

locale sender =
  fixes send :: "'d \<Rightarrow> ctext \<Rightarrow> 'd option" and inv :: "'d \<Rightarrow> bool"
  assumes send_nil: "inv d \<Longrightarrow> send d [] = Some d"
    and send_append: "inv d \<Longrightarrow> send d (a @ b) = send d a \<bind> (\<lambda>d1. send d1 b)"
    and send_total: "inv d \<Longrightarrow> \<exists>d1. send d t = Some d1 \<and> inv d1"
begin

definition follows :: "'d \<Rightarrow> ctext PF \<Rightarrow> 'd PF \<Rightarrow> bool" where
  "follows d0 pf pf' \<longleftrightarrow> sendfunc pf = collect \<and> charcount pf = int (length (clientdata pf)) \<and>
     (\<exists>d. inv d \<and> send d0 (clientdata pf) = Some d \<and> pf' = redirect send d (charcount pf) pf)"

lemma follows_print:
  assumes "follows d0 pf pf'" "inv d0" "pf_print pf t = Some pf1"
  shows "\<exists>pf1'. pf_print pf' t = Some pf1' \<and> follows d0 pf1 pf1'"
proof -
  obtain d where d: "sendfunc pf = collect" "inv d" "send d0 (clientdata pf) = Some d" "pf' = redirect send d (charcount pf) pf" "charcount pf = int (length (clientdata pf))"
    using assms(1) by (auto simp: follows_def)
  obtain d1 where d1: "send d t = Some d1" "inv d1" using send_total [OF d(2)] by blast
  have "send d0 (clientdata pf @ t) = Some d1" using send_append [OF assms(2)] d(3) d1(1) by simp
  then show ?thesis using assms(3) d d1
    by (auto simp: pf_print_def collect_def follows_def bind_eq_Some_conv redirect_sent [where pf = pf and c = "clientdata pf @ t"]
        cint_def split: if_splits)
qed

lemma follows_fill:
  assumes "inv d0"
  shows "follows d0 pf pf' \<Longrightarrow> pf_fill_loop n c pf = Some pf1 \<Longrightarrow> \<exists>pf1'. pf_fill_loop n c pf' = Some pf1' \<and> follows d0 pf1 pf1'"
proof (induction n arbitrary: pf pf')
  case (Suc n)
  then obtain pf2 where 2: "pf_print pf [c] = Some pf2" "pf_fill_loop n c pf2 = Some pf1" by (auto simp: bind_eq_Some_conv)
  obtain pf2' where "pf_print pf' [c] = Some pf2'" "follows d0 pf2 pf2'" using follows_print [OF Suc.prems(1) assms 2(1)] by blast
  then show ?case using Suc.IH [OF _ 2(2)] by auto
qed simp

lemma follows_fields:
  "follows d0 pf pf' \<Longrightarrow> spacing pf' = spacing pf \<and> rightspc pf' = rightspc pf \<and> fillchar pf' = fillchar pf \<and>
     in_pct pf' = in_pct pf \<and> pf_base pf' = pf_base pf \<and> pf_num pf' = pf_num pf \<and> pf_sign pf' = pf_sign pf \<and>
     baseprefix pf' = baseprefix pf \<and> charcount pf' = charcount pf"
  by (auto simp: follows_def)

lemma follows_cond_fill:
  assumes "inv d0" "follows d0 pf pf'" "(if P then pf_fill pf n else Some pf) = Some pf1"
  shows "\<exists>pf1'. (if P then pf_fill pf' n else Some pf') = Some pf1' \<and> follows d0 pf1 pf1'"
  using follows_fill [OF assms(1,2)] assms follows_fields [OF assms(2)] by (cases P) (auto simp: pf_fill_def)

lemma follows_printstuff:
  assumes "inv d0" "follows d0 pf pf'" "pf_printstuff pf a b c = Some pf1"
  shows "\<exists>pf1'. pf_printstuff pf' a b c = Some pf1' \<and> follows d0 pf1 pf1'"
proof -
  obtain len where len: "cint (int (length a + length b + length c)) = Some len" using assms(3)
    by (auto simp: pf_printstuff_def bind_eq_Some_conv)
  define spc where "spc = (if spacing pf > len then spacing pf - len else 0)"
  from assms(3) [unfolded pf_printstuff_def len bind.bind_lunit Let_def spc_def [symmetric]] obtain p1 p2 p3 p4 p5 where
    s: "(if spc > 0 \<and> rightspc pf = 0 \<and> fillchar pf \<noteq> 48 then pf_fill pf spc else Some pf) = Some p1"
      "pf_print p1 a = Some p2" "pf_print p2 b = Some p3"
      "(if spc > 0 \<and> rightspc p3 = 0 \<and> fillchar p3 = 48 then pf_fill p3 spc else Some p3) = Some p4"
      "pf_print p4 c = Some p5" "(if spc > 0 \<and> rightspc p5 \<noteq> 0 then pf_fill p5 spc else Some p5) = Some pf1"
    by (auto simp only: bind_eq_Some_conv)
  obtain q1 where 1: "(if spc > 0 \<and> rightspc pf = 0 \<and> fillchar pf \<noteq> 48 then pf_fill pf' spc else Some pf') = Some q1" "follows d0 p1 q1"
    using follows_cond_fill [OF assms(1,2) s(1)] by blast
  obtain q2 where 2: "pf_print q1 a = Some q2" "follows d0 p2 q2" using follows_print [OF 1(2) assms(1) s(2)] by blast
  obtain q3 where 3: "pf_print q2 b = Some q3" "follows d0 p3 q3" using follows_print [OF 2(2) assms(1) s(3)] by blast
  obtain q4 where 4: "(if spc > 0 \<and> rightspc p3 = 0 \<and> fillchar p3 = 48 then pf_fill q3 spc else Some q3) = Some q4" "follows d0 p4 q4"
    using follows_cond_fill [OF assms(1) 3(2) s(4)] by blast
  obtain q5 where 5: "pf_print q4 c = Some q5" "follows d0 p5 q5" using follows_print [OF 4(2) assms(1) s(5)] by blast
  obtain q6 where 6: "(if spc > 0 \<and> rightspc p5 \<noteq> 0 then pf_fill q5 spc else Some q5) = Some q6" "follows d0 pf1 q6"
    using follows_cond_fill [OF assms(1) 5(2) s(6)] by blast
  have e: "(if spacing pf' > len then spacing pf' - len else 0) = spc" using follows_fields [OF assms(2)] by (simp add: spc_def)
  have "pf_printstuff pf' a b c = Some q6"
    unfolding pf_printstuff_def len bind.bind_lunit Let_def e
    by (simp add: 1(1) 2(1) 3(1) 4(1) 5(1) 6(1) follows_fields [OF assms(2)] follows_fields [OF 3(2)] follows_fields [OF 5(2)]
        split del: if_split)
  then show ?thesis using 6(2) by blast
qed

lemma follows_printnum:
  assumes "inv d0" "follows d0 pf pf'" "pf_printnum pf = Some pf1"
  shows "\<exists>pf1'. pf_printnum pf' = Some pf1' \<and> follows d0 pf1 pf1'"
proof -
  from assms(3) obtain b0 x b where n: "wri (replicate NUMBER_BUF_SIZE 0) (int NUMBER_BUF_SIZE - 1) 0 = Some b0"
    "printnum_loop (word_of_int (pf_base pf)) (pf_num pf) (int NUMBER_BUF_SIZE - 2) b0 = Some (x, b)"
    by (auto simp: pf_printnum_def bind_eq_Some_conv)
  show ?thesis
    using follows_printstuff [OF assms(1,2)] assms(3)
    by (simp add: pf_printnum_def Let_def n follows_fields [OF assms(2)] cong: if_cong split del: if_split)
qed

lemma follows_quiet:
  assumes "follows d0 pf pf'"
  shows "pf_modifier pf ch = Some pf1 \<Longrightarrow> \<exists>pf1'. pf_modifier pf' ch = Some pf1' \<and> follows d0 pf1 pf1'"
    "pf_getnum pf ch = Some pf1 \<Longrightarrow> \<exists>pf1'. pf_getnum pf' ch = Some pf1' \<and> follows d0 pf1 pf1'"
    "va_int pf = Some (w, pf1) \<Longrightarrow> \<exists>pf1'. va_int pf' = Some (w, pf1') \<and> follows d0 pf1 pf1'"
    "va_str pf = Some (t, pf1) \<Longrightarrow> \<exists>pf1'. va_str pf' = Some (t, pf1') \<and> follows d0 pf1 pf1'"
    "follows d0 (pf_endfield pf) (pf_endfield pf')" "follows d0 (pf_setbase pf ch) (pf_setbase pf' ch)"
    "follows d0 (pf\<lparr>in_pct := i\<rparr>) (pf'\<lparr>in_pct := i\<rparr>)"
proof -
  obtain d where d: "sendfunc pf = collect" "inv d" "send d0 (clientdata pf) = Some d" "pf' = redirect send d (charcount pf) pf" "charcount pf = int (length (clientdata pf))"
    using assms by (auto simp: follows_def)
  have f: "follows d0 p (redirect send d (charcount pf) p)" if "sendfunc p = sendfunc pf \<and> clientdata p = clientdata pf \<and> charcount p = charcount pf" for p
    using that d by (auto simp: follows_def)
  show "pf_modifier pf ch = Some pf1 \<Longrightarrow> \<exists>pf1'. pf_modifier pf' ch = Some pf1' \<and> follows d0 pf1 pf1'"
    using f [OF quiet_ops(1)] by (simp add: d(4) modifier_redirect)
  show "pf_getnum pf ch = Some pf1 \<Longrightarrow> \<exists>pf1'. pf_getnum pf' ch = Some pf1' \<and> follows d0 pf1 pf1'"
    using f [OF quiet_ops(2)] by (simp add: d(4) getnum_redirect)
  show "va_int pf = Some (w, pf1) \<Longrightarrow> \<exists>pf1'. va_int pf' = Some (w, pf1') \<and> follows d0 pf1 pf1'"
    using f [OF quiet_ops(3)] by (simp add: d(4) va_redirect)
  show "va_str pf = Some (t, pf1) \<Longrightarrow> \<exists>pf1'. va_str pf' = Some (t, pf1') \<and> follows d0 pf1 pf1'"
    using f [OF quiet_ops(4)] by (simp add: d(4) va_redirect)
  show "follows d0 (pf_endfield pf) (pf_endfield pf')" "follows d0 (pf_setbase pf ch) (pf_setbase pf' ch)"
    "follows d0 (pf\<lparr>in_pct := i\<rparr>) (pf'\<lparr>in_pct := i\<rparr>)"
    using f [of "pf_endfield pf"] f [of "pf_setbase pf ch"] f [of "pf\<lparr>in_pct := i\<rparr>"]
    by (simp_all add: d(4) endfield_redirect setbase_redirect redirect_update quiet_ops(5-10))
qed

lemma follows_send:
  assumes "inv d0" "follows d0 pf pf'" "pf_send pf ch = Some pf1"
  shows "\<exists>pf1'. pf_send pf' ch = Some pf1' \<and> follows d0 pf1 pf1'"
proof -
  have ch: "ch \<noteq> 0" using assms(3) by (auto simp: pf_send_def kassert_def bind_eq_Some_conv split: if_splits)
  have ip: "in_pct pf' = in_pct pf" using follows_fields [OF assms(2)] by simp
  note q = follows_quiet [OF assms(2)]
  note ps = follows_printstuff [OF assms(1)]
  consider (lit) "in_pct pf = 0" "ch \<noteq> 37" | (pct) "in_pct pf = 0" "ch = 37"
    | (md) "in_pct pf \<noteq> 0" "strchr_const (codes ''#-ql0123456789'') ch \<noteq> None"
    | (num) "in_pct pf \<noteq> 0" "strchr_const (codes ''#-ql0123456789'') ch = None" "strchr_const (codes ''doupx'') ch \<noteq> None"
    | (str) "in_pct pf \<noteq> 0" "strchr_const (codes ''#-ql0123456789'') ch = None" "strchr_const (codes ''doupx'') ch = None" "ch = 115"
    | (chr) "in_pct pf \<noteq> 0" "strchr_const (codes ''#-ql0123456789'') ch = None" "strchr_const (codes ''doupx'') ch = None" "ch \<noteq> 115"
    by blast
  then show ?thesis
  proof cases
    case lit then show ?thesis using assms ch ip follows_print [OF assms(2,1)] by (simp add: pf_send_def kassert_def)
  next
    case pct then show ?thesis using assms ch ip q(7) by (auto simp: pf_send_def kassert_def)
  next
    case md then show ?thesis using assms ch ip q(1) by (simp add: pf_send_def kassert_def)
  next
    case num
    then obtain p1 p2 where p: "pf_getnum pf ch = Some p1" "pf_printnum (pf_setbase p1 ch) = Some p2" "pf1 = pf_endfield p2"
      using assms(3) ch by (auto simp: pf_send_def kassert_def bind_eq_Some_conv)
    obtain q1 where q1: "pf_getnum pf' ch = Some q1" "follows d0 p1 q1" using q(2) [OF p(1)] by blast
    obtain q2 where "pf_printnum (pf_setbase q1 ch) = Some q2" "follows d0 p2 q2"
      using follows_printnum [OF assms(1) follows_quiet(6) [OF q1(2)] p(2)] by blast
    then show ?thesis using num ch ip q1 p(3) follows_quiet(5) by (simp add: pf_send_def kassert_def)
  next
    case str
    then obtain s p1 p2 where p: "va_str pf = Some (s, p1)"
      "pf_printstuff p1 [] [] (case s of NULL \<Rightarrow> codes ''(null)'' | Ptr t \<Rightarrow> t) = Some p2" "pf1 = pf_endfield p2"
      using assms(3) ch by (auto simp: pf_send_def kassert_def bind_eq_Some_conv)
    obtain q1 where q1: "va_str pf' = Some (s, q1)" "follows d0 p1 q1" using q(4) [OF p(1)] by blast
    then show ?thesis using ps [OF q1(2) p(2)] str ch ip p(3) follows_quiet(5) by (auto simp: pf_send_def kassert_def)
  next
    case chr
    show ?thesis
    proof (cases "ch = 99")
      case True
      then obtain w p1 p2 where p: "va_int pf = Some (w, p1)"
        "pf_printstuff p1 [] [] (takeWhile (\<lambda>c. c \<noteq> 0) [word_of_int (sint w)]) = Some p2" "pf1 = pf_endfield p2"
        using assms(3) ch chr by (auto simp: pf_send_def kassert_def bind_eq_Some_conv)
      obtain q1 where q1: "va_int pf' = Some (w, q1)" "follows d0 p1 q1" using q(3) [OF p(1)] by blast
      obtain q2 where "pf_printstuff q1 [] [] (takeWhile (\<lambda>c. c \<noteq> 0) [word_of_int (sint w)]) = Some q2" "follows d0 p2 q2"
        using ps [OF q1(2) p(2)] by blast
      then show ?thesis using True chr ch ip p(3) q1(1) follows_quiet(5) by (simp add: pf_send_def kassert_def)
    next
      case False
      then obtain p2 where p: "pf_printstuff pf [] [] (takeWhile (\<lambda>c. c \<noteq> 0) [word_of_int ch]) = Some p2" "pf1 = pf_endfield p2"
        using assms(3) ch chr by (auto simp: pf_send_def kassert_def bind_eq_Some_conv)
      then show ?thesis using ps [OF assms(2) p(1)] False chr ch ip follows_quiet(5) by (auto simp: pf_send_def kassert_def)
    qed
  qed
qed

lemma follows_send_all:
  assumes "inv d0"
  shows "follows d0 pf pf' \<Longrightarrow> pf_send_all pf cs = Some pf1 \<Longrightarrow> \<exists>pf1'. pf_send_all pf' cs = Some pf1' \<and> follows d0 pf1 pf1'"
proof (induction cs arbitrary: pf pf')
  case (Cons c cs)
  then obtain p where p: "pf_send pf (sint c) = Some p" "pf_send_all p cs = Some pf1" by (auto simp: bind_eq_Some_conv)
  obtain p' where "pf_send pf' (sint c) = Some p'" "follows d0 p p'" using follows_send [OF assms Cons.prems(1) p(1)] by blast
  then show ?case using Cons.IH [OF _ p(2)] by auto
qed simp

lemma vprintf_send:
  assumes "inv d0" "vprintf collect [] fmt ap = Some (n, t)"
  obtains d where "send d0 t = Some d" "vprintf send d0 fmt ap = Some (n, d)" "inv d" "n = int (length t)"
proof -
  define pf :: "ctext PF" where "pf = \<lparr>sendfunc = collect, clientdata = [], pf_ap = ap, charcount = 0, in_pct = 0, pf_size = INTSZ,
       pf_num = 0, pf_sign = 0, spacing = 0, rightspc = 0, fillchar = 0, pf_base = 0, baseprefix = 0, altformat = 0\<rparr>"
  obtain pf1 where 1: "pf_send_all (pf_endfield pf) fmt = Some pf1" "n = charcount pf1" "t = clientdata pf1"
    using assms(2) by (auto simp: vprintf_def pf_def bind_eq_Some_conv)
  have "follows d0 pf (redirect send d0 0 pf)" using send_nil [OF assms(1)] assms(1) by (auto simp: follows_def pf_def)
  then obtain pf1' where 2: "pf_send_all (pf_endfield (redirect send d0 0 pf)) fmt = Some pf1'" "follows d0 pf1 pf1'"
    using follows_send_all [OF assms(1) follows_quiet(5) 1(1)] by blast
  then obtain d where d: "inv d" "send d0 t = Some d" "pf1' = redirect send d (charcount pf1) pf1" "n = int (length t)" by (auto simp: follows_def 1)
  have "vprintf send d0 fmt ap = Some (n, d)" using 2(1) d(3) by (simp add: vprintf_def pf_def redirect_def 1)
  then show ?thesis using that d by blast
qed

end

subsection \<open>The buffer and the console as senders\<close>

lemma snprintf_send_append: "snprintf_send s (a @ b) = snprintf_send s a \<bind> (\<lambda>s1. snprintf_send s1 b)"
proof (induction s a rule: snprintf_send.induct)
  case (2 s c cs)
  then show ?case by (cases "wr (snp_buf s) (snp_bufpos s) c") (simp_all add: bind_assoc)
qed simp

lemma snprintf_send_text:
  "snp_buflen s \<le> length (snp_buf s) \<Longrightarrow> snp_bufpos s \<le> snp_buflen s \<Longrightarrow>
     snprintf_send s t = Some (let k = min (length t) (snp_buflen s - snp_bufpos s) in
       s\<lparr>snp_buf := take (snp_bufpos s) (snp_buf s) @ take k t @ drop (snp_bufpos s + k) (snp_buf s), snp_bufpos := snp_bufpos s + k\<rparr>)"
proof (induction s t rule: snprintf_send.induct)
  case (2 s c cs)
  show ?case
  proof (cases "snp_bufpos s < snp_buflen s")
    case True
    let ?s = "s\<lparr>snp_buf := (snp_buf s)[snp_bufpos s := c], snp_bufpos := snp_bufpos s + 1\<rparr>"
    have w: "wr (snp_buf s) (snp_bufpos s) c = Some ((snp_buf s)[snp_bufpos s := c])"
      using True 2(3) by (simp add: wr_def)
    have m: "min (Suc (length cs)) (snp_buflen s - snp_bufpos s) = Suc (min (length cs) (snp_buflen s - Suc (snp_bufpos s)))"
      using True by auto
    have "take (Suc (snp_bufpos s)) ((snp_buf s)[snp_bufpos s := c]) = take (snp_bufpos s) (snp_buf s) @ [c]"
      using True 2(3) by (simp add: take_Suc_conv_app_nth)
    then show ?thesis using 2(1) [OF True, of "(snp_buf s)[snp_bufpos s := c]"] 2(3,4) True by (simp add: w m Let_def)
  next
    case False
    then show ?thesis using 2 by (simp add: Let_def)
  qed
qed simp

interpretation snp: sender snprintf_send "\<lambda>s. snp_buflen s \<le> length (snp_buf s) \<and> snp_bufpos s \<le> snp_buflen s"
  by unfold_locales (auto simp: snprintf_send_append snprintf_send_text Let_def)

interpretation con: sender console_send "\<lambda>_. True"
  by unfold_locales (auto simp: console_send_def)

lemma vsnprintf_text:
  assumes "vprintf collect [] fmt ap = Some (n, t)" "len \<le> length buf"
  shows "vsnprintf buf len fmt ap =
    Some (int (length t), if len = 0 then buf else take (len - 1) t @ 0 # drop (Suc (min (length t) (len - 1))) buf)"
proof -
  define s where "s = \<lparr>snp_buf = buf, snp_buflen = (if len = 0 then 0 else len - 1), snp_bufpos = 0\<rparr>"
  have i: "snp_buflen s \<le> length (snp_buf s) \<and> snp_bufpos s \<le> snp_buflen s" using assms(2) by (auto simp: s_def)
  obtain d where d: "snprintf_send s t = Some d" "vprintf snprintf_send s fmt ap = Some (n, d)" "n = int (length t)"
    using snp.vprintf_send [OF i assms(1)] by blast
  define k where "k = min (length t) (len - 1)"
  have e: "snp_buf d = take k t @ drop k buf" "snp_bufpos d = k"
    using d(1) i by (auto simp: snprintf_send_text s_def Let_def k_def split: if_splits)
  show ?thesis
  proof (cases "len = 0")
    case True
    then have "snp_buf d = buf" using e by (simp add: k_def)
    then show ?thesis using True d by (simp add: vsnprintf_def s_def)
  next
    case False
    have k: "k < length buf" "k \<le> length t" using False assms(2) by (auto simp: k_def)
    then have "wr (snp_buf d) (snp_bufpos d) 0 = Some (take k t @ 0 # drop (Suc k) buf)"
      by (simp add: wr_def e list_update_append upd_conv_take_nth_drop Cons_nth_drop_Suc [symmetric])
    moreover have "take k t = take (len - 1) t" by (simp add: k_def min_def)
    ultimately show ?thesis using False d by (simp add: vsnprintf_def s_def k_def)
  qed
qed

subsection \<open>Line input\<close>

lemma erase_while_bound:
  "pos \<le> length buf \<Longrightarrow> \<exists>p c1. erase_while sp pos buf c = Some (p, c1) \<and> p \<le> pos \<and> con_in c1 = con_in c"
proof (induction pos arbitrary: c)
  case (Suc pos)
  then show ?case using Suc.IH [of "backsp c"] by (auto simp: rd_def backsp_def putch_def)
qed simp

lemma erase_line_in [simp]: "con_in (erase_line n c) = con_in c"
  by (induction n arbitrary: c) (simp_all add: backsp_def putch_def)

lemma console_send_in: "console_send c t = Some d \<Longrightarrow> con_in d = con_in c"
proof -
  have "con_in (foldl (\<lambda>k ch. putch (sint ch) k) c t) = con_in c" by (induction t arbitrary: c) (simp_all add: putch_def)
  then show "console_send c t = Some d \<Longrightarrow> con_in d = con_in c" by (auto simp: console_send_def)
qed

lemma printf_reprint:
  assumes "length t < 2000000000"
  shows "vprintf collect [] (codes ''^R'' @ [10] @ codes ''%s'') [StrArg (Ptr t)] = Some (3 + int (length t), [94, 82, 10] @ t)"
  using assms
  by (simp add: vprintf_def pf_endfield_def codes_def pf_send_def kassert_def pf_print_collect collect_def
      va_str_def pf_printstuff_def cint_def pf_print_def Let_def)

lemma kgets_reprint_ok:
  assumes "length buf < 2000000000"
  shows "\<exists>c1. kgets_reprint buf c = Some c1 \<and> con_in c1 = con_in c"
proof -
  have "length (takeWhile (\<lambda>c. c \<noteq> 0) buf) < 2000000000" using assms length_takeWhile_le le_less_trans by blast
  then obtain n u where "vprintf collect [] (codes ''^R'' @ [10] @ codes ''%s'') [StrArg (Ptr (takeWhile (\<lambda>c. c \<noteq> 0) buf))] = Some (n, u)"
    using printf_reprint by blast
  then obtain d where "console_send c u = Some d"
    "vprintf console_send c (codes ''^R'' @ [10] @ codes ''%s'') [StrArg (Ptr (takeWhile (\<lambda>c. c \<noteq> 0) buf))] = Some (n, d)"
    using con.vprintf_send [OF TrueI] by blast
  then show ?thesis using console_send_in by (auto simp: kgets_reprint_def)
qed

lemma kgets_loop_returns:
  assumes "unat maxlen \<le> length buf" "0 < unat maxlen" "length buf < 2000000000" "pos < unat maxlen"
    "10 \<in> set (con_in c) \<or> 13 \<in> set (con_in c)"
  shows "\<exists>p b c1. kgets_loop maxlen pos buf c = Some (p, b, c1) \<and> p < unat maxlen \<and> length b = length buf \<and>
    drop (unat maxlen) b = drop (unat maxlen) buf"
  using assms
proof (induction "con_in c" arbitrary: pos buf c)
  case (Cons ch r)
  have m: "unat (maxlen - 1) = unat maxlen - 1" using Cons.prems(2) by (subst unat_minus_one) (auto simp: unat_gt_0)
  define c1 where "c1 = c\<lparr>con_in := r\<rparr>"
  have g: "getch c = Some (ch, c1)" using Cons.hyps(2) [symmetric] by (simp add: getch_def c1_def)
  define ok where "ok r \<longleftrightarrow> (\<exists>p b c1. r = Some (p, b, c1) \<and> p < unat maxlen \<and> length b = length buf \<and>
    drop (unat maxlen) b = drop (unat maxlen) buf)" for r :: "(nat \<times> ctext \<times> console) option"
  have ih: "ok (kgets_loop maxlen pos' buf' c')"
    if "ch \<noteq> 10" "ch \<noteq> 13" "con_in c' = r" "pos' < unat maxlen" "length buf' = length buf" "drop (unat maxlen) buf' = drop (unat maxlen) buf"
    for pos' buf' c'
    using Cons.hyps(1) [of c' buf' pos'] that Cons.prems Cons.hyps(2) [symmetric] by (auto simp: ok_def)
  have w: "wr buf pos x = Some (buf[pos := x])" for x using Cons.prems by (simp add: wr_def)
  have "ok (kgets_loop maxlen pos buf c)"
  proof (cases "ch = 10 \<or> ch = 13")
    case True
    then show ?thesis using Cons.prems(4) by (subst kgets_loop.simps) (auto simp: g ok_def)
  next
    case nl: False
    obtain e where e: "kgets_reprint (buf[pos := 0]) c1 = Some e" "con_in e = r"
      using kgets_reprint_ok [of "buf[pos := 0]" c1] Cons.prems(3) by (auto simp: c1_def)
    obtain p1 c2 where 1: "erase_while True pos buf c1 = Some (p1, c2)" "p1 \<le> pos" "con_in c2 = r"
      using erase_while_bound [of pos buf True c1] Cons.prems by (auto simp: c1_def)
    obtain p2 c3 where 2: "erase_while False p1 buf c2 = Some (p2, c3)" "p2 \<le> p1" "con_in c3 = r"
      using erase_while_bound [of p1 buf False c2] 1 Cons.prems by auto
    have c: "con_in (putch x c1) = r" "con_in (backsp c1) = r" "con_in (beep c1) = r" "con_in (erase_line pos c1) = r" for x
      by (simp_all add: c1_def putch_def backsp_def beep_def)
    have n: "ch \<noteq> 10" "ch \<noteq> 13" using nl by auto
    have "ok (kgets_loop maxlen (pos + 1) (buf[pos := word_of_int ch]) (putch ch c1))" if "pos < unat maxlen - 1"
      using ih [OF n c(1), of "pos + 1" "buf[pos := word_of_int ch]" ch] that Cons.prems by simp
    moreover have "ok (Some (0, buf, x))" for x using Cons.prems by (simp add: ok_def)
    moreover define z where "z \<longleftrightarrow> 0 < pos"
    ultimately show ?thesis
      using n ih [OF n c(2), of "pos - 1" buf] ih [OF n e(2), of pos "buf[pos := 0]"] ih [OF n c(4), of 0 buf]
        ih [OF n 2(3), of p2 buf] ih [OF n c(3), of pos buf] 1(2) 2(2) Cons.prems
      by (subst kgets_loop.simps) (simp add: g w m e(1) 1(1) 2(1) z_def [symmetric] del: neq0_conv)
  qed
  then show ?case by (simp add: ok_def)
qed simp

lemma kgets_returns:
  assumes "0 < unat maxlen" "unat maxlen \<le> length buf" "length buf < 2000000000" "10 \<in> set (con_in c) \<or> 13 \<in> set (con_in c)"
  shows "\<exists>b c1. kgets buf maxlen c = Some (b, c1) \<and> length b = length buf \<and> drop (unat maxlen) b = drop (unat maxlen) buf \<and>
    0 \<in> set (take (unat maxlen) b)"
proof -
  obtain p b c1 where l: "kgets_loop maxlen 0 buf c = Some (p, b, c1)" "p < unat maxlen" "length b = length buf"
    "drop (unat maxlen) b = drop (unat maxlen) buf"
    using kgets_loop_returns [of maxlen buf 0 c] assms by auto
  have "take (unat maxlen) (b[p := 0]) ! p = 0" "p < length (take (unat maxlen) (b[p := 0]))" using l assms(2) by auto
  then have "0 \<in> set (take (unat maxlen) (b[p := 0]))" by (metis nth_mem)
  then show ?thesis using l assms(2) by (simp add: kgets_def wr_def)
qed

subsection \<open>Properties\<close>

text \<open>
  C34: What \<open>printf\<close> prints, \<open>atoi\<close> reads. For every \<open>int\<close> but the least one, printing it with
  \<^verbatim>\<open>%d\<close> succeeds, and \<open>atoi\<close> on the text, wherever it is stored as a C string, returns the number.
\<close>

theorem printf_atoi_roundtrip:
  assumes "- (2 ^ 31) < sint w"
  shows "\<exists>k out. vprintf collect [] (codes ''%d'') [IntArg w] = Some (k, out) \<and>
    (\<forall>m p. cstr m p out \<longrightarrow> atoi m p = Some (sint w))"
proof -
  have h: "- 2147483648 < sint w" using assms by simp
  have sw: "sint w < 2147483648" using sint_lt [of w] by simp
  let ?n = "nat \<bar>sint w\<bar>" and ?s = "if sint w < 0 then [45 :: 8 word] else []"
  obtain k where p: "vprintf collect [] (codes ''%d'') [IntArg w] = Some (k, ?s @ dec (digs 10 ?n))"
    using printf_d [OF h] by blast
  have "atoi m q = Some (sint w)" if c: "cstr m q (?s @ dec (digs 10 ?n))" for m q
  proof -
    have "atoi m q = Some (sint (if ?s = [45] then - of_nat (dec_val (digs 10 ?n)) else of_nat (dec_val (digs 10 ?n)) :: 32 word))"
      using c digs_bound [of 10 _ ?n] digs_nonempty [of 10 ?n] by (intro atoi_cstr [of "[]" ?s "digs 10 ?n" "[]"]) auto
    then show ?thesis using h sw sint_of_nat_ok [of ?n] sint_neg_of_nat_ok [of ?n] by (auto simp: dec_val_digs split: if_splits)
  qed
  then show ?thesis using p by blast
qed

theorem printf_atoi_roundtrip_witness:
  "\<exists>k out. vprintf collect [] (codes ''%d'') [IntArg (-42)] = Some (k, out) \<and> (\<forall>m p. cstr m p out \<longrightarrow> atoi m p = Some (-42))"
  using printf_atoi_roundtrip [of "-42"] by simp

text \<open>
  C35: The digits fit. Whatever the number and for each of the bases 8, 10 and 16, converting it
  writes inside the number buffer only and leaves exactly the digits of the number, from the most
  significant one on, before the terminator.
\<close>

theorem printnum_fits:
  assumes "b = 8 \<or> b = 10 \<or> b = 16"
  shows "\<exists>x buf. printnum_loop (word_of_int (int b)) w (int NUMBER_BUF_SIZE - 2) (replicate NUMBER_BUF_SIZE 0) = Some (x, buf) \<and>
    - 1 \<le> x \<and> length buf = NUMBER_BUF_SIZE \<and>
    takeWhile (\<lambda>c. c \<noteq> 0) (drop (nat (x + 1)) buf) = map dchar (digs b (unat w))"
proof -
  obtain buf where "printnum_loop (word_of_int (int b)) w (int NUMBER_BUF_SIZE - 2) (replicate NUMBER_BUF_SIZE 0) =
      Some (int NUMBER_BUF_SIZE - 2 - int (length (digs b (unat w))), buf)" "length buf = NUMBER_BUF_SIZE"
    "length (digs b (unat w)) < NUMBER_BUF_SIZE"
    "takeWhile (\<lambda>c. c \<noteq> 0) (drop (nat (int NUMBER_BUF_SIZE - 1 - int (length (digs b (unat w))))) buf) =
      map dchar (digs b (unat w))" using printnum_text [OF assms, of w] by blast
  moreover have "int NUMBER_BUF_SIZE - 2 - k + 1 = int NUMBER_BUF_SIZE - 1 - k" for k by simp
  ultimately show ?thesis
    by (intro exI [of _ "int NUMBER_BUF_SIZE - 2 - int (length (digs b (unat w)))"] exI [of _ buf]) (simp only:, simp)
qed

theorem printnum_fits_witness:
  "\<exists>x buf. printnum_loop 8 0xffffffff (int NUMBER_BUF_SIZE - 2) (replicate NUMBER_BUF_SIZE 0) = Some (x, buf) \<and> - 1 \<le> x"
  using printnum_fits [of 8 "0xffffffff"] by auto

text \<open>
  C36: \<open>vsnprintf\<close> stores the text the conversion produces, cut to the first \<open>len - 1\<close> characters
  and followed by a terminator, leaves every byte behind it alone and does nothing to the buffer when
  \<open>len\<close> is 0; its result is the length of the whole text. The text is the one a send function
  that keeps everything receives.
\<close>

theorem vsnprintf_truncates:
  assumes "vprintf collect [] fmt ap = Some (n, t)" and "len \<le> length buf"
  shows "n = int (length t) \<and> vsnprintf buf len fmt ap =
    Some (n, if len = 0 then buf else take (len - 1) t @ 0 # drop (Suc (min (length t) (len - 1))) buf)"
  using vsnprintf_text [OF assms] snp.vprintf_send [OF _ assms(1), of "\<lparr>snp_buf = [], snp_buflen = 0, snp_bufpos = 0\<rparr>"] by auto

theorem vsnprintf_truncates_witness:
  "vsnprintf [1, 2, 3, 4, 5, 6] 3 (codes ''^R'' @ [10] @ codes ''%s'') [StrArg (Ptr [104, 105])] = Some (5, [94, 82, 0, 4, 5, 6])"
proof -
  have v: "vprintf collect [] (codes ''^R'' @ [10] @ codes ''%s'') [StrArg (Ptr [104, 105])] = Some (5, [94, 82, 10, 104, 105])"
    using printf_reprint [of "[104, 105]"] by simp
  show ?thesis using vsnprintf_truncates [OF v, of 3 "[1, 2, 3, 4, 5, 6]"] by (simp add: numeral_2_eq_2)
qed

text \<open>
  \<open>kgets\<close> returns whenever a line end is among the characters typed, whatever editing keys
  surround it; it writes only inside the \<open>maxlen\<close> bytes it was given, and leaves a terminated
  string there.
\<close>

lemma kgets_line:
  assumes "0 < unat maxlen" and "unat maxlen \<le> length buf" and "length buf < 2000000000"
    and "10 \<in> set (con_in c) \<or> 13 \<in> set (con_in c)"
  shows "\<exists>b c1. kgets buf maxlen c = Some (b, c1) \<and> length b = length buf \<and> drop (unat maxlen) b = drop (unat maxlen) buf \<and>
    0 \<in> set (take (unat maxlen) b)"
  using kgets_returns [OF assms] .

lemma kgets_line_witness:
  "\<exists>b c1. kgets [1, 2, 3, 4] 3 \<lparr>con_in = [97, 23, 98, 18, 99, 100, 10], con_out = [], con_beeps = 0\<rparr> = Some (b, c1) \<and>
     length b = 4 \<and> b ! 3 = 4"
proof -
  obtain b c1 where b: "kgets [1, 2, 3, 4] 3 \<lparr>con_in = [97, 23, 98, 18, 99, 100, 10], con_out = [], con_beeps = 0\<rparr> = Some (b, c1)"
    "length b = 4" "drop 3 b = [4]"
    using kgets_line [of 3 "[1, 2, 3, 4]" "\<lparr>con_in = [97, 23, 98, 18, 99, 100, 10], con_out = [], con_beeps = 0\<rparr>"] by auto
  then have "b ! 3 = 4" by (metis nth_via_drop)
  then show ?thesis using b by blast
qed

end
