(* ===== verification/K_Copy.thy ===== *)
theory K_Copy
  imports K_VM
begin

section \<open>User memory: \<^verbatim>\<open>kern/lib/copyinout.c\<close>, \<^verbatim>\<open>kern/userprog/uio.c\<close>\<close>

text \<open>
  Copying between the kernel and addresses that a user program supplied. The memory is the one
  the current thread sees; \<open>mapped\<close> tells for the address of a page whether an access to the page
  can be satisfied. An access that cannot is a fatal fault: \<open>mips_trap\<close> panics, unless
  \<open>pcb_badfaultfunc\<close> is set, in which case the run continues in \<open>copyfail\<close>, that is at the \<open>setjmp\<close>.
\<close>

record ustate =
  u_mem :: mem
  u_badfault :: bool

text \<open>\<open>Some False\<close> is the jump to \<open>copyfail\<close>.\<close>

definition touch :: "(32 word \<Rightarrow> bool) \<Rightarrow> 32 word \<Rightarrow> ustate \<Rightarrow> bool option" where
  "touch mapped v u = (if mapped (v AND PAGE_FRAME) then Some True else if u_badfault u then Some False else None)"

text \<open>\<open>memcpy\<close> on such addresses. The result tells whether it has finished.\<close>

primrec ucpy_longs :: "(32 word \<Rightarrow> bool) \<Rightarrow> nat \<Rightarrow> 32 word \<Rightarrow> 32 word \<Rightarrow> ustate \<Rightarrow> (bool \<times> ustate) option" where
  "ucpy_longs mapped 0 d s u = Some (True, u)"
| "ucpy_longs mapped (Suc i) d s u = do {
     (fin, u1) \<leftarrow> ucpy_longs mapped i d s u;
     if \<not> fin then Some (False, u1) else do {
     r \<leftarrow> touch mapped (s + 4 * of_nat i) u1;
     if \<not> r then Some (False, u1) else do {
     w \<leftarrow> touch mapped (d + 4 * of_nat i) u1;
     if \<not> w then Some (False, u1)
     else Some (True, u1\<lparr>u_mem := store_bytes (load_long (u_mem u1) (s + 4 * of_nat i)) (d + 4 * of_nat i) (u_mem u1)\<rparr>)
     }}
   }"

primrec ucpy_chars :: "(32 word \<Rightarrow> bool) \<Rightarrow> nat \<Rightarrow> 32 word \<Rightarrow> 32 word \<Rightarrow> ustate \<Rightarrow> (bool \<times> ustate) option" where
  "ucpy_chars mapped 0 d s u = Some (True, u)"
| "ucpy_chars mapped (Suc i) d s u = do {
     (fin, u1) \<leftarrow> ucpy_chars mapped i d s u;
     if \<not> fin then Some (False, u1) else do {
     r \<leftarrow> touch mapped (s + of_nat i) u1;
     if \<not> r then Some (False, u1) else do {
     w \<leftarrow> touch mapped (d + of_nat i) u1;
     if \<not> w then Some (False, u1)
     else Some (True, u1\<lparr>u_mem := (u_mem u1)(d + of_nat i := u_mem u1 (s + of_nat i))\<rparr>)
     }}
   }"

definition umemcpy :: "(32 word \<Rightarrow> bool) \<Rightarrow> 32 word \<Rightarrow> 32 word \<Rightarrow> 32 word \<Rightarrow> ustate \<Rightarrow> (bool \<times> ustate) option" where
  "umemcpy mapped dst src len u =
     (if dst mod 4 = 0 \<and> src mod 4 = 0 \<and> len mod 4 = 0
      then ucpy_longs mapped (unat (len div 4)) dst src u
      else ucpy_chars mapped (unat len) dst src u)"

subsection \<open>Checking and copying\<close>

definition USERTOP :: "32 word" where "USERTOP = 0x80000000"

text \<open>The second component is \<open>*stoplen\<close>.\<close>

definition copycheck :: "32 word \<Rightarrow> 32 word \<Rightarrow> int \<times> 32 word" where
  "copycheck userptr len = (
     let bot = userptr; tp = bot + len - 1
     in if tp < bot then (EFAULT, len)
        else if bot \<ge> USERTOP then (EFAULT, len)
        else if tp \<ge> USERTOP then (0, USERTOP - bot)
        else (0, len))"

definition copyin :: "(32 word \<Rightarrow> bool) \<Rightarrow> 32 word \<Rightarrow> 32 word \<Rightarrow> 32 word \<Rightarrow> ustate \<Rightarrow> (int \<times> ustate) option" where
  "copyin mapped usersrc dest len u = (
     let (result, stoplen) = copycheck usersrc len
     in if result \<noteq> 0 then Some (result, u)
        else if stoplen \<noteq> len then Some (EFAULT, u)
        else do {
          (fin, u1) \<leftarrow> umemcpy mapped dest usersrc len (u\<lparr>u_badfault := True\<rparr>);
          let u2 = u1\<lparr>u_badfault := False\<rparr>;
          if \<not> fin then Some (EFAULT, u2) else Some (0, u2)
        })"

definition copyout :: "(32 word \<Rightarrow> bool) \<Rightarrow> 32 word \<Rightarrow> 32 word \<Rightarrow> 32 word \<Rightarrow> ustate \<Rightarrow> (int \<times> ustate) option" where
  "copyout mapped src userdest len u = (
     let (result, stoplen) = copycheck userdest len
     in if result \<noteq> 0 then Some (result, u)
        else if stoplen \<noteq> len then Some (EFAULT, u)
        else do {
          (fin, u1) \<leftarrow> umemcpy mapped userdest src len (u\<lparr>u_badfault := True\<rparr>);
          let u2 = u1\<lparr>u_badfault := False\<rparr>;
          if \<not> fin then Some (EFAULT, u2) else Some (0, u2)
        })"

text \<open>
  The loop of \<open>copystr\<close> from \<open>i\<close>, with \<open>n\<close> iterations left. \<open>Inl ()\<close> is the jump to \<open>copyfail\<close>,
  \<open>Inr (Some l)\<close> the end of the string with \<open>*gotlen\<close> set to \<open>l\<close>.
\<close>

primrec copystr_loop :: "(32 word \<Rightarrow> bool) \<Rightarrow> nat \<Rightarrow> 32 word \<Rightarrow> 32 word \<Rightarrow> 32 word \<Rightarrow> ustate
    \<Rightarrow> ((unit + 32 word option) \<times> ustate) option" where
  "copystr_loop mapped 0 i dest src u = Some (Inr None, u)"
| "copystr_loop mapped (Suc n) i dest src u = do {
     r \<leftarrow> touch mapped (src + i) u;
     if \<not> r then Some (Inl (), u) else do {
     w \<leftarrow> touch mapped (dest + i) u;
     if \<not> w then Some (Inl (), u) else do {
     let u1 = u\<lparr>u_mem := (u_mem u)(dest + i := u_mem u (src + i))\<rparr>;
     if u_mem u1 (src + i) = 0 then Some (Inr (Some (i + 1)), u1)
     else copystr_loop mapped n (i + 1) dest src u1
     }}
   }"

definition copystr :: "(32 word \<Rightarrow> bool) \<Rightarrow> 32 word \<Rightarrow> 32 word \<Rightarrow> 32 word \<Rightarrow> 32 word \<Rightarrow> 32 word \<Rightarrow> ustate
    \<Rightarrow> ((unit + int \<times> 32 word) \<times> ustate) option" where
  "copystr mapped dest src maxlen stoplen gotlen u = do {
     (r, u1) \<leftarrow> copystr_loop mapped (unat (min maxlen stoplen)) 0 dest src u;
     Some (case r of Inl _ \<Rightarrow> Inl ()
           | Inr (Some l) \<Rightarrow> Inr (0, l)
           | Inr None \<Rightarrow> Inr (if stoplen < maxlen then EFAULT else ENAMETOOLONG, gotlen), u1)
   }"

text \<open>Result, \<open>*actual\<close> and the memory; \<open>actual\<close> is the value of \<open>*actual\<close> before the call.\<close>

definition copyinstr :: "(32 word \<Rightarrow> bool) \<Rightarrow> 32 word \<Rightarrow> 32 word \<Rightarrow> 32 word \<Rightarrow> 32 word \<Rightarrow> ustate
    \<Rightarrow> (int \<times> 32 word \<times> ustate) option" where
  "copyinstr mapped usersrc dest len actual u = (
     let (result, stoplen) = copycheck usersrc len
     in if result \<noteq> 0 then Some (result, actual, u)
        else do {
          (r, u1) \<leftarrow> copystr mapped dest usersrc len stoplen actual (u\<lparr>u_badfault := True\<rparr>);
          let u2 = u1\<lparr>u_badfault := False\<rparr>;
          (case r of Inl _ \<Rightarrow> Some (EFAULT, actual, u2) | Inr (result, got) \<Rightarrow> Some (result, got, u2))
        })"

definition copyoutstr :: "(32 word \<Rightarrow> bool) \<Rightarrow> 32 word \<Rightarrow> 32 word \<Rightarrow> 32 word \<Rightarrow> 32 word \<Rightarrow> ustate
    \<Rightarrow> (int \<times> 32 word \<times> ustate) option" where
  "copyoutstr mapped src userdest len actual u = (
     let (result, stoplen) = copycheck userdest len
     in if result \<noteq> 0 then Some (result, actual, u)
        else do {
          (r, u1) \<leftarrow> copystr mapped userdest src len stoplen actual (u\<lparr>u_badfault := True\<rparr>);
          let u2 = u1\<lparr>u_badfault := False\<rparr>;
          (case r of Inl _ \<Rightarrow> Some (EFAULT, actual, u2) | Inr (result, got) \<Rightarrow> Some (result, got, u2))
        })"

subsection \<open>Transfers described by a uio\<close>

datatype uio_rw = UIO_READ | UIO_WRITE

datatype uio_seg = UIO_USERSPACE | UIO_SYSSPACE | UIO_USERISPACE

text \<open>\<open>iov_base\<close> is the union of the two kinds of pointers; \<open>off_t\<close> and \<open>size_t\<close> have 32 bits.\<close>

record uio =
  iov_base :: "32 word"
  iov_len :: "32 word"
  uio_offset :: "32 word"
  uio_resid :: "32 word"
  uio_segflg :: uio_seg
  uio_rw :: uio_rw
  uio_space :: addr

text \<open>
  One round of the loop for \<open>size\<close> bytes between the kernel address \<open>ptr\<close> and the uio. Accesses of
  \<open>memmove\<close> to memory that is not mapped are not recovered.
\<close>

definition kernel_mapped :: "(32 word \<Rightarrow> bool) \<Rightarrow> 32 word \<Rightarrow> 32 word \<Rightarrow> bool" where
  "kernel_mapped mapped p len \<longleftrightarrow> (\<forall>i \<in> set [0..<unat len]. mapped ((p + of_nat i) AND PAGE_FRAME))"

definition uio_transfer :: "(32 word \<Rightarrow> bool) \<Rightarrow> 32 word \<Rightarrow> 32 word \<Rightarrow> uio \<Rightarrow> ustate \<Rightarrow> (int \<times> ustate) option" where
  "uio_transfer mapped ptr sz uio u =
     (if uio_segflg uio = UIO_SYSSPACE then do {
        kassert (kernel_mapped mapped ptr sz \<and> kernel_mapped mapped (iov_base uio) sz);
        Some (0, if uio_rw uio = UIO_READ then u\<lparr>u_mem := memmove (iov_base uio) ptr sz (u_mem u)\<rparr>
                 else u\<lparr>u_mem := memmove ptr (iov_base uio) sz (u_mem u)\<rparr>)
      }
      else if uio_rw uio = UIO_READ then copyout mapped ptr (iov_base uio) sz u
      else copyin mapped (iov_base uio) ptr sz u)"

partial_function (option) uiomove_loop ::
  "(32 word \<Rightarrow> bool) \<Rightarrow> 32 word \<Rightarrow> 32 word \<Rightarrow> uio \<Rightarrow> ustate \<Rightarrow> (int \<times> uio \<times> ustate) option" where
  "uiomove_loop mapped ptr n uio u =
     (if n > 0 \<and> uio_resid uio > 0 then do {
        let sz = (if iov_len uio > n then n else iov_len uio);
        kassert (sz \<noteq> 0);
        (result, u1) \<leftarrow> uio_transfer mapped ptr sz uio u;
        if result \<noteq> 0 then Some (result, uio, u1)
        else uiomove_loop mapped (ptr + sz) (n - sz)
          (uio\<lparr>iov_base := iov_base uio + sz, iov_len := iov_len uio - sz, uio_resid := uio_resid uio - sz,
            uio_offset := uio_offset uio + sz\<rparr>) u1
      }
      else Some (0, uio, u))"

text \<open>\<open>space\<close> is the address space of the current thread.\<close>

definition uiomove :: "(32 word \<Rightarrow> bool) \<Rightarrow> addr \<Rightarrow> 32 word \<Rightarrow> 32 word \<Rightarrow> uio \<Rightarrow> ustate \<Rightarrow> (int \<times> uio \<times> ustate) option" where
  "uiomove mapped space ptr n uio u = do {
     kassert (uio_space uio = (if uio_segflg uio = UIO_SYSSPACE then 0 else space));
     uiomove_loop mapped ptr n uio u
   }"

text \<open>\<open>zeros\<close> is the address of the static block of 16 zero bytes.\<close>

partial_function (option) uiomovezeros_loop ::
  "(32 word \<Rightarrow> bool) \<Rightarrow> addr \<Rightarrow> 32 word \<Rightarrow> 32 word \<Rightarrow> uio \<Rightarrow> ustate \<Rightarrow> (int \<times> uio \<times> ustate) option" where
  "uiomovezeros_loop mapped space zeros n uio u =
     (if n > 0 then do {
        let amt = (if 16 > n then n else 16);
        (result, uio1, u1) \<leftarrow> uiomove mapped space zeros amt uio u;
        if result \<noteq> 0 then Some (result, uio1, u1)
        else uiomovezeros_loop mapped space zeros (n - amt) uio1 u1
      }
      else Some (0, uio, u))"

definition uiomovezeros :: "(32 word \<Rightarrow> bool) \<Rightarrow> addr \<Rightarrow> 32 word \<Rightarrow> 32 word \<Rightarrow> uio \<Rightarrow> ustate \<Rightarrow> (int \<times> uio \<times> ustate) option" where
  "uiomovezeros mapped space zeros n uio u = do {
     kassert (uio_rw uio = UIO_READ);
     uiomovezeros_loop mapped space zeros n uio u
   }"

definition mk_kuio :: "32 word \<Rightarrow> 32 word \<Rightarrow> 32 word \<Rightarrow> uio_rw \<Rightarrow> uio" where
  "mk_kuio kbuf len pos rw = \<lparr>iov_base = kbuf, iov_len = len, uio_offset = pos, uio_resid = len,
     uio_segflg = UIO_SYSSPACE, uio_rw = rw, uio_space = 0\<rparr>"

subsection \<open>The protected copy\<close>

text \<open>It copies a prefix, which is everything exactly if all the bytes can be accessed.\<close>

lemma page_of_word:
  assumes "v mod 4 = (0 :: 32 word)" "j < 4"
  shows "(v + of_nat j) AND PAGE_FRAME = v AND PAGE_FRAME"
proof -
  have v: "unat v mod 4 = 0" using assms(1) by (simp add: word_unat_eq_iff unat_mod)
  then have "unat v < 4294967293" using unat_less_32 [of v] by presburger
  then have u: "unat (v + of_nat j) = unat v + j" using assms(2) by (simp add: unat_plus_ok unat_of_nat_ok)
  have "(unat v + j) div 4 = unat v div 4" using v assms(2) by presburger
  then have "(unat v + j) div (4 * 1024) = unat v div (4 * 1024)" by (simp only: div_mult2_eq)
  then show ?thesis by (simp add: word_unat_eq_iff frame_unat u)
qed

lemma ucpy_chars_prefix:
  assumes "u_badfault u"
  shows "\<exists>k \<le> n. ucpy_chars mapped n d s u = Some (k = n, u\<lparr>u_mem := cpy_chars k d s (u_mem u)\<rparr>) \<and>
    (\<forall>i < k. mapped ((s + of_nat i) AND PAGE_FRAME) \<and> mapped ((d + of_nat i) AND PAGE_FRAME)) \<and>
    (k < n \<longrightarrow> \<not> (mapped ((s + of_nat k) AND PAGE_FRAME) \<and> mapped ((d + of_nat k) AND PAGE_FRAME)))"
proof (induction n)
  case (Suc n)
  then obtain k where k: "k \<le> n" "ucpy_chars mapped n d s u = Some (k = n, u\<lparr>u_mem := cpy_chars k d s (u_mem u)\<rparr>)"
    "\<forall>i < k. mapped ((s + of_nat i) AND PAGE_FRAME) \<and> mapped ((d + of_nat i) AND PAGE_FRAME)"
    "k < n \<longrightarrow> \<not> (mapped ((s + of_nat k) AND PAGE_FRAME) \<and> mapped ((d + of_nat k) AND PAGE_FRAME))" by blast
  show ?case
  proof (cases "k = n \<and> mapped ((s + of_nat k) AND PAGE_FRAME) \<and> mapped ((d + of_nat k) AND PAGE_FRAME)")
    case True
    then show ?thesis using k by (intro exI [of _ "Suc n"]) (auto simp: touch_def less_Suc_eq Let_def fun_upd_def)
  next
    case False
    then show ?thesis using k assms by (intro exI [of _ k]) (auto simp: touch_def)
  qed
qed simp

lemma ucpy_longs_prefix:
  assumes "u_badfault u"
  shows "\<exists>k \<le> n. ucpy_longs mapped n d s u = Some (k = n, u\<lparr>u_mem := cpy_longs k d s (u_mem u)\<rparr>) \<and>
    (\<forall>i < k. mapped ((s + 4 * of_nat i) AND PAGE_FRAME) \<and> mapped ((d + 4 * of_nat i) AND PAGE_FRAME)) \<and>
    (k < n \<longrightarrow> \<not> (mapped ((s + 4 * of_nat k) AND PAGE_FRAME) \<and> mapped ((d + 4 * of_nat k) AND PAGE_FRAME)))"
proof (induction n)
  case (Suc n)
  then obtain k where k: "k \<le> n" "ucpy_longs mapped n d s u = Some (k = n, u\<lparr>u_mem := cpy_longs k d s (u_mem u)\<rparr>)"
    "\<forall>i < k. mapped ((s + 4 * of_nat i) AND PAGE_FRAME) \<and> mapped ((d + 4 * of_nat i) AND PAGE_FRAME)"
    "k < n \<longrightarrow> \<not> (mapped ((s + 4 * of_nat k) AND PAGE_FRAME) \<and> mapped ((d + 4 * of_nat k) AND PAGE_FRAME))" by blast
  show ?case
  proof (cases "k = n \<and> mapped ((s + 4 * of_nat k) AND PAGE_FRAME) \<and> mapped ((d + 4 * of_nat k) AND PAGE_FRAME)")
    case True
    then show ?thesis using k by (intro exI [of _ "Suc n"]) (auto simp: touch_def less_Suc_eq Let_def)
  next
    case False
    then show ?thesis using k assms by (intro exI [of _ k]) (auto simp: touch_def)
  qed
qed simp

definition accessible :: "(32 word \<Rightarrow> bool) \<Rightarrow> 32 word \<Rightarrow> nat \<Rightarrow> bool" where
  "accessible mapped p n \<longleftrightarrow> (\<forall>i < n. mapped ((p + of_nat i) AND PAGE_FRAME))"

lemma mod4_plus: "(v :: 32 word) mod 4 = 0 \<Longrightarrow> (v + 4 * of_nat i) mod 4 = 0"
proof -
  assume "v mod 4 = 0"
  then have "4 dvd unat v" by (simp add: word_unat_eq_iff unat_mod mod_eq_0_iff_dvd)
  moreover have "4 dvd unat (4 * of_nat i :: 32 word)" by (simp add: unat_word_ariths dvd_mod)
  ultimately have "4 dvd unat (v + 4 * of_nat i)" by (simp add: unat_word_ariths(1) dvd_mod)
  then show ?thesis by (simp add: word_unat_eq_iff unat_mod mod_eq_0_iff_dvd)
qed

lemma word_of_byte:
  assumes "(p :: 32 word) mod 4 = 0"
  shows "(p + of_nat i) AND PAGE_FRAME = (p + 4 * of_nat (i div 4)) AND PAGE_FRAME"
proof -
  have "(of_nat i :: 32 word) = 4 * of_nat (i div 4) + of_nat (i mod 4)"
    by (metis mult_div_mod_eq of_nat_add of_nat_mult of_nat_numeral)
  then have "p + of_nat i = (p + 4 * of_nat (i div 4)) + of_nat (i mod 4)" by (simp only: add.assoc)
  then show ?thesis using page_of_word [OF mod4_plus [OF assms], of "i mod 4" "i div 4"] by (simp only:)
qed

lemma accessible_words:
  assumes "(p :: 32 word) mod 4 = 0"
  shows "accessible mapped p (4 * n) \<longleftrightarrow> (\<forall>i < n. mapped ((p + 4 * of_nat i) AND PAGE_FRAME))"
proof
  assume a: "accessible mapped p (4 * n)"
  have "mapped ((p + of_nat (4 * i)) AND PAGE_FRAME)" if "i < n" for i
    using a [unfolded accessible_def, rule_format, of "4 * i"] that by linarith
  then show "\<forall>i < n. mapped ((p + 4 * of_nat i) AND PAGE_FRAME)" by simp
next
  assume a: "\<forall>i < n. mapped ((p + 4 * of_nat i) AND PAGE_FRAME)"
  have "i div 4 < n" if "i < 4 * n" for i using that by (simp add: less_mult_imp_div_less mult.commute)
  then show "accessible mapped p (4 * n)" using a unfolding accessible_def word_of_byte [OF assms] by blast
qed

lemma umemcpy_prefix:
  assumes "u_badfault u" "front_ok d s (unat len)"
  shows "\<exists>k \<le> unat len. umemcpy mapped d s len u = Some (k = unat len, u\<lparr>u_mem := moved d s k (u_mem u)\<rparr>) \<and>
    (k = unat len \<longleftrightarrow> accessible mapped s (unat len) \<and> accessible mapped d (unat len))"
proof (cases "d mod 4 = 0 \<and> s mod 4 = 0 \<and> len mod 4 = 0")
  case True
  define n where "n = unat (len div 4)"
  have n: "4 * n = unat len" using True mod4_longs [of len] by (simp add: n_def)
  obtain k where k: "k \<le> n" "ucpy_longs mapped n d s u = Some (k = n, u\<lparr>u_mem := cpy_longs k d s (u_mem u)\<rparr>)"
    "\<forall>i < k. mapped ((s + 4 * of_nat i) AND PAGE_FRAME) \<and> mapped ((d + 4 * of_nat i) AND PAGE_FRAME)"
    "k < n \<longrightarrow> \<not> (mapped ((s + 4 * of_nat k) AND PAGE_FRAME) \<and> mapped ((d + 4 * of_nat k) AND PAGE_FRAME))"
    using ucpy_longs_prefix [OF assms(1)] by blast
  have "cpy_longs k d s (u_mem u) = moved d s (4 * k) (u_mem u)" using cpy_longs_moved [OF assms(2), of k] k(1) n by simp
  moreover have "k = n \<longleftrightarrow> accessible mapped s (4 * n) \<and> accessible mapped d (4 * n)"
    using k(1,3,4) True by (auto simp: accessible_words order.order_iff_strict)
  moreover have "umemcpy mapped d s len u = ucpy_longs mapped n d s u" unfolding umemcpy_def n_def using True by (simp only: simp_thms if_True)
  moreover have "4 * k = unat len \<longleftrightarrow> k = n" "4 * k \<le> unat len" using n k(1) by auto
  ultimately show ?thesis using k(2) n by (intro exI [of _ "4 * k"]) simp
next
  case False
  obtain k where k: "k \<le> unat len" "ucpy_chars mapped (unat len) d s u = Some (k = unat len, u\<lparr>u_mem := cpy_chars k d s (u_mem u)\<rparr>)"
    "\<forall>i < k. mapped ((s + of_nat i) AND PAGE_FRAME) \<and> mapped ((d + of_nat i) AND PAGE_FRAME)"
    "k < unat len \<longrightarrow> \<not> (mapped ((s + of_nat k) AND PAGE_FRAME) \<and> mapped ((d + of_nat k) AND PAGE_FRAME))"
    using ucpy_chars_prefix [OF assms(1)] by blast
  have "cpy_chars k d s (u_mem u) = moved d s k (u_mem u)" using cpy_chars_moved [OF assms(2)] k(1) by simp
  moreover have "k = unat len \<longleftrightarrow> accessible mapped s (unat len) \<and> accessible mapped d (unat len)"
    using k(1,3,4) by (auto simp: accessible_def order.order_iff_strict)
  moreover have "umemcpy mapped d s len u = ucpy_chars mapped (unat len) d s u" unfolding umemcpy_def using False by (simp only: simp_thms if_False)
  ultimately show ?thesis using k(1,2) by (intro exI [of _ k]) simp
qed

subsection \<open>Copies never leave their regions\<close>

lemma copycheck_ok: "copycheck p len = (0, len) \<longleftrightarrow> 0 < unat len \<and> unat p + unat len \<le> 2147483648"
proof (cases "len = 0")
  case True
  have "p - 1 < p \<or> p = 0" by (cases "p = 0") (simp_all add: word_less_nat_alt unat_minus_one unat_gt_0)
  then show ?thesis using True by (auto simp: copycheck_def USERTOP_def Let_def)
next
  case False
  then have l: "0 < unat len" by (simp add: unat_gt_0)
  have ut: "unat USERTOP = 2147483648" by (simp add: USERTOP_def)
  show ?thesis
  proof (cases "unat p + unat len \<le> 4294967296")
    case True
    have "unat (len - 1) = unat len - 1" using False by (simp add: unat_minus_one)
    then have t: "unat (p + len - 1) = unat p + unat len - 1"
      using True l unat_plus_ok [of p "len - 1"] by (simp add: add_diff_eq)
    have "USERTOP - p \<noteq> len" if "USERTOP \<le> p + len - 1" "p < USERTOP"
    proof
      assume "USERTOP - p = len"
      then have "p + len - 1 = USERTOP - 1" by auto
      then show False using that(1) by (simp add: USERTOP_def)
    qed
    then show ?thesis using t l ut
      by (auto simp: copycheck_def Let_def word_less_nat_alt word_le_nat_alt)
  next
    case w: False
    have "unat (len - 1) = unat len - 1" using False by (simp add: unat_minus_one)
    then have "unat (p + len - 1) = (unat p + unat len - 1) mod 4294967296"
      using l unat_word_ariths(1) [of p "len - 1"] by (simp add: add_diff_eq)
    also have "\<dots> = unat p + unat len - 1 - 4294967296"
      using w l unat_less_32 [of p] unat_less_32 [of len] by (subst mod_if, subst mod_less) auto
    finally have "unat (p + len - 1) < unat p" using w l unat_less_32 [of len] by linarith
    then have "p + len - 1 < p" by (simp add: word_less_nat_alt)
    then show ?thesis using w by (simp add: copycheck_def Let_def)
  qed
qed

lemma copycheck_cases: "fst (copycheck p len) = 0 \<or> fst (copycheck p len) = EFAULT"
  by (simp add: copycheck_def Let_def)

text \<open>The block of user addresses a copy is allowed to touch.\<close>

definition user_block :: "(32 word \<Rightarrow> bool) \<Rightarrow> 32 word \<Rightarrow> 32 word \<Rightarrow> bool" where
  "user_block mapped p len \<longleftrightarrow> 0 < unat len \<and> unat p + unat len \<le> 2147483648 \<and> accessible mapped p (unat len)"

definition kernel_block :: "(32 word \<Rightarrow> bool) \<Rightarrow> 32 word \<Rightarrow> 32 word \<Rightarrow> bool" where
  "kernel_block mapped p len \<longleftrightarrow> 2147483648 \<le> unat p \<and> unat p + unat len \<le> 4294967296 \<and> accessible mapped p (unat len)"

lemma copyin_result:
  assumes "kernel_block mapped dest len" "\<not> u_badfault u"
  shows "\<exists>k \<le> unat len. copyin mapped usersrc dest len u =
    Some (if user_block mapped usersrc len then 0 else EFAULT, u\<lparr>u_mem := moved dest usersrc k (u_mem u)\<rparr>) \<and>
    (user_block mapped usersrc len \<longrightarrow> k = unat len)"
proof (cases "copycheck usersrc len = (0, len)")
  case True
  then have s: "0 < unat len" "unat usersrc + unat len \<le> 2147483648" by (auto simp: copycheck_ok)
  then have "front_ok dest usersrc (unat len)" using assms(1) by (auto simp: front_ok_def kernel_block_def)
  moreover let ?u = "u\<lparr>u_badfault := True\<rparr>"
  have "u_badfault ?u" by simp
  ultimately obtain k where k: "k \<le> unat len"
    "umemcpy mapped dest usersrc len ?u = Some (k = unat len, ?u\<lparr>u_mem := moved dest usersrc k (u_mem ?u)\<rparr>)"
    "k = unat len \<longleftrightarrow> accessible mapped usersrc (unat len) \<and> accessible mapped dest (unat len)"
    using umemcpy_prefix [of ?u] by blast
  have "u\<lparr>u_mem := m, u_badfault := False\<rparr> = u\<lparr>u_mem := m\<rparr>" for m using assms(2) by (cases u) simp
  then show ?thesis using k s True assms(1)
    by (intro exI [of _ k]) (simp add: copyin_def kernel_block_def user_block_def)
next
  case False
  then have "\<not> user_block mapped usersrc len" by (auto simp: copycheck_ok user_block_def)
  moreover have "moved dest usersrc 0 (u_mem u) = u_mem u" by (simp add: moved_def)
  ultimately show ?thesis using False copycheck_cases [of usersrc len]
    by (intro exI [of _ 0]) (cases "copycheck usersrc len", auto simp: copyin_def)
qed

lemma copyout_result:
  assumes "kernel_block mapped src len" "\<not> u_badfault u"
  shows "\<exists>k \<le> unat len. copyout mapped src userdest len u =
    Some (if user_block mapped userdest len then 0 else EFAULT, u\<lparr>u_mem := moved userdest src k (u_mem u)\<rparr>) \<and>
    (user_block mapped userdest len \<longrightarrow> k = unat len) \<and> (0 < k \<longrightarrow> unat userdest + unat len \<le> 2147483648)"
proof (cases "copycheck userdest len = (0, len)")
  case True
  then have s: "0 < unat len" "unat userdest + unat len \<le> 2147483648" by (auto simp: copycheck_ok)
  then have "front_ok userdest src (unat len)" using assms(1) by (auto simp: front_ok_def kernel_block_def word_le_nat_alt)
  moreover let ?u = "u\<lparr>u_badfault := True\<rparr>"
  have "u_badfault ?u" by simp
  ultimately obtain k where k: "k \<le> unat len"
    "umemcpy mapped userdest src len ?u = Some (k = unat len, ?u\<lparr>u_mem := moved userdest src k (u_mem ?u)\<rparr>)"
    "k = unat len \<longleftrightarrow> accessible mapped src (unat len) \<and> accessible mapped userdest (unat len)"
    using umemcpy_prefix [of ?u] by blast
  have "u\<lparr>u_mem := m, u_badfault := False\<rparr> = u\<lparr>u_mem := m\<rparr>" for m using assms(2) by (cases u) simp
  then show ?thesis using k s True assms(1)
    by (intro exI [of _ k]) (simp add: copyout_def kernel_block_def user_block_def)
next
  case False
  then have "\<not> user_block mapped userdest len" by (auto simp: copycheck_ok user_block_def)
  moreover have "moved userdest src 0 (u_mem u) = u_mem u" by (simp add: moved_def)
  ultimately show ?thesis using False copycheck_cases [of userdest len]
    by (intro exI [of _ 0]) (cases "copycheck userdest len", auto simp: copyout_def)
qed

text \<open>What \<open>moved\<close> changes lies in the target.\<close>

lemma moved_outside: "k \<le> n \<Longrightarrow> n \<le> unat (x - dst) \<Longrightarrow> moved dst src k m x = m x"
  by (simp add: moved_def)

lemma moved_user:
  assumes "unat dst + n \<le> 2147483648" "k \<le> n" "2147483648 \<le> unat x"
  shows "moved dst src k m x = m x"
proof -
  have "k \<le> unat (x - dst)" using assms unat_less_32 [of x] by (auto simp: unat_sub_if')
  then show ?thesis by (simp add: moved_def)
qed

subsection \<open>Strings\<close>

lemma copystr_loop_cstr:
  assumes "u_badfault u" "cstr (u_mem u) (src + i) xs" "length xs < n"
    "accessible mapped (src + i) (Suc (length xs))" "accessible mapped (dest + i) (Suc (length xs))"
    "unat src + unat i + length xs < 2147483648" "2147483648 \<le> unat dest" "unat dest + unat i + length xs < 4294967296"
  shows "\<exists>u1. copystr_loop mapped n i dest src u = Some (Inr (Some (i + of_nat (Suc (length xs)))), u1) \<and>
    cstr (u_mem u1) (dest + i) xs \<and> u_badfault u1 \<and> (\<forall>x. unat (x - (dest + i)) > length xs \<longrightarrow> u_mem u1 x = u_mem u x)"
  using assms
proof (induction xs arbitrary: n i u)
  case Nil
  then obtain n' where n: "n = Suc n'" by (cases n) auto
  have "src + i \<noteq> dest + i" using Nil by auto
  then show ?case using Nil by (auto simp: n touch_def accessible_def)
next
  case (Cons c xs)
  then obtain n' where n: "n = Suc n'" by (cases n) auto
  have "unat src \<noteq> unat dest" using Cons.prems(6,7) by linarith
  then have ne: "src + i \<noteq> dest + i" by auto
  have i1: "unat (i + 1) = unat i + 1" using Cons.prems(6) unat_plus_ok [of i 1] by simp
  have ac: "accessible mapped (p + (i + 1)) (Suc (length xs))" if "accessible mapped (p + i) (Suc (length (c # xs)))" for p
    using that unfolding accessible_def
    by (metis (no_types, lifting) Suc_mono add.assoc add.commute length_Cons of_nat_Suc)
  define m where "m = (u_mem u)(dest + i := u_mem u (src + i))"
  have si: "unat (src + i) = unat src + unat i" "unat (dest + i) = unat dest + unat i"
    using Cons.prems(6,7,8) by (auto simp: unat_plus_ok)
  have fr: "m (src + i + 1 + of_nat k) = u_mem u (src + i + 1 + of_nat k)" if "k \<le> length xs" for k
  proof -
    have "unat (of_nat (Suc k) :: 32 word) = Suc k" using that Cons.prems(6) by (simp only: unat_of_nat_ok length_Cons)
    then have "unat (src + i + of_nat (Suc k)) = unat src + unat i + Suc k"
      using si(1) that Cons.prems(6) unat_plus_ok [of "src + i" "of_nat (Suc k)"] by simp
    then have "unat (src + i + of_nat (Suc k)) < unat (dest + i)" using si(2) that Cons.prems(6,7) by simp
    then have "src + i + of_nat (Suc k) \<noteq> dest + i" by (metis less_irrefl)
    then show ?thesis by (simp add: m_def add.assoc)
  qed
  have cs: "cstr m (src + (i + 1)) xs"
    using Cons.prems(2) cstr_frame [of xs m "src + i + 1" "u_mem u", OF fr] by (simp add: add.assoc)
  obtain u1 where u1: "copystr_loop mapped n' (i + 1) dest src (u\<lparr>u_mem := m\<rparr>) = Some (Inr (Some (i + 1 + of_nat (Suc (length xs)))), u1)"
    "cstr (u_mem u1) (dest + (i + 1)) xs" "u_badfault u1" "\<forall>x. unat (x - (dest + (i + 1))) > length xs \<longrightarrow> u_mem u1 x = m x"
    using Cons.IH [of "u\<lparr>u_mem := m\<rparr>" "i + 1" n'] Cons.prems ac [OF Cons.prems(4)] ac [OF Cons.prems(5)] cs n i1 by auto
  have off: "x - (dest + (i + 1)) = (x - (dest + i)) - of_nat 1" for x by simp
  have "u_mem u1 (dest + i) = c"
  proof -
    have "dest + i - (dest + (i + 1)) = - 1" by simp
    then have "unat (dest + i - (dest + (i + 1))) = 4294967295"
      by (simp only: unsigned_minus_1_eq_mask) (simp add: mask_eq_exp_minus_1)
    then show ?thesis using u1(4) Cons.prems(2,8) by (simp add: m_def)
  qed
  moreover have "dest + i + 1 \<noteq> 0"
  proof -
    have "unat (dest + i + 1) = unat (dest + i) + 1" using si(2) Cons.prems(8) unat_plus_ok [of "dest + i" 1] by simp
    then show ?thesis by auto
  qed
  moreover have "u_mem u1 x = u_mem u x" if "unat (x - (dest + i)) > length (c # xs)" for x
  proof -
    have "unat (x - (dest + (i + 1))) = unat (x - (dest + i)) - 1" using that word_offset [of 1 "x - (dest + i)"] unfolding off by simp
    then have "unat (x - (dest + (i + 1))) > length xs" using that by simp
    moreover have "x \<noteq> dest + i" using that by auto
    ultimately show ?thesis using u1(4) by (simp add: m_def)
  qed
  moreover have "copystr_loop mapped n i dest src u = copystr_loop mapped n' (i + 1) dest src (u\<lparr>u_mem := m\<rparr>)"
  proof -
    have "mapped ((src + i) AND PAGE_FRAME)" "mapped ((dest + i) AND PAGE_FRAME)"
      using Cons.prems(4,5) unfolding accessible_def by (auto dest: spec [of _ 0])
    moreover have "m (src + i) \<noteq> 0" using Cons.prems(2) by (auto simp: m_def)
    ultimately show ?thesis by (simp add: n touch_def Let_def m_def [symmetric])
  qed
  ultimately show ?case using u1(1,2,3) Cons.prems(2) by (intro exI [of _ u1]) (auto simp: add.assoc)
qed

lemma copyinstr_cstr:
  assumes "cstr (u_mem u) usersrc xs" "length xs < unat len" "unat usersrc + length xs < 2147483648"
    "unat usersrc + unat len \<le> 4294967296" "accessible mapped usersrc (Suc (length xs))" "accessible mapped dest (Suc (length xs))"
    "2147483648 \<le> unat dest" "unat dest + length xs < 4294967296"
  shows "\<exists>u1. copyinstr mapped usersrc dest len actual u = Some (0, of_nat (Suc (length xs)), u1) \<and>
    cstr (u_mem u1) dest xs \<and> \<not> u_badfault u1 \<and> (\<forall>x. unat (x - dest) > length xs \<longrightarrow> u_mem u1 x = u_mem u x)"
proof -
  have l: "0 < unat len" using assms(2) by simp
  then have "len \<noteq> 0" by auto
  then have "unat (len - 1) = unat len - 1" by (simp add: unat_minus_one)
  then have t: "unat (usersrc + len - 1) = unat usersrc + unat len - 1"
    using assms(4) l unat_plus_ok [of usersrc "len - 1"] by (simp add: add_diff_eq)
  have ut: "unat USERTOP = 2147483648" by (simp add: USERTOP_def)
  obtain stop where stop: "copycheck usersrc len = (0, stop)" "length xs < unat (min len stop)"
  proof (cases "USERTOP \<le> usersrc + len - 1")
    case True
    have "unat (USERTOP - usersrc) = 2147483648 - unat usersrc"
      using assms(3) ut unat_minus_ok [of usersrc USERTOP] by (simp add: word_le_nat_alt)
    then have "length xs < unat (min len (USERTOP - usersrc))" using assms(2,3) unfolding min_def by auto
    then show ?thesis using that [of "USERTOP - usersrc"] True t l assms(3) ut
      by (auto simp: copycheck_def Let_def word_less_nat_alt word_le_nat_alt)
  next
    case False
    then show ?thesis using that [of len] t l assms(2,3) ut
      by (auto simp: copycheck_def Let_def word_less_nat_alt word_le_nat_alt)
  qed
  show ?thesis
    using copystr_loop_cstr [of "u\<lparr>u_badfault := True\<rparr>" usersrc 0 xs "unat (min len stop)" mapped dest] assms stop
    by (auto simp: copyinstr_def copystr_def)
qed

subsection \<open>Transfers\<close>

lemma kernel_mapped_accessible: "kernel_mapped mapped p len \<longleftrightarrow> accessible mapped p (unat len)"
  by (auto simp: kernel_mapped_def accessible_def)

text \<open>The state of a uio after \<open>k\<close> bytes.\<close>

definition advanced :: "32 word \<Rightarrow> uio \<Rightarrow> uio" where
  "advanced k uio = uio\<lparr>iov_base := iov_base uio + k, iov_len := iov_len uio - k, uio_resid := uio_resid uio - k,
     uio_offset := uio_offset uio + k\<rparr>"

text \<open>
  The loop of \<open>uiomove\<close> has at most one round that transfers. A second one finds the block of the uio
  empty and panics; it comes when more is asked for than the block holds, unless the block ends just
  where the rest does.
\<close>

lemma uiomove_rounds:
  assumes "uio_space uio = (if uio_segflg uio = UIO_SYSSPACE then 0 else space)"
  shows "uiomove mapped space ptr n uio u =
    (if n = 0 \<or> uio_resid uio = 0 then Some (0, uio, u)
     else if iov_len uio = 0 then None
     else let k = min n (iov_len uio) in do {
       (result, u1) \<leftarrow> uio_transfer mapped ptr k uio u;
       if result \<noteq> 0 then Some (result, uio, u1)
       else if n \<le> iov_len uio \<or> iov_len uio = uio_resid uio then Some (0, advanced k uio, u1)
       else None
     })"
proof (cases "0 < n \<and> 0 < uio_resid uio")
  case True
  define k where "k = min n (iov_len uio)"
  have sz: "(if iov_len uio > n then n else iov_len uio) = k" by (auto simp: k_def min_def)
  have nz: "n \<noteq> 0" "uio_resid uio \<noteq> 0" using True by auto
  have k0: "k = 0 \<longleftrightarrow> iov_len uio = 0" using nz(1) by (auto simp: k_def min_def)
  have rest: "uiomove_loop mapped (ptr + k) (n - k) (advanced k uio) u1 =
      (if n \<le> iov_len uio \<or> iov_len uio = uio_resid uio then Some (0, advanced k uio, u1) else None)" for u1
  proof (cases "n \<le> iov_len uio \<or> iov_len uio = uio_resid uio")
    case True
    then have "n - k = 0 \<or> uio_resid uio - k = 0" by (auto simp: k_def min_def)
    then show ?thesis using True by (subst uiomove_loop.simps) (auto simp: advanced_def)
  next
    case False
    then have k: "k = iov_len uio" "n - k > 0" "uio_resid uio - k > 0" by (auto simp: k_def min_def word_gt_0)
    then show ?thesis using False by (subst uiomove_loop.simps) (simp add: advanced_def kassert_def)
  qed
  have "uiomove_loop mapped ptr n uio u = (if k = 0 then None else do {
       (result, u1) \<leftarrow> uio_transfer mapped ptr k uio u;
       if result \<noteq> 0 then Some (result, uio, u1) else uiomove_loop mapped (ptr + k) (n - k) (advanced k uio) u1
     })"
    using True by (subst uiomove_loop.simps) (simp add: sz Let_def advanced_def kassert_def cong: if_cong)
  then show ?thesis using assms nz by (simp add: uiomove_def rest k0 k_def [symmetric] Let_def cong: if_cong)
next
  case False
  then have "n = 0 \<or> uio_resid uio = 0" by (simp add: word_gt_0)
  moreover have "uiomove_loop mapped ptr n uio u = Some (0, uio, u)"
    unfolding uiomove_loop.simps [of mapped ptr n] if_not_P [OF False] ..
  ultimately show ?thesis using assms by (simp add: uiomove_def)
qed

lemma uiomove_kernel_rounds:
  assumes "uio_segflg uio = UIO_SYSSPACE" "uio_space uio = 0" "k = min n (iov_len uio)"
    "accessible mapped ptr (unat k)" "accessible mapped (iov_base uio) (unat k)"
    "unat ptr + unat k \<le> 4294967296" "unat (iov_base uio) + unat k \<le> 4294967296"
  shows "uiomove mapped space ptr n uio u =
    (if n = 0 \<or> uio_resid uio = 0 then Some (0, uio, u)
     else if n \<le> iov_len uio \<or> iov_len uio \<noteq> 0 \<and> iov_len uio = uio_resid uio
     then Some (0, advanced k uio, u\<lparr>u_mem :=
       (if uio_rw uio = UIO_READ then moved (iov_base uio) ptr (unat k) (u_mem u)
        else moved ptr (iov_base uio) (unat k) (u_mem u))\<rparr>)
     else None)"
proof -
  have e: "uio_space uio = (if uio_segflg uio = UIO_SYSSPACE then 0 else space)" using assms(1,2) by simp
  have "uio_transfer mapped ptr k uio u = Some (0, u\<lparr>u_mem :=
       (if uio_rw uio = UIO_READ then moved (iov_base uio) ptr (unat k) (u_mem u)
        else moved ptr (iov_base uio) (unat k) (u_mem u))\<rparr>)"
    using assms by (simp add: uio_transfer_def kernel_mapped_accessible memmove_moved)
  then show ?thesis unfolding uiomove_rounds [OF e] Let_def assms(3) [symmetric] by (auto simp: word_le_0_iff)
qed

lemma uiomove_kernel:
  assumes "uio_resid uio \<le> iov_len uio" "n \<le> uio_resid uio \<or> iov_len uio = uio_resid uio"
    "uio_segflg uio = UIO_SYSSPACE" "uio_space uio = 0"
    "k = min n (uio_resid uio)" "accessible mapped ptr (unat k)" "accessible mapped (iov_base uio) (unat k)"
    "unat ptr + unat k \<le> 4294967296" "unat (iov_base uio) + unat k \<le> 4294967296"
  shows "uiomove mapped space ptr n uio u = Some (0, advanced k uio,
    u\<lparr>u_mem := (if uio_rw uio = UIO_READ then moved (iov_base uio) ptr (unat k) (u_mem u)
       else moved ptr (iov_base uio) (unat k) (u_mem u))\<rparr>)"
proof (cases "n = 0 \<or> uio_resid uio = 0")
  case True
  then have "k = 0" using assms(5) by (auto simp: min_def)
  then show ?thesis using True assms(3,4) uiomove_rounds [of uio space mapped ptr n u] by (simp add: advanced_def moved_def)
next
  case False
  have k: "k = min n (iov_len uio)" using assms(1,2,5) by (auto simp: min_def)
  have "n \<le> iov_len uio \<or> iov_len uio \<noteq> 0 \<and> iov_len uio = uio_resid uio" using assms(1,2) False by auto
  then show ?thesis using uiomove_kernel_rounds [OF assms(3,4) k assms(6-9), of space u] False by simp
qed

text \<open>
  A kernel buffer written and read back: two transfers, the first out of a buffer described by a
  uio, the second into one, carry the bytes over.
\<close>

lemma advanced_inv: "iov_len uio = uio_resid uio \<Longrightarrow> iov_len (advanced k uio) = uio_resid (advanced k uio)"
  by (simp add: advanced_def)

lemma mk_kuio_fields [simp]:
  "iov_base (mk_kuio b l p rw) = b" "iov_len (mk_kuio b l p rw) = l" "uio_resid (mk_kuio b l p rw) = l"
  "uio_segflg (mk_kuio b l p rw) = UIO_SYSSPACE" "uio_rw (mk_kuio b l p rw) = rw" "uio_space (mk_kuio b l p rw) = 0"
  "uio_offset (mk_kuio b l p rw) = p"
  by (simp_all add: mk_kuio_def)

text \<open>Zeros are sent in blocks of at most 16 bytes.\<close>

lemma moved_zero:
  assumes "\<forall>i < unat amt. m (z + of_nat i) = 0"
  shows "moved b z (unat amt) m x = (if unat (x - b) < unat amt then 0 else m x)"
proof -
  have "z + of_nat (unat (x - b)) = z + (x - b)" by simp
  then show ?thesis using assms by (auto simp: moved_def)
qed

lemma uiomovezeros_kernel:
  assumes "iov_len uio = uio_resid uio" "uio_segflg uio = UIO_SYSSPACE" "uio_space uio = 0" "uio_rw uio = UIO_READ"
    "n \<le> uio_resid uio" "accessible mapped zeros 16" "accessible mapped (iov_base uio) (unat n)"
    "unat zeros + 16 \<le> 4294967296" "unat (iov_base uio) + unat n \<le> 4294967296"
    "\<forall>i < 16. u_mem u (zeros + of_nat i) = 0" "\<forall>i < 16. unat n \<le> unat (zeros + of_nat i - iov_base uio)"
  shows "uiomovezeros_loop mapped space zeros n uio u = Some (0, advanced n uio,
    u\<lparr>u_mem := (\<lambda>x. if unat (x - iov_base uio) < unat n then 0 else u_mem u x)\<rparr>)"
  using assms
proof (induction "unat n" arbitrary: n uio u rule: less_induct)
  case less
  show ?case
  proof (cases "n = 0")
    case True
    then show ?thesis by (subst uiomovezeros_loop.simps) (simp add: advanced_def)
  next
    case False
    then have n: "n > 0" by (simp add: word_gt_0)
    define amt where "amt = (if 16 > n then n else 16)"
    have amt: "amt \<le> n" "amt \<le> 16" "amt \<noteq> 0" using n by (auto simp: amt_def)
    have ua: "unat amt \<le> unat n" "unat amt \<le> 16" "0 < unat amt"
      using amt by (simp_all add: word_le_nat_alt unat_gt_0)
    have un: "unat (n - amt) = unat n - unat amt" using amt(1) by (simp add: unat_minus_ok)
    have b: "unat (iov_base uio + amt) = unat (iov_base uio) + unat amt \<or> n = amt"
    proof (cases "n = amt")
      case False
      then have "unat amt < unat n" using ua(1) by (simp add: order_less_le word_unat_eq_iff)
      then show ?thesis using less.prems(9) by (simp add: unat_plus_ok)
    qed simp
    have mn: "amt = min amt (uio_resid uio)" using order.trans [OF amt(1) less.prems(5)] by (simp add: min_def)
    have acc: "accessible mapped zeros (unat amt)" "accessible mapped (iov_base uio) (unat amt)"
      using less.prems(6,7) ua(1,2) by (auto simp: accessible_def)
    define m where "m = (\<lambda>x. if unat (x - iov_base uio) < unat amt then 0 else u_mem u x)"
    have mv: "moved (iov_base uio) zeros (unat amt) (u_mem u) = m"
      using moved_zero [of amt "u_mem u" zeros] less.prems(10) ua(2) by (auto simp: m_def)
    have one: "uiomove mapped space zeros amt uio u = Some (0, advanced amt uio, u\<lparr>u_mem := m\<rparr>)"
      using uiomove_kernel [OF _ _ less.prems(2,3) mn acc, of space u] less.prems(1,4,8,9) ua mv by simp
    have step: "uiomovezeros_loop mapped space zeros n uio u = uiomovezeros_loop mapped space zeros (n - amt) (advanced amt uio) (u\<lparr>u_mem := m\<rparr>)"
      using n by (subst uiomovezeros_loop.simps) (simp add: one amt_def [symmetric] Let_def)
    show ?thesis
    proof (cases "n = amt")
      case True
      then show ?thesis unfolding step by (subst uiomovezeros_loop.simps) (simp add: m_def)
    next
      case False
      then have bb: "unat (iov_base uio + amt) = unat (iov_base uio) + unat amt" using b by simp
      have off: "unat (x - (iov_base uio + amt)) =
          (if unat amt \<le> unat (x - iov_base uio) then unat (x - iov_base uio) - unat amt else unat (x - iov_base uio) + 4294967296 - unat amt)" for x
        using word_offset [of "unat amt" "x - iov_base uio"] unat_less_32 [of amt] by (simp add: diff_diff_eq)
      have "accessible mapped (iov_base uio + amt) (unat (n - amt))"
      proof -
        have "mapped ((iov_base uio + of_nat (unat amt + i)) AND PAGE_FRAME)" if "i < unat (n - amt)" for i
          using less.prems(7) that un ua(1) unfolding accessible_def by (metis add.commute less_diff_conv)
        then show ?thesis by (simp add: accessible_def add.assoc)
      qed
      moreover have "n - amt \<le> uio_resid uio - amt"
        using less.prems(5) amt(1) un by (simp add: word_le_nat_alt unat_minus_ok)
      moreover have "m (zeros + of_nat i) = 0" if "i < 16" for i
        using less.prems(10,11) that by (simp add: m_def)
      moreover have "unat (n - amt) \<le> unat (zeros + of_nat i - (iov_base uio + amt))" if "i < 16" for i
      proof -
        have "unat n \<le> unat (zeros + of_nat i - iov_base uio)" using less.prems(11) that by blast
        then show ?thesis using un ua(1) off [of "zeros + of_nat i"] by simp
      qed
      ultimately have "uiomovezeros_loop mapped space zeros (n - amt) (advanced amt uio) (u\<lparr>u_mem := m\<rparr>) =
        Some (0, advanced (n - amt) (advanced amt uio),
          u\<lparr>u_mem := (\<lambda>x. if unat (x - (iov_base uio + amt)) < unat (n - amt) then 0 else m x)\<rparr>)"
        using less.hyps [of "n - amt" "advanced amt uio" "u\<lparr>u_mem := m\<rparr>"] less.prems un ua bb by (simp add: advanced_def cong: if_cong)
      moreover have "advanced (n - amt) (advanced amt uio) = advanced n uio" by (simp add: advanced_def)
      moreover have "(\<lambda>x. if unat (x - (iov_base uio + amt)) < unat (n - amt) then 0 else m x) =
          (\<lambda>x. if unat (x - iov_base uio) < unat n then 0 else u_mem u x)"
      proof
        fix x
        have "unat (x - iov_base uio) < 4294967296" by (rule unat_less_32)
        then show "(if unat (x - (iov_base uio + amt)) < unat (n - amt) then 0 else m x) = (if unat (x - iov_base uio) < unat n then 0 else u_mem u x)"
          using un ua(1) unat_less_32 [of n] by (auto simp: off m_def)
      qed
      ultimately show ?thesis unfolding step by simp
    qed
  qed
qed

subsection \<open>Properties\<close>

definition sample_u :: ustate where
  "sample_u = \<lparr>u_mem = (\<lambda>a. ucast a), u_badfault = False\<rparr>"

lemma accessible_part:
  assumes "accessible mapped p n" "j + k \<le> n"
  shows "accessible mapped (p + of_nat j) k"
proof -
  have "mapped ((p + of_nat (j + i)) AND PAGE_FRAME)" if "i < k" for i
    using assms that unfolding accessible_def by (meson add_strict_left_mono order.strict_trans2)
  then show ?thesis by (simp add: accessible_def add.assoc)
qed

text \<open>The kernel's addresses and one page of user memory are mapped.\<close>

definition sample_mapped :: "32 word \<Rightarrow> bool" where
  "sample_mapped p \<longleftrightarrow> 0x80000000 \<le> p \<or> p = 0x1000"

lemma sample_kernel_block: "kernel_block sample_mapped 0x80000100 4"
proof -
  have "sample_mapped ((0x80000100 + of_nat i) AND PAGE_FRAME)" if "i < 4" for i :: nat
  proof -
    have "unat (0x80000100 + of_nat i :: 32 word) = 2147483904 + i"
      using that unat_plus_ok [of "0x80000100" "of_nat i"] by (simp add: unat_of_nat_ok)
    then have "unat ((0x80000100 + of_nat i :: 32 word) AND PAGE_FRAME) = (2147483904 + i) div 4096 * 4096" by (simp only: frame_unat)
    also have "(2147483904 + i) div 4096 = 524288" using that by (simp add: div_nat_eqI)
    finally show ?thesis by (simp add: sample_mapped_def word_le_nat_alt)
  qed
  then show ?thesis by (simp add: kernel_block_def accessible_def)
qed

text \<open>
  C38: Copying to and from user addresses is safe whatever the address and the length are. The copy
  always returns, with 0 exactly if the block is not empty, lies in user space and can be accessed,
  and with \<open>EFAULT\<close> otherwise; \<open>copyin\<close> changes nothing but the kernel's buffer, \<open>copyout\<close> never
  changes kernel memory; after success the target has the bytes of the source; and the recovery
  function is reset.
\<close>

theorem copy_confined:
  assumes "kernel_block mapped kp len" and "\<not> u_badfault u"
  shows "(\<exists>u1. copyin mapped up kp len u = Some (if user_block mapped up len then 0 else EFAULT, u1) \<and> \<not> u_badfault u1 \<and>
       (\<forall>x. unat len \<le> unat (x - kp) \<longrightarrow> u_mem u1 x = u_mem u x) \<and>
       (user_block mapped up len \<longrightarrow> (\<forall>i < unat len. u_mem u1 (kp + of_nat i) = u_mem u (up + of_nat i)))) \<and>
    (\<exists>u1. copyout mapped kp up len u = Some (if user_block mapped up len then 0 else EFAULT, u1) \<and> \<not> u_badfault u1 \<and>
       (\<forall>x. USERTOP \<le> x \<or> unat len \<le> unat (x - up) \<longrightarrow> u_mem u1 x = u_mem u x) \<and>
       (user_block mapped up len \<longrightarrow> (\<forall>i < unat len. u_mem u1 (up + of_nat i) = u_mem u (kp + of_nat i))))"
proof -
  have mv: "moved d s (unat len) m (d + of_nat i) = m (s + of_nat i)" if "i < unat len" for d s m i
    using that unat_less_32 [of len] by (simp add: moved_def unat_of_nat_ok)
  obtain k where k: "k \<le> unat len" "copyin mapped up kp len u =
      Some (if user_block mapped up len then 0 else EFAULT, u\<lparr>u_mem := moved kp up k (u_mem u)\<rparr>)"
    "user_block mapped up len \<longrightarrow> k = unat len" using copyin_result [OF assms] by blast
  obtain j where j: "j \<le> unat len" "copyout mapped kp up len u =
      Some (if user_block mapped up len then 0 else EFAULT, u\<lparr>u_mem := moved up kp j (u_mem u)\<rparr>)"
    "user_block mapped up len \<longrightarrow> j = unat len" "0 < j \<longrightarrow> unat up + unat len \<le> 2147483648"
    using copyout_result [OF assms] by blast
  have out: "moved up kp j (u_mem u) x = u_mem u x" if "USERTOP \<le> x \<or> unat len \<le> unat (x - up)" for x
  proof (cases "j = 0 \<or> unat len \<le> unat (x - up)")
    case True
    then show ?thesis using j(1) by (auto simp: moved_def)
  next
    case False
    then have "2147483648 \<le> unat x" using that by (simp add: USERTOP_def word_le_nat_alt)
    then show ?thesis using moved_user [OF _ j(1)] j(4) False by blast
  qed
  show ?thesis
  proof (intro conjI)
    show "\<exists>u1. copyin mapped up kp len u = Some (if user_block mapped up len then 0 else EFAULT, u1) \<and> \<not> u_badfault u1 \<and>
       (\<forall>x. unat len \<le> unat (x - kp) \<longrightarrow> u_mem u1 x = u_mem u x) \<and>
       (user_block mapped up len \<longrightarrow> (\<forall>i < unat len. u_mem u1 (kp + of_nat i) = u_mem u (up + of_nat i)))"
      using k(3) assms(2) moved_outside [OF k(1)] mv
      by (intro exI [of _ "u\<lparr>u_mem := moved kp up k (u_mem u)\<rparr>"] conjI, unfold k(2)) simp_all
    show "\<exists>u1. copyout mapped kp up len u = Some (if user_block mapped up len then 0 else EFAULT, u1) \<and> \<not> u_badfault u1 \<and>
       (\<forall>x. USERTOP \<le> x \<or> unat len \<le> unat (x - up) \<longrightarrow> u_mem u1 x = u_mem u x) \<and>
       (user_block mapped up len \<longrightarrow> (\<forall>i < unat len. u_mem u1 (up + of_nat i) = u_mem u (kp + of_nat i)))"
      using j(3) assms(2) out mv
      by (intro exI [of _ "u\<lparr>u_mem := moved up kp j (u_mem u)\<rparr>"] conjI, unfold j(2)) simp_all
  qed
qed

theorem copy_confined_witness:
  "(\<exists>u1. copyin sample_mapped 0x1ffe 0x80000100 4 sample_u = Some (EFAULT, u1)) \<and>
   (\<exists>u1. copyin sample_mapped 0x80000000 0x80000100 4 sample_u = Some (EFAULT, u1))"
proof -
  have "\<not> user_block sample_mapped 0x1ffe 4"
  proof
    assume "user_block sample_mapped 0x1ffe 4"
    then have "accessible sample_mapped 0x1ffe 4" by (simp add: user_block_def)
    then have "sample_mapped ((0x1ffe + of_nat 2) AND PAGE_FRAME)" unfolding accessible_def by (elim allE [of _ 2]) simp
    then show False by (simp add: sample_mapped_def PAGE_FRAME_def)
  qed
  moreover have "\<not> user_block sample_mapped 0x80000000 4" by (simp add: user_block_def)
  moreover have "\<not> u_badfault sample_u" by (simp add: sample_u_def)
  ultimately show ?thesis
    using copy_confined [OF sample_kernel_block, of sample_u "0x1ffe"] copy_confined [OF sample_kernel_block, of sample_u "0x80000000"]
    by auto
qed

text \<open>
  C39: what \<open>uiomove\<close> does on any uio that describes kernel memory, for blocks that are mapped and do
  not run past the end of the address space. With nothing asked for or nothing left it does nothing.
  Otherwise it transfers the smaller of the number asked for and the length of the uio's block, in
  the direction of the uio and also when the two blocks overlap, and advances the uio by as much. It
  panics exactly if more is asked for than the block holds, unless the block is not empty and ends
  where the rest does.
\<close>

theorem uiomove_transfers:
  assumes "k = min n (iov_len uio)" and "uio_segflg uio = UIO_SYSSPACE" and "uio_space uio = 0"
    and "accessible mapped ptr (unat k)" and "accessible mapped (iov_base uio) (unat k)"
    and "unat ptr + unat k \<le> 4294967296" and "unat (iov_base uio) + unat k \<le> 4294967296"
  shows "uiomove mapped space ptr n uio u =
    (if n = 0 \<or> uio_resid uio = 0 then Some (0, uio, u)
     else if n \<le> iov_len uio \<or> iov_len uio \<noteq> 0 \<and> iov_len uio = uio_resid uio
     then Some (0, advanced k uio, u\<lparr>u_mem :=
       (if uio_rw uio = UIO_READ then moved (iov_base uio) ptr (unat k) (u_mem u)
        else moved ptr (iov_base uio) (unat k) (u_mem u))\<rparr>)
     else None)"
  using uiomove_kernel_rounds [OF assms(2,3,1,4-7)] .

theorem uiomove_transfers_witness:
  "uiomove sample_mapped 0 0x80000100 3 (mk_kuio 0x80000101 3 0 UIO_READ) sample_u =
     Some (0, advanced 3 (mk_kuio 0x80000101 3 0 UIO_READ), sample_u\<lparr>u_mem := moved 0x80000101 0x80000100 3 (u_mem sample_u)\<rparr>) \<and>
   uiomove sample_mapped 0 0x80000100 4 ((mk_kuio 0x80000100 3 0 UIO_READ)\<lparr>uio_resid := 4\<rparr>) sample_u = None"
proof -
  have a: "accessible sample_mapped 0x80000100 4" using sample_kernel_block by (simp add: kernel_block_def)
  have "accessible sample_mapped 0x80000100 3" "accessible sample_mapped 0x80000101 3"
    using accessible_part [OF a, of 0 3] accessible_part [OF a, of 1 3] by simp_all
  then show ?thesis
    using uiomove_transfers [of 3 3 "mk_kuio 0x80000101 3 0 UIO_READ" sample_mapped "0x80000100" 0 sample_u]
      uiomove_transfers [of 3 4 "(mk_kuio 0x80000100 3 0 UIO_READ)\<lparr>uio_resid := 4\<rparr>" sample_mapped "0x80000100" 0 sample_u]
    by (simp add: min_def)
qed

end
