(* ===== verification/K_Disk.thy ===== *)
theory K_Disk
  imports K_Copy "HOL-Library.Signed_Division"
begin

section \<open>Block devices: \<^verbatim>\<open>kern/dev/lamebus/lhd.c\<close>\<close>

text \<open>
  The disk driver, and the contract of a block device for its clients. A transfer is described here
  by the bytes it moves: \<open>vu_data\<close> has the bytes delivered so far when reading, and the bytes not
  yet fetched when writing; \<open>vu_good\<close> is the number of bytes from the current position on that
  can be accessed. The lemmas at the end of the theory relate this view to the transfers between memory
  blocks of \<^verbatim>\<open>uio.c\<close>.
\<close>

type_synonym blk = "8 word list"

record vuio =
  vu_data :: "8 word list"
  vu_good :: nat
  vu_offset :: "32 word"
  vu_resid :: "32 word"
  vu_rw :: uio_rw

definition vu_advance :: "nat \<Rightarrow> vuio \<Rightarrow> vuio" where
  "vu_advance k uio = uio\<lparr>vu_good := vu_good uio - k, vu_offset := vu_offset uio + of_nat k, vu_resid := vu_resid uio - of_nat k\<rparr>"

text \<open>
  \<open>uiomove\<close> between the kernel's bytes \<open>buf\<close> and a transfer. The file system and the disk driver ask for
  no more than is left, and what is left is never more than the block of the uio holds, so the length of
  that block decides nothing and is left out; \<open>uiomove_value\<close> below relates this to the loop of
  \<open>uiomove\<close> in memory. After a fault the bytes in the kernel's buffer are never used, so they are left as
  they were.
\<close>

definition vuiomove :: "8 word list \<Rightarrow> vuio \<Rightarrow> (int \<times> vuio \<times> 8 word list) option" where
  "vuiomove buf uio = (
     let k = min (length buf) (unat (vu_resid uio)) in
     if k = 0 then Some (0, uio, buf)
     else if vu_good uio < k then Some (EFAULT, uio, buf)
     else if vu_rw uio = UIO_READ then Some (0, (vu_advance k uio)\<lparr>vu_data := vu_data uio @ take k buf\<rparr>, buf)
     else do {
       kassert (k \<le> length (vu_data uio));
       Some (0, (vu_advance k uio)\<lparr>vu_data := drop k (vu_data uio)\<rparr>, take k (vu_data uio) @ drop k buf)
     })"

function vuiomovezeros_loop :: "nat \<Rightarrow> vuio \<Rightarrow> (int \<times> vuio) option" where
  "vuiomovezeros_loop n uio =
     (if n = 0 then Some (0, uio)
      else do {
        (result, uio1, buf) \<leftarrow> vuiomove (replicate (min 16 n) 0) uio;
        if result \<noteq> 0 then Some (result, uio1) else vuiomovezeros_loop (n - min 16 n) uio1
      })"
  by auto
termination
  by (relation "measure fst") auto

declare vuiomovezeros_loop.simps [simp del]

definition vuiomovezeros :: "nat \<Rightarrow> vuio \<Rightarrow> (int \<times> vuio) option" where
  "vuiomovezeros n uio = do { kassert (vu_rw uio = UIO_READ); vuiomovezeros_loop n uio }"

text \<open>\<open>mk_kuio\<close>, for \<open>n\<close> bytes of kernel memory at the position \<open>pos\<close>.\<close>

definition vkuio :: "8 word list \<Rightarrow> nat \<Rightarrow> 32 word \<Rightarrow> uio_rw \<Rightarrow> vuio" where
  "vkuio data n pos rw = \<lparr>vu_data = data, vu_good = n, vu_offset = pos, vu_resid = of_nat n, vu_rw = rw\<rparr>"

subsection \<open>The disk\<close>

text \<open>
  The registers and the buffer of the card, the driver's data, and the disk itself: the contents of its
  sectors and, for the operations to come, whether they meet a media error.
\<close>

record lhd =
  lh_sect :: "32 word"
  lh_stat :: "32 word"
  lh_buf :: blk
  lh_result :: int
  lh_clear :: int
  lh_done :: int
  lh_blocks :: "32 word"
  lh_platter :: "nat \<Rightarrow> blk"
  lh_faults :: "bool list"

abbreviation (input) LHD_IDLE :: "32 word" where "LHD_IDLE \<equiv> 0"
abbreviation (input) LHD_WORKING :: "32 word" where "LHD_WORKING \<equiv> 1"
abbreviation (input) LHD_OK :: "32 word" where "LHD_OK \<equiv> 4"
abbreviation (input) LHD_INVSECT :: "32 word" where "LHD_INVSECT \<equiv> 12"
abbreviation (input) LHD_MEDIA :: "32 word" where "LHD_MEDIA \<equiv> 20"
abbreviation (input) LHD_ISWRITE :: "32 word" where "LHD_ISWRITE \<equiv> 2"
abbreviation (input) LHD_STATEMASK :: "32 word" where "LHD_STATEMASK \<equiv> 0x1d"
abbreviation (input) LHD_SECTSIZE :: nat where "LHD_SECTSIZE \<equiv> 512"
abbreviation (input) EAGAIN :: int where "EAGAIN \<equiv> 11"

definition lhd_code_to_errno :: "32 word \<Rightarrow> int" where
  "lhd_code_to_errno code = (
     let c = code AND LHD_STATEMASK in
     if c = LHD_OK then 0 else if c = LHD_INVSECT then EINVAL else if c = LHD_MEDIA then EIO else EAGAIN)"

definition lhd_iodone :: "int \<Rightarrow> lhd \<Rightarrow> lhd" where
  "lhd_iodone err l = l\<lparr>lh_result := err, lh_done := lh_done l + 1\<rparr>"

definition lhd_irq :: "lhd \<Rightarrow> lhd" where
  "lhd_irq l = (
     let val = lh_stat l; c = val AND LHD_STATEMASK in
     if c = LHD_OK \<or> c = LHD_INVSECT \<or> c = LHD_MEDIA
     then lhd_iodone (lhd_code_to_errno val) (l\<lparr>lh_stat := 0\<rparr>)
     else l)"

text \<open>
  The loop over the sectors, \<open>n\<close> of them left. The semaphores are those of a thread that has the
  device for itself: waiting for a unit that nobody delivers is no return. Between starting the operation
  and \<open>P(lh_done)\<close> the device works and interrupts; what it does, \<open>hw\<close>, is a parameter.
\<close>

primrec lhd_io_loop :: "(lhd \<Rightarrow> lhd) \<Rightarrow> nat \<Rightarrow> 32 word \<Rightarrow> 32 word \<Rightarrow> vuio \<Rightarrow> lhd \<Rightarrow> (int \<times> vuio \<times> lhd) option" where
  "lhd_io_loop hw 0 sector statval uio l = Some (0, uio, l)"
| "lhd_io_loop hw (Suc n) sector statval uio l = do {
     kassert (lh_clear l > 0);
     let l1 = l\<lparr>lh_clear := lh_clear l - 1\<rparr>;
     (result, uio1, buf) \<leftarrow> (if vu_rw uio = UIO_WRITE then vuiomove (lh_buf l1) uio else Some (0, uio, lh_buf l1));
     if result \<noteq> 0 then Some (result, uio1, l1\<lparr>lh_clear := lh_clear l1 + 1\<rparr>)
     else do {
       let l2 = l1\<lparr>lh_buf := buf, lh_sect := sector, lh_stat := statval\<rparr>;
       let l3 = lhd_irq (hw l2);
       kassert (lh_done l3 > 0);
       let l4 = l3\<lparr>lh_done := lh_done l3 - 1\<rparr>;
       (result2, uio2, buf2) \<leftarrow> (if lh_result l4 = 0 \<and> vu_rw uio1 = UIO_READ then vuiomove (lh_buf l4) uio1
                               else Some (lh_result l4, uio1, lh_buf l4));
       let l5 = l4\<lparr>lh_clear := lh_clear l4 + 1\<rparr>;
       if result2 \<noteq> 0 then Some (result2, uio2, l5)
       else lhd_io_loop hw n (sector + 1) statval uio2 l5
     }
   }"

text \<open>The offset is signed, so its quotient and remainder are those of C's signed division.\<close>

definition lhd_io :: "(lhd \<Rightarrow> lhd) \<Rightarrow> vuio \<Rightarrow> lhd \<Rightarrow> (int \<times> vuio \<times> lhd) option" where
  "lhd_io hw uio l = (
     let sector = word_of_int (sint (vu_offset uio) sdiv int LHD_SECTSIZE) :: 32 word;
         sectoff = word_of_int (sint (vu_offset uio) smod int LHD_SECTSIZE) :: 32 word;
         len = vu_resid uio div 512;
         lenoff = vu_resid uio mod 512;
         statval = (if vu_rw uio = UIO_WRITE then LHD_WORKING OR LHD_ISWRITE else LHD_WORKING)
     in if sectoff \<noteq> 0 \<or> lenoff \<noteq> 0 then Some (EINVAL, uio, l)
        else if sector + len > lh_blocks l then Some (EINVAL, uio, l)
        else lhd_io_loop hw (unat len) sector statval uio l)"

subsection \<open>The contract of a block device\<close>

text \<open>
  One block of 512 bytes at a time: reading delivers the contents of the block, writing replaces them, and
  a transfer that cannot access the caller's bytes fails with \<open>EFAULT\<close> and changes nothing.
\<close>

locale block_device =
  fixes dio :: "vuio \<Rightarrow> 'd \<Rightarrow> (int \<times> vuio \<times> 'd) option"
    and dinv :: "'d \<Rightarrow> bool"
    and dsize :: "'d \<Rightarrow> nat"
    and dblock :: "'d \<Rightarrow> nat \<Rightarrow> blk"
  assumes dio_read: "dinv d \<Longrightarrow> b < dsize d \<Longrightarrow> vu_rw u = UIO_READ \<Longrightarrow> vu_offset u = of_nat (512 * b) \<Longrightarrow>
      vu_resid u = 512 \<Longrightarrow> 512 \<le> vu_good u \<Longrightarrow>
      \<exists>d1. dio u d = Some (0, (vu_advance 512 u)\<lparr>vu_data := vu_data u @ dblock d b\<rparr>, d1) \<and>
        dinv d1 \<and> dsize d1 = dsize d \<and> dblock d1 = dblock d"
    and dio_write: "dinv d \<Longrightarrow> b < dsize d \<Longrightarrow> vu_rw u = UIO_WRITE \<Longrightarrow> vu_offset u = of_nat (512 * b) \<Longrightarrow>
      vu_resid u = 512 \<Longrightarrow> 512 \<le> vu_good u \<Longrightarrow> 512 \<le> length (vu_data u) \<Longrightarrow>
      \<exists>d1. dio u d = Some (0, (vu_advance 512 u)\<lparr>vu_data := drop 512 (vu_data u)\<rparr>, d1) \<and>
        dinv d1 \<and> dsize d1 = dsize d \<and> dblock d1 = (dblock d)(b := take 512 (vu_data u))"
    and dio_fault: "dinv d \<Longrightarrow> b < dsize d \<Longrightarrow> vu_offset u = of_nat (512 * b) \<Longrightarrow>
      vu_resid u = 512 \<Longrightarrow> vu_good u < 512 \<Longrightarrow>
      \<exists>d1. dio u d = Some (EFAULT, u, d1) \<and> dinv d1 \<and> dsize d1 = dsize d \<and> dblock d1 = dblock d"
    and dblock_length: "dinv d \<Longrightarrow> b < dsize d \<Longrightarrow> length (dblock d b) = 512"
    and dsize_bound: "dinv d \<Longrightarrow> dsize d \<le> 4194304"

subsection \<open>The driver keeps the contract\<close>

text \<open>
  The registers of the device as the driver describes them: an operation on a sector of the disk ends with
  \<open>LHD_OK\<close>, having filled the buffer from the sector or the sector from the buffer, or, when a media error is
  ahead, with \<open>LHD_MEDIA\<close> and the disk as it was.
\<close>

definition lhd_device :: "(lhd \<Rightarrow> lhd) \<Rightarrow> bool" where
  "lhd_device hw \<longleftrightarrow> (\<forall>l. lh_sect l < lh_blocks l \<longrightarrow>
     (lh_faults l = [] \<and> lh_stat l = LHD_WORKING \<longrightarrow>
        hw l = l\<lparr>lh_buf := lh_platter l (unat (lh_sect l)), lh_stat := LHD_OK\<rparr>) \<and>
     (lh_faults l = [] \<and> lh_stat l = LHD_WORKING OR LHD_ISWRITE \<longrightarrow>
        hw l = l\<lparr>lh_platter := (lh_platter l)(unat (lh_sect l) := lh_buf l), lh_stat := LHD_OK OR LHD_ISWRITE\<rparr>) \<and>
     (lh_faults l \<noteq> [] \<and> hd (lh_faults l) \<and> lh_stat l = LHD_WORKING OR LHD_ISWRITE \<longrightarrow>
        hw l = l\<lparr>lh_faults := tl (lh_faults l), lh_stat := LHD_MEDIA OR LHD_ISWRITE\<rparr>))"

lemma lhd_deviceD:
  assumes "lhd_device hw" "lh_sect l < lh_blocks l"
  shows "lh_faults l = [] \<Longrightarrow> lh_stat l = 1 \<Longrightarrow> hw l = l\<lparr>lh_buf := lh_platter l (unat (lh_sect l)), lh_stat := 4\<rparr>"
    "lh_faults l = [] \<Longrightarrow> lh_stat l = 3 \<Longrightarrow> hw l = l\<lparr>lh_platter := (lh_platter l)(unat (lh_sect l) := lh_buf l), lh_stat := 6\<rparr>"
    "lh_faults l = True # fs \<Longrightarrow> lh_stat l = 3 \<Longrightarrow> hw l = l\<lparr>lh_faults := fs, lh_stat := 22\<rparr>"
  using assms unfolding lhd_device_def by auto

text \<open>The disk is idle, has whole sectors and no media error is ahead.\<close>

definition lhd_ok :: "lhd \<Rightarrow> bool" where
  "lhd_ok l \<longleftrightarrow> lh_clear l = 1 \<and> lh_done l = 0 \<and> length (lh_buf l) = 512 \<and> lh_faults l = [] \<and>
     unat (lh_blocks l) \<le> 4194304 \<and> (\<forall>b < unat (lh_blocks l). length (lh_platter l b) = 512)"

definition lhd_size :: "lhd \<Rightarrow> nat" where "lhd_size l = unat (lh_blocks l)"

lemma lhd_sector:
  assumes "b < 4194304"
  shows "word_of_int (sint (of_nat (512 * b) :: 32 word) sdiv int 512) = (of_nat b :: 32 word)"
    "word_of_int (sint (of_nat (512 * b) :: 32 word) smod int 512) = (0 :: 32 word)"
proof -
  have "sint (of_nat (512 * b) :: 32 word) = int (512 * b)" using assms by (intro sint_of_nat_ok) simp
  then have s: "sint (of_nat (512 * b) :: 32 word) = 512 * int b" by simp
  have "(512 * int b) sdiv 512 = int b" "(512 * int b) smod 512 = 0"
    by (simp_all add: signed_divide_int_def signed_modulo_int_def sgn_if)
  then show "word_of_int (sint (of_nat (512 * b) :: 32 word) sdiv int 512) = (of_nat b :: 32 word)"
    "word_of_int (sint (of_nat (512 * b) :: 32 word) smod int 512) = (0 :: 32 word)"
    unfolding s by simp_all
qed

text \<open>A request for one sector is one round of the loop.\<close>

lemma lhd_io_one:
  assumes "unat (lh_blocks l) \<le> 4194304" "b < unat (lh_blocks l)" "vu_offset u = of_nat (512 * b)" "vu_resid u = 512"
  shows "lhd_io hw u l = lhd_io_loop hw 1 (of_nat b) (if vu_rw u = UIO_WRITE then 3 else 1) u l"
proof -
  have "unat (of_nat b + 1 :: 32 word) = b + 1"
    using assms(1,2) unat_plus_ok [of "of_nat b" 1] by (simp add: unat_of_nat_ok)
  then have "\<not> (of_nat b + 1 > lh_blocks l)" using assms(2) by (simp add: word_less_nat_alt)
  moreover have "b < 4194304" using assms(1,2) by simp
  moreover have "(1 :: 32 word) OR 2 = 3" by simp
  ultimately show ?thesis
    using lhd_sector [of b] by (simp add: lhd_io_def assms(3,4) Let_def del: of_nat_mult lhd_io_loop.simps One_nat_def)
qed

lemma lhd_sample_codes:
  "(1 :: 32 word) AND 2 = 0" "(3 :: 32 word) AND 2 = 2" "(4 :: 32 word) OR 0 = 4" "(4 :: 32 word) OR 2 = 6"
  "(4 :: 32 word) AND 29 = 4" "(6 :: 32 word) AND 29 = 4" "(20 :: 32 word) OR 2 = 22" "(22 :: 32 word) AND 29 = 20"
  by simp_all

lemma lhd_read_ok:
  assumes hw: "lhd_device hw" and "lhd_ok l" "b < lhd_size l" "vu_rw u = UIO_READ" "vu_offset u = of_nat (512 * b)" "vu_resid u = 512"
  shows "512 \<le> vu_good u \<Longrightarrow> \<exists>l1. lhd_io hw u l = Some (0, (vu_advance 512 u)\<lparr>vu_data := vu_data u @ lh_platter l b\<rparr>, l1) \<and>
      lhd_ok l1 \<and> lhd_size l1 = lhd_size l \<and> lh_platter l1 = lh_platter l"
    "vu_good u < 512 \<Longrightarrow> \<exists>l1. lhd_io hw u l = Some (EFAULT, u, l1) \<and> lhd_ok l1 \<and> lhd_size l1 = lhd_size l \<and> lh_platter l1 = lh_platter l"
proof -
  have b: "b < unat (lh_blocks l)" "unat (lh_blocks l) \<le> 4194304" "length (lh_platter l b) = 512" "lh_faults l = []"
    "lh_clear l = 1" "lh_done l = 0" "length (lh_buf l) = 512"
    using assms(2,3) by (auto simp: lhd_ok_def lhd_size_def)
  have s: "unat (of_nat b :: 32 word) = b" using b(1,2) by (simp add: unat_of_nat_ok)
  then have lt: "(of_nat b :: 32 word) < lh_blocks l" using b(1) by (simp add: word_less_nat_alt)
  note defs = lhd_deviceD [OF hw] lhd_irq_def lhd_iodone_def lhd_code_to_errno_def vuiomove_def
  show "512 \<le> vu_good u \<Longrightarrow> \<exists>l1. lhd_io hw u l = Some (0, (vu_advance 512 u)\<lparr>vu_data := vu_data u @ lh_platter l b\<rparr>, l1) \<and>
      lhd_ok l1 \<and> lhd_size l1 = lhd_size l \<and> lh_platter l1 = lh_platter l"
    using assms b s lt by (subst lhd_io_one [OF b(2,1) assms(5,6)]) (simp add: defs Let_def lhd_ok_def lhd_size_def)
  show "vu_good u < 512 \<Longrightarrow> \<exists>l1. lhd_io hw u l = Some (EFAULT, u, l1) \<and> lhd_ok l1 \<and> lhd_size l1 = lhd_size l \<and> lh_platter l1 = lh_platter l"
    using assms b s lt by (subst lhd_io_one [OF b(2,1) assms(5,6)]) (simp add: defs Let_def lhd_ok_def lhd_size_def)
qed

lemma lhd_write_ok:
  assumes hw: "lhd_device hw" and "lhd_ok l" "b < lhd_size l" "vu_rw u = UIO_WRITE" "vu_offset u = of_nat (512 * b)" "vu_resid u = 512"
  shows "512 \<le> vu_good u \<Longrightarrow> 512 \<le> length (vu_data u) \<Longrightarrow>
      \<exists>l1. lhd_io hw u l = Some (0, (vu_advance 512 u)\<lparr>vu_data := drop 512 (vu_data u)\<rparr>, l1) \<and>
        lhd_ok l1 \<and> lhd_size l1 = lhd_size l \<and> lh_platter l1 = (lh_platter l)(b := take 512 (vu_data u))"
    "vu_good u < 512 \<Longrightarrow> \<exists>l1. lhd_io hw u l = Some (EFAULT, u, l1) \<and> lhd_ok l1 \<and> lhd_size l1 = lhd_size l \<and> lh_platter l1 = lh_platter l"
proof -
  have b: "b < unat (lh_blocks l)" "unat (lh_blocks l) \<le> 4194304" "lh_faults l = []"
    "lh_clear l = 1" "lh_done l = 0" "length (lh_buf l) = 512"
    using assms(2,3) by (auto simp: lhd_ok_def lhd_size_def)
  have s: "unat (of_nat b :: 32 word) = b" using b(1,2) by (simp add: unat_of_nat_ok)
  then have lt: "(of_nat b :: 32 word) < lh_blocks l" using b(1) by (simp add: word_less_nat_alt)
  note defs = lhd_deviceD [OF hw] lhd_irq_def lhd_iodone_def lhd_code_to_errno_def vuiomove_def
  show "512 \<le> vu_good u \<Longrightarrow> 512 \<le> length (vu_data u) \<Longrightarrow>
      \<exists>l1. lhd_io hw u l = Some (0, (vu_advance 512 u)\<lparr>vu_data := drop 512 (vu_data u)\<rparr>, l1) \<and>
        lhd_ok l1 \<and> lhd_size l1 = lhd_size l \<and> lh_platter l1 = (lh_platter l)(b := take 512 (vu_data u))"
    using assms b s lt by (subst lhd_io_one [OF b(2,1) assms(5,6)]) (simp add: defs Let_def lhd_ok_def lhd_size_def vu_advance_def)
  show "vu_good u < 512 \<Longrightarrow> \<exists>l1. lhd_io hw u l = Some (EFAULT, u, l1) \<and> lhd_ok l1 \<and> lhd_size l1 = lhd_size l \<and> lh_platter l1 = lh_platter l"
    using assms b s lt by (subst lhd_io_one [OF b(2,1) assms(5,6)]) (simp add: defs Let_def lhd_ok_def lhd_size_def)
qed

lemma lhd_block_device:
  assumes hw: "lhd_device hw"
  shows "block_device (lhd_io hw) lhd_ok lhd_size lh_platter"
proof unfold_locales
  fix d :: lhd and b :: nat and u :: vuio
  assume a: "lhd_ok d" "b < lhd_size d" "vu_offset u = of_nat (512 * b)" "vu_resid u = 512" "vu_good u < 512"
  show "\<exists>d1. lhd_io hw u d = Some (EFAULT, u, d1) \<and> lhd_ok d1 \<and> lhd_size d1 = lhd_size d \<and> lh_platter d1 = lh_platter d"
    using lhd_read_ok(2) [OF hw a(1,2) _ a(3,4,5)] lhd_write_ok(2) [OF hw a(1,2) _ a(3,4,5)] by (cases "vu_rw u") auto
qed (use lhd_read_ok(1) [OF hw] lhd_write_ok(1) [OF hw] in \<open>auto simp: lhd_ok_def lhd_size_def\<close>)

text \<open>A device that works as described.\<close>

definition ideal_lhd :: "lhd \<Rightarrow> lhd" where
  "ideal_lhd l = (
     let w = lh_stat l AND LHD_ISWRITE; l1 = l\<lparr>lh_faults := tl (lh_faults l)\<rparr> in
     if \<not> lh_sect l < lh_blocks l then l\<lparr>lh_stat := LHD_INVSECT OR w\<rparr>
     else if lh_faults l \<noteq> [] \<and> hd (lh_faults l) then l1\<lparr>lh_stat := LHD_MEDIA OR w\<rparr>
     else if w \<noteq> 0 then l1\<lparr>lh_platter := (lh_platter l)(unat (lh_sect l) := lh_buf l), lh_stat := LHD_OK OR w\<rparr>
     else l1\<lparr>lh_buf := lh_platter l (unat (lh_sect l)), lh_stat := LHD_OK\<rparr>)"

lemma ideal_lhd_device: "lhd_device ideal_lhd"
proof -
  have faults: "lh_faults l = [] \<Longrightarrow> l\<lparr>lh_faults := []\<rparr> = l" for l :: lhd by simp
  show ?thesis by (auto simp: lhd_device_def ideal_lhd_def Let_def faults)
qed

interpretation lhd: block_device "lhd_io ideal_lhd" lhd_ok lhd_size lh_platter
  by (rule lhd_block_device) (rule ideal_lhd_device)

subsection \<open>Transfers by value and in memory\<close>

text \<open>
  A uio for kernel memory and its value: the bytes from \<open>start\<close> up to the current position when reading, the
  bytes still to be fetched when writing. As long as no more than the rest is asked for, or the block of
  the uio ends where the rest does, \<open>uiomove\<close> preserves this relation, and the kernel's buffer gets the
  bytes \<open>vuiomove\<close> computes.
\<close>

definition bytes_at :: "mem \<Rightarrow> 32 word \<Rightarrow> nat \<Rightarrow> 8 word list" where
  "bytes_at m p n = map (\<lambda>i. m (p + of_nat i)) [0..<n]"

definition uio_view :: "mem \<Rightarrow> 32 word \<Rightarrow> uio \<Rightarrow> vuio \<Rightarrow> bool" where
  "uio_view m start uio v \<longleftrightarrow> uio_segflg uio = UIO_SYSSPACE \<and> uio_space uio = 0 \<and> uio_resid uio \<le> iov_len uio \<and>
     vu_rw v = uio_rw uio \<and> vu_offset v = uio_offset uio \<and> vu_resid v = uio_resid uio \<and> unat (uio_resid uio) \<le> vu_good v \<and>
     unat start \<le> unat (iov_base uio) \<and> unat (iov_base uio) + unat (uio_resid uio) < 4294967296 \<and>
     (if uio_rw uio = UIO_READ
      then unat (iov_base uio) = unat start + length (vu_data v) \<and> bytes_at m start (length (vu_data v)) = vu_data v
      else bytes_at m (iov_base uio) (unat (uio_resid uio)) = vu_data v)"

lemma bytes_at_length [simp]: "length (bytes_at m p n) = n"
  by (simp add: bytes_at_def)

lemma bytes_at_nth [simp]: "i < n \<Longrightarrow> bytes_at m p n ! i = m (p + of_nat i)"
  by (simp add: bytes_at_def)

lemma bytes_at_take: "k \<le> n \<Longrightarrow> take k (bytes_at m p n) = bytes_at m p k"
  by (simp add: bytes_at_def take_map)

lemma bytes_at_drop: "k \<le> n \<Longrightarrow> drop k (bytes_at m p n) = bytes_at m (p + of_nat k) (n - k)"
  by (rule nth_equalityI) (auto simp: add.assoc)

lemma bytes_at_append: "bytes_at m p (j + k) = bytes_at m p j @ bytes_at m (p + of_nat j) k"
  by (rule nth_equalityI) (auto simp: nth_append add.assoc)

text \<open>Blocks, by the numbers of their addresses.\<close>

definition apart :: "32 word \<Rightarrow> nat \<Rightarrow> 32 word \<Rightarrow> nat \<Rightarrow> bool" where
  "apart p n q k \<longleftrightarrow> unat p + n \<le> unat q \<or> unat q + k \<le> unat p"

lemma moved_target: "k \<le> 4294967296 \<Longrightarrow> bytes_at (moved d s k m) d k = bytes_at m s k"
  by (rule nth_equalityI) (auto simp: moved_def unat_of_nat_ok)

lemma moved_apart:
  assumes "apart p n d k" "unat p + n \<le> 4294967296" "unat d + k \<le> 4294967296"
  shows "bytes_at (moved d s k m) p n = bytes_at m p n"
proof (rule nth_equalityI)
  fix i assume "i < length (bytes_at (moved d s k m) p n)"
  then have i: "i < n" by simp
  then have p: "unat (p + of_nat i) = unat p + i" using assms(2) by (simp add: unat_plus_ok unat_of_nat_ok)
  have "k \<le> unat (p + of_nat i - d)"
    using assms i unat_less_32 [of d] by (auto simp: unat_sub_if' p apart_def)
  then show "bytes_at (moved d s k m) p n ! i = bytes_at m p n ! i" using i by (simp add: moved_def)
qed simp

lemma vu_advance_0: "vu_advance 0 v = v"
  by (simp add: vu_advance_def)

lemma vuiomove_read:
  assumes "vu_rw v = UIO_READ" "k = min (length buf) (unat (vu_resid v))" "k \<le> vu_good v"
  shows "vuiomove buf v = Some (0, (vu_advance k v)\<lparr>vu_data := vu_data v @ take k buf\<rparr>, buf)"
  unfolding vuiomove_def assms(2) [symmetric] Let_def using assms(1,3) by (simp add: vu_advance_0)

lemma vuiomove_write:
  assumes "vu_rw v = UIO_WRITE" "k = min (length buf) (unat (vu_resid v))" "k \<le> vu_good v" "k \<le> length (vu_data v)"
  shows "vuiomove buf v = Some (0, (vu_advance k v)\<lparr>vu_data := drop k (vu_data v)\<rparr>, take k (vu_data v) @ drop k buf)"
  unfolding vuiomove_def assms(2) [symmetric] Let_def using assms(1,3,4) by (simp add: vu_advance_0)

lemma uiomove_value:
  assumes "uio_view (u_mem u) start uio v" "accessible mapped ptr (unat n)" "accessible mapped (iov_base uio) (unat (uio_resid uio))"
    "n \<le> uio_resid uio \<or> iov_len uio = uio_resid uio" "unat ptr + unat n < 4294967296" "apart ptr (unat n) start (unat (iov_base uio) - unat start + unat (uio_resid uio))"
  shows "\<exists>uio1 u1 v1 buf. uiomove mapped space ptr n uio u = Some (0, uio1, u1) \<and>
    vuiomove (bytes_at (u_mem u) ptr (unat n)) v = Some (0, v1, buf) \<and>
    uio_view (u_mem u1) start uio1 v1 \<and> bytes_at (u_mem u1) ptr (unat n) = buf"
proof -
  define k where "k = min n (uio_resid uio)"
  note v = assms(1) [unfolded uio_view_def]
  have uk: "unat k = min (unat n) (unat (uio_resid uio))" by (auto simp: k_def min_def word_le_nat_alt)
  have kn: "unat k \<le> unat n" "unat k \<le> unat (uio_resid uio)" "unat k < 4294967296" using uk unat_less_32 [of k] by auto
  have acc: "accessible mapped ptr (unat k)" "accessible mapped (iov_base uio) (unat k)"
    using assms(2,3) kn by (auto simp: accessible_def)
  have base: "unat (iov_base uio + k) = unat (iov_base uio) + unat k"
    using v kn(2) by (simp add: unat_plus_ok)
  have res: "unat (uio_resid uio - k) = unat (uio_resid uio) - unat k"
    using kn(2) by (simp add: unat_minus_ok word_le_nat_alt)
  have rl: "uio_resid uio - k \<le> iov_len uio - k"
  proof -
    have "unat (uio_resid uio) \<le> unat (iov_len uio)" using v by (simp add: word_le_nat_alt)
    then show ?thesis using kn(2) by (simp add: word_le_nat_alt unat_minus_ok)
  qed
  have e: "of_nat (unat k) = k" by simp
  show ?thesis
  proof (cases "uio_rw uio = UIO_READ")
    case True
    let ?m = "moved (iov_base uio) ptr (unat k) (u_mem u)"
    let ?v = "(vu_advance (unat k) v)\<lparr>vu_data := vu_data v @ bytes_at (u_mem u) ptr (unat k)\<rparr>"
    have m: "uiomove mapped space ptr n uio u = Some (0, advanced k uio, u\<lparr>u_mem := ?m\<rparr>)"
      using uiomove_kernel [of uio n k mapped ptr space u] v True acc assms(4) assms(5) kn by (simp add: k_def)
    have d: "vuiomove (bytes_at (u_mem u) ptr (unat n)) v = Some (0, ?v, bytes_at (u_mem u) ptr (unat n))"
      using vuiomove_read [of v "unat k" "bytes_at (u_mem u) ptr (unat n)"] v True kn uk by (simp add: bytes_at_take)
    have st: "unat (iov_base uio) = unat start + length (vu_data v)" "bytes_at (u_mem u) start (length (vu_data v)) = vu_data v"
      using v True by auto
    have sb: "start + of_nat (length (vu_data v)) = iov_base uio"
      using st(1) unat_less_32 [of "iov_base uio"] by (simp add: word_unat_eq_iff unat_plus_ok unat_of_nat_ok)
    have "bytes_at ?m start (length (vu_data v)) = vu_data v"
      using moved_apart [of start "length (vu_data v)" "iov_base uio" "unat k"] st v kn by (simp add: apart_def)
    moreover have "bytes_at ?m (iov_base uio) (unat k) = bytes_at (u_mem u) ptr (unat k)" using kn(3) by (simp add: moved_target)
    ultimately have "bytes_at ?m start (length (vu_data ?v)) = vu_data ?v"
      by (simp add: bytes_at_append sb)
    moreover have "apart ptr (unat n) (iov_base uio) (unat k)"
      using assms(6) kn(2) v by (auto simp: apart_def)
    then have "bytes_at ?m ptr (unat n) = bytes_at (u_mem u) ptr (unat n)"
      using moved_apart [of ptr "unat n" "iov_base uio" "unat k"] assms(5) v kn by simp
    ultimately show ?thesis using m d v True base res rl kn st(1)
      by (auto simp: uio_view_def advanced_def vu_advance_def e)
  next
    case False
    then have w: "uio_rw uio = UIO_WRITE" by (cases "uio_rw uio") auto
    let ?m = "moved ptr (iov_base uio) (unat k) (u_mem u)"
    let ?v = "(vu_advance (unat k) v)\<lparr>vu_data := drop (unat k) (vu_data v)\<rparr>"
    let ?b = "take (unat k) (vu_data v) @ drop (unat k) (bytes_at (u_mem u) ptr (unat n))"
    have m: "uiomove mapped space ptr n uio u = Some (0, advanced k uio, u\<lparr>u_mem := ?m\<rparr>)"
      using uiomove_kernel [of uio n k mapped ptr space u] v w acc assms(4) assms(5) kn by (simp add: k_def)
    have dat: "vu_data v = bytes_at (u_mem u) (iov_base uio) (unat (uio_resid uio))" using v w by simp
    then have l: "length (vu_data v) = unat (uio_resid uio)" by simp
    have d: "vuiomove (bytes_at (u_mem u) ptr (unat n)) v = Some (0, ?v, ?b)"
      using vuiomove_write [of v "unat k" "bytes_at (u_mem u) ptr (unat n)"] v w kn uk l by simp
    have ap: "apart (iov_base uio) (unat (uio_resid uio)) ptr (unat k)"
      using assms(6) kn(1) v by (auto simp: apart_def)
    have "bytes_at ?m (iov_base uio) (unat (uio_resid uio)) = vu_data v"
      using moved_apart [OF ap] v assms(5) kn dat by simp
    then have "bytes_at ?m (iov_base uio + k) (unat (uio_resid uio) - unat k) = drop (unat k) (vu_data v)"
      using bytes_at_drop [OF kn(2), of ?m "iov_base uio"] by (simp add: e)
    moreover have "bytes_at ?m ptr (unat n) = ?b"
    proof -
      have "bytes_at ?m ptr (unat n) = bytes_at ?m ptr (unat k) @ bytes_at ?m (ptr + k) (unat n - unat k)"
        using bytes_at_append [of ?m ptr "unat k" "unat n - unat k"] kn(1) by (simp add: e)
      moreover have "bytes_at ?m ptr (unat k) = take (unat k) (vu_data v)"
        using kn by (simp add: moved_target dat bytes_at_take)
      moreover have "unat (ptr + k) = unat ptr + unat k" using assms(5) kn(1) by (simp add: unat_plus_ok)
      then have "bytes_at ?m (ptr + k) (unat n - unat k) = drop (unat k) (bytes_at (u_mem u) ptr (unat n))"
        using moved_apart [of "ptr + k" "unat n - unat k" ptr "unat k"] assms(5) kn(1)
        by (simp add: apart_def bytes_at_drop e)
      ultimately show ?thesis by simp
    qed
    ultimately show ?thesis using m d v w base res rl kn
      by (auto simp: uio_view_def advanced_def vu_advance_def e)
  qed
qed

end
