(* ===== verification/K_SFS.thy ===== *)
theory K_SFS
  imports K_Disk K_Bitmap K_Array
begin

section \<open>The file system: \<^verbatim>\<open>kern/fs/sfs\<close> and \<^verbatim>\<open>kern/fs/vfs/vnode.c\<close>\<close>

text \<open>
  SFS on a block device whose I/O function \<open>dio\<close> is the function \<open>d_io\<close> of the device. Blocks are lists
  of 512 bytes; the on-disk structures are records with their encoding as the compiler lays
  them out on this machine, big-endian. The vnodes in memory are a store from addresses to
  structures, the table of loaded vnodes is the array of the source. The locks around the reference counts are left out: a
  call runs without another one in between. The static buffers \<open>idbuf\<close> and \<open>iobuf\<close> are
  local, since every use fills them first.
\<close>

subsection \<open>On-disk structures\<close>

definition SFS_NDIRECT :: nat where "SFS_NDIRECT = 15"

definition SFS_DBPERIDB :: nat where "SFS_DBPERIDB = 128"

abbreviation (input) SFS_TYPE_INVAL :: "16 word" where "SFS_TYPE_INVAL \<equiv> 0"
abbreviation (input) SFS_TYPE_FILE :: "16 word" where "SFS_TYPE_FILE \<equiv> 1"
abbreviation (input) SFS_TYPE_DIR :: "16 word" where "SFS_TYPE_DIR \<equiv> 2"
abbreviation (input) SFS_SB_LOCATION :: "32 word" where "SFS_SB_LOCATION \<equiv> 0"
abbreviation (input) SFS_ROOT_LOCATION :: "32 word" where "SFS_ROOT_LOCATION \<equiv> 1"
abbreviation (input) SFS_MAP_LOCATION :: "32 word" where "SFS_MAP_LOCATION \<equiv> 2"
abbreviation (input) SFS_NOINO :: "32 word" where "SFS_NOINO \<equiv> 0"
abbreviation (input) SFS_MAGIC :: "32 word" where "SFS_MAGIC \<equiv> 0xabadf001"

definition enc32 :: "32 word \<Rightarrow> 8 word list" where
  "enc32 w = [ucast (drop_bit 24 w), ucast (drop_bit 16 w), ucast (drop_bit 8 w), ucast w]"

definition dec32 :: "8 word list \<Rightarrow> 32 word" where
  "dec32 bs = push_bit 24 (ucast (bs ! 0)) OR push_bit 16 (ucast (bs ! 1)) OR push_bit 8 (ucast (bs ! 2)) OR ucast (bs ! 3)"

definition bytes_of :: "32 word list \<Rightarrow> 8 word list" where
  "bytes_of ws = concat (map enc32 ws)"

definition words_of :: "8 word list \<Rightarrow> 32 word list" where
  "words_of bs = map (\<lambda>i. dec32 (drop (4 * i) bs)) [0..<length bs div 4]"

record sfs_super =
  sp_magic :: "32 word"
  sp_nblocks :: "32 word"
  sp_volname :: "8 word list"
  sp_reserved :: "8 word list"

record sfs_inode =
  sfi_size :: "32 word"
  sfi_type :: "16 word"
  sfi_linkcount :: "16 word"
  sfi_direct :: "32 word list"
  sfi_indirect :: "32 word"
  sfi_waste :: "32 word list"

record sfs_dir =
  sfd_ino :: "32 word"
  sfd_name :: "8 word list"

definition enc_super :: "sfs_super \<Rightarrow> blk" where
  "enc_super sp = enc32 (sp_magic sp) @ enc32 (sp_nblocks sp) @ sp_volname sp @ sp_reserved sp"

definition dec_super :: "blk \<Rightarrow> sfs_super" where
  "dec_super b = \<lparr>sp_magic = dec32 b, sp_nblocks = dec32 (drop 4 b), sp_volname = take 32 (drop 8 b), sp_reserved = drop 40 b\<rparr>"

definition enc_inode :: "sfs_inode \<Rightarrow> blk" where
  "enc_inode i = bytes_of ([sfi_size i, push_bit 16 (ucast (sfi_type i)) OR ucast (sfi_linkcount i)] @
     sfi_direct i @ [sfi_indirect i] @ sfi_waste i)"

definition dec_inode :: "blk \<Rightarrow> sfs_inode" where
  "dec_inode b = (let ws = words_of b in
     \<lparr>sfi_size = ws ! 0, sfi_type = ucast (drop_bit 16 (ws ! 1)), sfi_linkcount = ucast (ws ! 1),
      sfi_direct = take 15 (drop 2 ws), sfi_indirect = ws ! 17, sfi_waste = drop 18 ws\<rparr>)"

definition enc_dir :: "sfs_dir \<Rightarrow> 8 word list" where
  "enc_dir sd = enc32 (sfd_ino sd) @ sfd_name sd"

definition dec_dir :: "8 word list \<Rightarrow> sfs_dir" where
  "dec_dir bs = \<lparr>sfd_ino = dec32 bs, sfd_name = drop 4 bs\<rparr>"

subsection \<open>The state\<close>

datatype vnode_ops = sfs_fileops | sfs_dirops

record sfs_vnode =
  vn_refcount :: int
  vn_opencount :: int
  vn_ops :: vnode_ops
  sv_i :: sfs_inode
  sv_ino :: "32 word"
  sv_dirty :: int

record 'd sfs_fs =
  sfs_super :: sfs_super
  sfs_superdirty :: int
  sfs_device :: 'd
  sfs_vnodes :: "addr karray"
  sfs_store :: "addr \<rightharpoonup> sfs_vnode"
  sfs_freemap :: kbitmap
  sfs_freemapdirty :: int

type_synonym 'd d_io = "vuio \<Rightarrow> 'd \<Rightarrow> (int \<times> vuio \<times> 'd) option"

definition upd_vnode :: "addr \<Rightarrow> (sfs_vnode \<Rightarrow> sfs_vnode) \<Rightarrow> 'd sfs_fs \<Rightarrow> 'd sfs_fs" where
  "upd_vnode a f s = s\<lparr>sfs_store := (sfs_store s)(a := map_option f (sfs_store s a))\<rparr>"

definition upd_inode :: "addr \<Rightarrow> (sfs_inode \<Rightarrow> sfs_inode) \<Rightarrow> 'd sfs_fs \<Rightarrow> 'd sfs_fs" where
  "upd_inode a f s = upd_vnode a (\<lambda>sv. sv\<lparr>sv_i := f (sv_i sv), sv_dirty := 1\<rparr>) s"

subsection \<open>Block I/O\<close>

text \<open>The retries of \<open>sfs_rwblock\<close>; after \<open>EIO\<close> it goes on with the same uio.\<close>

primrec sfs_rwblock_try :: "'d d_io \<Rightarrow> nat \<Rightarrow> vuio \<Rightarrow> 'd \<Rightarrow> (int \<times> vuio \<times> 'd) option" where
  "sfs_rwblock_try dio 0 uio d = do {
     (result, uio1, d1) \<leftarrow> dio uio d;
     kassert (result \<noteq> EINVAL);
     Some (result, uio1, d1)
   }"
| "sfs_rwblock_try dio (Suc n) uio d = do {
     (result, uio1, d1) \<leftarrow> dio uio d;
     kassert (result \<noteq> EINVAL);
     if result = EIO then sfs_rwblock_try dio n uio1 d1 else Some (result, uio1, d1)
   }"

definition sfs_rwblock :: "'d d_io \<Rightarrow> vuio \<Rightarrow> 'd sfs_fs \<Rightarrow> (int \<times> vuio \<times> 'd sfs_fs) option" where
  "sfs_rwblock dio uio s = do {
     (result, uio1, d) \<leftarrow> sfs_rwblock_try dio 10 uio (sfs_device s);
     Some (result, uio1, s\<lparr>sfs_device := d\<rparr>)
   }"

definition sfs_rblock :: "'d d_io \<Rightarrow> 32 word \<Rightarrow> 'd sfs_fs \<Rightarrow> (int \<times> blk \<times> 'd sfs_fs) option" where
  "sfs_rblock dio block s = do {
     pos \<leftarrow> cint (sint block * 512);
     (result, ku, s1) \<leftarrow> sfs_rwblock dio (vkuio [] 512 (word_of_int pos) UIO_READ) s;
     Some (result, vu_data ku, s1)
   }"

definition sfs_wblock :: "'d d_io \<Rightarrow> blk \<Rightarrow> 32 word \<Rightarrow> 'd sfs_fs \<Rightarrow> (int \<times> 'd sfs_fs) option" where
  "sfs_wblock dio data block s = do {
     pos \<leftarrow> cint (sint block * 512);
     (result, ku, s1) \<leftarrow> sfs_rwblock dio (vkuio data 512 (word_of_int pos) UIO_WRITE) s;
     Some (result, s1)
   }"

definition sfs_clearblock :: "'d d_io \<Rightarrow> 32 word \<Rightarrow> 'd sfs_fs \<Rightarrow> (int \<times> 'd sfs_fs) option" where
  "sfs_clearblock dio block s = sfs_wblock dio (replicate 512 0) block s"

definition sfs_sync_inode :: "'d d_io \<Rightarrow> addr \<Rightarrow> 'd sfs_fs \<Rightarrow> (int \<times> 'd sfs_fs) option" where
  "sfs_sync_inode dio a s = do {
     sv \<leftarrow> sfs_store s a;
     if sv_dirty sv \<noteq> 0 then do {
       (result, s1) \<leftarrow> sfs_wblock dio (enc_inode (sv_i sv)) (sv_ino sv) s;
       if result \<noteq> 0 then Some (result, s1)
       else Some (0, upd_vnode a (\<lambda>sv. sv\<lparr>sv_dirty := 0\<rparr>) s1)
     }
     else Some (0, s)
   }"

subsection \<open>Space allocation\<close>

definition sfs_balloc :: "'d d_io \<Rightarrow> 32 word \<Rightarrow> 'd sfs_fs \<Rightarrow> (int \<times> 32 word \<times> 'd sfs_fs) option" where
  "sfs_balloc dio diskblock s = do {
     (result, block, fm) \<leftarrow> bitmap_alloc (sfs_freemap s) diskblock;
     if result \<noteq> 0 then Some (result, block, s\<lparr>sfs_freemap := fm\<rparr>)
     else do {
       let s1 = s\<lparr>sfs_freemap := fm, sfs_freemapdirty := 1\<rparr>;
       kassert (block < sp_nblocks (sfs_super s1));
       (result, s2) \<leftarrow> sfs_clearblock dio block s1;
       Some (result, block, s2)
     }
   }"

definition sfs_bfree :: "32 word \<Rightarrow> 'd sfs_fs \<Rightarrow> 'd sfs_fs option" where
  "sfs_bfree diskblock s = do {
     fm \<leftarrow> bitmap_unmark (sfs_freemap s) diskblock;
     Some (s\<lparr>sfs_freemap := fm, sfs_freemapdirty := 1\<rparr>)
   }"

definition sfs_bused :: "32 word \<Rightarrow> 'd sfs_fs \<Rightarrow> bool option" where
  "sfs_bused diskblock s = do {
     kassert (diskblock < sp_nblocks (sfs_super s));
     w \<leftarrow> bitmap_isset (sfs_freemap s) diskblock;
     Some (w \<noteq> 0)
   }"

subsection \<open>Block mapping\<close>

text \<open>The test before a block is handed back.\<close>

definition sfs_handback :: "32 word \<Rightarrow> 'd sfs_fs \<Rightarrow> (int \<times> 32 word \<times> 'd sfs_fs) option" where
  "sfs_handback block s =
     (if block \<noteq> 0 then do { used \<leftarrow> sfs_bused block s; kassert used; Some (0, block, s) } else Some (0, block, s))"

text \<open>The part of \<open>sfs_bmap\<close> from the indirect block \<open>idblock\<close> with contents \<open>idbuf\<close> on.\<close>

definition sfs_bmap_indirect :: "'d d_io \<Rightarrow> 32 word \<Rightarrow> 32 word list \<Rightarrow> nat \<Rightarrow> bool \<Rightarrow> 'd sfs_fs
    \<Rightarrow> (int \<times> 32 word \<times> 'd sfs_fs) option" where
  "sfs_bmap_indirect dio idblock idbuf idoff doalloc s = do {
     block \<leftarrow> rd idbuf idoff;
     if block = 0 \<and> doalloc then do {
       (result, block, s1) \<leftarrow> sfs_balloc dio block s;
       if result \<noteq> 0 then Some (result, 0, s1)
       else do {
         idbuf1 \<leftarrow> wr idbuf idoff block;
         (result, s2) \<leftarrow> sfs_wblock dio (bytes_of idbuf1) idblock s1;
         if result \<noteq> 0 then Some (result, 0, s2) else sfs_handback block s2
       }
     }
     else sfs_handback block s
   }"

definition sfs_bmap :: "'d d_io \<Rightarrow> addr \<Rightarrow> 32 word \<Rightarrow> bool \<Rightarrow> 'd sfs_fs \<Rightarrow> (int \<times> 32 word \<times> 'd sfs_fs) option" where
  "sfs_bmap dio a fileblock doalloc s = do {
     sv \<leftarrow> sfs_store s a;
     if fileblock < of_nat SFS_NDIRECT then do {
       block \<leftarrow> rd (sfi_direct (sv_i sv)) (unat fileblock);
       if block = 0 \<and> doalloc then do {
         (result, block, s1) \<leftarrow> sfs_balloc dio block s;
         if result \<noteq> 0 then Some (result, 0, s1)
         else do {
           direct \<leftarrow> wr (sfi_direct (sv_i sv)) (unat fileblock) block;
           sfs_handback block (upd_inode a (\<lambda>i. i\<lparr>sfi_direct := direct\<rparr>) s1)
         }
       }
       else sfs_handback block s
     }
     else do {
       let fileblock1 = fileblock - of_nat SFS_NDIRECT;
       let idnum = fileblock1 div of_nat SFS_DBPERIDB;
       let idoff = unat (fileblock1 mod of_nat SFS_DBPERIDB);
       if idnum > 0 then Some (EINVAL, 0, s)
       else do {
         let idblock = sfi_indirect (sv_i sv);
         if idblock = 0 \<and> \<not> doalloc then Some (0, 0, s)
         else if idblock = 0 then do {
           (result, idblock, s1) \<leftarrow> sfs_balloc dio idblock s;
           if result \<noteq> 0 then Some (result, 0, s1)
           else sfs_bmap_indirect dio idblock (replicate SFS_DBPERIDB 0) idoff doalloc
             (upd_inode a (\<lambda>i. i\<lparr>sfi_indirect := idblock\<rparr>) s1)
         }
         else do {
           (result, b, s1) \<leftarrow> sfs_rblock dio idblock s;
           if result \<noteq> 0 then Some (result, 0, s1)
           else sfs_bmap_indirect dio idblock (words_of b) idoff doalloc s1
         }
       }
     }
   }"

subsection \<open>File I/O\<close>

text \<open>The block of the file at the offset of a uio; the offset is signed.\<close>

definition uio_fileblock :: "vuio \<Rightarrow> 32 word" where
  "uio_fileblock uio = word_of_int (sint (vu_offset uio) sdiv 512)"

definition sfs_partialio :: "'d d_io \<Rightarrow> addr \<Rightarrow> vuio \<Rightarrow> 32 word \<Rightarrow> 32 word \<Rightarrow> 'd sfs_fs \<Rightarrow> (int \<times> vuio \<times> 'd sfs_fs) option" where
  "sfs_partialio dio a uio skipstart len s = do {
     let doalloc = (vu_rw uio = UIO_WRITE);
     kassert (skipstart + len \<le> 512);
     (result, diskblock, s1) \<leftarrow> sfs_bmap dio a (uio_fileblock uio) doalloc s;
     if result \<noteq> 0 then Some (result, uio, s1)
     else do {
       (result, iobuf, s2) \<leftarrow>
         (if diskblock = 0 then do { kassert (vu_rw uio = UIO_READ); Some (0, replicate 512 0, s1) }
          else sfs_rblock dio diskblock s1);
       if result \<noteq> 0 then Some (result, uio, s2)
       else do {
         (result, uio1, part) \<leftarrow> vuiomove (take (unat len) (drop (unat skipstart) iobuf)) uio;
         if result \<noteq> 0 then Some (result, uio1, s2)
         else if vu_rw uio1 = UIO_WRITE then do {
           let iobuf1 = take (unat skipstart) iobuf @ part @ drop (unat skipstart + unat len) iobuf;
           (result, s3) \<leftarrow> sfs_wblock dio iobuf1 diskblock s2;
           Some (result, uio1, s3)
         }
         else Some (0, uio1, s2)
       }
     }
   }"

definition sfs_blockio :: "'d d_io \<Rightarrow> addr \<Rightarrow> vuio \<Rightarrow> 'd sfs_fs \<Rightarrow> (int \<times> vuio \<times> 'd sfs_fs) option" where
  "sfs_blockio dio a uio s = do {
     let doalloc = (vu_rw uio = UIO_WRITE);
     (result, diskblock, s1) \<leftarrow> sfs_bmap dio a (uio_fileblock uio) doalloc s;
     if result \<noteq> 0 then Some (result, uio, s1)
     else if diskblock = 0 then do {
       kassert (vu_rw uio = UIO_READ);
       (result, uio1) \<leftarrow> vuiomovezeros 512 uio;
       Some (result, uio1, s1)
     }
     else do {
       let saveoff = vu_offset uio;
       let diskoff = diskblock * 512;
       kassert (vu_resid uio \<ge> 512);
       let saveres = vu_resid uio;
       let diskres = 512;
       (result, uio1, s2) \<leftarrow> sfs_rwblock dio (uio\<lparr>vu_offset := diskoff, vu_resid := diskres\<rparr>) s1;
       Some (result, uio1\<lparr>vu_offset := (vu_offset uio1 - diskoff) + saveoff, vu_resid := (vu_resid uio1 - diskres) + saveres\<rparr>, s2)
     }
   }"

primrec sfs_blocks_loop :: "'d d_io \<Rightarrow> addr \<Rightarrow> nat \<Rightarrow> vuio \<Rightarrow> 'd sfs_fs \<Rightarrow> (int \<times> vuio \<times> 'd sfs_fs) option" where
  "sfs_blocks_loop dio a 0 uio s = Some (0, uio, s)"
| "sfs_blocks_loop dio a (Suc n) uio s = do {
     (result, uio1, s1) \<leftarrow> sfs_blockio dio a uio s;
     if result \<noteq> 0 then Some (result, uio1, s1) else sfs_blocks_loop dio a n uio1 s1
   }"

text \<open>The transfer itself, from the leading partial block to the label \<open>out\<close>.\<close>

definition sfs_io_blocks :: "'d d_io \<Rightarrow> addr \<Rightarrow> vuio \<Rightarrow> 'd sfs_fs \<Rightarrow> (int \<times> vuio \<times> 'd sfs_fs) option" where
  "sfs_io_blocks dio a uio s = do {
     let blkoff = word_of_int (sint (vu_offset uio) smod 512);
     (result, uio1, s1) \<leftarrow>
       (if blkoff \<noteq> 0 then sfs_partialio dio a uio blkoff (min (512 - blkoff) (vu_resid uio)) s else Some (0, uio, s));
     if result \<noteq> 0 \<or> vu_resid uio1 = 0 then Some (result, uio1, s1)
     else do {
       kassert (sint (vu_offset uio1) smod 512 = 0);
       (result, uio2, s2) \<leftarrow> sfs_blocks_loop dio a (unat (vu_resid uio1 div 512)) uio1 s1;
       if result \<noteq> 0 then Some (result, uio2, s2)
       else do {
         kassert (vu_resid uio2 < 512);
         if vu_resid uio2 > 0 then sfs_partialio dio a uio2 0 (vu_resid uio2) s2 else Some (0, uio2, s2)
       }
     }
   }"

definition sfs_io :: "'d d_io \<Rightarrow> addr \<Rightarrow> vuio \<Rightarrow> 'd sfs_fs \<Rightarrow> (int \<times> vuio \<times> 'd sfs_fs) option" where
  "sfs_io dio a uio s = do {
     sv \<leftarrow> sfs_store s a;
     let sz = sint (sfi_size (sv_i sv));
     let endpos = sint (vu_offset uio + vu_resid uio);
     if vu_rw uio = UIO_READ \<and> sint (vu_offset uio) \<ge> sz then Some (0, uio, s)
     else do {
       extraresid \<leftarrow> (if vu_rw uio = UIO_READ \<and> endpos > sz then do {
           e \<leftarrow> cint (endpos - sz);
           kassert (vu_resid uio > word_of_int e);
           Some (word_of_int e)
         } else Some 0);
       (result, uio1, s1) \<leftarrow> sfs_io_blocks dio a (uio\<lparr>vu_resid := vu_resid uio - extraresid\<rparr>) s;
       sv1 \<leftarrow> sfs_store s1 a;
       let s2 = (if vu_rw uio1 = UIO_WRITE \<and> sint (vu_offset uio1) > sint (sfi_size (sv_i sv1))
                 then upd_inode a (\<lambda>i. i\<lparr>sfi_size := vu_offset uio1\<rparr>) s1 else s1);
       Some (result, uio1\<lparr>vu_resid := vu_resid uio1 + extraresid\<rparr>, s2)
     }
   }"

subsection \<open>Directories\<close>

text \<open>The string in a buffer of characters.\<close>

definition cstring :: "8 word list \<Rightarrow> 8 word list" where
  "cstring bs = takeWhile (\<lambda>c. c \<noteq> 0) bs"

definition sfs_readdir :: "'d d_io \<Rightarrow> addr \<Rightarrow> int \<Rightarrow> 'd sfs_fs \<Rightarrow> (int \<times> sfs_dir \<times> 'd sfs_fs) option" where
  "sfs_readdir dio a slot s = do {
     (result, ku, s1) \<leftarrow> sfs_io dio a (vkuio [] 64 (word_of_int slot * 64) UIO_READ) s;
     if result \<noteq> 0 then Some (result, dec_dir (vu_data ku), s1)
     else do {
       kassert (\<not> vu_resid ku > 0);
       Some (0, dec_dir (vu_data ku), s1)
     }
   }"

definition sfs_writedir :: "'d d_io \<Rightarrow> addr \<Rightarrow> sfs_dir \<Rightarrow> int \<Rightarrow> 'd sfs_fs \<Rightarrow> (int \<times> 'd sfs_fs) option" where
  "sfs_writedir dio a sd slot s = do {
     kassert (slot \<ge> 0);
     (result, ku, s1) \<leftarrow> sfs_io dio a (vkuio (enc_dir sd) 64 (word_of_int slot * 64) UIO_WRITE) s;
     if result \<noteq> 0 then Some (result, s1)
     else do {
       kassert (\<not> vu_resid ku > 0);
       Some (0, s1)
     }
   }"

text \<open>\<open>off_t\<close> is converted to \<open>size_t\<close> by the remainder and the quotient.\<close>

definition sfs_dir_nentries :: "addr \<Rightarrow> 'd sfs_fs \<Rightarrow> int option" where
  "sfs_dir_nentries a s = do {
     sv \<leftarrow> sfs_store s a;
     kassert (sfi_type (sv_i sv) = SFS_TYPE_DIR);
     let sz = sfi_size (sv_i sv);
     kassert (sz mod 64 = 0);
     Some (sint (sz div 64))
   }"

text \<open>
  The loop over the slots from \<open>i\<close>, \<open>n\<close> of them left. The name found so far comes with its inode and slot;
  the empty slot reported is the last one.
\<close>

primrec sfs_findname_loop :: "'d d_io \<Rightarrow> nat \<Rightarrow> addr \<Rightarrow> 8 word list \<Rightarrow> int \<Rightarrow> (32 word \<times> int) option \<Rightarrow> int option \<Rightarrow> 'd sfs_fs
    \<Rightarrow> (int \<times> (32 word \<times> int) option \<times> int option \<times> 'd sfs_fs) option" where
  "sfs_findname_loop dio 0 a name i found emptyslot s = Some (if found \<noteq> None then 0 else ENOENT, found, emptyslot, s)"
| "sfs_findname_loop dio (Suc n) a name i found emptyslot s = do {
     (result, tsd, s1) \<leftarrow> sfs_readdir dio a i s;
     if result \<noteq> 0 then Some (result, found, emptyslot, s1)
     else if sfd_ino tsd = SFS_NOINO then sfs_findname_loop dio n a name (i + 1) found (Some i) s1
     else if cstring ((sfd_name tsd)[59 := 0]) = name then do {
       kassert (found = None);
       sfs_findname_loop dio n a name (i + 1) (Some (sfd_ino tsd, i)) emptyslot s1
     }
     else sfs_findname_loop dio n a name (i + 1) found emptyslot s1
   }"

definition sfs_dir_findname :: "'d d_io \<Rightarrow> addr \<Rightarrow> 8 word list \<Rightarrow> 'd sfs_fs
    \<Rightarrow> (int \<times> (32 word \<times> int) option \<times> int option \<times> 'd sfs_fs) option" where
  "sfs_dir_findname dio a name s = do {
     nentries \<leftarrow> sfs_dir_nentries a s;
     sfs_findname_loop dio (nat nentries) a name 0 None None s
   }"

text \<open>The second component of the result is \<open>*slot\<close>.\<close>

definition sfs_dir_link :: "'d d_io \<Rightarrow> addr \<Rightarrow> 8 word list \<Rightarrow> 32 word \<Rightarrow> 'd sfs_fs \<Rightarrow> (int \<times> int \<times> 'd sfs_fs) option" where
  "sfs_dir_link dio a name ino s = do {
     (result, found, emptyslot, s1) \<leftarrow> sfs_dir_findname dio a name s;
     if result \<noteq> 0 \<and> result \<noteq> ENOENT then Some (result, 0, s1)
     else if result = 0 then Some (EEXIST, 0, s1)
     else if length name + 1 > 60 then Some (ENAMETOOLONG, 0, s1)
     else do {
       slot \<leftarrow> (case emptyslot of Some e \<Rightarrow> Some e | None \<Rightarrow> sfs_dir_nentries a s1);
       (result, s2) \<leftarrow> sfs_writedir dio a \<lparr>sfd_ino = ino, sfd_name = name @ replicate (60 - length name) 0\<rparr> slot s1;
       Some (result, slot, s2)
     }
   }"

definition sfs_dir_unlink :: "'d d_io \<Rightarrow> addr \<Rightarrow> int \<Rightarrow> 'd sfs_fs \<Rightarrow> (int \<times> 'd sfs_fs) option" where
  "sfs_dir_unlink dio a slot s = sfs_writedir dio a \<lparr>sfd_ino = SFS_NOINO, sfd_name = replicate 60 0\<rparr> slot s"

subsection \<open>Vnodes\<close>

text \<open>
  The reference counts of \<^verbatim>\<open>vnode.c\<close>. The parameters \<open>p\<close>, \<open>lk\<close> and \<open>km\<close> are the outcomes of \<open>kmalloc\<close> for the vnode
  (0 is NULL), of \<open>lock_create\<close>, and of the allocation in \<open>array_add\<close>.
\<close>

definition vnode_init :: "bool \<Rightarrow> vnode_ops \<Rightarrow> sfs_vnode \<Rightarrow> int \<times> sfs_vnode" where
  "vnode_init lk ops v = (
     let v1 = v\<lparr>vn_ops := ops, vn_refcount := 1, vn_opencount := 0\<rparr>
     in if \<not> lk then (ENOMEM, v1) else (0, v1))"

definition vnode_kill :: "sfs_vnode \<Rightarrow> sfs_vnode option" where
  "vnode_kill v = do {
     kassert (vn_refcount v = 1);
     kassert (vn_opencount v = 0);
     Some (v\<lparr>vn_refcount := 0, vn_opencount := 0\<rparr>)
   }"

definition vnode_incref :: "addr \<Rightarrow> 'd sfs_fs \<Rightarrow> 'd sfs_fs option" where
  "vnode_incref a s = do {
     v \<leftarrow> sfs_store s a;
     n \<leftarrow> cint (vn_refcount v + 1);
     Some (upd_vnode a (\<lambda>v. v\<lparr>vn_refcount := n\<rparr>) s)
   }"

definition vnode_incopen :: "addr \<Rightarrow> 'd sfs_fs \<Rightarrow> 'd sfs_fs option" where
  "vnode_incopen a s = do {
     v \<leftarrow> sfs_store s a;
     n \<leftarrow> cint (vn_opencount v + 1);
     Some (upd_vnode a (\<lambda>v. v\<lparr>vn_opencount := n\<rparr>) s)
   }"

text \<open>\<open>VOP_CLOSE\<close> is \<open>sfs_close\<close> for both kinds of vnodes, which syncs the inode.\<close>

definition sfs_fsync :: "'d d_io \<Rightarrow> addr \<Rightarrow> 'd sfs_fs \<Rightarrow> (int \<times> 'd sfs_fs) option" where
  "sfs_fsync dio a s = sfs_sync_inode dio a s"

definition sfs_close :: "'d d_io \<Rightarrow> addr \<Rightarrow> 'd sfs_fs \<Rightarrow> (int \<times> 'd sfs_fs) option" where
  "sfs_close dio a s = sfs_fsync dio a s"

definition vnode_decopen :: "'d d_io \<Rightarrow> addr \<Rightarrow> 'd sfs_fs \<Rightarrow> 'd sfs_fs option" where
  "vnode_decopen dio a s = do {
     v \<leftarrow> sfs_store s a;
     kassert (vn_opencount v > 0);
     let opencount = vn_opencount v - 1;
     let s1 = upd_vnode a (\<lambda>v. v\<lparr>vn_opencount := opencount\<rparr>) s;
     if opencount > 0 then Some s1 else map_option snd (sfs_close dio a s1)
   }"

text \<open>The search in the table of loaded vnodes, from \<open>i\<close> on with \<open>n\<close> entries left.\<close>

primrec sfs_loaded :: "nat \<Rightarrow> int \<Rightarrow> 32 word \<Rightarrow> 'd sfs_fs \<Rightarrow> addr option option" where
  "sfs_loaded 0 i ino s = Some None"
| "sfs_loaded (Suc n) i ino s = do {
     a \<leftarrow> array_getguy (sfs_vnodes s) i;
     sv \<leftarrow> sfs_store s a;
     used \<leftarrow> sfs_bused (sv_ino sv) s;
     kassert used;
     if sv_ino sv = ino then Some (Some a) else sfs_loaded n (i + 1) ino s
   }"

definition sfs_loadvnode :: "'d d_io \<Rightarrow> addr \<Rightarrow> bool \<Rightarrow> (nat \<Rightarrow> addr list nullable) \<Rightarrow> 32 word \<Rightarrow> 16 word \<Rightarrow> 'd sfs_fs
    \<Rightarrow> (int \<times> addr \<times> 'd sfs_fs) option" where
  "sfs_loadvnode dio p lk km ino forcetype s = do {
     old \<leftarrow> sfs_loaded (nat (array_getnum (sfs_vnodes s))) 0 ino s;
     (case old of
        Some a \<Rightarrow> do {
          kassert (forcetype = SFS_TYPE_INVAL);
          s1 \<leftarrow> vnode_incref a s;
          Some (0, a, s1)
        }
      | None \<Rightarrow>
          if p = 0 then Some (ENOMEM, 0, s)
          else do {
            used \<leftarrow> sfs_bused ino s;
            kassert used;
            (result, b, s1) \<leftarrow> sfs_rblock dio ino s;
            if result \<noteq> 0 then Some (result, 0, s1)
            else do {
              let i = dec_inode b;
              kassert (forcetype = SFS_TYPE_INVAL \<or> sfi_type i = SFS_TYPE_INVAL);
              let (i1, dirty) = (if forcetype \<noteq> SFS_TYPE_INVAL then (i\<lparr>sfi_type := forcetype\<rparr>, 1) else (i, 0));
              kassert (sfi_type i1 = SFS_TYPE_FILE \<or> sfi_type i1 = SFS_TYPE_DIR);
              let ops = (if sfi_type i1 = SFS_TYPE_FILE then sfs_fileops else sfs_dirops);
              let (result, sv) = vnode_init lk ops \<lparr>vn_refcount = 0, vn_opencount = 0, vn_ops = ops, sv_i = i1, sv_ino = ino, sv_dirty = dirty\<rparr>;
              if result \<noteq> 0 then Some (result, 0, s1)
              else do {
                (result, vs) \<leftarrow> array_add km (sfs_vnodes s1) p;
                if result \<noteq> 0 then Some (result, 0, s1\<lparr>sfs_vnodes := vs\<rparr>)
                else Some (0, p, s1\<lparr>sfs_vnodes := vs, sfs_store := (sfs_store s1)(p \<mapsto> sv)\<rparr>)
              }
            }
          })
   }"

definition sfs_getroot :: "'d d_io \<Rightarrow> addr \<Rightarrow> bool \<Rightarrow> (nat \<Rightarrow> addr list nullable) \<Rightarrow> 'd sfs_fs \<Rightarrow> (addr \<times> 'd sfs_fs) option" where
  "sfs_getroot dio p lk km s = do {
     (result, a, s1) \<leftarrow> sfs_loadvnode dio p lk km SFS_ROOT_LOCATION SFS_TYPE_INVAL s;
     kassert (result = 0);
     Some (a, s1)
   }"

definition sfs_lookonce :: "'d d_io \<Rightarrow> addr \<Rightarrow> bool \<Rightarrow> (nat \<Rightarrow> addr list nullable) \<Rightarrow> addr \<Rightarrow> 8 word list \<Rightarrow> 'd sfs_fs
    \<Rightarrow> (int \<times> addr \<times> int \<times> 'd sfs_fs) option" where
  "sfs_lookonce dio p lk km a name s = do {
     (result, found, emptyslot, s1) \<leftarrow> sfs_dir_findname dio a name s;
     if result \<noteq> 0 then Some (result, 0, 0, s1)
     else do {
       (ino, slot) \<leftarrow> found;
       (result, v, s2) \<leftarrow> sfs_loadvnode dio p lk km ino SFS_TYPE_INVAL s1;
       if result \<noteq> 0 then Some (result, 0, 0, s2)
       else do {
         sv \<leftarrow> sfs_store s2 v;
         kassert (sfi_linkcount (sv_i sv) \<noteq> 0);
         Some (0, v, slot, s2)
       }
     }
   }"

definition sfs_makeobj :: "'d d_io \<Rightarrow> addr \<Rightarrow> bool \<Rightarrow> (nat \<Rightarrow> addr list nullable) \<Rightarrow> 16 word \<Rightarrow> 'd sfs_fs
    \<Rightarrow> (int \<times> addr \<times> 'd sfs_fs) option" where
  "sfs_makeobj dio p lk km ty s = do {
     (result, ino, s1) \<leftarrow> sfs_balloc dio 0 s;
     if result \<noteq> 0 then Some (result, 0, s1)
     else sfs_loadvnode dio p lk km ino ty s1
   }"

subsection \<open>Truncation and reclaiming\<close>

text \<open>
  The two loops of \<open>sfs_truncate\<close>: the blocks of a list, the first of which has the number \<open>i\<close>, are freed where \<open>past\<close>
  holds. The Boolean tells whether one was freed.
\<close>

primrec sfs_trunc_blocks :: "(nat \<Rightarrow> bool) \<Rightarrow> nat \<Rightarrow> 32 word list \<Rightarrow> 'd sfs_fs \<Rightarrow> (32 word list \<times> bool \<times> 'd sfs_fs) option" where
  "sfs_trunc_blocks past i [] s = Some ([], False, s)"
| "sfs_trunc_blocks past i (b # bs) s =
     (if past i \<and> b \<noteq> 0 then do {
        s1 \<leftarrow> sfs_bfree b s;
        (bs1, dirty, s2) \<leftarrow> sfs_trunc_blocks past (Suc i) bs s1;
        Some (0 # bs1, True, s2)
      }
      else do {
        (bs1, dirty, s2) \<leftarrow> sfs_trunc_blocks past (Suc i) bs s;
        Some (b # bs1, dirty, s2)
      })"

definition sfs_truncate :: "'d d_io \<Rightarrow> addr \<Rightarrow> 32 word \<Rightarrow> 'd sfs_fs \<Rightarrow> (int \<times> 'd sfs_fs) option" where
  "sfs_truncate dio a len s = do {
     n \<leftarrow> cint (sint len + 511);
     let blocklen = unat (word_of_int (n sdiv 512) :: 32 word);
     sv \<leftarrow> sfs_store s a;
     (direct, dirty, s1) \<leftarrow> sfs_trunc_blocks (\<lambda>i. i \<ge> blocklen) 0 (sfi_direct (sv_i sv)) s;
     let s2 = (if dirty then upd_inode a (\<lambda>i. i\<lparr>sfi_direct := direct\<rparr>) s1 else s1);
     let idblock = sfi_indirect (sv_i sv);
     let highblock = SFS_NDIRECT + SFS_DBPERIDB - 1;
     (result, s3) \<leftarrow>
       (if blocklen < highblock \<and> idblock \<noteq> 0 then do {
          (result, b, s3) \<leftarrow> sfs_rblock dio idblock s2;
          if result \<noteq> 0 then Some (result, s3)
          else do {
            (idbuf, iddirty, s4) \<leftarrow> sfs_trunc_blocks (\<lambda>i. blocklen < i) SFS_NDIRECT (words_of b) s3;
            if \<not> list_ex (\<lambda>w. w \<noteq> 0) idbuf then do {
              s5 \<leftarrow> sfs_bfree idblock s4;
              Some (0, upd_inode a (\<lambda>i. i\<lparr>sfi_indirect := 0\<rparr>) s5)
            }
            else if iddirty then sfs_wblock dio (bytes_of idbuf) idblock s4
            else Some (0, s4)
          }
        }
        else Some (0, s2));
     if result \<noteq> 0 then Some (result, s3)
     else Some (0, upd_inode a (\<lambda>i. i\<lparr>sfi_size := len\<rparr>) s3)
   }"

text \<open>\<open>VOP_TRUNCATE\<close> goes through the table of the vnode's kind.\<close>

definition vop_truncate :: "'d d_io \<Rightarrow> addr \<Rightarrow> 32 word \<Rightarrow> 'd sfs_fs \<Rightarrow> (int \<times> 'd sfs_fs) option" where
  "vop_truncate dio a len s = do {
     sv \<leftarrow> sfs_store s a;
     (case vn_ops sv of sfs_fileops \<Rightarrow> sfs_truncate dio a len s | sfs_dirops \<Rightarrow> Some (EISDIR, s))
   }"

primrec sfs_vnode_index :: "nat \<Rightarrow> int \<Rightarrow> addr \<Rightarrow> 'd sfs_fs \<Rightarrow> int option" where
  "sfs_vnode_index 0 i a s = None"
| "sfs_vnode_index (Suc n) i a s = do {
     b \<leftarrow> array_getguy (sfs_vnodes s) i;
     if b = a then Some i else sfs_vnode_index n (i + 1) a s
   }"

definition sfs_reclaim :: "'d d_io \<Rightarrow> addr \<Rightarrow> 'd sfs_fs \<Rightarrow> (int \<times> 'd sfs_fs) option" where
  "sfs_reclaim dio a s = do {
     sv \<leftarrow> sfs_store s a;
     if vn_refcount sv \<noteq> 1 then do {
       kassert (vn_refcount sv > 1);
       Some (EBUSY, upd_vnode a (\<lambda>v. v\<lparr>vn_refcount := vn_refcount v - 1\<rparr>) s)
     }
     else do {
       (result, s1) \<leftarrow> (if sfi_linkcount (sv_i sv) = 0 then vop_truncate dio a 0 s else Some (0, s));
       if result \<noteq> 0 then Some (result, s1)
       else do {
         (result, s2) \<leftarrow> sfs_sync_inode dio a s1;
         if result \<noteq> 0 then Some (result, s2)
         else do {
           s3 \<leftarrow> (if sfi_linkcount (sv_i sv) = 0 then sfs_bfree (sv_ino sv) s2 else Some s2);
           ix \<leftarrow> sfs_vnode_index (nat (array_getnum (sfs_vnodes s3))) 0 a s3;
           vs \<leftarrow> array_remove (sfs_vnodes s3) ix;
           sv3 \<leftarrow> sfs_store s3 a;
           dead \<leftarrow> vnode_kill sv3;
           Some (0, s3\<lparr>sfs_vnodes := vs, sfs_store := (sfs_store s3)(a := None)\<rparr>)
         }
       }
     }
   }"

definition vnode_decref :: "'d d_io \<Rightarrow> addr \<Rightarrow> 'd sfs_fs \<Rightarrow> 'd sfs_fs option" where
  "vnode_decref dio a s = do {
     v \<leftarrow> sfs_store s a;
     kassert (vn_refcount v > 0);
     if vn_refcount v > 1 then Some (upd_vnode a (\<lambda>v. v\<lparr>vn_refcount := vn_refcount v - 1\<rparr>) s)
     else map_option snd (sfs_reclaim dio a s)
   }"

subsection \<open>Vnode operations\<close>

definition sfs_open :: "32 word \<Rightarrow> int" where
  "sfs_open openflags = (if openflags AND 32 \<noteq> 0 then EUNIMP else 0)"

definition sfs_opendir :: "32 word \<Rightarrow> int" where
  "sfs_opendir openflags = (if openflags AND 3 \<noteq> 0 then EISDIR else if openflags AND 32 \<noteq> 0 then EISDIR else 0)"

definition sfs_read :: "'d d_io \<Rightarrow> addr \<Rightarrow> vuio \<Rightarrow> 'd sfs_fs \<Rightarrow> (int \<times> vuio \<times> 'd sfs_fs) option" where
  "sfs_read dio a uio s = do { kassert (vu_rw uio = UIO_READ); sfs_io dio a uio s }"

definition sfs_write :: "'d d_io \<Rightarrow> addr \<Rightarrow> vuio \<Rightarrow> 'd sfs_fs \<Rightarrow> (int \<times> vuio \<times> 'd sfs_fs) option" where
  "sfs_write dio a uio s = do { kassert (vu_rw uio = UIO_WRITE); sfs_io dio a uio s }"

definition sfs_gettype :: "addr \<Rightarrow> 'd sfs_fs \<Rightarrow> 32 word option" where
  "sfs_gettype a s = do {
     sv \<leftarrow> sfs_store s a;
     if sfi_type (sv_i sv) = SFS_TYPE_FILE then Some 4096
     else if sfi_type (sv_i sv) = SFS_TYPE_DIR then Some 8192
     else None
   }"

record stat =
  st_mode :: "32 word"
  st_size :: "32 word"
  st_nlink :: "32 word"
  st_blocks :: "32 word"

definition sfs_stat :: "addr \<Rightarrow> 'd sfs_fs \<Rightarrow> (int \<times> stat) option" where
  "sfs_stat a s = do {
     sv \<leftarrow> sfs_store s a;
     mode \<leftarrow> sfs_gettype a s;
     Some (0, \<lparr>st_mode = mode, st_size = sfi_size (sv_i sv), st_nlink = 0, st_blocks = 0\<rparr>)
   }"

definition sfs_tryseek :: "32 word \<Rightarrow> int" where
  "sfs_tryseek pos = (if sint pos < 0 then EINVAL else 0)"

definition sfs_namefile :: "addr \<Rightarrow> 'd sfs_fs \<Rightarrow> int option" where
  "sfs_namefile a s = do {
     sv \<leftarrow> sfs_store s a;
     kassert (sv_ino sv = SFS_ROOT_LOCATION);
     Some 0
   }"

definition sfs_creat :: "'d d_io \<Rightarrow> addr \<Rightarrow> bool \<Rightarrow> (nat \<Rightarrow> addr list nullable) \<Rightarrow> addr \<Rightarrow> 8 word list \<Rightarrow> bool \<Rightarrow> 'd sfs_fs
    \<Rightarrow> (int \<times> addr \<times> 'd sfs_fs) option" where
  "sfs_creat dio p lk km a name excl s = do {
     (result, found, emptyslot, s1) \<leftarrow> sfs_dir_findname dio a name s;
     if result \<noteq> 0 \<and> result \<noteq> ENOENT then Some (result, 0, s1)
     else if result = 0 \<and> excl then Some (EEXIST, 0, s1)
     else if result = 0 then do {
       (ino, slot) \<leftarrow> found;
       (result, v, s2) \<leftarrow> sfs_loadvnode dio p lk km ino SFS_TYPE_INVAL s1;
       Some (result, v, s2)
     }
     else do {
       (result, v, s2) \<leftarrow> sfs_makeobj dio p lk km SFS_TYPE_FILE s1;
       if result \<noteq> 0 then Some (result, 0, s2)
       else do {
         sv \<leftarrow> sfs_store s2 v;
         (result, slot, s3) \<leftarrow> sfs_dir_link dio a name (sv_ino sv) s2;
         if result \<noteq> 0 then do {
           s4 \<leftarrow> vnode_decref dio v s3;
           Some (result, 0, s4)
         }
         else Some (0, v, upd_inode v (\<lambda>i. i\<lparr>sfi_linkcount := sfi_linkcount i + 1\<rparr>) s3)
       }
     }
   }"

definition sfs_link :: "'d d_io \<Rightarrow> addr \<Rightarrow> 8 word list \<Rightarrow> addr \<Rightarrow> 'd sfs_fs \<Rightarrow> (int \<times> 'd sfs_fs) option" where
  "sfs_link dio dir name file s = do {
     f \<leftarrow> sfs_store s file;
     (result, slot, s1) \<leftarrow> sfs_dir_link dio dir name (sv_ino f) s;
     if result \<noteq> 0 then Some (result, s1)
     else Some (0, upd_inode file (\<lambda>i. i\<lparr>sfi_linkcount := sfi_linkcount i + 1\<rparr>) s1)
   }"

definition sfs_remove :: "'d d_io \<Rightarrow> addr \<Rightarrow> bool \<Rightarrow> (nat \<Rightarrow> addr list nullable) \<Rightarrow> addr \<Rightarrow> 8 word list \<Rightarrow> 'd sfs_fs
    \<Rightarrow> (int \<times> 'd sfs_fs) option" where
  "sfs_remove dio p lk km dir name s = do {
     (result, victim, slot, s1) \<leftarrow> sfs_lookonce dio p lk km dir name s;
     if result \<noteq> 0 then Some (result, s1)
     else do {
       (result, s2) \<leftarrow> sfs_dir_unlink dio dir slot s1;
       s3 \<leftarrow> (if result = 0 then do {
           sv \<leftarrow> sfs_store s2 victim;
           kassert (sfi_linkcount (sv_i sv) > 0);
           Some (upd_inode victim (\<lambda>i. i\<lparr>sfi_linkcount := sfi_linkcount i - 1\<rparr>) s2)
         } else Some s2);
       s4 \<leftarrow> vnode_decref dio victim s3;
       Some (result, s4)
     }
   }"

text \<open>When removing the old entry fails, the new one is removed again; failing to do so is a panic.\<close>

definition sfs_rename :: "'d d_io \<Rightarrow> addr \<Rightarrow> bool \<Rightarrow> (nat \<Rightarrow> addr list nullable) \<Rightarrow> addr \<Rightarrow> 8 word list \<Rightarrow> addr \<Rightarrow> 8 word list \<Rightarrow> 'd sfs_fs
    \<Rightarrow> (int \<times> 'd sfs_fs) option" where
  "sfs_rename dio p lk km d1 n1 d2 n2 s = do {
     kassert (d1 = d2);
     sv \<leftarrow> sfs_store s d1;
     kassert (sv_ino sv = SFS_ROOT_LOCATION);
     (result, g1, slot1, s1) \<leftarrow> sfs_lookonce dio p lk km d1 n1 s;
     if result \<noteq> 0 then Some (result, s1)
     else do {
       g \<leftarrow> sfs_store s1 g1;
       kassert (sfi_type (sv_i g) = SFS_TYPE_FILE);
       (result, slot2, s2) \<leftarrow> sfs_dir_link dio d1 n2 (sv_ino g) s1;
       if result \<noteq> 0 then do { s3 \<leftarrow> vnode_decref dio g1 s2; Some (result, s3) }
       else do {
         let s3 = upd_inode g1 (\<lambda>i. i\<lparr>sfi_linkcount := sfi_linkcount i + 1\<rparr>) s2;
         (result, s4) \<leftarrow> sfs_dir_unlink dio d1 slot1 s3;
         if result \<noteq> 0 then do {
           (result2, s5) \<leftarrow> sfs_dir_unlink dio d1 slot2 s4;
           kassert (result2 = 0);
           let s6 = upd_vnode g1 (\<lambda>v. v\<lparr>sv_i := (sv_i v)\<lparr>sfi_linkcount := sfi_linkcount (sv_i v) - 1\<rparr>\<rparr>) s5;
           s7 \<leftarrow> vnode_decref dio g1 s6;
           Some (result, s7)
         }
         else do {
           g4 \<leftarrow> sfs_store s4 g1;
           kassert (sfi_linkcount (sv_i g4) > 0);
           s5 \<leftarrow> vnode_decref dio g1 (upd_inode g1 (\<lambda>i. i\<lparr>sfi_linkcount := sfi_linkcount i - 1\<rparr>) s4);
           Some (0, s5)
         }
       }
     }
   }"

text \<open>The third component is the text copied to \<open>buf\<close>.\<close>

definition sfs_lookparent :: "addr \<Rightarrow> 8 word list \<Rightarrow> nat \<Rightarrow> 'd sfs_fs \<Rightarrow> (int \<times> addr \<times> 8 word list \<times> 'd sfs_fs) option" where
  "sfs_lookparent a path buflen s = do {
     sv \<leftarrow> sfs_store s a;
     if sfi_type (sv_i sv) \<noteq> SFS_TYPE_DIR then Some (ENOTDIR, 0, [], s)
     else if length path + 1 > buflen then Some (ENAMETOOLONG, 0, [], s)
     else do { s1 \<leftarrow> vnode_incref a s; Some (0, a, path, s1) }
   }"

definition sfs_lookup :: "'d d_io \<Rightarrow> addr \<Rightarrow> bool \<Rightarrow> (nat \<Rightarrow> addr list nullable) \<Rightarrow> addr \<Rightarrow> 8 word list \<Rightarrow> 'd sfs_fs
    \<Rightarrow> (int \<times> addr \<times> 'd sfs_fs) option" where
  "sfs_lookup dio p lk km a path s = do {
     sv \<leftarrow> sfs_store s a;
     if sfi_type (sv_i sv) \<noteq> SFS_TYPE_DIR then Some (ENOTDIR, 0, s)
     else do {
       (result, v, slot, s1) \<leftarrow> sfs_lookonce dio p lk km a path s;
       Some (result, v, s1)
     }
   }"

subsection \<open>The whole file system\<close>

text \<open>The number of blocks of the free map; the sum wraps around.\<close>

definition SFS_BITBLOCKS :: "32 word \<Rightarrow> 32 word" where
  "SFS_BITBLOCKS nblocks = ((nblocks + 4096 - 1) div 4096 * 4096) div 4096"

text \<open>The loop of \<open>sfs_mapio\<close> from block \<open>j\<close> of the map on, with \<open>n\<close> blocks left.\<close>

primrec sfs_mapio_loop :: "'d d_io \<Rightarrow> nat \<Rightarrow> nat \<Rightarrow> uio_rw \<Rightarrow> 'd sfs_fs \<Rightarrow> (int \<times> 'd sfs_fs) option" where
  "sfs_mapio_loop dio 0 j rw s = Some (0, s)"
| "sfs_mapio_loop dio (Suc n) j rw s = do {
     let v = bitmap_getdata (sfs_freemap s);
     kassert (512 * Suc j \<le> length v);
     (result, s1) \<leftarrow>
       (if rw = UIO_READ then do {
          (result, b, s1) \<leftarrow> sfs_rblock dio (SFS_MAP_LOCATION + of_nat j) s;
          Some (result, if result = 0 then s1\<lparr>sfs_freemap := (sfs_freemap s1)\<lparr>bm_v := take (512 * j) v @ b @ drop (512 * Suc j) v\<rparr>\<rparr> else s1)
        }
        else sfs_wblock dio (take 512 (drop (512 * j) v)) (SFS_MAP_LOCATION + of_nat j) s);
     if result \<noteq> 0 then Some (result, s1) else sfs_mapio_loop dio n (Suc j) rw s1
   }"

definition sfs_mapio :: "'d d_io \<Rightarrow> uio_rw \<Rightarrow> 'd sfs_fs \<Rightarrow> (int \<times> 'd sfs_fs) option" where
  "sfs_mapio dio rw s = sfs_mapio_loop dio (unat (SFS_BITBLOCKS (sp_nblocks (sfs_super s)))) 0 rw s"

text \<open>The loop over the loaded vnodes; the results of \<open>VOP_FSYNC\<close> are not looked at.\<close>

primrec sfs_sync_vnodes :: "'d d_io \<Rightarrow> nat \<Rightarrow> int \<Rightarrow> 'd sfs_fs \<Rightarrow> 'd sfs_fs option" where
  "sfs_sync_vnodes dio 0 i s = Some s"
| "sfs_sync_vnodes dio (Suc n) i s = do {
     a \<leftarrow> array_getguy (sfs_vnodes s) i;
     (result, s1) \<leftarrow> sfs_fsync dio a s;
     sfs_sync_vnodes dio n (i + 1) s1
   }"

definition sfs_sync :: "'d d_io \<Rightarrow> 'd sfs_fs \<Rightarrow> (int \<times> 'd sfs_fs) option" where
  "sfs_sync dio s = do {
     s1 \<leftarrow> sfs_sync_vnodes dio (nat (array_getnum (sfs_vnodes s))) 0 s;
     (result, s2) \<leftarrow> (if sfs_freemapdirty s1 \<noteq> 0 then do {
         (result, s2) \<leftarrow> sfs_mapio dio UIO_WRITE s1;
         Some (result, if result = 0 then s2\<lparr>sfs_freemapdirty := 0\<rparr> else s2)
       } else Some (0, s1));
     if result \<noteq> 0 then Some (result, s2)
     else if sfs_superdirty s2 \<noteq> 0 then do {
       (result, s3) \<leftarrow> sfs_wblock dio (enc_super (sfs_super s2)) SFS_SB_LOCATION s2;
       Some (result, if result = 0 then s3\<lparr>sfs_superdirty := 0\<rparr> else s3)
     }
     else Some (0, s2)
   }"

definition sfs_getvolname :: "'d sfs_fs \<Rightarrow> 8 word list" where
  "sfs_getvolname s = cstring (sp_volname (sfs_super s))"

text \<open>\<open>None\<close> for the file system structure means that it has been released.\<close>

definition sfs_unmount :: "'d sfs_fs \<Rightarrow> (int \<times> 'd sfs_fs option) option" where
  "sfs_unmount s =
     (if array_getnum (sfs_vnodes s) > 0 then Some (EBUSY, Some s)
      else do {
        kassert (sfs_superdirty s = 0);
        kassert (sfs_freemapdirty s = 0);
        Some (0, None)
      })"

text \<open>
  Mounting the device \<open>dev\<close> with blocks of \<open>blocksize\<close> bytes. The Booleans are the outcomes of the allocations of the
  structure, of the array and of the two parts of the bitmap.
\<close>

definition sfs_domount :: "'d d_io \<Rightarrow> bool \<Rightarrow> bool \<Rightarrow> bool \<Rightarrow> bool \<Rightarrow> nat \<Rightarrow> 'd \<Rightarrow> (int \<times> 'd \<times> 'd sfs_fs option) option" where
  "sfs_domount dio ok1 ok2 ok3 ok4 blocksize dev =
     (if blocksize \<noteq> 512 then Some (ENXIO, dev, None)
      else if \<not> ok1 then Some (ENOMEM, dev, None)
      else (case array_create ok2 of NULL \<Rightarrow> Some (ENOMEM, dev, None)
        | Ptr vs \<Rightarrow> do {
            let s0 = \<lparr>sfs_super = dec_super (replicate 512 0), sfs_superdirty = 0, sfs_device = dev, sfs_vnodes = vs,
              sfs_store = Map.empty, sfs_freemap = \<lparr>bm_nbits = 0, bm_v = []\<rparr>, sfs_freemapdirty = 0\<rparr>;
            (result, b, s1) \<leftarrow> sfs_rblock dio SFS_SB_LOCATION s0;
            if result \<noteq> 0 then Some (result, sfs_device s1, None)
            else do {
              let sp = dec_super b;
              if sp_magic sp \<noteq> SFS_MAGIC then Some (EINVAL, sfs_device s1, None)
              else do {
                let sp1 = sp\<lparr>sp_volname := (sp_volname sp)[31 := 0]\<rparr>;
                bm \<leftarrow> bitmap_create ok3 ok4 ((sp_nblocks sp1 + 4096 - 1) div 4096 * 4096);
                (case bm of NULL \<Rightarrow> Some (ENOMEM, sfs_device s1, None)
                 | Ptr fm \<Rightarrow> do {
                     (result, s2) \<leftarrow> sfs_mapio dio UIO_READ (s1\<lparr>sfs_super := sp1, sfs_freemap := fm\<rparr>);
                     if result \<noteq> 0 then Some (result, sfs_device s2, None)
                     else Some (0, sfs_device s2, Some (s2\<lparr>sfs_superdirty := 0, sfs_freemapdirty := 0\<rparr>))
                   })
              }
            }
          }))"

end
