(* ===== verification/K_SFS_Laws.thy ===== *)
theory K_SFS_Laws
  imports K_SFS
begin

section \<open>Laws of the file system\<close>

text \<open>
  The encodings of the on-disk structures, the block map of a file, and the contents of a file under
  reading and writing. A file is a sequence of bytes; the lemmas show that \<open>sfs_io\<close> reads and
  writes that sequence, keeps the allocation of blocks consistent and touches no block of another file.
\<close>

subsection \<open>Encodings\<close>

lemma dec32_enc32 [simp]: "dec32 (enc32 w @ xs) = w"
proof (rule bit_word_eqI)
  fix n assume "n < LENGTH(32)"
  then have "n < 32" by simp
  then show "bit (dec32 (enc32 w @ xs)) n = bit w n"
    by (cases "n < 8"; cases "n < 16"; cases "n < 24") (simp_all add: dec32_def enc32_def bit_simps less_diff_conv2)
qed

lemma dec32_enc32_only [simp]: "dec32 (enc32 w) = w"
  using dec32_enc32 [of w "[]"] by simp

lemma byte_eqI: "(\<And>n. n < 8 \<Longrightarrow> bit (a :: 8 word) n = bit b n) \<Longrightarrow> a = b"
  by (rule bit_word_eqI) simp

lemma list4: "4 \<le> length bs \<Longrightarrow> \<exists>a b c d r. bs = a # b # c # d # r"
  by (auto simp: Suc_le_length_iff numeral_eq_Suc)

lemma enc32_dec32:
  assumes "4 \<le> length bs"
  shows "enc32 (dec32 bs) = take 4 bs"
proof -
  obtain a b c d r where bs: "bs = a # b # c # d # r"
    using list4 [OF assms] by blast
  have o: "bit x n \<Longrightarrow> n < 8" for x :: "8 word" and n by (drule bit_imp_le_length) simp
  have "ucast (drop_bit 24 (dec32 bs)) = a" "ucast (drop_bit 16 (dec32 bs)) = b"
    "ucast (drop_bit 8 (dec32 bs)) = c" "ucast (dec32 bs) = d"
    by (rule byte_eqI; auto simp: bs dec32_def bit_simps dest: o)+
  then show ?thesis by (simp add: enc32_def bs)
qed

lemma enc32_length [simp]: "length (enc32 w) = 4"
  by (simp add: enc32_def)

lemma bytes_of_simps [simp]: "bytes_of [] = []" "bytes_of (w # ws) = enc32 w @ bytes_of ws"
  by (simp_all add: bytes_of_def)

lemma bytes_of_length [simp]: "length (bytes_of ws) = 4 * length ws"
  by (induction ws) simp_all

lemma words_of_length [simp]: "length (words_of bs) = length bs div 4"
  by (simp add: words_of_def)

lemma words_of_append4:
  assumes "length x = 4"
  shows "words_of (x @ bs) = dec32 x # words_of bs"
proof (rule nth_equalityI)
  obtain a b c d where x: "x = [a, b, c, d]"
    using list4 [of x] assms by auto
  fix i assume i: "i < length (words_of (x @ bs))"
  show "words_of (x @ bs) ! i = (dec32 x # words_of bs) ! i"
  proof (cases i)
    case 0
    then show ?thesis using i by (simp add: words_of_def x dec32_def)
  next
    case (Suc j)
    then have "j < length bs div 4" using i assms by simp
    then show ?thesis using i assms Suc by (simp add: words_of_def)
  qed
qed (use assms in simp)

lemma words_of_bytes_of [simp]: "words_of (bytes_of ws) = ws"
proof (induction ws)
  case Nil
  show ?case by (simp add: words_of_def)
next
  case (Cons w ws)
  then show ?case by (simp add: words_of_append4)
qed

lemma bytes_of_words_of:
  assumes "4 dvd length bs"
  shows "bytes_of (words_of bs) = bs"
  using assms
proof (induction "length bs" arbitrary: bs rule: less_induct)
  case less
  show ?case
  proof (cases "bs = []")
    case True
    then show ?thesis by (simp add: words_of_def)
  next
    case False
    then have l: "4 \<le> length bs" using less.prems by (auto dest: dvd_imp_le)
    have "4 dvd length (drop 4 bs)" using less.prems l by (simp add: dvd_diff_nat)
    then have "bytes_of (words_of (drop 4 bs)) = drop 4 bs" using less.hyps [of "drop 4 bs"] l by simp
    moreover have "words_of bs = dec32 (take 4 bs) # words_of (drop 4 bs)"
      using words_of_append4 [of "take 4 bs" "drop 4 bs"] l by simp
    moreover have "enc32 (dec32 (take 4 bs)) = take 4 bs" using enc32_dec32 [of "take 4 bs"] l by simp
    ultimately show ?thesis by simp
  qed
qed

lemma words_of_zeros: "words_of (replicate (4 * n) 0) = replicate n 0"
proof -
  have z: "enc32 0 = replicate 4 0" by (simp add: enc32_def numeral_eq_Suc)
  have "bytes_of (replicate n 0) = replicate (4 * n) 0"
    by (induction n) (simp_all add: z replicate_add [symmetric])
  then show ?thesis using words_of_bytes_of [of "replicate n 0"] by simp
qed

text \<open>The inode and the directory entry are recovered from their encodings.\<close>

lemma half_words:
  "ucast (drop_bit 16 (push_bit 16 (ucast t) OR ucast l :: 32 word)) = (t :: 16 word)"
  "ucast (push_bit 16 (ucast t) OR ucast l :: 32 word) = (l :: 16 word)"
  "ucast (drop_bit 16 (push_bit 16 (ucast t)) OR drop_bit 16 (ucast l) :: 32 word) = (t :: 16 word)"
proof -
  have o: "bit x n \<Longrightarrow> n < 16" for x :: "16 word" and n by (drule bit_imp_le_length) simp
  show "ucast (drop_bit 16 (push_bit 16 (ucast t) OR ucast l :: 32 word)) = (t :: 16 word)"
    by (rule bit_word_eqI) (auto simp: bit_simps dest: o)
  then show "ucast (drop_bit 16 (push_bit 16 (ucast t)) OR drop_bit 16 (ucast l) :: 32 word) = (t :: 16 word)" by simp
  show "ucast (push_bit 16 (ucast t) OR ucast l :: 32 word) = (l :: 16 word)"
    by (rule bit_word_eqI) (auto simp: bit_simps dest: o)
qed

definition inode_shape :: "sfs_inode \<Rightarrow> bool" where
  "inode_shape i \<longleftrightarrow> length (sfi_direct i) = 15 \<and> length (sfi_waste i) = 110"

lemma enc_inode_length: "inode_shape i \<Longrightarrow> length (enc_inode i) = 512"
  by (simp add: inode_shape_def enc_inode_def)

lemma dec_enc_inode: "inode_shape i \<Longrightarrow> dec_inode (enc_inode i) = i"
proof -
  assume "inode_shape i"
  then have l: "length (sfi_direct i) = 15" by (simp add: inode_shape_def)
  let ?ws = "[sfi_size i, push_bit 16 (ucast (sfi_type i)) OR ucast (sfi_linkcount i)] @ sfi_direct i @ [sfi_indirect i] @ sfi_waste i"
  have "?ws ! 17 = sfi_indirect i" "drop 18 ?ws = sfi_waste i" "take 15 (drop 2 ?ws) = sfi_direct i"
    using l by (simp_all add: nth_append numeral_2_eq_2)
  then show ?thesis by (simp add: dec_inode_def enc_inode_def half_words Let_def words_of_append4 l)
qed

lemma dec_inode_shape: "length b = 512 \<Longrightarrow> inode_shape (dec_inode b)"
  by (simp add: inode_shape_def dec_inode_def Let_def)

lemma dec_enc_dir: "dec_dir (enc_dir sd) = sd"
  by (simp add: dec_dir_def enc_dir_def)

subsection \<open>Invariants\<close>

text \<open>
  The free map covers the blocks of the file system and marks block 0 and everything behind the last block, and the
  device has all the blocks.
\<close>

definition fs_ok :: "('d \<Rightarrow> bool) \<Rightarrow> ('d \<Rightarrow> nat) \<Rightarrow> 'd sfs_fs \<Rightarrow> bool" where
  "fs_ok dinv dsize s \<longleftrightarrow> dinv (sfs_device s) \<and> bm_inv (sfs_freemap s) \<and>
     unat (sp_nblocks (sfs_super s)) \<le> dsize (sfs_device s) \<and> unat (sp_nblocks (sfs_super s)) \<le> unat (bm_nbits (sfs_freemap s)) \<and>
     (\<forall>b < unat (bm_nbits (sfs_freemap s)). b = 0 \<or> unat (sp_nblocks (sfs_super s)) \<le> b \<longrightarrow> b \<in> bm_used (sfs_freemap s))"

text \<open>The pointers of an inode, where \<open>c\<close> gives the contents of a block: direct blocks, indirect block, and the blocks listed there.\<close>

text \<open>Every block of the free map is in use.\<close>

definition disk_full :: "'d sfs_fs \<Rightarrow> bool" where
  "disk_full s \<longleftrightarrow> bm_used (sfs_freemap s) = {..<unat (bm_nbits (sfs_freemap s))}"

definition ind_words :: "(nat \<Rightarrow> blk) \<Rightarrow> sfs_inode \<Rightarrow> 32 word list" where
  "ind_words c i = (if sfi_indirect i = 0 then replicate 128 0 else words_of (c (unat (sfi_indirect i))))"

definition data_ptrs :: "(nat \<Rightarrow> blk) \<Rightarrow> sfs_inode \<Rightarrow> 32 word list" where
  "data_ptrs c i = sfi_direct i @ ind_words c i"

definition inode_blocks :: "(nat \<Rightarrow> blk) \<Rightarrow> sfs_inode \<Rightarrow> 32 word list" where
  "inode_blocks c i = filter (\<lambda>p. p \<noteq> 0) (sfi_indirect i # data_ptrs c i)"

text \<open>Every block of the file is a block of the file system, is marked, and is used once.\<close>

definition inode_ok :: "(nat \<Rightarrow> blk) \<Rightarrow> 'd sfs_fs \<Rightarrow> sfs_inode \<Rightarrow> bool" where
  "inode_ok c s i \<longleftrightarrow> inode_shape i \<and> distinct (inode_blocks c i) \<and>
     (\<forall>p \<in> set (inode_blocks c i). p < sp_nblocks (sfs_super s) \<and> unat p \<in> bm_used (sfs_freemap s))"

text \<open>The contents of a block of the file, and a byte of the file; holes read as zeros.\<close>

definition file_block :: "(nat \<Rightarrow> blk) \<Rightarrow> sfs_inode \<Rightarrow> nat \<Rightarrow> blk" where
  "file_block c i k = (let p = data_ptrs c i ! k in if p = 0 then replicate 512 0 else c (unat p))"

definition file_byte :: "(nat \<Rightarrow> blk) \<Rightarrow> sfs_inode \<Rightarrow> nat \<Rightarrow> 8 word" where
  "file_byte c i n = file_block c i (n div 512) ! (n mod 512)"

lemma fs_okD:
  assumes "fs_ok dinv dsize s"
  shows "dinv (sfs_device s)" "bm_inv (sfs_freemap s)" "unat (sp_nblocks (sfs_super s)) \<le> dsize (sfs_device s)"
    "unat (sp_nblocks (sfs_super s)) \<le> unat (bm_nbits (sfs_freemap s))"
  using assms by (auto simp: fs_ok_def)

text \<open>A step that changes nothing but the inner state of the device.\<close>

definition same_fs :: "('d \<Rightarrow> bool) \<Rightarrow> ('d \<Rightarrow> nat) \<Rightarrow> ('d \<Rightarrow> nat \<Rightarrow> blk) \<Rightarrow> 'd sfs_fs \<Rightarrow> 'd sfs_fs \<Rightarrow> bool" where
  "same_fs dinv dsize dblock s s1 \<longleftrightarrow> (\<exists>d. s1 = s\<lparr>sfs_device := d\<rparr> \<and> dinv d \<and> dsize d = dsize (sfs_device s) \<and> dblock d = dblock (sfs_device s))"

text \<open>A step that replaces block \<open>b\<close>.\<close>

definition stored :: "('d \<Rightarrow> bool) \<Rightarrow> ('d \<Rightarrow> nat) \<Rightarrow> ('d \<Rightarrow> nat \<Rightarrow> blk) \<Rightarrow> nat \<Rightarrow> blk \<Rightarrow> 'd sfs_fs \<Rightarrow> 'd sfs_fs \<Rightarrow> bool" where
  "stored dinv dsize dblock b x s s1 \<longleftrightarrow>
     (\<exists>d. s1 = s\<lparr>sfs_device := d\<rparr> \<and> dinv d \<and> dsize d = dsize (sfs_device s) \<and> dblock d = (dblock (sfs_device s))(b := x))"

lemma same_fs_ok: "fs_ok dinv dsize s \<Longrightarrow> same_fs dinv dsize dblock s s1 \<Longrightarrow> fs_ok dinv dsize s1"
  by (auto simp: fs_ok_def same_fs_def)

lemma stored_ok: "fs_ok dinv dsize s \<Longrightarrow> stored dinv dsize dblock b x s s1 \<Longrightarrow> fs_ok dinv dsize s1"
  by (auto simp: fs_ok_def stored_def)

lemma same_fs_trans: "same_fs dinv dsize dblock s s1 \<Longrightarrow> same_fs dinv dsize dblock s1 s2 \<Longrightarrow> same_fs dinv dsize dblock s s2"
  by (auto simp: same_fs_def)

lemma same_fs_refl: "dinv (sfs_device s) \<Longrightarrow> same_fs dinv dsize dblock s s"
  by (auto simp: same_fs_def intro!: exI [of _ "sfs_device s"])

subsection \<open>Reading and writing blocks\<close>

lemma cint_nat: "n < 2147483648 \<Longrightarrow> cint (int n) = Some (int n)"
  by (simp add: cint_def)

lemma block_pos:
  assumes "unat (block :: 32 word) < 4194304"
  shows "cint (sint block * 512) = Some (int (512 * unat block))"
    "word_of_int (int (512 * unat block)) = (of_nat (512 * unat block) :: 32 word)"
proof -
  have "sint block = int (unat block)" using sint_of_nat_ok [of "unat block"] assms by simp
  then have "sint block * 512 = int (512 * unat block)" by simp
  then show "cint (sint block * 512) = Some (int (512 * unat block))" using cint_nat [of "512 * unat block"] assms by (simp add: mult.commute)
qed simp

context block_device
begin

lemma sfs_rwblock_read:
  assumes "dinv (sfs_device s)" "b < dsize (sfs_device s)" "vu_rw u = UIO_READ" "vu_offset u = of_nat (512 * b)" "vu_resid u = 512" "512 \<le> vu_good u"
  shows "\<exists>s1. sfs_rwblock dio u s = Some (0, (vu_advance 512 u)\<lparr>vu_data := vu_data u @ dblock (sfs_device s) b\<rparr>, s1) \<and>
    same_fs dinv dsize dblock s s1"
  using dio_read [OF assms] by (auto simp: sfs_rwblock_def same_fs_def numeral_eq_Suc)

lemma sfs_rwblock_write:
  assumes "dinv (sfs_device s)" "b < dsize (sfs_device s)" "vu_rw u = UIO_WRITE" "vu_offset u = of_nat (512 * b)" "vu_resid u = 512" "512 \<le> vu_good u"
    "512 \<le> length (vu_data u)"
  shows "\<exists>s1. sfs_rwblock dio u s = Some (0, (vu_advance 512 u)\<lparr>vu_data := drop 512 (vu_data u)\<rparr>, s1) \<and>
    stored dinv dsize dblock b (take 512 (vu_data u)) s s1"
  using dio_write [OF assms] by (auto simp: sfs_rwblock_def stored_def numeral_eq_Suc)

lemma sfs_rwblock_fault:
  assumes "dinv (sfs_device s)" "b < dsize (sfs_device s)" "vu_offset u = of_nat (512 * b)" "vu_resid u = 512" "vu_good u < 512"
  shows "\<exists>s1. sfs_rwblock dio u s = Some (EFAULT, u, s1) \<and> same_fs dinv dsize dblock s s1"
  using dio_fault [OF assms] by (auto simp: sfs_rwblock_def same_fs_def numeral_eq_Suc)

lemma sfs_rblock_ok:
  assumes "dinv (sfs_device s)" "unat block < dsize (sfs_device s)"
  shows "\<exists>s1. sfs_rblock dio block s = Some (0, dblock (sfs_device s) (unat block), s1) \<and> same_fs dinv dsize dblock s s1"
proof -
  have "unat block < 4194304" using assms dsize_bound [of "sfs_device s"] by linarith
  then show ?thesis
    using sfs_rwblock_read [OF assms, of "vkuio [] 512 (of_nat (512 * unat block)) UIO_READ"]
    by (auto simp: sfs_rblock_def block_pos vkuio_def)
qed

lemma sfs_wblock_ok:
  assumes "dinv (sfs_device s)" "unat block < dsize (sfs_device s)" "length x = 512"
  shows "\<exists>s1. sfs_wblock dio x block s = Some (0, s1) \<and> stored dinv dsize dblock (unat block) x s s1"
proof -
  have "unat block < 4194304" using assms dsize_bound [of "sfs_device s"] by linarith
  then show ?thesis
    using sfs_rwblock_write [OF assms(1,2), of "vkuio x 512 (of_nat (512 * unat block)) UIO_WRITE"] assms(3)
    by (auto simp: sfs_wblock_def block_pos vkuio_def)
qed

text \<open>Allocation hands out an unused block of the file system, cleared, or reports that there is none.\<close>

lemma sfs_balloc_cases:
  assumes "fs_ok dinv dsize s"
  shows "(\<exists>s1. sfs_balloc dio b0 s = Some (ENOSPC, b0, s1) \<and> s1 = s \<and> disk_full s) \<or>
    (\<exists>b s1. sfs_balloc dio b0 s = Some (0, b, s1) \<and> fs_ok dinv dsize s1 \<and> b \<noteq> 0 \<and> b < sp_nblocks (sfs_super s) \<and>
       unat b \<notin> bm_used (sfs_freemap s) \<and> bm_used (sfs_freemap s1) = insert (unat b) (bm_used (sfs_freemap s)) \<and>
       sfs_store s1 = sfs_store s \<and> sfs_super s1 = sfs_super s \<and> sfs_vnodes s1 = sfs_vnodes s \<and>
       dblock (sfs_device s1) = (dblock (sfs_device s))(unat b := replicate 512 0) \<and> dsize (sfs_device s1) = dsize (sfs_device s))"
proof -
  note D = fs_okD [OF assms]
  from bitmap_alloc_result [OF D(2), of b0] show ?thesis
  proof
    assume "bm_used (sfs_freemap s) = {..<unat (bm_nbits (sfs_freemap s))} \<and> bitmap_alloc (sfs_freemap s) b0 = Some (ENOSPC, b0, sfs_freemap s)"
    then show ?thesis by (simp add: sfs_balloc_def disk_full_def)
  next
    assume "\<exists>i<unat (bm_nbits (sfs_freemap s)). i \<notin> bm_used (sfs_freemap s) \<and> {..<i} \<subseteq> bm_used (sfs_freemap s) \<and>
        bitmap_alloc (sfs_freemap s) b0 = Some (0, of_nat i, bm_set (sfs_freemap s) i)"
    then obtain i where i: "i < unat (bm_nbits (sfs_freemap s))" "i \<notin> bm_used (sfs_freemap s)"
      "bitmap_alloc (sfs_freemap s) b0 = Some (0, of_nat i, bm_set (sfs_freemap s) i)" by blast
    let ?s = "s\<lparr>sfs_freemap := bm_set (sfs_freemap s) i, sfs_freemapdirty := 1\<rparr>"
    have u: "unat (of_nat i :: 32 word) = i" using i(1) by (rule unat_of_nat_below)
    have "i = 0 \<or> unat (sp_nblocks (sfs_super s)) \<le> i \<longrightarrow> i \<in> bm_used (sfs_freemap s)" using assms i(1) unfolding fs_ok_def by blast
    then have nb: "i < unat (sp_nblocks (sfs_super s))" "i \<noteq> 0" using i(2) not_le by blast+
    then have lt: "(of_nat i :: 32 word) < sp_nblocks (sfs_super s)" by (simp add: word_less_nat_alt u)
    have ne: "(of_nat i :: 32 word) \<noteq> 0" using nb(2) u by (metis unat_0)
    have ok: "fs_ok dinv dsize ?s"
      using assms bm_set_ok [OF D(2) i(1)] by (auto simp: fs_ok_def)
    have us: "unat (of_nat i :: 32 word) < dsize (sfs_device ?s)" using nb(1) D(3) by (simp add: u)
    obtain s1 where s1: "sfs_wblock dio (replicate 512 0) (of_nat i) ?s = Some (0, s1)" "stored dinv dsize dblock i (replicate 512 0) ?s s1"
      using sfs_wblock_ok [OF fs_okD(1) [OF ok] us, of "replicate 512 0"] by (auto simp: u)
    have "sfs_balloc dio b0 s = Some (0, of_nat i, s1)"
      using i(3) s1(1) lt by (simp add: sfs_balloc_def sfs_clearblock_def Let_def)
    moreover have "fs_ok dinv dsize s1" using stored_ok [OF ok s1(2)] .
    moreover obtain d where d: "s1 = ?s\<lparr>sfs_device := d\<rparr>" "dblock d = (dblock (sfs_device ?s))(i := replicate 512 0)"
      "dsize d = dsize (sfs_device ?s)" using s1(2) unfolding stored_def by blast
    have "bm_used (sfs_freemap s1) = insert (unat (of_nat i :: 32 word)) (bm_used (sfs_freemap s))"
      "sfs_store s1 = sfs_store s \<and> sfs_super s1 = sfs_super s \<and> sfs_vnodes s1 = sfs_vnodes s"
      "dblock (sfs_device s1) = (dblock (sfs_device s))(unat (of_nat i :: 32 word) := replicate 512 0)"
      "dsize (sfs_device s1) = dsize (sfs_device s)"
      using d bm_set_ok(2) [OF D(2) i(1)] by (simp_all add: u)
    ultimately show ?thesis using lt ne i(2) u
      by (intro disjI2 exI [of _ "of_nat i"] exI [of _ s1] conjI) simp_all
  qed
qed

lemma sfs_handback_ok:
  assumes "fs_ok dinv dsize s" "b = 0 \<or> b < sp_nblocks (sfs_super s) \<and> unat b \<in> bm_used (sfs_freemap s)"
  shows "sfs_handback b s = Some (0, b, s)"
proof (cases "b = 0")
  case False
  then have b: "b < sp_nblocks (sfs_super s)" "unat b \<in> bm_used (sfs_freemap s)" using assms(2) by auto
  then have "b < bm_nbits (sfs_freemap s)" using fs_okD(4) [OF assms(1)] by (simp add: word_less_nat_alt)
  then obtain w where "bitmap_isset (sfs_freemap s) b = Some w" "w \<noteq> 0"
    using bitmap_isset_result [OF fs_okD(2) [OF assms(1)]] b(2) by blast
  then show ?thesis using b(1) False by (simp add: sfs_handback_def sfs_bused_def)
qed (simp add: sfs_handback_def)

end

subsection \<open>The pointers of a file\<close>

definition all_ptrs :: "(nat \<Rightarrow> blk) \<Rightarrow> sfs_inode \<Rightarrow> 32 word list" where
  "all_ptrs c i = sfi_indirect i # data_ptrs c i"

lemma inode_blocks_ptrs: "inode_blocks c i = filter (\<lambda>p. p \<noteq> 0) (all_ptrs c i)"
  by (simp add: inode_blocks_def all_ptrs_def)

lemma filter_nth_unique:
  "distinct (filter Q xs) \<Longrightarrow> i < length xs \<Longrightarrow> j < length xs \<Longrightarrow> xs ! i = xs ! j \<Longrightarrow> Q (xs ! i) \<Longrightarrow> i = j"
proof (induction xs arbitrary: i j)
  case (Cons x xs)
  have m: "xs ! n \<in> set (filter Q xs)" if "n < length xs" "Q (xs ! n)" for n using that by simp
  show ?case using Cons m by (cases i; cases j) (auto split: if_splits)
qed simp

lemma filter_update:
  assumes "k < length xs" "\<not> Q (xs ! k)" "Q b" "b \<notin> set (filter Q xs)" "distinct (filter Q xs)"
  shows "set (filter Q (xs[k := b])) = insert b (set (filter Q xs))" "distinct (filter Q (xs[k := b]))"
proof -
  have x: "xs = take k xs @ xs ! k # drop (Suc k) xs" using assms(1) by (rule id_take_nth_drop)
  have u: "xs[k := b] = take k xs @ b # drop (Suc k) xs" using assms(1) by (rule upd_conv_take_nth_drop)
  have f: "filter Q xs = filter Q (take k xs) @ filter Q (drop (Suc k) xs)"
    using assms(2) by (subst x) simp
  have g: "filter Q (xs[k := b]) = filter Q (take k xs) @ b # filter Q (drop (Suc k) xs)"
    using assms(3) by (simp add: u)
  show "set (filter Q (xs[k := b])) = insert b (set (filter Q xs))" unfolding f g by auto
  show "distinct (filter Q (xs[k := b]))" using assms(4,5) unfolding f g by auto
qed

text \<open>
  Writing \<open>ds\<close> at the offset \<open>off\<close> of the file \<open>a\<close>, as a relation between states: the bytes of the file, the blocks that
  belong to it, and everything else.
\<close>

definition file_max :: nat where "file_max = 143"

definition wrote :: "('d \<Rightarrow> bool) \<Rightarrow> ('d \<Rightarrow> nat) \<Rightarrow> ('d \<Rightarrow> nat \<Rightarrow> blk) \<Rightarrow> addr \<Rightarrow> nat \<Rightarrow> 8 word list \<Rightarrow> 'd sfs_fs \<Rightarrow> 'd sfs_fs \<Rightarrow> bool" where
  "wrote dinv dsize dblock a off ds s s1 \<longleftrightarrow> fs_ok dinv dsize s1 \<and>
     (\<exists>sv sv1. sfs_store s a = Some sv \<and> sfs_store s1 = (sfs_store s)(a \<mapsto> sv1) \<and>
        (\<exists>dir ind dirty. sv1 = sv\<lparr>sv_i := (sv_i sv)\<lparr>sfi_direct := dir, sfi_indirect := ind\<rparr>, sv_dirty := dirty\<rparr>) \<and>
        inode_ok (dblock (sfs_device s1)) s1 (sv_i sv1) \<and>
        (\<forall>n < 512 * file_max. file_byte (dblock (sfs_device s1)) (sv_i sv1) n =
           (if off \<le> n \<and> n < off + length ds then ds ! (n - off) else file_byte (dblock (sfs_device s)) (sv_i sv) n)) \<and>
        (\<forall>p \<in> set (inode_blocks (dblock (sfs_device s1)) (sv_i sv1)). unat p \<in> bm_used (sfs_freemap s) \<longrightarrow>
           p \<in> set (inode_blocks (dblock (sfs_device s)) (sv_i sv))) \<and>
        (\<forall>b \<in> bm_used (sfs_freemap s). b \<notin> unat ` set (inode_blocks (dblock (sfs_device s)) (sv_i sv)) \<longrightarrow>
           dblock (sfs_device s1) b = dblock (sfs_device s) b) \<and>
        (\<forall>k < file_max. data_ptrs (dblock (sfs_device s)) (sv_i sv) ! k \<noteq> 0 \<longrightarrow>
           data_ptrs (dblock (sfs_device s1)) (sv_i sv1) ! k = data_ptrs (dblock (sfs_device s)) (sv_i sv) ! k)) \<and>
     bm_used (sfs_freemap s) \<subseteq> bm_used (sfs_freemap s1) \<and>
     sfs_super s1 = sfs_super s \<and> sfs_vnodes s1 = sfs_vnodes s \<and> dsize (sfs_device s1) = dsize (sfs_device s)"

lemma wroteI:
  assumes "fs_ok dinv dsize s1" "sfs_store s a = Some sv" "sfs_store s1 = (sfs_store s)(a \<mapsto> sv1)"
    "\<exists>dir ind dirty. sv1 = sv\<lparr>sv_i := (sv_i sv)\<lparr>sfi_direct := dir, sfi_indirect := ind\<rparr>, sv_dirty := dirty\<rparr>"
    "inode_ok (dblock (sfs_device s1)) s1 (sv_i sv1)"
    "\<forall>n < 512 * file_max. file_byte (dblock (sfs_device s1)) (sv_i sv1) n =
       (if off \<le> n \<and> n < off + length ds then ds ! (n - off) else file_byte (dblock (sfs_device s)) (sv_i sv) n)"
    "\<forall>p \<in> set (inode_blocks (dblock (sfs_device s1)) (sv_i sv1)). unat p \<in> bm_used (sfs_freemap s) \<longrightarrow>
       p \<in> set (inode_blocks (dblock (sfs_device s)) (sv_i sv))"
    "\<forall>b \<in> bm_used (sfs_freemap s). b \<notin> unat ` set (inode_blocks (dblock (sfs_device s)) (sv_i sv)) \<longrightarrow>
       dblock (sfs_device s1) b = dblock (sfs_device s) b"
    "bm_used (sfs_freemap s) \<subseteq> bm_used (sfs_freemap s1)" "sfs_super s1 = sfs_super s" "sfs_vnodes s1 = sfs_vnodes s"
    "dsize (sfs_device s1) = dsize (sfs_device s)"
    "\<forall>k < file_max. data_ptrs (dblock (sfs_device s)) (sv_i sv) ! k \<noteq> 0 \<longrightarrow>
       data_ptrs (dblock (sfs_device s1)) (sv_i sv1) ! k = data_ptrs (dblock (sfs_device s)) (sv_i sv) ! k"
  shows "wrote dinv dsize dblock a off ds s s1"
  unfolding wrote_def by (intro conjI exI [of _ sv] exI [of _ sv1] assms)

lemma wrote_trans:
  assumes "wrote dinv dsize dblock a off xs s s1" "wrote dinv dsize dblock a (off + length xs) ys s1 s2"
  shows "wrote dinv dsize dblock a off (xs @ ys) s s2"
proof -
  obtain sv sv1 where 1: "sfs_store s a = Some sv" "sfs_store s1 = (sfs_store s)(a \<mapsto> sv1)"
    "\<exists>dir ind dirty. sv1 = sv\<lparr>sv_i := (sv_i sv)\<lparr>sfi_direct := dir, sfi_indirect := ind\<rparr>, sv_dirty := dirty\<rparr>"
    "\<forall>n < 512 * file_max. file_byte (dblock (sfs_device s1)) (sv_i sv1) n =
           (if off \<le> n \<and> n < off + length xs then xs ! (n - off) else file_byte (dblock (sfs_device s)) (sv_i sv) n)"
    "\<forall>p \<in> set (inode_blocks (dblock (sfs_device s1)) (sv_i sv1)). unat p \<in> bm_used (sfs_freemap s) \<longrightarrow>
           p \<in> set (inode_blocks (dblock (sfs_device s)) (sv_i sv))"
    "\<forall>b \<in> bm_used (sfs_freemap s). b \<notin> unat ` set (inode_blocks (dblock (sfs_device s)) (sv_i sv)) \<longrightarrow>
           dblock (sfs_device s1) b = dblock (sfs_device s) b"
    "\<forall>k < file_max. data_ptrs (dblock (sfs_device s)) (sv_i sv) ! k \<noteq> 0 \<longrightarrow>
           data_ptrs (dblock (sfs_device s1)) (sv_i sv1) ! k = data_ptrs (dblock (sfs_device s)) (sv_i sv) ! k"
    using assms(1) unfolding wrote_def by blast
  obtain sv2 where 2: "sfs_store s2 = (sfs_store s1)(a \<mapsto> sv2)"
    "\<exists>dir ind dirty. sv2 = sv1\<lparr>sv_i := (sv_i sv1)\<lparr>sfi_direct := dir, sfi_indirect := ind\<rparr>, sv_dirty := dirty\<rparr>"
    "inode_ok (dblock (sfs_device s2)) s2 (sv_i sv2)"
    "\<forall>n < 512 * file_max. file_byte (dblock (sfs_device s2)) (sv_i sv2) n =
           (if off + length xs \<le> n \<and> n < off + length xs + length ys then ys ! (n - (off + length xs)) else file_byte (dblock (sfs_device s1)) (sv_i sv1) n)"
    "\<forall>p \<in> set (inode_blocks (dblock (sfs_device s2)) (sv_i sv2)). unat p \<in> bm_used (sfs_freemap s1) \<longrightarrow>
           p \<in> set (inode_blocks (dblock (sfs_device s1)) (sv_i sv1))"
    "\<forall>b \<in> bm_used (sfs_freemap s1). b \<notin> unat ` set (inode_blocks (dblock (sfs_device s1)) (sv_i sv1)) \<longrightarrow>
           dblock (sfs_device s2) b = dblock (sfs_device s1) b"
    "\<forall>k < file_max. data_ptrs (dblock (sfs_device s1)) (sv_i sv1) ! k \<noteq> 0 \<longrightarrow>
           data_ptrs (dblock (sfs_device s2)) (sv_i sv2) ! k = data_ptrs (dblock (sfs_device s1)) (sv_i sv1) ! k"
    using assms(2) 1(2) unfolding wrote_def by auto
  have u: "bm_used (sfs_freemap s) \<subseteq> bm_used (sfs_freemap s1)" using assms(1) unfolding wrote_def by blast
  have "\<exists>dir ind dirty. sv2 = sv\<lparr>sv_i := (sv_i sv)\<lparr>sfi_direct := dir, sfi_indirect := ind\<rparr>, sv_dirty := dirty\<rparr>"
    using 1(3) 2(2) by fastforce
  moreover have "\<forall>n < 512 * file_max. file_byte (dblock (sfs_device s2)) (sv_i sv2) n =
      (if off \<le> n \<and> n < off + length (xs @ ys) then (xs @ ys) ! (n - off) else file_byte (dblock (sfs_device s)) (sv_i sv) n)"
    using 1(4) 2(4) by (auto simp: nth_append diff_diff_eq)
  moreover have "\<forall>p \<in> set (inode_blocks (dblock (sfs_device s2)) (sv_i sv2)). unat p \<in> bm_used (sfs_freemap s) \<longrightarrow>
           p \<in> set (inode_blocks (dblock (sfs_device s)) (sv_i sv))"
    using 1(5) 2(5) u by blast
  moreover have "\<forall>b \<in> bm_used (sfs_freemap s). b \<notin> unat ` set (inode_blocks (dblock (sfs_device s)) (sv_i sv)) \<longrightarrow>
      dblock (sfs_device s2) b = dblock (sfs_device s) b"
  proof (intro ballI impI)
    fix b assume that: "b \<in> bm_used (sfs_freemap s)" "b \<notin> unat ` set (inode_blocks (dblock (sfs_device s)) (sv_i sv))"
    have "b \<notin> unat ` set (inode_blocks (dblock (sfs_device s1)) (sv_i sv1))" using 1(5) that by auto
    then show "dblock (sfs_device s2) b = dblock (sfs_device s) b" using 1(6) 2(6) that u by auto
  qed
  moreover have "sfs_store s2 = (sfs_store s)(a \<mapsto> sv2)" using 1(2) 2(1) by simp
  moreover have "\<forall>k < file_max. data_ptrs (dblock (sfs_device s)) (sv_i sv) ! k \<noteq> 0 \<longrightarrow>
      data_ptrs (dblock (sfs_device s2)) (sv_i sv2) ! k = data_ptrs (dblock (sfs_device s)) (sv_i sv) ! k"
    using 1(7) 2(7) by simp
  moreover have "fs_ok dinv dsize s2" "bm_used (sfs_freemap s) \<subseteq> bm_used (sfs_freemap s2)" "sfs_super s2 = sfs_super s"
    "sfs_vnodes s2 = sfs_vnodes s" "dsize (sfs_device s2) = dsize (sfs_device s)"
    using assms unfolding wrote_def by auto
  ultimately show ?thesis using 1(1) 2(3) by (intro wroteI)
qed

lemma vnode_same: "\<exists>dir ind dirty. sv = sv\<lparr>sv_i := (sv_i sv)\<lparr>sfi_direct := dir, sfi_indirect := ind\<rparr>, sv_dirty := dirty\<rparr>"
proof -
  have "sv = sv\<lparr>sv_i := (sv_i sv)\<lparr>sfi_direct := sfi_direct (sv_i sv), sfi_indirect := sfi_indirect (sv_i sv)\<rparr>, sv_dirty := sv_dirty sv\<rparr>"
    by simp
  then show ?thesis by blast
qed

lemma same_fs_wrote:
  assumes "fs_ok dinv dsize s" "sfs_store s a = Some sv" "inode_ok (dblock (sfs_device s)) s (sv_i sv)" "same_fs dinv dsize dblock s s1"
  shows "wrote dinv dsize dblock a off [] s s1"
proof -
  obtain d where d: "s1 = s\<lparr>sfs_device := d\<rparr>" "dblock d = dblock (sfs_device s)" "dsize d = dsize (sfs_device s)"
    using assms(4) by (auto simp: same_fs_def)
  have "inode_ok (dblock (sfs_device s1)) s1 (sv_i sv)" using assms(3) d by (simp add: inode_ok_def)
  moreover have "sfs_store s1 = (sfs_store s)(a \<mapsto> sv)" using assms(2) d(1) by auto
  ultimately show ?thesis using d by (intro wroteI [OF same_fs_ok [OF assms(1,4)] assms(2) _ vnode_same]) auto
qed

lemma wrote_refl:
  assumes "fs_ok dinv dsize s" "sfs_store s a = Some sv" "inode_ok (dblock (sfs_device s)) s (sv_i sv)"
  shows "wrote dinv dsize dblock a off [] s s"
  using same_fs_wrote [where dblock = dblock, OF assms] same_fs_refl fs_okD(1) [OF assms(1)] by blast

subsection \<open>Installing and overwriting blocks\<close>

lemma ptrs_length: "inode_shape i \<Longrightarrow> (sfi_indirect i \<noteq> 0 \<Longrightarrow> length (c (unat (sfi_indirect i))) = 512) \<Longrightarrow> length (all_ptrs c i) = 144"
  by (auto simp: inode_shape_def all_ptrs_def data_ptrs_def ind_words_def)

lemma all_ptrs_upd: "unat (sfi_indirect i) \<noteq> n \<Longrightarrow> all_ptrs (c(n := x)) i = all_ptrs c i"
  by (simp add: all_ptrs_def data_ptrs_def ind_words_def)

lemma data_ptrs_nth: "data_ptrs c i ! k = all_ptrs c i ! Suc k"
  by (simp add: all_ptrs_def)

lemma inode_ptr_ok:
  assumes "inode_ok c s i" "k < length (all_ptrs c i)" "all_ptrs c i ! k \<noteq> 0"
  shows "all_ptrs c i ! k < sp_nblocks (sfs_super s)" "unat (all_ptrs c i ! k) \<in> bm_used (sfs_freemap s)"
proof -
  have "all_ptrs c i ! k \<in> set (inode_blocks c i)" using assms(2,3) by (simp add: inode_blocks_ptrs)
  then show "all_ptrs c i ! k < sp_nblocks (sfs_super s)" "unat (all_ptrs c i ! k) \<in> bm_used (sfs_freemap s)"
    using assms(1) by (auto simp: inode_ok_def)
qed

lemma inode_ptr_unique:
  assumes "inode_ok c s i" "j < length (all_ptrs c i)" "k < length (all_ptrs c i)" "all_ptrs c i ! j = all_ptrs c i ! k" "all_ptrs c i ! j \<noteq> 0"
  shows "j = k"
  using filter_nth_unique [of "\<lambda>p. p \<noteq> 0" "all_ptrs c i" j k] assms by (simp add: inode_ok_def inode_blocks_ptrs)

text \<open>A fresh block that is cleared replaces a zero pointer: the bytes of the file stay.\<close>

lemma install_wrote:
  assumes s: "fs_ok dinv dsize s1" "sfs_store s a = Some sv" "sfs_store s1 = (sfs_store s)(a \<mapsto> sv1)"
    and sv1: "\<exists>dir ind dirty. sv1 = sv\<lparr>sv_i := (sv_i sv)\<lparr>sfi_direct := dir, sfi_indirect := ind\<rparr>, sv_dirty := dirty\<rparr>"
    and i: "inode_ok (dblock (sfs_device s)) s (sv_i sv)" "inode_shape (sv_i sv1)" "length (all_ptrs (dblock (sfs_device s)) (sv_i sv)) = 144"
    and k: "k < 144" "all_ptrs (dblock (sfs_device s)) (sv_i sv) ! k = 0"
    and b: "b \<noteq> 0" "b < sp_nblocks (sfs_super s)" "unat b \<notin> bm_used (sfs_freemap s)"
    and p: "all_ptrs (dblock (sfs_device s1)) (sv_i sv1) = (all_ptrs (dblock (sfs_device s)) (sv_i sv))[k := b]"
    and u: "bm_used (sfs_freemap s1) = insert (unat b) (bm_used (sfs_freemap s))"
    and c: "dblock (sfs_device s1) (unat b) = replicate 512 0"
      "\<And>n. n \<noteq> unat b \<Longrightarrow> n \<noteq> unat (sfi_indirect (sv_i sv)) \<or> sfi_indirect (sv_i sv) = 0 \<Longrightarrow> dblock (sfs_device s1) n = dblock (sfs_device s) n"
    and e: "sfs_super s1 = sfs_super s" "sfs_vnodes s1 = sfs_vnodes s" "dsize (sfs_device s1) = dsize (sfs_device s)"
  shows "wrote dinv dsize dblock a off [] s s1"
proof -
  let ?c = "dblock (sfs_device s)" and ?c1 = "dblock (sfs_device s1)" and ?i = "sv_i sv" and ?i1 = "sv_i sv1"
  let ?p = "all_ptrs ?c ?i"
  have used: "\<forall>p \<in> set (inode_blocks ?c ?i). p < sp_nblocks (sfs_super s) \<and> unat p \<in> bm_used (sfs_freemap s)"
    using i(1) by (simp add: inode_ok_def)
  have nb: "b \<notin> set (inode_blocks ?c ?i)" using used b(3) by auto
  have bl: "set (inode_blocks ?c1 ?i1) = insert b (set (inode_blocks ?c ?i))" "distinct (inode_blocks ?c1 ?i1)"
    using filter_update [of k ?p "\<lambda>p. p \<noteq> 0" b] k i(1,3) b(1) nb unfolding inode_ok_def inode_blocks_ptrs p by auto
  have ok1: "inode_ok ?c1 s1 ?i1" using bl used u e(1) b(2) i(2) by (auto simp: inode_ok_def)
  have blk: "file_block ?c1 ?i1 j = file_block ?c ?i j" if "j < file_max" for j
  proof -
    have j: "Suc j < 144" using that by (simp add: file_max_def)
    have d: "data_ptrs ?c1 ?i1 ! j = (if Suc j = k then b else data_ptrs ?c ?i ! j)"
      using j i(3) k(1) by (simp add: data_ptrs_nth p nth_list_update)
    show ?thesis
    proof (cases "Suc j = k")
      case True
      then show ?thesis using d k(2) c(1) b(1) by (simp add: file_block_def data_ptrs_nth)
    next
      case False
      show ?thesis
      proof (cases "?p ! Suc j = 0")
        case nz: False
        have "unat (?p ! Suc j) \<noteq> unat b" using inode_ptr_ok(2) [OF i(1), of "Suc j"] j i(3) nz b(3) by auto
        moreover have "unat (?p ! Suc j) \<noteq> unat (sfi_indirect ?i)"
        proof
          assume "unat (?p ! Suc j) = unat (sfi_indirect ?i)"
          then have "?p ! Suc j = ?p ! 0" by (simp add: word_unat_eq_iff all_ptrs_def)
          then show False using inode_ptr_unique [OF i(1), of "Suc j" 0] j i(3) nz by simp
        qed
        ultimately show ?thesis using c(2) d False nz by (simp add: file_block_def data_ptrs_nth)
      qed (use d False in \<open>simp add: file_block_def data_ptrs_nth\<close>)
    qed
  qed
  have ob: "?c1 n = ?c n" if "n \<in> bm_used (sfs_freemap s)" "n \<notin> unat ` set (inode_blocks ?c ?i)" for n
  proof -
    have "sfi_indirect ?i \<noteq> 0 \<Longrightarrow> sfi_indirect ?i \<in> set (inode_blocks ?c ?i)" by (simp add: inode_blocks_def)
    then show ?thesis using c(2) [of n] b(3) that by auto
  qed
  show ?thesis
  proof (rule wroteI [where dblock = dblock, OF s sv1 ok1])
    show "\<forall>n < 512 * file_max. file_byte ?c1 ?i1 n = (if off \<le> n \<and> n < off + length [] then [] ! (n - off) else file_byte ?c ?i n)"
      using blk by (auto simp: file_byte_def less_mult_imp_div_less mult.commute)
    show "\<forall>p \<in> set (inode_blocks ?c1 ?i1). unat p \<in> bm_used (sfs_freemap s) \<longrightarrow> p \<in> set (inode_blocks ?c ?i)"
      using bl(1) b(3) by auto
    show "\<forall>j < file_max. data_ptrs ?c ?i ! j \<noteq> 0 \<longrightarrow> data_ptrs ?c1 ?i1 ! j = data_ptrs ?c ?i ! j"
      using k i(3) by (auto simp: data_ptrs_nth p nth_list_update file_max_def)
  qed (use ob u e in auto)
qed

text \<open>A data block gets new contents: the bytes at the offset change.\<close>

lemma overwrite_wrote:
  assumes s: "fs_ok dinv dsize s" "sfs_store s a = Some sv" "inode_ok (dblock (sfs_device s)) s (sv_i sv)"
    and l: "length (all_ptrs (dblock (sfs_device s)) (sv_i sv)) = 144"
    and k: "k < file_max" "data_ptrs (dblock (sfs_device s)) (sv_i sv) ! k \<noteq> 0"
    and x: "\<forall>n < 512. x ! n = (if skip \<le> n \<and> n < skip + length ds then ds ! (n - skip) else file_block (dblock (sfs_device s)) (sv_i sv) k ! n)"
      "skip + length ds \<le> 512"
    and st: "stored dinv dsize dblock (unat (data_ptrs (dblock (sfs_device s)) (sv_i sv) ! k)) x s s1"
  shows "wrote dinv dsize dblock a (512 * k + skip) ds s s1"
proof -
  let ?c = "dblock (sfs_device s)" and ?i = "sv_i sv"
  let ?p = "all_ptrs ?c ?i" and ?q = "data_ptrs (dblock (sfs_device s)) (sv_i sv) ! k"
  obtain d where d: "s1 = s\<lparr>sfs_device := d\<rparr>" "dblock d = ?c(unat ?q := x)" "dsize d = dsize (sfs_device s)"
    using st unfolding stored_def by blast
  have k': "Suc k < 144" using k(1) by (simp add: file_max_def)
  have q: "?q = ?p ! Suc k" by (simp add: data_ptrs_nth)
  have ne: "?p ! Suc j \<noteq> ?q" if "Suc j < 144" "j \<noteq> k" for j
    using inode_ptr_unique [OF s(3), of "Suc k" "Suc j"] that k(2) k' l unfolding q by auto
  have "sfi_indirect ?i \<noteq> ?q"
    using inode_ptr_unique [OF s(3), of "Suc k" 0] k(2) k' l unfolding q by (auto simp: all_ptrs_def)
  then have "unat (sfi_indirect ?i) \<noteq> unat ?q" by (simp add: word_unat_eq_iff)
  then have ip: "all_ptrs (dblock d) ?i = ?p" unfolding d(2) by (rule all_ptrs_upd)
  have ok1: "inode_ok (dblock (sfs_device s1)) s1 ?i" using s(3) ip d(1) by (simp add: inode_ok_def inode_blocks_ptrs)
  have blk: "file_block (dblock d) ?i j = (if j = k then x else file_block ?c ?i j)" if "j < file_max" for j
  proof -
    have "Suc j < 144" using that by (simp add: file_max_def)
    then show ?thesis using ne [of j] k(2) ip d(2) by (auto simp: file_block_def Let_def data_ptrs_nth q word_unat_eq_iff)
  qed
  have st1: "sfs_store s1 = (sfs_store s)(a \<mapsto> sv)" using s(2) d(1) by auto
  show ?thesis
  proof (rule wroteI [where dblock = dblock, OF stored_ok [OF s(1) st] s(2) st1 vnode_same ok1])
    show "\<forall>n < 512 * file_max. file_byte (dblock (sfs_device s1)) ?i n =
      (if 512 * k + skip \<le> n \<and> n < 512 * k + skip + length ds then ds ! (n - (512 * k + skip)) else file_byte ?c ?i n)"
    proof (intro allI impI)
      fix n assume "n < 512 * file_max"
      then have "n div 512 < file_max" by (simp add: less_mult_imp_div_less mult.commute)
      then have b: "file_byte (dblock (sfs_device s1)) ?i n = (if n div 512 = k then x ! (n mod 512) else file_byte ?c ?i n)"
        using blk d(1) by (simp add: file_byte_def)
      show "file_byte (dblock (sfs_device s1)) ?i n =
        (if 512 * k + skip \<le> n \<and> n < 512 * k + skip + length ds then ds ! (n - (512 * k + skip)) else file_byte ?c ?i n)"
      proof (cases "n div 512 = k")
        case True
        have n: "n = 512 * k + n mod 512" using True mult_div_mod_eq [of 512 n] by simp
        define m where "m = n mod 512"
        have m: "n = 512 * k + m" "m < 512" using n by (simp_all add: m_def)
        have "file_byte ?c ?i n = file_block ?c ?i k ! m" using True by (simp add: file_byte_def m_def)
        then show ?thesis using b True x(1) m by (simp add: m_def [symmetric])
      next
        case False
        have "\<not> (512 * k + skip \<le> n \<and> n < 512 * k + skip + length ds)"
        proof
          assume a: "512 * k + skip \<le> n \<and> n < 512 * k + skip + length ds"
          then have "512 * k \<le> n" "n < 512 * k + 512" using x(2) by auto
          then have "n div 512 = k" by (simp add: div_nat_eqI)
          then show False using False by simp
        qed
        then show ?thesis using b False by (simp only: if_False simp_thms)
      qed
    qed
    have "?q \<in> set (inode_blocks ?c ?i)" using k' l k(2) q by (simp add: inode_blocks_ptrs)
    then show "\<forall>b \<in> bm_used (sfs_freemap s). b \<notin> unat ` set (inode_blocks ?c ?i) \<longrightarrow> dblock (sfs_device s1) b = ?c b"
      using d by auto
  qed (use d ip in \<open>auto simp: inode_blocks_ptrs data_ptrs_nth\<close>)
qed

subsection \<open>The block map\<close>

context block_device
begin

lemma file_ptrs:
  assumes "fs_ok dinv dsize s" "inode_ok (dblock (sfs_device s)) s i"
  shows "length (all_ptrs (dblock (sfs_device s)) i) = 144" "length (ind_words (dblock (sfs_device s)) i) = 128" "length (sfi_direct i) = 15"
    "sfi_indirect i \<noteq> 0 \<Longrightarrow> unat (sfi_indirect i) < dsize (sfs_device s)"
    "sfi_indirect i \<noteq> 0 \<Longrightarrow> sfi_indirect i < sp_nblocks (sfs_super s) \<and> unat (sfi_indirect i) \<in> bm_used (sfs_freemap s)"
proof -
  show i: "sfi_indirect i \<noteq> 0 \<Longrightarrow> sfi_indirect i < sp_nblocks (sfs_super s) \<and> unat (sfi_indirect i) \<in> bm_used (sfs_freemap s)"
    using assms(2) by (simp add: inode_ok_def inode_blocks_def)
  then show d: "sfi_indirect i \<noteq> 0 \<Longrightarrow> unat (sfi_indirect i) < dsize (sfs_device s)"
    using fs_okD(3) [OF assms(1)] by (auto simp: word_less_nat_alt)
  then have l: "sfi_indirect i \<noteq> 0 \<Longrightarrow> length (dblock (sfs_device s) (unat (sfi_indirect i))) = 512"
    using dblock_length [OF fs_okD(1) [OF assms(1)]] by blast
  have sh: "inode_shape i" using assms(2) by (simp add: inode_ok_def)
  show "length (all_ptrs (dblock (sfs_device s)) i) = 144" using ptrs_length [OF sh] l by blast
  show "length (ind_words (dblock (sfs_device s)) i) = 128" using l by (simp add: ind_words_def)
  show "length (sfi_direct i) = 15" using sh by (simp add: inode_shape_def)
qed

lemma file_ptr_ok:
  assumes "fs_ok dinv dsize s" "inode_ok (dblock (sfs_device s)) s i" "k < file_max"
  shows "data_ptrs (dblock (sfs_device s)) i ! k = 0 \<or>
    data_ptrs (dblock (sfs_device s)) i ! k < sp_nblocks (sfs_super s) \<and> unat (data_ptrs (dblock (sfs_device s)) i ! k) \<in> bm_used (sfs_freemap s)"
  using inode_ptr_ok [OF assms(2), of "Suc k"] file_ptrs(1) [OF assms(1,2)] assms(3) by (auto simp: data_ptrs_nth file_max_def)

lemmas handback_ptr = sfs_handback_ok [OF _ file_ptr_ok]

lemma data_ptrs_split:
  assumes "fs_ok dinv dsize s" "inode_ok (dblock (sfs_device s)) s i"
  shows "k < 15 \<Longrightarrow> data_ptrs (dblock (sfs_device s)) i ! k = sfi_direct i ! k"
    "data_ptrs (dblock (sfs_device s)) i ! (15 + j) = ind_words (dblock (sfs_device s)) i ! j"
  using file_ptrs(3) [OF assms] by (simp_all add: data_ptrs_def nth_append)

lemma bmap_indirect_lookup:
  assumes "fs_ok dinv dsize s" "inode_ok (dblock (sfs_device s)) s i" "j < 128"
  shows "sfs_bmap_indirect dio idb (ind_words (dblock (sfs_device s)) i) j False s =
    Some (0, data_ptrs (dblock (sfs_device s)) i ! (15 + j), s)"
proof -
  have "15 + j < file_max" using assms(3) by (simp add: file_max_def)
  then show ?thesis
    using handback_ptr [OF assms(1,1,2), of "15 + j"] file_ptrs(2) [OF assms(1,2)] assms(3)
    by (simp add: sfs_bmap_indirect_def data_ptrs_split(2) [OF assms(1,2)])
qed

lemma same_inode_ok: "inode_ok (dblock (sfs_device s)) s i \<Longrightarrow> same_fs dinv dsize dblock s s1 \<Longrightarrow> inode_ok (dblock (sfs_device s1)) s1 i"
  by (auto simp: inode_ok_def same_fs_def)

text \<open>The index arithmetic of \<open>sfs_bmap\<close>.\<close>

lemma indirect_index:
  assumes "15 \<le> unat fb" "unat fb < 143"
  shows "\<not> fb < of_nat SFS_NDIRECT" "\<not> (fb - of_nat SFS_NDIRECT) div of_nat SFS_DBPERIDB > 0"
    "unat ((fb - of_nat SFS_NDIRECT) mod of_nat SFS_DBPERIDB :: 32 word) = unat fb - 15"
proof -
  show "\<not> fb < of_nat SFS_NDIRECT" using assms(1) by (simp add: SFS_NDIRECT_def word_less_nat_alt)
  have d: "unat (fb - of_nat SFS_NDIRECT) = unat fb - 15"
    using assms(1) by (simp add: SFS_NDIRECT_def unat_minus_ok word_le_nat_alt)
  have "unat ((fb - of_nat SFS_NDIRECT) div of_nat SFS_DBPERIDB) = 0"
    using assms by (simp only: unat_div d) (simp add: SFS_DBPERIDB_def)
  then show "\<not> (fb - of_nat SFS_NDIRECT) div of_nat SFS_DBPERIDB > 0" by (simp add: unat_eq_zero)
  show "unat ((fb - of_nat SFS_NDIRECT) mod of_nat SFS_DBPERIDB :: 32 word) = unat fb - 15"
    using assms by (simp only: unat_mod d) (simp add: SFS_DBPERIDB_def)
qed

lemma direct_index: "unat fb < 15 \<Longrightarrow> fb < (of_nat SFS_NDIRECT :: 32 word)"
  by (simp add: SFS_NDIRECT_def word_less_nat_alt)

lemma sfs_bmap_lookup:
  assumes "fs_ok dinv dsize s" "sfs_store s a = Some sv" "inode_ok (dblock (sfs_device s)) s (sv_i sv)" "unat fb < file_max"
  shows "\<exists>s1. sfs_bmap dio a fb False s = Some (0, data_ptrs (dblock (sfs_device s)) (sv_i sv) ! unat fb, s1) \<and> same_fs dinv dsize dblock s s1"
proof -
  let ?c = "dblock (sfs_device s)" and ?i = "sv_i sv"
  have r: "same_fs dinv dsize dblock s s" by (rule same_fs_refl) (rule fs_okD(1) [OF assms(1)])
  show ?thesis
  proof (cases "unat fb < 15")
    case True
    then show ?thesis
      using handback_ptr [OF assms(1,1,3,4)] file_ptrs(3) [OF assms(1,3)] r direct_index [OF True] assms(2)
      by (simp add: sfs_bmap_def data_ptrs_split(1) [OF assms(1,3) True])
  next
    case False
    then have k: "15 \<le> unat fb" "unat fb < 143" using assms(4) by (simp_all add: file_max_def)
    have j: "unat fb - 15 < 128" "15 + (unat fb - 15) = unat fb" using k by auto
    note ix = indirect_index [OF k]
    show ?thesis
    proof (cases "sfi_indirect ?i = 0")
      case True
      then have "data_ptrs ?c ?i ! unat fb = 0"
        using data_ptrs_split(2) [OF assms(1,3), of "unat fb - 15"] j by (simp add: ind_words_def)
      then show ?thesis using True r ix assms(2) by (simp add: sfs_bmap_def Let_def)
    next
      case nz: False
      obtain s1 where s1: "sfs_rblock dio (sfi_indirect ?i) s = Some (0, ?c (unat (sfi_indirect ?i)), s1)" "same_fs dinv dsize dblock s s1"
        using sfs_rblock_ok [OF fs_okD(1) [OF assms(1)] file_ptrs(4) [OF assms(1,3) nz]] by blast
      have c: "dblock (sfs_device s1) = ?c" using s1(2) by (auto simp: same_fs_def)
      have "ind_words ?c ?i = words_of (?c (unat (sfi_indirect ?i)))" using nz by (simp add: ind_words_def)
      then have "sfs_bmap dio a fb False s = sfs_bmap_indirect dio (sfi_indirect ?i) (ind_words (dblock (sfs_device s1)) ?i) (unat fb - 15) False s1"
        using nz ix assms(2) s1(1) c by (simp add: sfs_bmap_def Let_def)
      also have "\<dots> = Some (0, data_ptrs ?c ?i ! unat fb, s1)"
        using bmap_indirect_lookup [OF same_fs_ok [OF assms(1) s1(2)] same_inode_ok [OF assms(3) s1(2)] j(1)] j(2) c by simp
      finally show ?thesis using s1(2) by blast
    qed
  qed
qed

text \<open>
  Outcome of a call that may allocate: there was no block at that place of the file and the disk is full, or the block
  that is now at that place.
\<close>

definition mapped_block :: "addr \<Rightarrow> nat \<Rightarrow> sfs_vnode \<Rightarrow> 'd sfs_fs \<Rightarrow> int \<Rightarrow> 32 word \<Rightarrow> 'd sfs_fs \<Rightarrow> bool" where
  "mapped_block a k sv s r b s1 \<longleftrightarrow> r = ENOSPC \<and> disk_full s1 \<and> data_ptrs (dblock (sfs_device s)) (sv_i sv) ! k = 0 \<or>
     r = 0 \<and> b \<noteq> 0 \<and> (\<exists>sv1. sfs_store s1 a = Some sv1 \<and> data_ptrs (dblock (sfs_device s1)) (sv_i sv1) ! k = b)"

lemma fresh_block:
  assumes "fs_ok dinv dsize s" "inode_ok (dblock (sfs_device s)) s i" "unat b \<notin> bm_used (sfs_freemap s)" "b \<noteq> 0"
  shows "unat (sfi_indirect i) \<noteq> unat b"
  using file_ptrs(5) [OF assms(1,2)] assms(3,4) by (cases "sfi_indirect i = 0") (auto simp: unat_eq_zero)

lemma bmap_indirect_alloc:
  assumes "fs_ok dinv dsize s" "sfs_store s a = Some sv" "inode_ok (dblock (sfs_device s)) s (sv_i sv)" "sfi_indirect (sv_i sv) \<noteq> 0" "j < 128"
  shows "\<exists>r b s1. sfs_bmap_indirect dio (sfi_indirect (sv_i sv)) (ind_words (dblock (sfs_device s)) (sv_i sv)) j True s = Some (r, b, s1) \<and>
    wrote dinv dsize dblock a off [] s s1 \<and> mapped_block a (15 + j) sv s r b s1"
proof -
  let ?c = "dblock (sfs_device s)" and ?i = "sv_i sv"
  let ?w = "ind_words ?c ?i"
  note L = file_ptrs [OF assms(1,3)]
  have p: "data_ptrs ?c ?i ! (15 + j) = ?w ! j" by (rule data_ptrs_split(2) [OF assms(1,3)])
  have kx: "15 + j < file_max" using assms(5) by (simp add: file_max_def)
  have w: "wrote dinv dsize dblock a off [] s s" by (rule wrote_refl [where dblock = dblock, OF assms(1,2,3)])
  show ?thesis
  proof (cases "?w ! j = 0")
    case False
    then show ?thesis
      using handback_ptr [OF assms(1,1,3) kx] p w assms(2,5) L(2)
      by (simp add: sfs_bmap_indirect_def mapped_block_def)
  next
    case True
    from sfs_balloc_cases [OF assms(1), of 0] show ?thesis
    proof (elim disjE exE conjE)
      fix s1 assume "sfs_balloc dio 0 s = Some (ENOSPC, 0, s1)" "s1 = s" "disk_full s"
      then show ?thesis using True w assms(5) L(2) p by (simp add: sfs_bmap_indirect_def mapped_block_def)
    next
      fix b s1
      assume b: "sfs_balloc dio 0 s = Some (0, b, s1)" "fs_ok dinv dsize s1" "b \<noteq> 0" "b < sp_nblocks (sfs_super s)"
        "unat b \<notin> bm_used (sfs_freemap s)" "bm_used (sfs_freemap s1) = insert (unat b) (bm_used (sfs_freemap s))"
        "sfs_store s1 = sfs_store s" "sfs_super s1 = sfs_super s" "sfs_vnodes s1 = sfs_vnodes s"
        "dblock (sfs_device s1) = ?c(unat b := replicate 512 0)" "dsize (sfs_device s1) = dsize (sfs_device s)"
      have nb: "unat (sfi_indirect ?i) \<noteq> unat b" by (rule fresh_block [OF assms(1,3) b(5,3)])
      have ds: "unat (sfi_indirect ?i) < dsize (sfs_device s1)" using L(4) [OF assms(4)] b(11) by simp
      obtain s2 where s2: "sfs_wblock dio (bytes_of (?w[j := b])) (sfi_indirect ?i) s1 = Some (0, s2)"
        "stored dinv dsize dblock (unat (sfi_indirect ?i)) (bytes_of (?w[j := b])) s1 s2"
        using sfs_wblock_ok [OF fs_okD(1) [OF b(2)] ds, of "bytes_of (?w[j := b])"] L(2) by auto
      have ok2: "fs_ok dinv dsize s2" by (rule stored_ok [OF b(2) s2(2)])
      obtain d where d: "s2 = s1\<lparr>sfs_device := d\<rparr>" "dblock d = (dblock (sfs_device s1))(unat (sfi_indirect ?i) := bytes_of (?w[j := b]))"
        "dsize d = dsize (sfs_device s1)" using s2(2) unfolding stored_def by blast
      have ap: "all_ptrs (dblock (sfs_device s2)) ?i = (all_ptrs ?c ?i)[Suc (15 + j) := b]"
        using d assms(4) L(3) by (simp add: all_ptrs_def data_ptrs_def ind_words_def list_update_append)
      have st: "sfs_store s2 = (sfs_store s)(a \<mapsto> sv)" using d(1) b(7) assms(2) by auto
      have "wrote dinv dsize dblock a off [] s s2"
      proof (rule install_wrote [where dblock = dblock and k = "Suc (15 + j)" and b = b, OF ok2 assms(2) st vnode_same assms(3) _ L(1)])
        show "inode_shape ?i" using assms(3) by (simp add: inode_ok_def)
        show "all_ptrs ?c ?i ! Suc (15 + j) = 0" using p True by (simp add: data_ptrs_nth)
        show "dblock (sfs_device s2) n = ?c n" if "n \<noteq> unat b" "n \<noteq> unat (sfi_indirect ?i) \<or> sfi_indirect ?i = 0" for n
          using that d b(10) assms(4) by simp
        show "dblock (sfs_device s2) (unat b) = replicate 512 0" using d b(10) nb by simp
      qed (use assms(5) b d ap in auto)
      moreover have "data_ptrs (dblock (sfs_device s2)) ?i ! (15 + j) = b"
        using ap L(1) assms(5) by (simp add: data_ptrs_nth)
      moreover have "sfs_handback b s2 = Some (0, b, s2)" using sfs_handback_ok [OF ok2, of b] b d(1) by auto
      ultimately show ?thesis using True assms(5) L(2) b(1,3) s2(1) st
        by (simp add: sfs_bmap_indirect_def mapped_block_def wr_def)
    qed
  qed
qed

end

lemma upd_inode_simps:
  "sfs_device (upd_inode a f s) = sfs_device s" "sfs_super (upd_inode a f s) = sfs_super s" "sfs_freemap (upd_inode a f s) = sfs_freemap s"
  "sfs_vnodes (upd_inode a f s) = sfs_vnodes s"
  "sfs_store s a = Some sv \<Longrightarrow> sfs_store (upd_inode a f s) = (sfs_store s)(a \<mapsto> sv\<lparr>sv_i := f (sv_i sv), sv_dirty := 1\<rparr>)"
  by (simp_all add: upd_inode_def upd_vnode_def)

lemma upd_inode_fs_ok: "fs_ok dinv dsize s \<Longrightarrow> fs_ok dinv dsize (upd_inode a f s)"
  by (simp add: fs_ok_def upd_inode_simps)

context block_device
begin

lemma bmap_direct_alloc:
  assumes "fs_ok dinv dsize s" "sfs_store s a = Some sv" "inode_ok (dblock (sfs_device s)) s (sv_i sv)" "unat fb < 15"
  shows "\<exists>r b s1. sfs_bmap dio a fb True s = Some (r, b, s1) \<and> wrote dinv dsize dblock a off [] s s1 \<and> mapped_block a (unat fb) sv s r b s1"
proof -
  let ?c = "dblock (sfs_device s)" and ?i = "sv_i sv" and ?k = "unat fb"
  note L = file_ptrs [OF assms(1,3)]
  have p: "data_ptrs ?c ?i ! ?k = sfi_direct ?i ! ?k" by (rule data_ptrs_split(1) [OF assms(1,3,4)])
  have kx: "?k < file_max" using assms(4) by (simp add: file_max_def)
  have w: "wrote dinv dsize dblock a off [] s s" by (rule wrote_refl [where dblock = dblock, OF assms(1,2,3)])
  show ?thesis
  proof (cases "sfi_direct ?i ! ?k = 0")
    case False
    then show ?thesis
      using handback_ptr [OF assms(1,1,3) kx] p w assms(2,4) L(3) direct_index [OF assms(4)]
      by (simp add: sfs_bmap_def mapped_block_def)
  next
    case True
    from sfs_balloc_cases [OF assms(1), of 0] show ?thesis
    proof (elim disjE exE conjE)
      fix s1 assume "sfs_balloc dio 0 s = Some (ENOSPC, 0, s1)" "s1 = s" "disk_full s"
      then show ?thesis using True w assms(2,4) L(3) p direct_index [OF assms(4)] by (simp add: sfs_bmap_def mapped_block_def)
    next
      fix b s1
      assume b: "sfs_balloc dio 0 s = Some (0, b, s1)" "fs_ok dinv dsize s1" "b \<noteq> 0" "b < sp_nblocks (sfs_super s)"
        "unat b \<notin> bm_used (sfs_freemap s)" "bm_used (sfs_freemap s1) = insert (unat b) (bm_used (sfs_freemap s))"
        "sfs_store s1 = sfs_store s" "sfs_super s1 = sfs_super s" "sfs_vnodes s1 = sfs_vnodes s"
        "dblock (sfs_device s1) = ?c(unat b := replicate 512 0)" "dsize (sfs_device s1) = dsize (sfs_device s)"
      define dir where "dir = (sfi_direct ?i)[?k := b]"
      define s2 where "s2 = upd_inode a (\<lambda>i. i\<lparr>sfi_direct := dir\<rparr>) s1"
      define sv2 where "sv2 = sv\<lparr>sv_i := ?i\<lparr>sfi_direct := dir\<rparr>, sv_dirty := 1\<rparr>"
      have st: "sfs_store s2 = (sfs_store s)(a \<mapsto> sv2)" using b(7) assms(2) by (simp add: s2_def sv2_def upd_inode_simps)
      have s2: "sfs_device s2 = sfs_device s1" "sfs_super s2 = sfs_super s1" "sfs_freemap s2 = sfs_freemap s1" "sfs_vnodes s2 = sfs_vnodes s1"
        by (simp_all add: s2_def upd_inode_simps)
      have ok2: "fs_ok dinv dsize s2" using b(2) by (simp add: s2_def upd_inode_fs_ok)
      have nb: "unat (sfi_indirect ?i) \<noteq> unat b" by (rule fresh_block [OF assms(1,3) b(5,3)])
      have ap: "all_ptrs (dblock (sfs_device s2)) (sv_i sv2) = (all_ptrs ?c ?i)[Suc ?k := b]"
        using nb b(10) L(3) assms(4) by (simp add: s2 sv2_def dir_def all_ptrs_def data_ptrs_def ind_words_def list_update_append)
      have vs: "\<exists>dir ind dirty. sv2 = sv\<lparr>sv_i := ?i\<lparr>sfi_direct := dir, sfi_indirect := ind\<rparr>, sv_dirty := dirty\<rparr>"
        by (intro exI [of _ dir] exI [of _ "sfi_indirect ?i"] exI [of _ 1]) (simp add: sv2_def)
      have "wrote dinv dsize dblock a off [] s s2"
      proof (rule install_wrote [where dblock = dblock and k = "Suc ?k" and b = b, OF ok2 assms(2) st vs assms(3) _ L(1)])
        show "inode_shape (sv_i sv2)" using assms(3) by (simp add: inode_ok_def inode_shape_def sv2_def dir_def)
        show "all_ptrs ?c ?i ! Suc ?k = 0" using p True by (simp add: data_ptrs_nth)
      qed (use assms(4) b s2 ap in auto)
      moreover have "data_ptrs (dblock (sfs_device s2)) (sv_i sv2) ! ?k = b"
        using ap L(1) assms(4) by (simp add: data_ptrs_nth)
      moreover have "sfs_handback b s2 = Some (0, b, s2)" using sfs_handback_ok [OF ok2, of b] b s2 by auto
      ultimately show ?thesis using True assms(2,4) L(3) b(1,3) st direct_index [OF assms(4)]
        by (simp add: sfs_bmap_def mapped_block_def wr_def dir_def [symmetric] s2_def [symmetric])
    qed
  qed
qed

lemma sfs_bmap_alloc:
  assumes "fs_ok dinv dsize s" "sfs_store s a = Some sv" "inode_ok (dblock (sfs_device s)) s (sv_i sv)" "unat fb < file_max"
  shows "\<exists>r b s1. sfs_bmap dio a fb True s = Some (r, b, s1) \<and> wrote dinv dsize dblock a off [] s s1 \<and> mapped_block a (unat fb) sv s r b s1"
proof (cases "unat fb < 15")
  case True
  then show ?thesis by (rule bmap_direct_alloc [OF assms(1,2,3)])
next
  case False
  let ?c = "dblock (sfs_device s)" and ?i = "sv_i sv"
  note L = file_ptrs [OF assms(1,3)]
  have k: "15 \<le> unat fb" "unat fb < 143" using False assms(4) by (simp_all add: file_max_def)
  have j: "unat fb - 15 < 128" "15 + (unat fb - 15) = unat fb" using k by auto
  note ix = indirect_index [OF k]
  show ?thesis
  proof (cases "sfi_indirect ?i = 0")
    case nz: False
    obtain s1 where s1: "sfs_rblock dio (sfi_indirect ?i) s = Some (0, ?c (unat (sfi_indirect ?i)), s1)" "same_fs dinv dsize dblock s s1"
      using sfs_rblock_ok [OF fs_okD(1) [OF assms(1)] L(4) [OF nz]] by blast
    have c: "dblock (sfs_device s1) = ?c" "sfs_store s1 a = Some sv" using s1(2) assms(2) by (auto simp: same_fs_def)
    have w1: "wrote dinv dsize dblock a off [] s s1" by (rule same_fs_wrote [where dblock = dblock, OF assms(1,2,3) s1(2)])
    have "ind_words ?c ?i = words_of (?c (unat (sfi_indirect ?i)))" using nz by (simp add: ind_words_def)
    then have e: "sfs_bmap dio a fb True s = sfs_bmap_indirect dio (sfi_indirect ?i) (ind_words (dblock (sfs_device s1)) ?i) (unat fb - 15) True s1"
      using nz ix assms(2) s1(1) c(1) by (simp add: sfs_bmap_def Let_def)
    obtain r b s2 where s2: "sfs_bmap_indirect dio (sfi_indirect ?i) (ind_words (dblock (sfs_device s1)) ?i) (unat fb - 15) True s1 = Some (r, b, s2)"
      "wrote dinv dsize dblock a off [] s1 s2" "mapped_block a (unat fb) sv s1 r b s2"
      using bmap_indirect_alloc [OF same_fs_ok [OF assms(1) s1(2)] c(2) same_inode_ok [OF assms(3) s1(2)] nz j(1), of off] j(2) by auto
    have "wrote dinv dsize dblock a off [] s s2" using wrote_trans [OF w1, of "[]" s2] s2(2) by simp
    then show ?thesis using e s2(1,3) c(1) by (auto simp: mapped_block_def)
  next
    case z: True
    have hole: "data_ptrs ?c ?i ! unat fb = 0"
      using data_ptrs_split(2) [OF assms(1,3), of "unat fb - 15"] z j by (simp add: ind_words_def)
    have w: "wrote dinv dsize dblock a off [] s s" by (rule wrote_refl [where dblock = dblock, OF assms(1,2,3)])
    from sfs_balloc_cases [OF assms(1), of 0] show ?thesis
    proof (elim disjE exE conjE)
      fix s1 assume "sfs_balloc dio 0 s = Some (ENOSPC, 0, s1)" "s1 = s" "disk_full s"
      then show ?thesis using w z ix assms(2) hole by (simp add: sfs_bmap_def mapped_block_def Let_def)
    next
      fix b s1
      assume b: "sfs_balloc dio 0 s = Some (0, b, s1)" "fs_ok dinv dsize s1" "b \<noteq> 0" "b < sp_nblocks (sfs_super s)"
        "unat b \<notin> bm_used (sfs_freemap s)" "bm_used (sfs_freemap s1) = insert (unat b) (bm_used (sfs_freemap s))"
        "sfs_store s1 = sfs_store s" "sfs_super s1 = sfs_super s" "sfs_vnodes s1 = sfs_vnodes s"
        "dblock (sfs_device s1) = ?c(unat b := replicate 512 0)" "dsize (sfs_device s1) = dsize (sfs_device s)"
      define s2 where "s2 = upd_inode a (\<lambda>i. i\<lparr>sfi_indirect := b\<rparr>) s1"
      define sv2 where "sv2 = sv\<lparr>sv_i := ?i\<lparr>sfi_indirect := b\<rparr>, sv_dirty := 1\<rparr>"
      have st: "sfs_store s2 = (sfs_store s)(a \<mapsto> sv2)" using b(7) assms(2) by (simp add: s2_def sv2_def upd_inode_simps)
      have s2: "sfs_device s2 = sfs_device s1" "sfs_super s2 = sfs_super s1" "sfs_freemap s2 = sfs_freemap s1" "sfs_vnodes s2 = sfs_vnodes s1"
        by (simp_all add: s2_def upd_inode_simps)
      have ok2: "fs_ok dinv dsize s2" using b(2) by (simp add: s2_def upd_inode_fs_ok)
      have wz: "words_of (replicate 512 0) = replicate 128 0" using words_of_zeros [of 128] by simp
      have iw: "ind_words (dblock (sfs_device s2)) (sv_i sv2) = replicate 128 0"
        using b(3,10) wz by (simp add: s2 sv2_def ind_words_def)
      then have ap: "all_ptrs (dblock (sfs_device s2)) (sv_i sv2) = (all_ptrs ?c ?i)[0 := b]"
        using z by (simp add: all_ptrs_def data_ptrs_def sv2_def) (simp add: ind_words_def)
      have vs: "\<exists>dir ind dirty. sv2 = sv\<lparr>sv_i := ?i\<lparr>sfi_direct := dir, sfi_indirect := ind\<rparr>, sv_dirty := dirty\<rparr>"
        by (intro exI [of _ "sfi_direct ?i"] exI [of _ b] exI [of _ 1]) (simp add: sv2_def)
      have w2: "wrote dinv dsize dblock a off [] s s2"
      proof (rule install_wrote [where dblock = dblock and k = 0 and b = b, OF ok2 assms(2) st vs assms(3) _ L(1)])
        show "inode_shape (sv_i sv2)" using assms(3) by (simp add: inode_ok_def inode_shape_def sv2_def)
        show "all_ptrs ?c ?i ! 0 = 0" using z by (simp add: all_ptrs_def)
      qed (use b s2 ap in auto)
      have ok3: "inode_ok (dblock (sfs_device s2)) s2 (sv_i sv2)" "sfs_store s2 a = Some sv2"
        using w2 st unfolding wrote_def by (auto dest: fun_cong [where x = a])
      have i2: "sfi_indirect (sv_i sv2) = b" by (simp add: sv2_def)
      have e: "sfs_bmap dio a fb True s = sfs_bmap_indirect dio b (ind_words (dblock (sfs_device s2)) (sv_i sv2)) (unat fb - 15) True s2"
        using z ix assms(2) b(1) iw by (simp add: sfs_bmap_def Let_def s2_def [symmetric] SFS_DBPERIDB_def)
      obtain r q s3 where s3: "sfs_bmap_indirect dio b (ind_words (dblock (sfs_device s2)) (sv_i sv2)) (unat fb - 15) True s2 = Some (r, q, s3)"
        "wrote dinv dsize dblock a off [] s2 s3" "mapped_block a (unat fb) sv2 s2 r q s3"
        using bmap_indirect_alloc [OF ok2 ok3(2,1), of "unat fb - 15" off] b(3) j unfolding i2 by auto
      have "wrote dinv dsize dblock a off [] s s3" using wrote_trans [OF w2, of "[]" s3] s3(2) by simp
      then show ?thesis using e s3(1,3) hole by (auto simp: mapped_block_def)
    qed
  qed
qed

text \<open>Past the blocks of the indirect block.\<close>

lemma sfs_bmap_limit:
  assumes "sfs_store s a = Some sv" "file_max \<le> unat fb"
  shows "sfs_bmap dio a fb doalloc s = Some (EINVAL, 0, s)"
proof -
  have f: "143 \<le> unat fb" using assms(2) by (simp add: file_max_def)
  have n: "\<not> fb < of_nat SFS_NDIRECT" using f by (simp add: SFS_NDIRECT_def word_less_nat_alt)
  have "unat (fb - of_nat SFS_NDIRECT) = unat fb - 15" using f by (simp add: SFS_NDIRECT_def unat_minus_ok word_le_nat_alt)
  then have "0 < unat ((fb - of_nat SFS_NDIRECT) div of_nat SFS_DBPERIDB :: 32 word)"
    using f by (simp only: unat_div) (simp add: SFS_DBPERIDB_def div_greater_zero_iff)
  then have "(fb - of_nat SFS_NDIRECT) div of_nat SFS_DBPERIDB > (0 :: 32 word)" by (simp add: word_less_nat_alt)
  then show ?thesis using assms(1) n by (simp add: sfs_bmap_def Let_def)
qed

end

end
