(* ===== verification/K_SFS_IO.thy ===== *)
theory K_SFS_IO
  imports K_SFS_Laws
begin

section \<open>Reading and writing files of SFS\<close>

text \<open>
  What \<open>sfs_io\<close> does to the bytes of a file, on any device that keeps the contract of a block device: the
  partial block in front, the whole blocks and the partial block behind, and how far a transfer has come when it
  fails. The properties at the end are about the file system on the disk \<open>lhd\<close>.
\<close>

subsection \<open>Positions of a uio\<close>

lemma sint_off: "off < 2147483648 \<Longrightarrow> sint (of_nat off :: 32 word) = int off"
  by (rule sint_of_nat_ok)

lemma off_div:
  assumes "off < 2147483648" "vu_offset uio = of_nat off"
  shows "unat (uio_fileblock uio) = off div 512" "sint (vu_offset uio) smod 512 = int (off mod 512)"
    "word_of_int (sint (vu_offset uio) smod 512) = (of_nat (off mod 512) :: 32 word)"
proof -
  have "int off sdiv 512 = int (off div 512)" "int off smod 512 = int (off mod 512)"
    by (auto simp: signed_divide_int_def signed_modulo_int_def sgn_if zdiv_int zmod_int)
  then show "unat (uio_fileblock uio) = off div 512" "sint (vu_offset uio) smod 512 = int (off mod 512)"
    "word_of_int (sint (vu_offset uio) smod 512) = (of_nat (off mod 512) :: 32 word)"
    using assms by (simp_all add: uio_fileblock_def sint_off unat_of_nat_ok)
qed

text \<open>A uio after \<open>k\<close> bytes have been fetched, and after the bytes \<open>xs\<close> have been delivered.\<close>

definition consume :: "nat \<Rightarrow> vuio \<Rightarrow> vuio" where
  "consume k uio = (vu_advance k uio)\<lparr>vu_data := drop k (vu_data uio)\<rparr>"

definition deliver :: "8 word list \<Rightarrow> vuio \<Rightarrow> vuio" where
  "deliver xs uio = (vu_advance (length xs) uio)\<lparr>vu_data := vu_data uio @ xs\<rparr>"

lemma consume_0 [simp]: "consume 0 uio = uio"
  by (simp add: consume_def vu_advance_def)

lemma deliver_nil [simp]: "deliver [] uio = uio"
  by (simp add: deliver_def vu_advance_def)

lemma consume_add: "consume j (consume k uio) = consume (k + j) uio"
  by (simp add: consume_def vu_advance_def add.commute diff_diff_eq)

lemma deliver_append: "deliver ys (deliver xs uio) = deliver (xs @ ys) uio"
  by (simp add: deliver_def vu_advance_def diff_diff_eq)

lemma consume_fields:
  "vu_rw (consume k uio) = vu_rw uio" "vu_data (consume k uio) = drop k (vu_data uio)" "vu_offset (consume k uio) = vu_offset uio + of_nat k"
  "vu_resid (consume k uio) = vu_resid uio - of_nat k"
  by (simp_all add: consume_def vu_advance_def)

lemma consume_good: "vu_good (consume k uio) = vu_good uio - k"
  by (simp add: consume_def vu_advance_def)

lemma deliver_fields:
  "vu_rw (deliver xs uio) = vu_rw uio" "vu_data (deliver xs uio) = vu_data uio @ xs" "vu_offset (deliver xs uio) = vu_offset uio + of_nat (length xs)"
  "vu_resid (deliver xs uio) = vu_resid uio - of_nat (length xs)"
  by (simp_all add: deliver_def vu_advance_def)

lemma resid_minus: "k \<le> unat (vu_resid uio) \<Longrightarrow> unat (vu_resid uio - of_nat k) = unat (vu_resid uio) - k"
  using unat_less_32 [of "vu_resid uio"] by (simp add: unat_minus_ok word_le_nat_alt unat_of_nat_ok)

subsection \<open>Writing a file\<close>

text \<open>
  Why a write to a file with inode \<open>i\<close> on a disk with contents \<open>c\<close> stops at position \<open>pos\<close>: the file has no block there
  and the disk is full, or the caller's bytes cannot be accessed (\<open>bad\<close>), or the position is past the greatest size of a
  file.
\<close>

definition write_stops :: "(nat \<Rightarrow> blk) \<Rightarrow> sfs_inode \<Rightarrow> nat \<Rightarrow> bool \<Rightarrow> int \<Rightarrow> 'd sfs_fs \<Rightarrow> bool" where
  "write_stops c i pos bad r s1 \<longleftrightarrow>
     r = ENOSPC \<and> disk_full s1 \<and> pos < 512 * file_max \<and> data_ptrs c i ! (pos div 512) = 0 \<or>
     r = EFAULT \<and> bad \<or>
     r = EINVAL \<and> 512 * file_max \<le> pos"

lemma spliced_nth:
  assumes "length b = 512" "skip + length xs \<le> 512" "n < 512"
  shows "(take skip b @ xs @ drop (skip + length xs) b) ! n = (if skip \<le> n \<and> n < skip + length xs then xs ! (n - skip) else b ! n)"
  using assms by (auto simp: nth_append)

context block_device
begin

lemma wrote_state:
  assumes "wrote dinv dsize dblock a off ds s s1"
  obtains sv1 where "fs_ok dinv dsize s1" "sfs_store s1 a = Some sv1" "inode_ok (dblock (sfs_device s1)) s1 (sv_i sv1)"
  using assms unfolding wrote_def by fastforce

lemma file_block_ptr: "data_ptrs c i ! k \<noteq> 0 \<Longrightarrow> file_block c i k = c (unat (data_ptrs c i ! k))"
  by (simp add: file_block_def)

lemma mapped_ptr:
  assumes "fs_ok dinv dsize s" "inode_ok (dblock (sfs_device s)) s i" "k < file_max" "data_ptrs (dblock (sfs_device s)) i ! k = b" "b \<noteq> 0"
  shows "unat b < dsize (sfs_device s)" "length (dblock (sfs_device s) (unat b)) = 512"
proof -
  have "b < sp_nblocks (sfs_super s)" using file_ptr_ok [OF assms(1,2,3)] assms(4,5) by auto
  then show d: "unat b < dsize (sfs_device s)" using fs_okD(3) [OF assms(1)] by (simp add: word_less_nat_alt)
  show "length (dblock (sfs_device s) (unat b)) = 512" by (rule dblock_length [OF fs_okD(1) [OF assms(1)] d])
qed

lemma sfs_partialio_write:
  assumes "fs_ok dinv dsize s" "sfs_store s a = Some sv" "inode_ok (dblock (sfs_device s)) s (sv_i sv)"
    "vu_rw uio = UIO_WRITE" "vu_offset uio = of_nat off" "off < 2147483648" "skip = of_nat (off mod 512)"
    "off mod 512 + unat len \<le> 512" "unat len \<le> unat (vu_resid uio)" "unat (vu_resid uio) \<le> length (vu_data uio)"
  shows "\<exists>r s1 k. sfs_partialio dio a uio skip len s = Some (r, consume k uio, s1) \<and>
    wrote dinv dsize dblock a off (take k (vu_data uio)) s s1 \<and> (r = 0 \<and> k = unat len \<and> off < 512 * file_max \<or> write_stops (dblock (sfs_device s)) (sv_i sv) off (vu_good uio < unat len) r s1 \<and> k = 0)"
proof -
  let ?k = "off div 512"
  have us: "unat skip = off mod 512" using assms(7) unat_of_nat_ok [of "off mod 512"] by simp
  have "unat (skip + len) = unat skip + unat len" using us assms(8) by (simp add: unat_plus_ok)
  then have as: "skip + len \<le> 512" using us assms(8) by (simp add: word_le_nat_alt)
  have fb: "unat (uio_fileblock uio) = ?k" by (rule off_div(1) [OF assms(6,5)])
  show ?thesis
  proof (cases "off < 512 * file_max")
    case False
    then have "file_max \<le> unat (uio_fileblock uio)" unfolding fb by (simp add: not_less less_eq_div_iff_mult_less_eq mult.commute)
    from sfs_bmap_limit [OF assms(2) this] have "sfs_partialio dio a uio skip len s = Some (EINVAL, uio, s)" using assms(4) as by (simp add: sfs_partialio_def)
    then show ?thesis using False wrote_refl [where dblock = dblock, OF assms(1,2,3), of off]
      by (intro exI [of _ EINVAL] exI [of _ s] exI [of _ 0]) (simp add: write_stops_def)
  next
    case lim: True
    have kx: "?k < file_max" using lim by (simp add: less_mult_imp_div_less mult.commute)
    obtain r b s1 where s1: "sfs_bmap dio a (uio_fileblock uio) True s = Some (r, b, s1)"
      "wrote dinv dsize dblock a off [] s s1" "mapped_block a ?k sv s r b s1"
      using sfs_bmap_alloc [OF assms(1,2,3), of "uio_fileblock uio" off] kx fb by auto
    show ?thesis
    proof (cases "r = 0")
      case False
      then show ?thesis using s1 assms(4) as by (intro exI [of _ r] exI [of _ s1] exI [of _ 0]) (use lim in \<open>auto simp: sfs_partialio_def mapped_block_def write_stops_def\<close>)
    next
      case True
      then obtain sv1 where b: "b \<noteq> 0" "sfs_store s1 a = Some sv1" "data_ptrs (dblock (sfs_device s1)) (sv_i sv1) ! ?k = b"
        using s1(3) by (auto simp: mapped_block_def)
      have ok1: "fs_ok dinv dsize s1" "inode_ok (dblock (sfs_device s1)) s1 (sv_i sv1)" using wrote_state [OF s1(2)] b(2) by auto
      note mp = mapped_ptr [OF ok1 kx b(3,1)]
      obtain s2 where s2: "sfs_rblock dio b s1 = Some (0, dblock (sfs_device s1) (unat b), s2)" "same_fs dinv dsize dblock s1 s2"
        using sfs_rblock_ok [OF fs_okD(1) [OF ok1(1)] mp(1)] by blast
      have w2: "wrote dinv dsize dblock a off [] s s2"
        using wrote_trans [OF s1(2), of "[]" s2] same_fs_wrote [where dblock = dblock, OF ok1(1) b(2) ok1(2) s2(2), of off] by simp
      have c2: "dblock (sfs_device s2) = dblock (sfs_device s1)" "sfs_store s2 a = Some sv1" using s2(2) b(2) by (auto simp: same_fs_def)
      have ok2: "fs_ok dinv dsize s2" "inode_ok (dblock (sfs_device s2)) s2 (sv_i sv1)"
        using same_fs_ok [OF ok1(1) s2(2)] same_inode_ok [OF ok1(2) s2(2)] by auto
      define io where "io = dblock (sfs_device s1) (unat b)"
      have lb: "length (take (unat len) (drop (unat skip) io)) = unat len" using mp(2) us assms(8) by (simp add: io_def)
      show ?thesis
      proof (cases "vu_good uio < unat len")
        case gd: True
        then have "vuiomove (take (unat len) (drop (unat skip) io)) uio = Some (EFAULT, uio, take (unat len) (drop (unat skip) io))"
          unfolding vuiomove_def lb using assms(9) by (simp add: min_absorb1)
        then show ?thesis using s1(1) True b(1) s2(1) w2 assms(4) as
          by (intro exI [of _ EFAULT] exI [of _ s2] exI [of _ 0]) (use gd in \<open>simp add: sfs_partialio_def io_def write_stops_def\<close>)
      next
        case gd: False
        let ?xs = "take (unat len) (vu_data uio)"
        have lx: "length ?xs = unat len" using assms(9,10) by simp
        have mv: "vuiomove (take (unat len) (drop (unat skip) io)) uio = Some (0, consume (unat len) uio, ?xs)"
          using vuiomove_write [of uio "unat len" "take (unat len) (drop (unat skip) io)"] assms(4,9,10) gd lb by (simp add: consume_def)
        define x where "x = take (unat skip) io @ ?xs @ drop (unat skip + unat len) io"
        have x: "\<forall>n < 512. x ! n = (if unat skip \<le> n \<and> n < unat skip + length ?xs then ?xs ! (n - unat skip) else io ! n)"
          "length x = 512"
          using spliced_nth [of io "unat skip" ?xs] mp(2) us assms(8) lx by (auto simp: x_def io_def)
        have d2: "unat b < dsize (sfs_device s2)" using mp(1) s2(2) by (auto simp: same_fs_def)
        obtain s3 where s3: "sfs_wblock dio x b s2 = Some (0, s3)" "stored dinv dsize dblock (unat b) x s2 s3"
          using sfs_wblock_ok [OF fs_okD(1) [OF ok2(1)] d2 x(2)] by blast
        have fbk: "file_block (dblock (sfs_device s2)) (sv_i sv1) ?k = io" "data_ptrs (dblock (sfs_device s2)) (sv_i sv1) ! ?k = b"
          using b c2 by (simp_all add: file_block_def io_def)
        have "wrote dinv dsize dblock a (512 * ?k + unat skip) ?xs s2 s3"
          using fbk b(1) x(1) s3(2) lx us assms(8)
          by (intro overwrite_wrote [where dblock = dblock, OF ok2(1) c2(2) ok2(2) file_ptrs(1) [OF ok2] kx]) auto
        then have "wrote dinv dsize dblock a off ?xs s2 s3" by (simp add: us)
        then have "wrote dinv dsize dblock a off ?xs s s3" using wrote_trans [OF w2, of ?xs s3] by simp
        then show ?thesis using s1(1) True b(1) s2(1) s3(1) assms(4) as mv
          by (intro exI [of _ 0] exI [of _ s3] exI [of _ "unat len"])
            (use lim in \<open>simp add: sfs_partialio_def io_def [symmetric] x_def [symmetric] consume_fields Let_def\<close>)
      qed
    qed
  qed
qed

lemma sfs_blockio_write:
  assumes "fs_ok dinv dsize s" "sfs_store s a = Some sv" "inode_ok (dblock (sfs_device s)) s (sv_i sv)"
    "vu_rw uio = UIO_WRITE" "vu_offset uio = of_nat off" "off < 2147483648" "off mod 512 = 0"
    "512 \<le> unat (vu_resid uio)" "unat (vu_resid uio) \<le> length (vu_data uio)"
  shows "\<exists>r s1 k. sfs_blockio dio a uio s = Some (r, consume k uio, s1) \<and>
    wrote dinv dsize dblock a off (take k (vu_data uio)) s s1 \<and> (r = 0 \<and> k = 512 \<and> off < 512 * file_max \<or> write_stops (dblock (sfs_device s)) (sv_i sv) off (vu_good uio < 512) r s1 \<and> k = 0)"
proof -
  let ?k = "off div 512"
  have fb: "unat (uio_fileblock uio) = ?k" by (rule off_div(1) [OF assms(6,5)])
  have rs: "vu_resid uio \<ge> 512" using assms(8) by (simp add: word_le_nat_alt)
  show ?thesis
  proof (cases "off < 512 * file_max")
    case False
    then have "file_max \<le> unat (uio_fileblock uio)" unfolding fb by (simp add: not_less less_eq_div_iff_mult_less_eq mult.commute)
    from sfs_bmap_limit [OF assms(2) this] have "sfs_blockio dio a uio s = Some (EINVAL, uio, s)" using assms(4) by (simp add: sfs_blockio_def)
    then show ?thesis using False wrote_refl [where dblock = dblock, OF assms(1,2,3), of off]
      by (intro exI [of _ EINVAL] exI [of _ s] exI [of _ 0]) (simp add: write_stops_def)
  next
    case lim: True
    have kx: "?k < file_max" using lim by (simp add: less_mult_imp_div_less mult.commute)
    obtain r b s1 where s1: "sfs_bmap dio a (uio_fileblock uio) True s = Some (r, b, s1)"
      "wrote dinv dsize dblock a off [] s s1" "mapped_block a ?k sv s r b s1"
      using sfs_bmap_alloc [OF assms(1,2,3), of "uio_fileblock uio" off] kx fb by auto
    show ?thesis
    proof (cases "r = 0")
      case False
      then show ?thesis using s1 assms(4) by (intro exI [of _ r] exI [of _ s1] exI [of _ 0]) (use lim in \<open>auto simp: sfs_blockio_def mapped_block_def write_stops_def\<close>)
    next
      case True
      then obtain sv1 where b: "b \<noteq> 0" "sfs_store s1 a = Some sv1" "data_ptrs (dblock (sfs_device s1)) (sv_i sv1) ! ?k = b"
        using s1(3) by (auto simp: mapped_block_def)
      have ok1: "fs_ok dinv dsize s1" "inode_ok (dblock (sfs_device s1)) s1 (sv_i sv1)" using wrote_state [OF s1(2)] b(2) by auto
      note mp = mapped_ptr [OF ok1 kx b(3,1)]
      define u where "u = uio\<lparr>vu_offset := b * 512, vu_resid := 512\<rparr>"
      have u: "vu_rw u = UIO_WRITE" "vu_offset u = of_nat (512 * unat b)" "vu_resid u = 512" "vu_good u = vu_good uio" "vu_data u = vu_data uio"
        using assms(4) by (simp_all add: u_def mult.commute)
      show ?thesis
      proof (cases "vu_good uio < 512")
        case gd: True
        obtain s2 where s2: "sfs_rwblock dio u s1 = Some (EFAULT, u, s2)" "same_fs dinv dsize dblock s1 s2"
          using sfs_rwblock_fault [OF fs_okD(1) [OF ok1(1)] mp(1) u(2,3)] gd u(4) by auto
        have "wrote dinv dsize dblock a off [] s s2"
          using wrote_trans [OF s1(2), of "[]" s2] same_fs_wrote [where dblock = dblock, OF ok1(1) b(2) ok1(2) s2(2), of off] by simp
        moreover have "u\<lparr>vu_offset := vu_offset u - b * 512 + vu_offset uio, vu_resid := vu_resid u - 512 + vu_resid uio\<rparr> = uio"
          by (simp add: u_def)
        ultimately show ?thesis using s1(1) True b(1) s2(1) rs assms(4)
          by (intro exI [of _ EFAULT] exI [of _ s2] exI [of _ 0]) (use gd in \<open>simp add: sfs_blockio_def u_def [symmetric] Let_def write_stops_def\<close>)
      next
        case gd: False
        let ?xs = "take 512 (vu_data uio)"
        obtain s2 where s2: "sfs_rwblock dio u s1 = Some (0, (vu_advance 512 u)\<lparr>vu_data := drop 512 (vu_data u)\<rparr>, s2)"
          "stored dinv dsize dblock (unat b) ?xs s1 s2"
          using sfs_rwblock_write [OF fs_okD(1) [OF ok1(1)] mp(1) u(1,2,3)] gd u(4,5) assms(8,9) by auto
        have lx: "length ?xs = 512" using assms(8,9) by simp
        have "wrote dinv dsize dblock a (512 * ?k + 0) ?xs s1 s2"
          using b s2(2) lx
          by (intro overwrite_wrote [where dblock = dblock, OF ok1(1) b(2) ok1(2) file_ptrs(1) [OF ok1] kx]) auto
        moreover have "512 * ?k + 0 = off" using assms(7) by auto
        ultimately have "wrote dinv dsize dblock a off ?xs s s2" using wrote_trans [OF s1(2), of ?xs s2] by simp
        moreover have "((vu_advance 512 u)\<lparr>vu_data := drop 512 (vu_data u)\<rparr>)\<lparr>vu_offset := vu_offset ((vu_advance 512 u)\<lparr>vu_data := drop 512 (vu_data u)\<rparr>) - b * 512 + vu_offset uio,
            vu_resid := vu_resid ((vu_advance 512 u)\<lparr>vu_data := drop 512 (vu_data u)\<rparr>) - 512 + vu_resid uio\<rparr> = consume 512 uio"
          by (simp add: u_def consume_def vu_advance_def)
        ultimately show ?thesis using s1(1) True b(1) s2(1) rs assms(4)
          by (intro exI [of _ 0] exI [of _ s2] exI [of _ 512]) (use lim in \<open>simp add: sfs_blockio_def u_def [symmetric] Let_def\<close>)
      qed
    qed
  qed
qed

end

subsection \<open>The blocks of a transfer\<close>

text \<open>
  \<open>G k u s\<close> says that \<open>u\<close> and \<open>s\<close> are what is left once \<open>k\<close> of the \<open>n\<close> bytes from position \<open>off\<close> on have
  been transferred, \<open>E r k s\<close> that a transfer may end there with the error \<open>r\<close>. When a partial block and a whole block each advance \<open>G\<close>, so does \<open>sfs_io_blocks\<close>, for
  reading and for writing.
\<close>

definition moves :: "(nat \<Rightarrow> vuio \<Rightarrow> 'd sfs_fs \<Rightarrow> bool) \<Rightarrow> (int \<Rightarrow> nat \<Rightarrow> 'd sfs_fs \<Rightarrow> bool) \<Rightarrow> nat \<Rightarrow> nat \<Rightarrow> (int \<times> vuio \<times> 'd sfs_fs) option \<Rightarrow> bool" where
  "moves G E k len res \<longleftrightarrow> (\<exists>r u s j. res = Some (r, u, s) \<and> G (k + j) u s \<and> (r = 0 \<and> j = len \<or> r \<noteq> 0 \<and> E r (k + j) s \<and> j \<le> len))"

definition io_steps :: "'d d_io \<Rightarrow> addr \<Rightarrow> nat \<Rightarrow> nat \<Rightarrow> (nat \<Rightarrow> vuio \<Rightarrow> 'd sfs_fs \<Rightarrow> bool)
    \<Rightarrow> (int \<Rightarrow> nat \<Rightarrow> 'd sfs_fs \<Rightarrow> bool) \<Rightarrow> bool" where
  "io_steps dio a off n G E \<longleftrightarrow> off + n < 2147483648 \<and>
     (\<forall>k u s. G k u s \<longrightarrow> k \<le> n \<longrightarrow> vu_offset u = of_nat (off + k) \<and> unat (vu_resid u) = n - k) \<and>
     (\<forall>k u s len. G k u s \<longrightarrow> (off + k) mod 512 + unat len \<le> 512 \<longrightarrow> k + unat len \<le> n \<longrightarrow> (off + k) mod 512 \<noteq> 0 \<or> 0 < unat len \<longrightarrow>
        k = 0 \<or> (off + k) mod 512 = 0 \<longrightarrow> moves G E k (unat len) (sfs_partialio dio a u (of_nat ((off + k) mod 512)) len s)) \<and>
     (\<forall>k u s. G k u s \<longrightarrow> (off + k) mod 512 = 0 \<longrightarrow> k + 512 \<le> n \<longrightarrow> moves G E k 512 (sfs_blockio dio a u s))"

lemma io_stepsD:
  assumes "io_steps dio a off n G E"
  shows "off + n < 2147483648" "G k u s \<Longrightarrow> k \<le> n \<Longrightarrow> vu_offset u = of_nat (off + k)" "G k u s \<Longrightarrow> k \<le> n \<Longrightarrow> unat (vu_resid u) = n - k"
    "G k u s \<Longrightarrow> (off + k) mod 512 + unat len \<le> 512 \<Longrightarrow> k + unat len \<le> n \<Longrightarrow> (off + k) mod 512 \<noteq> 0 \<or> 0 < unat len \<Longrightarrow>
      k = 0 \<or> (off + k) mod 512 = 0 \<Longrightarrow> moves G E k (unat len) (sfs_partialio dio a u (of_nat ((off + k) mod 512)) len s)"
    "G k u s \<Longrightarrow> (off + k) mod 512 = 0 \<Longrightarrow> k + 512 \<le> n \<Longrightarrow> moves G E k 512 (sfs_blockio dio a u s)"
  using assms [unfolded io_steps_def, THEN conjunct1]
    assms [unfolded io_steps_def, THEN conjunct2, THEN conjunct1, rule_format, of k u s]
    assms [unfolded io_steps_def, THEN conjunct2, THEN conjunct2, THEN conjunct1, rule_format, of k u s len]
    assms [unfolded io_steps_def, THEN conjunct2, THEN conjunct2, THEN conjunct2, rule_format, of k u s]
  by simp_all

lemma movesI: "res = Some (r, u, s) \<Longrightarrow> G (k + j) u s \<Longrightarrow> r = 0 \<and> j = len \<or> r \<noteq> 0 \<and> E r (k + j) s \<and> j \<le> len \<Longrightarrow> moves G E k len res"
  unfolding moves_def by blast

lemma movesE:
  assumes "moves G E k len res"
  obtains (moved) u s where "res = Some (0, u, s)" "G (k + len) u s"
  | (failed) r u s j where "res = Some (r, u, s)" "r \<noteq> 0" "E r (k + j) s" "j \<le> len" "G (k + j) u s"
  using assms unfolding moves_def by blast

lemma sfs_blocks_loop_moves:
  assumes "io_steps dio a off n G E"
  shows "G k u s \<Longrightarrow> (off + k) mod 512 = 0 \<Longrightarrow> k + 512 * m \<le> n \<Longrightarrow> moves G E k (512 * m) (sfs_blocks_loop dio a m u s)"
proof (induction m arbitrary: k u s)
  case 0
  then show ?case by (auto simp: moves_def)
next
  case (Suc m)
  have fit: "k + 512 \<le> n" using Suc.prems(3) by simp
  from io_stepsD(5) [OF assms Suc.prems(1,2) fit] show ?case
  proof (cases rule: movesE)
    case (moved u1 s1)
    have "(off + (k + 512)) mod 512 = 0" using Suc.prems(2) by (simp add: add.assoc [symmetric])
    from Suc.IH [OF moved(2) this] have "moves G E (k + 512) (512 * m) (sfs_blocks_loop dio a m u1 s1)" using Suc.prems(3) by simp
    then show ?thesis using moved(1) by (cases rule: movesE) (auto intro: movesI simp: add.assoc)
  next
    case (failed r u1 s1 j)
    then show ?thesis by (auto intro: movesI)
  qed
qed

lemma sfs_io_tail_moves:
  assumes "io_steps dio a off n G E" "G k u s" "(off + k) mod 512 = 0" "k \<le> n"
  shows "moves G E k (n - k) (do {
       kassert (sint (vu_offset u) smod 512 = 0);
       (result, uio2, s2) \<leftarrow> sfs_blocks_loop dio a (unat (vu_resid u div 512)) u s;
       if result \<noteq> 0 then Some (result, uio2, s2)
       else do {
         kassert (vu_resid uio2 < 512);
         if vu_resid uio2 > 0 then sfs_partialio dio a uio2 0 (vu_resid uio2) s2 else Some (0, uio2, s2)
       }
     })" (is "moves G E k _ ?tail")
proof -
  define m where "m = (n - k) div 512"
  have nn: "512 * m + (n - k) mod 512 = n - k" by (simp add: m_def)
  have un: "unat (vu_resid u div 512) = m" by (simp add: unat_div io_stepsD(3) [OF assms(1,2,4)] m_def)
  have al: "sint (vu_offset u) smod 512 = 0"
    using off_div(2) [OF _ io_stepsD(2) [OF assms(1,2,4)]] io_stepsD(1) [OF assms(1)] assms(3,4) by simp
  have fit: "k + 512 * m \<le> n" using nn assms(4) by linarith
  from sfs_blocks_loop_moves [OF assms(1,2,3) fit] show ?thesis
  proof (cases rule: movesE)
    case (failed r u1 s1 j)
    then show ?thesis using al un nn by (intro movesI [of _ r u1 s1 G k j]) auto
  next
    case (moved u1 s1)
    have res: "unat (vu_resid u1) = (n - k) mod 512" using io_stepsD(3) [OF assms(1) moved(2) fit] nn by linarith
    then have "vu_resid u1 < 512" by (simp add: word_less_nat_alt)
    then have st: "?tail = (if vu_resid u1 > 0 then sfs_partialio dio a u1 0 (vu_resid u1) s1 else Some (0, u1, s1))"
      using moved(1) al un by simp
    have m0: "(off + (k + 512 * m)) mod 512 = 0" using assms(3) by (simp add: add.assoc [symmetric])
    show ?thesis
    proof (cases "vu_resid u1 > 0")
      case True
      have "k + 512 * m + unat (vu_resid u1) \<le> n" using res nn assms(4) by linarith
      then have "moves G E (k + 512 * m) (unat (vu_resid u1)) ?tail"
        using io_stepsD(4) [OF assms(1) moved(2), of "vu_resid u1"] st m0 res True by (simp add: word_less_nat_alt)
      then show ?thesis using res nn by (cases rule: movesE) (auto intro!: movesI simp: add.assoc)
    next
      case False
      then have "unat (vu_resid u1) = 0" by (simp add: word_gt_0 unat_eq_zero)
      then show ?thesis using st False moved(2) res nn by (intro movesI [of _ 0 u1 s1 G k "512 * m"]) auto
    qed
  qed
qed

lemma sfs_io_head:
  fixes u :: vuio
  assumes "off < 2147483648" "vu_offset u = of_nat off"
  defines "bo \<equiv> word_of_int (sint (vu_offset u) smod 512) :: 32 word"
  shows "bo = of_nat (off mod 512)" "bo = 0 \<longleftrightarrow> off mod 512 = 0" "unat (min (512 - bo) (vu_resid u)) = min (512 - off mod 512) (unat (vu_resid u))"
proof -
  show bo: "bo = of_nat (off mod 512)" unfolding bo_def by (rule off_div(3) [OF assms(1,2)])
  have lt: "off mod 512 < 512" by simp
  have ub: "unat bo = off mod 512" unfolding bo using unat_of_nat_ok [of "off mod 512"] lt by simp
  then show "bo = 0 \<longleftrightarrow> off mod 512 = 0" by (metis unat_0 unat_eq_zero)
  have "unat (512 - bo) = 512 - off mod 512" using ub lt unat_minus_ok [of bo 512] by (simp add: word_le_nat_alt)
  then show "unat (min (512 - bo) (vu_resid u)) = min (512 - off mod 512) (unat (vu_resid u))" by (auto simp: min_def word_le_nat_alt)
qed

lemma sfs_io_blocks_moves:
  assumes "io_steps dio a off n G E" "G 0 u s"
  shows "moves G E 0 n (sfs_io_blocks dio a u s)"
proof -
  define bo where "bo = (word_of_int (sint (vu_offset u) smod 512) :: 32 word)"
  define len where "len = min (512 - bo) (vu_resid u)"
  have pos: "off < 2147483648" "vu_offset u = of_nat off" "unat (vu_resid u) = n"
    using io_stepsD(1,2,3) [OF assms(1)] assms(2) by fastforce+
  note hd = sfs_io_head [OF pos(1,2), folded bo_def, folded len_def, unfolded pos(3)]
  define L where "L = (if off mod 512 = 0 then 0 else min (512 - off mod 512) n)"
  have "moves G E 0 L (if bo \<noteq> 0 then sfs_partialio dio a u bo len s else Some (0, u, s))"
  proof (cases "off mod 512 = 0")
    case True
    then show ?thesis using hd(2) assms(2) by (auto simp: L_def moves_def)
  next
    case False
    have "off mod 512 < 512" by simp
    then have "moves G E 0 (unat len) (sfs_partialio dio a u (of_nat (off mod 512)) len s)"
      using io_stepsD(4) [OF assms, of len] hd(3) False by simp
    then show ?thesis using hd False by (simp add: L_def)
  qed
  then show ?thesis
  proof (cases rule: movesE)
    case (failed r u1 s1 j)
    have "sfs_io_blocks dio a u s = Some (r, u1, s1)"
      unfolding sfs_io_blocks_def Let_def bo_def [symmetric] len_def [symmetric] failed(1) using failed(2) by simp
    moreover have "j \<le> n" using failed(4) by (simp add: L_def split: if_splits)
    ultimately show ?thesis using failed by (intro movesI [of _ r u1 s1 G 0 j]) auto
  next
    case (moved u1 s1)
    have Ln: "L \<le> n" by (simp add: L_def)
    have g: "G L u1 s1" using moved(2) by simp
    have res: "unat (vu_resid u1) = n - L" by (rule io_stepsD(3) [OF assms(1) g Ln])
    show ?thesis
    proof (cases "vu_resid u1 = 0")
      case True
      then have "L = n" using res Ln by simp
      moreover have "sfs_io_blocks dio a u s = Some (0, u1, s1)"
        unfolding sfs_io_blocks_def Let_def bo_def [symmetric] len_def [symmetric] moved(1) using True by simp
      ultimately show ?thesis using g by (intro movesI [of _ 0 u1 s1 G 0 n]) auto
    next
      case False
      have lt: "L < n" using False res Ln by (cases "L = n") (auto simp: unat_eq_zero)
      have al: "(off + L) mod 512 = 0"
      proof (cases "off mod 512 = 0")
        case f: False
        then have "L = 512 - off mod 512" using lt by (auto simp: L_def)
        then have "off + L = 512 * (off div 512) + 512" using mult_div_mod_eq [of 512 off] mod_less_divisor [of 512 off] by linarith
        then show ?thesis by simp
      qed (simp add: L_def)
      from sfs_io_tail_moves [OF assms(1) g al Ln] have "moves G E L (n - L) (sfs_io_blocks dio a u s)"
        unfolding sfs_io_blocks_def Let_def bo_def [symmetric] len_def [symmetric] moved(1) using False by simp
      then show ?thesis using Ln by (cases rule: movesE) (auto intro!: movesI)
    qed
  qed
qed

context block_device
begin

lemma wrote_seq:
  assumes "wrote dinv dsize dblock a off (take k (vu_data uio)) s s1" "k \<le> length (vu_data uio)"
    "wrote dinv dsize dblock a (off + k) (take j (vu_data (consume k uio))) s1 s2"
  shows "wrote dinv dsize dblock a off (take (k + j) (vu_data uio)) s s2"
  using wrote_trans [OF assms(1), of "take j (vu_data (consume k uio))" s2] assms(2,3) by (simp add: consume_fields take_add)

text \<open>A write in progress, and how it ends before its end: where a block ends, unless it has not begun.\<close>

definition writing :: "addr \<Rightarrow> nat \<Rightarrow> vuio \<Rightarrow> 'd sfs_fs \<Rightarrow> nat \<Rightarrow> vuio \<Rightarrow> 'd sfs_fs \<Rightarrow> bool" where
  "writing a off uio s k u s1 \<longleftrightarrow> u = consume k uio \<and> wrote dinv dsize dblock a off (take k (vu_data uio)) s s1 \<and>
     (k = 0 \<or> off + k \<le> 512 * file_max)"

definition write_ends :: "nat \<Rightarrow> vuio \<Rightarrow> 'd sfs_fs \<Rightarrow> sfs_vnode \<Rightarrow> int \<Rightarrow> nat \<Rightarrow> 'd sfs_fs \<Rightarrow> bool" where
  "write_ends off uio s sv r k s1 \<longleftrightarrow> (k = 0 \<or> (off + k) mod 512 = 0 \<and> k < unat (vu_resid uio)) \<and>
     write_stops (dblock (sfs_device s)) (sv_i sv) (off + k) (vu_good uio < unat (vu_resid uio)) r s1"

lemma wrote_hole:
  assumes "wrote dinv dsize dblock a off ds s s1" "sfs_store s a = Some sv" "sfs_store s1 a = Some sv1" "k < file_max"
    "data_ptrs (dblock (sfs_device s1)) (sv_i sv1) ! k = 0"
  shows "data_ptrs (dblock (sfs_device s)) (sv_i sv) ! k = 0"
  using assms unfolding wrote_def by fastforce

lemma write_stops_earlier:
  assumes "wrote dinv dsize dblock a off ds s s1" "sfs_store s a = Some sv" "sfs_store s1 a = Some sv1"
    "write_stops (dblock (sfs_device s1)) (sv_i sv1) pos bad1 r s2" "bad1 \<longrightarrow> bad"
  shows "write_stops (dblock (sfs_device s)) (sv_i sv) pos bad r s2"
proof -
  have "pos div 512 < file_max" if "pos < 512 * file_max" using that by (simp add: less_mult_imp_div_less mult.commute)
  then show ?thesis using assms(4,5) wrote_hole [OF assms(1-3), of "pos div 512"] by (auto simp: write_stops_def)
qed

lemma write_moves:
  assumes "writing a off uio s k u s1" "sfs_store s a = Some sv" "sfs_store s1 a = Some sv1"
    "k + len \<le> unat (vu_resid uio)" "unat (vu_resid uio) \<le> length (vu_data uio)" "(off + k) mod 512 + len \<le> 512"
    "(off + k) mod 512 \<noteq> 0 \<or> 0 < len" "k = 0 \<or> (off + k) mod 512 = 0"
    "\<exists>r s2 j. res = Some (r, consume j u, s2) \<and> wrote dinv dsize dblock a (off + k) (take j (vu_data u)) s1 s2 \<and>
       (r = 0 \<and> j = len \<and> off + k < 512 * file_max \<or> write_stops (dblock (sfs_device s1)) (sv_i sv1) (off + k) (vu_good u < len) r s2 \<and> j = 0)"
  shows "moves (writing a off uio s) (write_ends off uio s sv) k len res"
proof -
  obtain r s2 j where j: "res = Some (r, consume j u, s2)" "wrote dinv dsize dblock a (off + k) (take j (vu_data u)) s1 s2"
    "r = 0 \<and> j = len \<and> off + k < 512 * file_max \<or> write_stops (dblock (sfs_device s1)) (sv_i sv1) (off + k) (vu_good u < len) r s2 \<and> j = 0"
    using assms(9) by blast
  have u: "u = consume k uio" and w: "wrote dinv dsize dblock a off (take k (vu_data uio)) s s1" and lim: "k = 0 \<or> off + k \<le> 512 * file_max"
    using assms(1) by (simp_all add: writing_def)
  have kl: "k \<le> length (vu_data uio)" using assms(4,5) by simp
  have bad: "vu_good u < len \<longrightarrow> vu_good uio < unat (vu_resid uio)" using assms(4) by (auto simp: u consume_good)
  show ?thesis
  proof (rule movesI [OF j(1)])
    have "off + (k + j) \<le> 512 * file_max" if "off + k < 512 * file_max" "j = len"
    proof -
      have "(off + k) div 512 < file_max" using that(1) by (simp add: less_mult_imp_div_less mult.commute)
      then show ?thesis using assms(6) that(2) mult_div_mod_eq [of 512 "off + k"] by linarith
    qed
    then show "writing a off uio s (k + j) (consume j u) s2"
      using wrote_seq [OF w kl] j(2,3) lim by (auto simp: u consume_add writing_def)
    show "r = 0 \<and> j = len \<or> r \<noteq> 0 \<and> write_ends off uio s sv r (k + j) s2 \<and> j \<le> len"
    proof (cases "r = 0 \<and> j = len")
      case False
      then have f: "write_stops (dblock (sfs_device s1)) (sv_i sv1) (off + k) (vu_good u < len) r s2" "j = 0" using j(3) by auto
      have "r \<noteq> 0" using f(1) by (auto simp: write_stops_def)
      moreover have "k = 0 \<or> (off + k) mod 512 = 0 \<and> k < unat (vu_resid uio)" using assms(4,7,8) by auto
      ultimately show ?thesis using write_stops_earlier [OF w assms(2,3) f(1) bad] f(2) by (simp add: write_ends_def)
    qed simp
  qed
qed

lemma write_steps:
  assumes "sfs_store s a = Some sv" "vu_rw uio = UIO_WRITE" "vu_offset uio = of_nat off" "off + unat (vu_resid uio) < 2147483648"
    "unat (vu_resid uio) \<le> length (vu_data uio)"
  shows "io_steps dio a off (unat (vu_resid uio)) (writing a off uio s) (write_ends off uio s sv)"
    (is "io_steps dio a off ?n ?G ?E")
  unfolding io_steps_def
proof (intro conjI allI impI)
  show "off + ?n < 2147483648" by (rule assms(4))
next
  fix k u s1 assume "?G k u s1" "k \<le> ?n"
  then show "vu_offset u = of_nat (off + k)" "unat (vu_resid u) = ?n - k"
    using assms(3) resid_minus [of k uio] by (simp_all add: writing_def consume_fields)
next
  fix k u s1 and len :: "32 word"
  assume G: "?G k u s1" and l: "(off + k) mod 512 + unat len \<le> 512" "k + unat len \<le> ?n" "(off + k) mod 512 \<noteq> 0 \<or> 0 < unat len"
    "k = 0 \<or> (off + k) mod 512 = 0"
  obtain sv1 where ok: "fs_ok dinv dsize s1" "sfs_store s1 a = Some sv1" "inode_ok (dblock (sfs_device s1)) s1 (sv_i sv1)"
    using wrote_state G unfolding writing_def by blast
  have lt: "off + k < 2147483648" using l(2) assms(4) by linarith
  have u: "vu_rw u = UIO_WRITE" "vu_offset u = of_nat (off + k)" "unat len \<le> unat (vu_resid u)" "unat (vu_resid u) \<le> length (vu_data u)"
    using G l assms resid_minus [of k uio] by (simp_all add: writing_def consume_fields)
  from sfs_partialio_write [OF ok u(1,2) lt refl l(1) u(3,4)]
  show "moves ?G ?E k (unat len) (sfs_partialio dio a u (of_nat ((off + k) mod 512)) len s1)"
    by (rule write_moves [OF G assms(1) ok(2) l(2) assms(5) l(1,3,4)])
next
  fix k u s1 assume G: "?G k u s1" and l: "(off + k) mod 512 = 0" "k + 512 \<le> ?n"
  obtain sv1 where ok: "fs_ok dinv dsize s1" "sfs_store s1 a = Some sv1" "inode_ok (dblock (sfs_device s1)) s1 (sv_i sv1)"
    using wrote_state G unfolding writing_def by blast
  have lt: "off + k < 2147483648" using l(2) assms(4) by linarith
  have u: "vu_rw u = UIO_WRITE" "vu_offset u = of_nat (off + k)" "512 \<le> unat (vu_resid u)" "unat (vu_resid u) \<le> length (vu_data u)"
    using G l assms resid_minus [of k uio] by (simp_all add: writing_def consume_fields)
  from sfs_blockio_write [OF ok u(1,2) lt l(1) u(3,4)] show "moves ?G ?E k 512 (sfs_blockio dio a u s1)"
    using l(1) by (intro write_moves [OF G assms(1) ok(2) l(2) assms(5)]) simp_all
qed

lemma sfs_io_blocks_write:
  assumes "fs_ok dinv dsize s" "sfs_store s a = Some sv" "inode_ok (dblock (sfs_device s)) s (sv_i sv)"
    "vu_rw uio = UIO_WRITE" "vu_offset uio = of_nat off" "off + unat (vu_resid uio) < 2147483648"
    "unat (vu_resid uio) \<le> length (vu_data uio)"
  shows "\<exists>r s1 k. sfs_io_blocks dio a uio s = Some (r, consume k uio, s1) \<and>
    wrote dinv dsize dblock a off (take k (vu_data uio)) s s1 \<and> (k = 0 \<or> off + k \<le> 512 * file_max) \<and> k \<le> unat (vu_resid uio) \<and>
    (r = 0 \<and> k = unat (vu_resid uio) \<or> write_ends off uio s sv r k s1)"
proof -
  have "writing a off uio s 0 uio s" using wrote_refl [where dblock = dblock, OF assms(1,2,3), of off] by (simp add: writing_def)
  from sfs_io_blocks_moves [OF write_steps [OF assms(2,4-7)] this] show ?thesis
    unfolding moves_def writing_def by (elim exE) auto
qed

end

lemma size_ptrs:
  "all_ptrs c (i\<lparr>sfi_size := x\<rparr>) = all_ptrs c i" "data_ptrs c (i\<lparr>sfi_size := x\<rparr>) = data_ptrs c i"
  "file_byte c (i\<lparr>sfi_size := x\<rparr>) n = file_byte c i n" "inode_blocks c (i\<lparr>sfi_size := x\<rparr>) = inode_blocks c i"
  "inode_ok c s (i\<lparr>sfi_size := x\<rparr>) = inode_ok c s i"
  by (simp_all add: all_ptrs_def data_ptrs_def ind_words_def file_byte_def file_block_def inode_blocks_def inode_ok_def inode_shape_def)

context block_device
begin

lemma sfs_io_write:
  assumes "fs_ok dinv dsize s" "sfs_store s a = Some sv" "inode_ok (dblock (sfs_device s)) s (sv_i sv)" "unat (sfi_size (sv_i sv)) \<le> 512 * file_max"
    "vu_rw uio = UIO_WRITE" "vu_offset uio = of_nat off" "off + unat (vu_resid uio) < 2147483648" "unat (vu_resid uio) \<le> length (vu_data uio)"
  shows "\<exists>r k s1 sv1. sfs_io dio a uio s = Some (r, consume k uio, s1) \<and> (r = 0 \<and> k = unat (vu_resid uio) \<or> write_ends off uio s sv r k s1) \<and>
    k \<le> unat (vu_resid uio) \<and> (k = 0 \<or> off + k \<le> 512 * file_max) \<and>
    fs_ok dinv dsize s1 \<and> sfs_store s1 = (sfs_store s)(a \<mapsto> sv1) \<and> inode_ok (dblock (sfs_device s1)) s1 (sv_i sv1) \<and>
    unat (sfi_size (sv_i sv1)) = max (unat (sfi_size (sv_i sv))) (off + k) \<and>
    (\<forall>n < 512 * file_max. file_byte (dblock (sfs_device s1)) (sv_i sv1) n =
       (if off \<le> n \<and> n < off + k then vu_data uio ! (n - off) else file_byte (dblock (sfs_device s)) (sv_i sv) n)) \<and>
    (\<forall>b \<in> bm_used (sfs_freemap s). b \<notin> unat ` set (inode_blocks (dblock (sfs_device s)) (sv_i sv)) \<longrightarrow>
       b \<in> bm_used (sfs_freemap s1) \<and> b \<notin> unat ` set (inode_blocks (dblock (sfs_device s1)) (sv_i sv1)) \<and>
       dblock (sfs_device s1) b = dblock (sfs_device s) b) \<and>
    sfs_super s1 = sfs_super s \<and> sfs_vnodes s1 = sfs_vnodes s \<and> sfi_type (sv_i sv1) = sfi_type (sv_i sv)"
proof -
  obtain r s1 k where s1: "sfs_io_blocks dio a uio s = Some (r, consume k uio, s1)"
    "wrote dinv dsize dblock a off (take k (vu_data uio)) s s1" "r = 0 \<and> k = unat (vu_resid uio) \<or> write_ends off uio s sv r k s1"
    "k \<le> unat (vu_resid uio)" "k = 0 \<or> off + k \<le> 512 * file_max"
    using sfs_io_blocks_write [OF assms(1,2,3,5,6,7,8)] by blast
  have kn: "k \<le> unat (vu_resid uio)" "length (take k (vu_data uio)) = k" using s1(4) assms(8) by auto
  obtain sv1 where w: "fs_ok dinv dsize s1" "sfs_store s1 = (sfs_store s)(a \<mapsto> sv1)"
    "\<exists>dir ind dirty. sv1 = sv\<lparr>sv_i := (sv_i sv)\<lparr>sfi_direct := dir, sfi_indirect := ind\<rparr>, sv_dirty := dirty\<rparr>"
    "inode_ok (dblock (sfs_device s1)) s1 (sv_i sv1)"
    "\<forall>n < 512 * file_max. file_byte (dblock (sfs_device s1)) (sv_i sv1) n =
       (if off \<le> n \<and> n < off + length (take k (vu_data uio)) then take k (vu_data uio) ! (n - off) else file_byte (dblock (sfs_device s)) (sv_i sv) n)"
    "\<forall>p \<in> set (inode_blocks (dblock (sfs_device s1)) (sv_i sv1)). unat p \<in> bm_used (sfs_freemap s) \<longrightarrow>
       p \<in> set (inode_blocks (dblock (sfs_device s)) (sv_i sv))"
    "\<forall>b \<in> bm_used (sfs_freemap s). b \<notin> unat ` set (inode_blocks (dblock (sfs_device s)) (sv_i sv)) \<longrightarrow>
       dblock (sfs_device s1) b = dblock (sfs_device s) b"
    "bm_used (sfs_freemap s) \<subseteq> bm_used (sfs_freemap s1)" "sfs_super s1 = sfs_super s" "sfs_vnodes s1 = sfs_vnodes s"
    using s1(2) assms(2) unfolding wrote_def by auto
  let ?sz = "sfi_size (sv_i sv)"
  have z1: "sfi_size (sv_i sv1) = ?sz" using w(3) by auto
  have ok: "off + k < 2147483648" using assms(7) kn(1) by linarith
  have os: "vu_offset (consume k uio) = of_nat (off + k)" using assms(6) by (simp add: consume_fields)
  have so: "sint (vu_offset (consume k uio)) = int (off + k)" unfolding os by (rule sint_off [OF ok])
  have ss: "sint ?sz = int (unat ?sz)" using sint_off [of "unat ?sz"] assms(4) by (simp add: file_max_def)
  define s2 where "s2 = (if off + k > unat ?sz then upd_inode a (\<lambda>i. i\<lparr>sfi_size := vu_offset (consume k uio)\<rparr>) s1 else s1)"
  have cmp: "sint ?sz < sint (vu_offset (consume k uio)) \<longleftrightarrow> unat ?sz < off + k" unfolding so ss by (rule of_nat_less_iff)
  have io: "sfs_io dio a uio s = Some (r, consume k uio, s2)"
    using assms(2,5) s1(1) w(2) z1 cmp by (simp add: sfs_io_def Let_def s2_def consume_fields(1))
  define sv2 where "sv2 = (if off + k > unat ?sz then sv1\<lparr>sv_i := (sv_i sv1)\<lparr>sfi_size := of_nat (off + k)\<rparr>, sv_dirty := 1\<rparr> else sv1)"
  have sa: "sfs_store s1 a = Some sv1" using w(2) by simp
  have f: "sfs_store s2 = (sfs_store s)(a \<mapsto> sv2)" "sfs_device s2 = sfs_device s1" "sfs_freemap s2 = sfs_freemap s1" "sfs_super s2 = sfs_super s1"
    "fs_ok dinv dsize s2" "sfs_vnodes s2 = sfs_vnodes s1"
    using w(1,2) sa unfolding s2_def sv2_def os by (auto simp: upd_inode_simps upd_inode_fs_ok)
  have "inode_ok (dblock (sfs_device s1)) s1 (sv_i sv2)" using w(4) by (simp add: sv2_def size_ptrs)
  then have ok2: "inode_ok (dblock (sfs_device s2)) s2 (sv_i sv2)" using f(2,3,4) by (simp add: inode_ok_def)
  have sz2: "unat (sfi_size (sv_i sv2)) = max (unat ?sz) (off + k)"
    using z1 unat_of_nat_ok [of "off + k"] ok by (auto simp: sv2_def)
  have by2: "\<forall>n < 512 * file_max. file_byte (dblock (sfs_device s2)) (sv_i sv2) n =
      (if off \<le> n \<and> n < off + k then vu_data uio ! (n - off) else file_byte (dblock (sfs_device s)) (sv_i sv) n)"
  proof (intro allI impI)
    fix n assume n: "n < 512 * file_max"
    have "file_byte (dblock (sfs_device s2)) (sv_i sv2) n = file_byte (dblock (sfs_device s1)) (sv_i sv1) n"
      by (simp add: f(2) sv2_def size_ptrs)
    then show "file_byte (dblock (sfs_device s2)) (sv_i sv2) n =
      (if off \<le> n \<and> n < off + k then vu_data uio ! (n - off) else file_byte (dblock (sfs_device s)) (sv_i sv) n)"
      using w(5) n kn(2) by auto
  qed
  have bl2: "inode_blocks (dblock (sfs_device s2)) (sv_i sv2) = inode_blocks (dblock (sfs_device s1)) (sv_i sv1)"
    by (simp add: f(2) sv2_def size_ptrs)
  have fr: "\<forall>b \<in> bm_used (sfs_freemap s). b \<notin> unat ` set (inode_blocks (dblock (sfs_device s)) (sv_i sv)) \<longrightarrow>
       b \<in> bm_used (sfs_freemap s2) \<and> b \<notin> unat ` set (inode_blocks (dblock (sfs_device s2)) (sv_i sv2)) \<and>
       dblock (sfs_device s2) b = dblock (sfs_device s) b"
  proof (intro ballI impI)
    fix b assume b: "b \<in> bm_used (sfs_freemap s)" "b \<notin> unat ` set (inode_blocks (dblock (sfs_device s)) (sv_i sv))"
    have "b \<notin> unat ` set (inode_blocks (dblock (sfs_device s1)) (sv_i sv1))"
    proof
      assume "b \<in> unat ` set (inode_blocks (dblock (sfs_device s1)) (sv_i sv1))"
      then obtain p where p: "p \<in> set (inode_blocks (dblock (sfs_device s1)) (sv_i sv1))" "b = unat p" by blast
      then have "p \<in> set (inode_blocks (dblock (sfs_device s)) (sv_i sv))" using bspec [OF w(6) p(1)] b(1) by simp
      then show False using b(2) p(2) by blast
    qed
    then show "b \<in> bm_used (sfs_freemap s2) \<and> b \<notin> unat ` set (inode_blocks (dblock (sfs_device s2)) (sv_i sv2)) \<and>
       dblock (sfs_device s2) b = dblock (sfs_device s) b"
      using b subsetD [OF w(8) b(1)] bspec [OF w(7) b(1)] bl2 by (simp add: f(2,3))
  qed
  have rest: "sfs_super s2 = sfs_super s" "sfs_vnodes s2 = sfs_vnodes s" "sfi_type (sv_i sv2) = sfi_type (sv_i sv)"
    using f(4,6) w(9,10) w(3) by (auto simp: sv2_def)
  have en: "r = 0 \<and> k = unat (vu_resid uio) \<or> write_ends off uio s sv r k s2"
    using s1(3) f(3) by (simp add: write_ends_def write_stops_def disk_full_def)
  show ?thesis
    by (rule exI [of _ r], rule exI [of _ k], rule exI [of _ s2], rule exI [of _ sv2], intro conjI) (fact io en s1(4,5) f(5) f(1) ok2 sz2 by2 fr rest)+
qed

end

subsection \<open>Reading a file\<close>

definition file_bytes :: "(nat \<Rightarrow> blk) \<Rightarrow> sfs_inode \<Rightarrow> nat \<Rightarrow> nat \<Rightarrow> 8 word list" where
  "file_bytes c i off k = map (file_byte c i) [off..<off + k]"

lemma file_bytes_simps [simp]: "file_bytes c i off 0 = []" "length (file_bytes c i off k) = k"
  by (simp_all add: file_bytes_def)

lemma file_bytes_append: "file_bytes c i off (k + j) = file_bytes c i off k @ file_bytes c i (off + k) j"
  using upt_add_eq_append [of off "off + k" j] by (simp add: file_bytes_def add.assoc)

lemma file_bytes_slice:
  assumes "off mod 512 + k \<le> 512" "length (file_block c i (off div 512)) = 512"
  shows "file_bytes c i off k = take k (drop (off mod 512) (file_block c i (off div 512)))"
proof (rule nth_equalityI)
  fix j assume "j < length (file_bytes c i off k)"
  then have j: "j < k" by simp
  define q m where "q = off div 512" and "m = off mod 512"
  have o: "off = 512 * q + m" "m + j < 512" using assms(1) j by (simp_all add: q_def m_def)
  then have "(off + j) div 512 = q" "(off + j) mod 512 = m + j" by (auto intro: div_nat_eqI mod_nat_eqI)
  then show "file_bytes c i off k ! j = take k (drop (off mod 512) (file_block c i (off div 512))) ! j"
    using j assms by (simp add: file_bytes_def file_byte_def q_def m_def)
qed (use assms in simp)

lemma deliver_good: "vu_good (deliver xs uio) = vu_good uio - length xs"
  by (simp add: deliver_def vu_advance_def)

lemma vuiomovezeros_zeros:
  "vu_rw uio = UIO_READ \<Longrightarrow> n \<le> unat (vu_resid uio) \<Longrightarrow>
    \<exists>r k. vuiomovezeros_loop n uio = Some (r, deliver (replicate k 0) uio) \<and> (r = 0 \<and> k = n \<or> r = EFAULT \<and> vu_good uio < n \<and> k \<le> n)"
proof (induction n uio rule: vuiomovezeros_loop.induct)
  case (1 n uio)
  show ?case
  proof (cases "n = 0")
    case True
    then show ?thesis by (subst vuiomovezeros_loop.simps) auto
  next
    case False
    define m where "m = min 16 n"
    have m: "m \<le> n" "0 < m" "m \<le> unat (vu_resid uio)" using False 1(3) "1.prems" by (auto simp: m_def)
    have k: "m = min (length (replicate m (0 :: 8 word))) (unat (vu_resid uio))" using m by simp
    show ?thesis
    proof (cases "vu_good uio < m")
      case True
      then have "vuiomove (replicate m 0) uio = Some (EFAULT, uio, replicate m 0)"
        unfolding vuiomove_def k [symmetric] Let_def using m(2) by simp
      moreover have "vu_good uio < n" using True m(1) by simp
      ultimately show ?thesis using False by (subst vuiomovezeros_loop.simps) (auto simp: m_def [symmetric] intro!: exI [of _ 0])
    next
      case g: False
      have mv: "vuiomove (replicate m 0) uio = Some (0, deliver (replicate m 0) uio, replicate m 0)"
        using vuiomove_read [OF "1.prems"(1) k] g by (simp add: deliver_def)
      have res: "unat (vu_resid (deliver (replicate m 0) uio)) = unat (vu_resid uio) - m"
        using resid_minus [OF m(3)] by (simp add: deliver_fields)
      have "\<exists>r k. vuiomovezeros_loop (n - m) (deliver (replicate m 0) uio) = Some (r, deliver (replicate k 0) (deliver (replicate m 0) uio)) \<and>
          (r = 0 \<and> k = n - m \<or> r = EFAULT \<and> vu_good (deliver (replicate m 0) uio) < n - m \<and> k \<le> n - m)"
        using "1.IH" [OF False] mv res "1.prems" m by (simp add: m_def [symmetric] deliver_fields)
      then obtain r k where "vuiomovezeros_loop (n - m) (deliver (replicate m 0) uio) = Some (r, deliver (replicate (m + k) 0) uio)"
        "r = 0 \<and> k = n - m \<or> r = EFAULT \<and> vu_good uio < n \<and> k \<le> n - m" using g m by (auto simp: deliver_append replicate_add deliver_good)
      then show ?thesis using False mv m
        by (subst vuiomovezeros_loop.simps) (auto simp: m_def [symmetric] intro!: exI [of _ "m + k"])
    qed
  qed
qed

context block_device
begin

text \<open>Every block below the limit has 512 bytes: one of the disk, or zeros.\<close>

lemma file_block_length:
  assumes "fs_ok dinv dsize s" "inode_ok (dblock (sfs_device s)) s i" "k < file_max"
  shows "length (file_block (dblock (sfs_device s)) i k) = 512"
  using mapped_ptr(2) [OF assms refl] by (auto simp: file_block_def Let_def)

lemma sfs_partialio_read:
  assumes "fs_ok dinv dsize s" "sfs_store s a = Some sv" "inode_ok (dblock (sfs_device s)) s (sv_i sv)"
    "vu_rw uio = UIO_READ" "vu_offset uio = of_nat off" "off < 512 * file_max" "skip = of_nat (off mod 512)"
    "off mod 512 + unat len \<le> 512" "unat len \<le> unat (vu_resid uio)"
  shows "\<exists>r s1 k. sfs_partialio dio a uio skip len s = Some (r, deliver (file_bytes (dblock (sfs_device s)) (sv_i sv) off k) uio, s1) \<and>
    same_fs dinv dsize dblock s s1 \<and> (r = 0 \<and> k = unat len \<or> r = EFAULT \<and> vu_good uio < unat len \<and> k = 0)"
proof -
  let ?k = "off div 512" and ?c = "dblock (sfs_device s)" and ?i = "sv_i sv"
  have o31: "off < 2147483648" using assms(6) by (simp add: file_max_def)
  have kx: "?k < file_max" using assms(6) by (simp add: less_mult_imp_div_less mult.commute)
  have us: "unat skip = off mod 512" using assms(7) unat_of_nat_ok [of "off mod 512"] by simp
  have "unat (skip + len) = unat skip + unat len" using us assms(8) by (simp add: unat_plus_ok)
  then have as: "skip + len \<le> 512" using us assms(8) by (simp add: word_le_nat_alt)
  have fb: "unat (uio_fileblock uio) = ?k" by (rule off_div(1) [OF o31 assms(5)])
  define b where "b = data_ptrs ?c ?i ! ?k"
  define io where "io = file_block ?c ?i ?k"
  obtain s1 where s1: "sfs_bmap dio a (uio_fileblock uio) False s = Some (0, b, s1)" "same_fs dinv dsize dblock s s1"
    using sfs_bmap_lookup [OF assms(1,2,3), of "uio_fileblock uio"] kx fb b_def by auto
  have "\<exists>s2. (if b = 0 then do { kassert (vu_rw uio = UIO_READ); Some (0, replicate 512 0, s1) } else sfs_rblock dio b s1) = Some (0, io, s2) \<and>
    same_fs dinv dsize dblock s s2"
  proof (cases "b = 0")
    case True
    then show ?thesis using s1(2) assms(4) by (auto simp: io_def file_block_def b_def Let_def)
  next
    case False
    have "unat b < dsize (sfs_device s1)" using mapped_ptr(1) [OF assms(1,3) kx b_def [symmetric] False] s1(2) by (auto simp: same_fs_def)
    then show ?thesis using sfs_rblock_ok [of s1 b] s1(2) False by (auto simp: same_fs_def io_def file_block_def b_def Let_def)
  qed
  then obtain s2 where s2: "(if b = 0 then do { kassert (vu_rw uio = UIO_READ); Some (0, replicate 512 0, s1) } else sfs_rblock dio b s1) = Some (0, io, s2)"
    "same_fs dinv dsize dblock s s2" by blast
  have lio: "length io = 512" unfolding io_def by (rule file_block_length [OF assms(1,3) kx])
  define xs where "xs = take (unat len) (drop (unat skip) io)"
  have xs: "xs = file_bytes ?c ?i off (unat len)" "length xs = unat len"
    using file_bytes_slice [OF assms(8)] lio us assms(8) by (simp_all add: xs_def io_def)
  have st: "sfs_partialio dio a uio skip len s = do {
      (result, uio1, part) \<leftarrow> vuiomove xs uio;
      if result \<noteq> 0 then Some (result, uio1, s2) else if vu_rw uio1 = UIO_WRITE then do {
        let iobuf1 = take (unat skip) io @ part @ drop (unat skip + unat len) io;
        (result, s3) \<leftarrow> sfs_wblock dio iobuf1 b s2;
        Some (result, uio1, s3) } else Some (0, uio1, s2) }"
    unfolding sfs_partialio_def using s1(1) s2(1) as assms(4) by (simp add: xs_def)
  show ?thesis
  proof (cases "vu_good uio < unat len")
    case True
    then have "vuiomove xs uio = Some (EFAULT, uio, xs)" unfolding vuiomove_def xs(2) using assms(9) by (simp add: min_absorb1)
    then show ?thesis using st s2(2) True by (intro exI [of _ EFAULT] exI [of _ s2] exI [of _ 0]) simp
  next
    case False
    then have "vuiomove xs uio = Some (0, deliver xs uio, xs)"
      using vuiomove_read [of uio "unat len" xs] assms(4,9) xs(2) by (simp add: deliver_def)
    then show ?thesis using st s2(2) assms(4) xs(1) by (intro exI [of _ 0] exI [of _ s2] exI [of _ "unat len"]) (simp add: deliver_fields)
  qed
qed

lemma sfs_blockio_read:
  assumes "fs_ok dinv dsize s" "sfs_store s a = Some sv" "inode_ok (dblock (sfs_device s)) s (sv_i sv)"
    "vu_rw uio = UIO_READ" "vu_offset uio = of_nat off" "off < 512 * file_max" "off mod 512 = 0" "512 \<le> unat (vu_resid uio)"
  shows "\<exists>r s1 k. sfs_blockio dio a uio s = Some (r, deliver (file_bytes (dblock (sfs_device s)) (sv_i sv) off k) uio, s1) \<and>
    same_fs dinv dsize dblock s s1 \<and> (r = 0 \<and> k = 512 \<or> r = EFAULT \<and> vu_good uio < 512 \<and> k \<le> 512)"
proof -
  let ?k = "off div 512" and ?c = "dblock (sfs_device s)" and ?i = "sv_i sv"
  have o31: "off < 2147483648" using assms(6) by (simp add: file_max_def)
  have kx: "?k < file_max" using assms(6) by (simp add: less_mult_imp_div_less mult.commute)
  have fb: "unat (uio_fileblock uio) = ?k" by (rule off_div(1) [OF o31 assms(5)])
  have lio: "length (file_block ?c ?i ?k) = 512" by (rule file_block_length [OF assms(1,3) kx])
  have sl: "file_bytes ?c ?i off j = take j (file_block ?c ?i ?k)" if "j \<le> 512" for j
    using file_bytes_slice [of off j ?c ?i] that lio assms(7) by simp
  define b where "b = data_ptrs ?c ?i ! ?k"
  obtain s1 where s1: "sfs_bmap dio a (uio_fileblock uio) False s = Some (0, b, s1)" "same_fs dinv dsize dblock s s1"
    using sfs_bmap_lookup [OF assms(1,2,3), of "uio_fileblock uio"] kx fb b_def by auto
  show ?thesis
  proof (cases "b = 0")
    case True
    obtain r k where z: "vuiomovezeros_loop 512 uio = Some (r, deliver (replicate k 0) uio)" "r = 0 \<and> k = 512 \<or> r = EFAULT \<and> vu_good uio < 512 \<and> k \<le> 512"
      using vuiomovezeros_zeros [OF assms(4,8)] by blast
    have "file_bytes ?c ?i off k = replicate k 0" using sl [of k] z(2) True by (auto simp: file_block_def b_def Let_def)
    then show ?thesis using s1 z True assms(4) by (intro exI [of _ r] exI [of _ s1] exI [of _ k]) (auto simp: sfs_blockio_def vuiomovezeros_def)
  next
    case False
    have c1: "dblock (sfs_device s1) = ?c" "dinv (sfs_device s1)" using s1(2) by (auto simp: same_fs_def)
    have d1: "unat b < dsize (sfs_device s1)" using mapped_ptr(1) [OF assms(1,3) kx b_def [symmetric] False] s1(2) by (auto simp: same_fs_def)
    then have "unat b < 4194304" using c1(2) dsize_bound [of "sfs_device s1"] by linarith
    then have bp: "b * 512 = of_nat (512 * unat b)" by (simp add: block_pos mult.commute)
    have ar: "512 \<le> vu_resid uio" using assms(8) by (simp add: word_le_nat_alt)
    let ?u = "uio\<lparr>vu_offset := b * 512, vu_resid := 512\<rparr>"
    have st: "sfs_blockio dio a uio s = do {
        (result, uio1, s2) \<leftarrow> sfs_rwblock dio ?u s1;
        Some (result, uio1\<lparr>vu_offset := (vu_offset uio1 - b * 512) + vu_offset uio, vu_resid := (vu_resid uio1 - 512) + vu_resid uio\<rparr>, s2) }"
      unfolding sfs_blockio_def using s1(1) False ar assms(4) by (simp add: Let_def)
    show ?thesis
    proof (cases "vu_good uio < 512")
      case True
      then obtain s2 where "sfs_rwblock dio ?u s1 = Some (EFAULT, ?u, s2)" "same_fs dinv dsize dblock s1 s2"
        using sfs_rwblock_fault [OF c1(2) d1, of ?u] bp by auto
      then show ?thesis using st s1(2) True by (intro exI [of _ EFAULT] exI [of _ s2] exI [of _ 0]) (auto simp: same_fs_def)
    next
      case gd: False
      then obtain s2 where s2: "sfs_rwblock dio ?u s1 = Some (0, (vu_advance 512 ?u)\<lparr>vu_data := vu_data uio @ ?c (unat b)\<rparr>, s2)"
        "same_fs dinv dsize dblock s1 s2"
        using sfs_rwblock_read [OF c1(2) d1, of ?u] bp assms(4) c1(1) by auto
      have fx: "file_bytes ?c ?i off 512 = ?c (unat b)" using sl [of 512] lio False by (simp add: file_block_def b_def Let_def)
      have "length (?c (unat b)) = 512" unfolding fx [symmetric] by simp
      then show ?thesis using st s2 s1(2) fx
        by (intro exI [of _ 0] exI [of _ s2] exI [of _ 512]) (auto simp: same_fs_def deliver_def vu_advance_def)
    qed
  qed
qed

lemma read_steps:
  assumes "fs_ok dinv dsize s" "sfs_store s a = Some sv" "inode_ok (dblock (sfs_device s)) s (sv_i sv)"
    "vu_rw uio = UIO_READ" "vu_offset uio = of_nat off" "off + unat (vu_resid uio) \<le> 512 * file_max"
  shows "io_steps dio a off (unat (vu_resid uio))
    (\<lambda>k u s1. u = deliver (file_bytes (dblock (sfs_device s)) (sv_i sv) off k) uio \<and> same_fs dinv dsize dblock s s1) (\<lambda>r k s1. r = EFAULT \<and> vu_good uio < unat (vu_resid uio))"
    (is "io_steps dio a off ?n ?G ?E")
  unfolding io_steps_def
proof (intro conjI allI impI)
  show "off + ?n < 2147483648" using assms(6) by (simp add: file_max_def)
next
  fix k u s1 assume "?G k u s1" "k \<le> ?n"
  then show "vu_offset u = of_nat (off + k)" "unat (vu_resid u) = ?n - k" using assms(5) resid_minus [of k uio] by (simp_all add: deliver_fields)
next
  fix k u s1 and len :: "32 word"
  assume G: "?G k u s1" and l: "(off + k) mod 512 + unat len \<le> 512" "k + unat len \<le> ?n" "(off + k) mod 512 \<noteq> 0 \<or> 0 < unat len"
    "k = 0 \<or> (off + k) mod 512 = 0"
  have c: "dblock (sfs_device s1) = dblock (sfs_device s)" "sfs_store s1 a = Some sv" using G assms(2) by (auto simp: same_fs_def)
  have ok: "fs_ok dinv dsize s1" "inode_ok (dblock (sfs_device s1)) s1 (sv_i sv)"
    using same_fs_ok [OF assms(1)] same_inode_ok [OF assms(3)] G by blast+
  have lt: "off + k < 512 * file_max" using l assms(6) by (cases "off + k = 512 * file_max") auto
  have u: "vu_rw u = UIO_READ" "vu_offset u = of_nat (off + k)" "unat len \<le> unat (vu_resid u)"
    using G l assms resid_minus [of k uio] by (simp_all add: deliver_fields)
  obtain r s2 j where j: "sfs_partialio dio a u (of_nat ((off + k) mod 512)) len s1 = Some (r, deliver (file_bytes (dblock (sfs_device s1)) (sv_i sv) (off + k) j) u, s2)"
    "same_fs dinv dsize dblock s1 s2" "r = 0 \<and> j = unat len \<or> r = EFAULT \<and> vu_good u < unat len \<and> j = 0"
    using sfs_partialio_read [OF ok(1) c(2) ok(2) u(1,2) lt refl l(1) u(3)] by blast
  show "moves ?G ?E k (unat len) (sfs_partialio dio a u (of_nat ((off + k) mod 512)) len s1)"
  proof (rule movesI [OF j(1)])
    show "?G (k + j) (deliver (file_bytes (dblock (sfs_device s1)) (sv_i sv) (off + k) j) u) s2"
      using G j(2) c(1) by (auto simp: same_fs_def deliver_append file_bytes_append)
  qed (use j(3) G l in \<open>auto simp: deliver_good\<close>)
next
  fix k u s1 assume G: "?G k u s1" and l: "(off + k) mod 512 = 0" "k + 512 \<le> ?n"
  have c: "dblock (sfs_device s1) = dblock (sfs_device s)" "sfs_store s1 a = Some sv" using G assms(2) by (auto simp: same_fs_def)
  have ok: "fs_ok dinv dsize s1" "inode_ok (dblock (sfs_device s1)) s1 (sv_i sv)"
    using same_fs_ok [OF assms(1)] same_inode_ok [OF assms(3)] G by blast+
  have lt: "off + k < 512 * file_max" using l assms(6) by simp
  have u: "vu_rw u = UIO_READ" "vu_offset u = of_nat (off + k)" "512 \<le> unat (vu_resid u)"
    using G l assms resid_minus [of k uio] by (simp_all add: deliver_fields)
  obtain r s2 j where j: "sfs_blockio dio a u s1 = Some (r, deliver (file_bytes (dblock (sfs_device s1)) (sv_i sv) (off + k) j) u, s2)"
    "same_fs dinv dsize dblock s1 s2" "r = 0 \<and> j = 512 \<or> r = EFAULT \<and> vu_good u < 512 \<and> j \<le> 512"
    using sfs_blockio_read [OF ok(1) c(2) ok(2) u(1,2) lt l(1) u(3)] by blast
  show "moves ?G ?E k 512 (sfs_blockio dio a u s1)"
  proof (rule movesI [OF j(1)])
    show "?G (k + j) (deliver (file_bytes (dblock (sfs_device s1)) (sv_i sv) (off + k) j) u) s2"
      using G j(2) c(1) by (auto simp: same_fs_def deliver_append file_bytes_append)
  qed (use j(3) G l in \<open>auto simp: deliver_good\<close>)
qed

end

context block_device
begin

lemma sfs_io_read:
  assumes "fs_ok dinv dsize s" "sfs_store s a = Some sv" "inode_ok (dblock (sfs_device s)) s (sv_i sv)" "unat (sfi_size (sv_i sv)) \<le> 512 * file_max"
    "vu_rw uio = UIO_READ" "vu_offset uio = of_nat off" "off + unat (vu_resid uio) < 2147483648"
  shows "\<exists>r k s1. sfs_io dio a uio s = Some (r, deliver (file_bytes (dblock (sfs_device s)) (sv_i sv) off k) uio, s1) \<and>
    same_fs dinv dsize dblock s s1 \<and> k \<le> min (unat (vu_resid uio)) (unat (sfi_size (sv_i sv)) - off) \<and>
    (r = 0 \<and> k = min (unat (vu_resid uio)) (unat (sfi_size (sv_i sv)) - off) \<or> r = EFAULT \<and> vu_good uio < unat (vu_resid uio))"
proof -
  let ?sz = "sfi_size (sv_i sv)" and ?c = "dblock (sfs_device s)"
  define n z where "n = unat (vu_resid uio)" and "z = unat ?sz"
  have rf: "same_fs dinv dsize dblock s s" by (rule same_fs_refl) (rule fs_okD(1) [OF assms(1)])
  have ss: "sint ?sz = int z" using sint_off [of "unat ?sz"] assms(4) by (simp add: file_max_def z_def)
  have so: "sint (vu_offset uio) = int off" using sint_off [of off] assms(6,7) by simp
  have "vu_offset uio + vu_resid uio = of_nat (off + n)" using assms(6) by (simp add: n_def)
  then have se: "sint (vu_offset uio + vu_resid uio) = int (off + n)" using sint_off [OF assms(7)] by (simp only: n_def)
  have lim: "off + n < 2147483648" using assms(7) by (simp add: n_def)
  show ?thesis
  proof (cases "z \<le> off")
    case True
    then have "sfs_io dio a uio s = Some (0, uio, s)" using assms(2,5) by (simp add: sfs_io_def so ss Let_def)
    then show ?thesis using rf True by (intro exI [of _ 0] exI [of _ 0] exI [of _ s]) (simp add: z_def [symmetric] n_def [symmetric])
  next
    case False
    define m where "m = min n (z - off)"
    define e where "e = (of_nat (n - m) :: 32 word)"
    have ue: "unat e = n - m" using unat_of_nat_ok [of "n - m"] lim by (simp add: e_def)
    have mn: "m \<le> n" "off + m \<le> z" using False by (auto simp: m_def)
    have ur: "unat (vu_resid uio - e) = m" using resid_minus [of "n - m" uio] mn by (simp add: e_def n_def)
    have ex: "(if vu_rw uio = UIO_READ \<and> int (off + n) > int (z) then do {
           e \<leftarrow> cint (int (off + n) - int (z)); kassert (vu_resid uio > word_of_int e); Some (word_of_int e :: 32 word) } else Some 0) = Some e"
    proof (cases "off + n > z")
      case True
      then have d: "int (off + n) - int (z) = int (n - m)" "m < n \<or> m = 0" "0 < m" using False by (auto simp: m_def)
      have "cint (int (n - m)) = Some (int (n - m))" using cint_nat [of "n - m"] lim by simp
      moreover have "vu_resid uio > e" using ue d mn by (simp add: word_less_nat_alt n_def)
      ultimately show ?thesis using True assms(5) unfolding d(1) by (simp add: e_def)
    next
      case f: False
      then have "n - m = 0" by (auto simp: m_def)
      then show ?thesis using f by (auto simp: e_def)
    qed
    let ?u = "uio\<lparr>vu_resid := vu_resid uio - e\<rparr>"
    have "moves (\<lambda>k u s1. u = deliver (file_bytes ?c (sv_i sv) off k) ?u \<and> same_fs dinv dsize dblock s s1)
        (\<lambda>r k s1. r = EFAULT \<and> vu_good ?u < unat (vu_resid ?u)) 0 m (sfs_io_blocks dio a ?u s)"
      using sfs_io_blocks_moves [OF read_steps [OF assms(1-3), of ?u off], of ?u s] assms(4-6) ur mn rf by (simp add: z_def)
    then obtain r k s1 where k: "sfs_io_blocks dio a ?u s = Some (r, deliver (file_bytes ?c (sv_i sv) off k) ?u, s1)" "same_fs dinv dsize dblock s s1"
      "r = 0 \<and> k = m \<or> r = EFAULT \<and> vu_good uio < m \<and> k \<le> m" using ur by (auto simp: moves_def)
    have "sfs_store s1 a = Some sv" using k(2) assms(2) by (auto simp: same_fs_def)
    then have "sfs_io dio a uio s = Some (r, (deliver (file_bytes ?c (sv_i sv) off k) ?u)\<lparr>vu_resid := vu_resid (deliver (file_bytes ?c (sv_i sv) off k) ?u) + e\<rparr>, s1)"
      unfolding sfs_io_def assms(2) Option.bind.bind_lunit Let_def ss so se ex k(1) using assms(5) False by (simp add: deliver_fields)
    moreover have "(deliver xs ?u)\<lparr>vu_resid := vu_resid (deliver xs ?u) + e\<rparr> = deliver xs uio" for xs
      by (simp add: deliver_def vu_advance_def)
    ultimately show ?thesis using k(2,3) mn(1) unfolding n_def [symmetric] z_def [symmetric] m_def [symmetric]
      by (intro exI [of _ r] exI [of _ k] exI [of _ s1]) auto
  qed
qed

end

end
