(* ===== verification/K_SFS_Files.thy ===== *)
theory K_SFS_Files
  imports K_SFS_IO
begin

section \<open>Files of SFS on the disk\<close>

text \<open>
  The laws of \<open>sfs_io\<close> for the file system on the disk \<open>lhd\<close>, whose driver keeps the contract of a block device:
  what reading and writing do to the file, to the other files and to the allocation of blocks, and what becomes of
  a media error.
\<close>

abbreviation disk :: "lhd sfs_fs \<Rightarrow> nat \<Rightarrow> blk" where
  "disk s \<equiv> lh_platter (sfs_device s)"

text \<open>The vnode at \<open>a\<close> is that of a file whose blocks are blocks of the file system, marked and used once.\<close>

definition sfs_ready :: "lhd sfs_fs \<Rightarrow> addr \<Rightarrow> sfs_vnode \<Rightarrow> bool" where
  "sfs_ready s a sv \<longleftrightarrow> fs_ok lhd_ok lhd_size s \<and> sfs_store s a = Some sv \<and> inode_ok (disk s) s (sv_i sv) \<and>
     unat (sfi_size (sv_i sv)) \<le> 512 * file_max"

text \<open>
  A request to write the first bytes of \<open>vu_data\<close> at position \<open>off\<close>: at any position an \<open>off_t\<close> can hold, and within the
  greatest size of a file.
\<close>

definition put_request :: "nat \<Rightarrow> vuio \<Rightarrow> bool" where
  "put_request off uio \<longleftrightarrow> vu_rw uio = UIO_WRITE \<and> vu_offset uio = of_nat off \<and>
     off + unat (vu_resid uio) < 2147483648 \<and> unat (vu_resid uio) \<le> length (vu_data uio)"

definition write_request :: "nat \<Rightarrow> vuio \<Rightarrow> bool" where
  "write_request off uio \<longleftrightarrow> vu_rw uio = UIO_WRITE \<and> vu_offset uio = of_nat off \<and>
     off + unat (vu_resid uio) \<le> 512 * file_max \<and> unat (vu_resid uio) \<le> length (vu_data uio)"

definition read_request :: "nat \<Rightarrow> vuio \<Rightarrow> bool" where
  "read_request off uio \<longleftrightarrow> vu_rw uio = UIO_READ \<and> vu_offset uio = of_nat off \<and> off + unat (vu_resid uio) < 2147483648"

text \<open>No block of one inode is a block of the other.\<close>

definition inodes_apart :: "(nat \<Rightarrow> blk) \<Rightarrow> sfs_inode \<Rightarrow> sfs_inode \<Rightarrow> bool" where
  "inodes_apart c i j \<longleftrightarrow> set (inode_blocks c i) \<inter> set (inode_blocks c j) = {}"

lemma request_put: "write_request off uio \<Longrightarrow> put_request off uio"
  by (auto simp: write_request_def put_request_def file_max_def)

lemma sfs_put_spec:
  assumes hw: "lhd_device hw" and "sfs_ready s a sv" "put_request off uio"
  obtains r k s1 sv1 where "sfs_write (lhd_io hw) a uio s = Some (r, consume k uio, s1)"
    "k \<le> unat (vu_resid uio)" "k = 0 \<or> off + k \<le> 512 * file_max"
    "r = 0 \<and> k = unat (vu_resid uio) \<or> (k = 0 \<or> (off + k) mod 512 = 0 \<and> k < unat (vu_resid uio)) \<and>
       write_stops (disk s) (sv_i sv) (off + k) (vu_good uio < unat (vu_resid uio)) r s1"
    "fs_ok lhd_ok lhd_size s1" "inode_ok (disk s1) s1 (sv_i sv1)" "sfs_store s1 = (sfs_store s)(a \<mapsto> sv1)"
    "unat (sfi_size (sv_i sv1)) = max (unat (sfi_size (sv_i sv))) (off + k)"
    "\<And>n. n < 512 * file_max \<Longrightarrow> file_byte (disk s1) (sv_i sv1) n =
       (if off \<le> n \<and> n < off + k then vu_data uio ! (n - off) else file_byte (disk s) (sv_i sv) n)"
    "\<And>b. b \<in> bm_used (sfs_freemap s) \<Longrightarrow> b \<notin> unat ` set (inode_blocks (disk s) (sv_i sv)) \<Longrightarrow>
       b \<in> bm_used (sfs_freemap s1) \<and> b \<notin> unat ` set (inode_blocks (disk s1) (sv_i sv1)) \<and> disk s1 b = disk s b"
    "sfs_super s1 = sfs_super s"
proof -
  have w: "vu_rw uio = UIO_WRITE" "vu_offset uio = of_nat off" "off + unat (vu_resid uio) < 2147483648"
    "unat (vu_resid uio) \<le> length (vu_data uio)" using assms(3) by (simp_all add: put_request_def)
  have f: "fs_ok lhd_ok lhd_size s" "sfs_store s a = Some sv" "inode_ok (disk s) s (sv_i sv)" "unat (sfi_size (sv_i sv)) \<le> 512 * file_max"
    using assms(2) by (simp_all add: sfs_ready_def)
  have wr: "sfs_write (lhd_io hw) a uio s = sfs_io (lhd_io hw) a uio s" using w(1) by (simp add: sfs_write_def)
  from block_device.sfs_io_write [OF lhd_block_device [OF hw] f w] obtain r k s1 sv1 where x: "sfs_io (lhd_io hw) a uio s = Some (r, consume k uio, s1)"
    "r = 0 \<and> k = unat (vu_resid uio) \<or> block_device.write_ends lh_platter off uio s sv r k s1"
    "k \<le> unat (vu_resid uio)" "k = 0 \<or> off + k \<le> 512 * file_max"
    "fs_ok lhd_ok lhd_size s1" "sfs_store s1 = (sfs_store s)(a \<mapsto> sv1)" "inode_ok (disk s1) s1 (sv_i sv1)"
    "unat (sfi_size (sv_i sv1)) = max (unat (sfi_size (sv_i sv))) (off + k)"
    "\<forall>n < 512 * file_max. file_byte (disk s1) (sv_i sv1) n =
       (if off \<le> n \<and> n < off + k then vu_data uio ! (n - off) else file_byte (disk s) (sv_i sv) n)"
    "\<forall>b \<in> bm_used (sfs_freemap s). b \<notin> unat ` set (inode_blocks (disk s) (sv_i sv)) \<longrightarrow>
       b \<in> bm_used (sfs_freemap s1) \<and> b \<notin> unat ` set (inode_blocks (disk s1) (sv_i sv1)) \<and> disk s1 b = disk s b"
    "sfs_super s1 = sfs_super s" by blast
  show thesis
    using x wr by (intro that [of r k s1 sv1]) (auto simp: block_device.write_ends_def [OF lhd_block_device [OF hw]])
qed

lemma sfs_write_spec:
  assumes hw: "lhd_device hw" and "sfs_ready s a sv" "write_request off uio"
  obtains r k s1 sv1 where "sfs_write (lhd_io hw) a uio s = Some (r, consume k uio, s1)"
    "k \<le> unat (vu_resid uio)" "r = 0 \<longrightarrow> k = unat (vu_resid uio)"
    "sfs_ready s1 a sv1" "sfs_store s1 = (sfs_store s)(a \<mapsto> sv1)"
    "unat (sfi_size (sv_i sv1)) = max (unat (sfi_size (sv_i sv))) (off + k)"
    "\<And>n. n < 512 * file_max \<Longrightarrow> file_byte (disk s1) (sv_i sv1) n =
       (if off \<le> n \<and> n < off + k then vu_data uio ! (n - off) else file_byte (disk s) (sv_i sv) n)"
    "\<And>b. b \<in> bm_used (sfs_freemap s) \<Longrightarrow> b \<notin> unat ` set (inode_blocks (disk s) (sv_i sv)) \<Longrightarrow>
       b \<in> bm_used (sfs_freemap s1) \<and> b \<notin> unat ` set (inode_blocks (disk s1) (sv_i sv1)) \<and> disk s1 b = disk s b"
    "sfs_super s1 = sfs_super s"
proof -
  have w: "off + unat (vu_resid uio) \<le> 512 * file_max" using assms(3) by (simp add: write_request_def)
  have f: "unat (sfi_size (sv_i sv)) \<le> 512 * file_max" using assms(2) by (simp add: sfs_ready_def)
  show thesis
  proof (rule sfs_put_spec [OF hw assms(2) request_put [OF assms(3)]])
    fix r k s1 sv1
    assume x: "sfs_write (lhd_io hw) a uio s = Some (r, consume k uio, s1)" "k \<le> unat (vu_resid uio)"
      "r = 0 \<and> k = unat (vu_resid uio) \<or> (k = 0 \<or> (off + k) mod 512 = 0 \<and> k < unat (vu_resid uio)) \<and>
         write_stops (disk s) (sv_i sv) (off + k) (vu_good uio < unat (vu_resid uio)) r s1"
      "fs_ok lhd_ok lhd_size s1" "inode_ok (disk s1) s1 (sv_i sv1)" "sfs_store s1 = (sfs_store s)(a \<mapsto> sv1)"
      "unat (sfi_size (sv_i sv1)) = max (unat (sfi_size (sv_i sv))) (off + k)"
      "\<And>n. n < 512 * file_max \<Longrightarrow> file_byte (disk s1) (sv_i sv1) n =
         (if off \<le> n \<and> n < off + k then vu_data uio ! (n - off) else file_byte (disk s) (sv_i sv) n)"
      "\<And>b. b \<in> bm_used (sfs_freemap s) \<Longrightarrow> b \<notin> unat ` set (inode_blocks (disk s) (sv_i sv)) \<Longrightarrow>
         b \<in> bm_used (sfs_freemap s1) \<and> b \<notin> unat ` set (inode_blocks (disk s1) (sv_i sv1)) \<and> disk s1 b = disk s b"
      "sfs_super s1 = sfs_super s"
    have "off + k \<le> 512 * file_max" using x(2) w by linarith
    then have "unat (sfi_size (sv_i sv1)) \<le> 512 * file_max" using x(7) f by simp
    then have "sfs_ready s1 a sv1" using x(4,5,6) by (simp add: sfs_ready_def)
    moreover have "r = 0 \<longrightarrow> k = unat (vu_resid uio)" using x(3) by (auto simp: write_stops_def)
    ultimately show thesis using x by (intro that [of r k s1 sv1]) auto
  qed
qed

lemma sfs_read_spec:
  assumes hw: "lhd_device hw" and "sfs_ready s a sv" "read_request off uio"
  obtains r k s1 where "sfs_read (lhd_io hw) a uio s = Some (r, deliver (file_bytes (disk s) (sv_i sv) off k) uio, s1)"
    "same_fs lhd_ok lhd_size lh_platter s s1" "k \<le> min (unat (vu_resid uio)) (unat (sfi_size (sv_i sv)) - off)"
    "r = 0 \<and> k = min (unat (vu_resid uio)) (unat (sfi_size (sv_i sv)) - off) \<or> r = EFAULT \<and> vu_good uio < unat (vu_resid uio)"
proof -
  have w: "vu_rw uio = UIO_READ" "vu_offset uio = of_nat off" "off + unat (vu_resid uio) < 2147483648"
    using assms(3) by (simp_all add: read_request_def)
  have f: "fs_ok lhd_ok lhd_size s" "sfs_store s a = Some sv" "inode_ok (disk s) s (sv_i sv)" "unat (sfi_size (sv_i sv)) \<le> 512 * file_max"
    using assms(2) by (simp_all add: sfs_ready_def)
  have "sfs_read (lhd_io hw) a uio s = sfs_io (lhd_io hw) a uio s" using w(1) by (simp add: sfs_read_def)
  with block_device.sfs_io_read [OF lhd_block_device [OF hw] f w] show thesis using that by (simp only:) blast
qed

text \<open>What a write leaves of an inode that shares no block with the file.\<close>

lemma other_inode:
  assumes "inode_ok c s j" "\<And>b. b \<in> unat ` set (inode_blocks c j) \<Longrightarrow> b \<in> bm_used (sfs_freemap s1) \<and> c1 b = c b"
    "sfs_super s1 = sfs_super s"
  shows "inode_blocks c1 j = inode_blocks c j" "inode_ok c1 s1 j"
    "n < 512 * length (data_ptrs c j) \<Longrightarrow> file_byte c1 j n = file_byte c j n"
proof -
  have nz: "c1 (unat p) = c (unat p)" if "p \<noteq> 0" "p = sfi_indirect j \<or> p \<in> set (data_ptrs c j)" for p
    using assms(2) [of "unat p"] that by (auto simp: inode_blocks_def)
  have iw: "ind_words c1 j = ind_words c j" using nz [of "sfi_indirect j"] by (simp add: ind_words_def)
  then have dp: "data_ptrs c1 j = data_ptrs c j" by (simp add: data_ptrs_def)
  then show bl: "inode_blocks c1 j = inode_blocks c j" by (simp add: inode_blocks_def)
  show "inode_ok c1 s1 j" using assms bl by (auto simp: inode_ok_def)
  assume "n < 512 * length (data_ptrs c j)"
  then have "n div 512 < length (data_ptrs c j)" by (simp add: less_mult_imp_div_less mult.commute)
  then show "file_byte c1 j n = file_byte c j n"
    using nz [of "data_ptrs c j ! (n div 512)"] by (simp add: file_byte_def file_block_def dp Let_def)
qed

lemma data_ptrs_length: "sfs_ready s a sv \<Longrightarrow> length (data_ptrs (disk s) (sv_i sv)) = file_max"
  using lhd.file_ptrs(1) [of s "sv_i sv"] by (simp add: sfs_ready_def all_ptrs_def file_max_def)

text \<open>A write and another file.\<close>

lemma sfs_write_other:
  assumes "sfs_ready s b sv2" "b \<noteq> a" "inodes_apart (disk s) (sv_i sv) (sv_i sv2)"
    "fs_ok lhd_ok lhd_size s1" "sfs_store s1 = (sfs_store s)(a \<mapsto> sv1)" "sfs_super s1 = sfs_super s"
    "\<And>b. b \<in> bm_used (sfs_freemap s) \<Longrightarrow> b \<notin> unat ` set (inode_blocks (disk s) (sv_i sv)) \<Longrightarrow>
       b \<in> bm_used (sfs_freemap s1) \<and> b \<notin> unat ` set (inode_blocks (disk s1) (sv_i sv1)) \<and> disk s1 b = disk s b"
  shows "sfs_ready s1 b sv2" "inodes_apart (disk s1) (sv_i sv1) (sv_i sv2)"
    "n < 512 * file_max \<Longrightarrow> file_byte (disk s1) (sv_i sv2) n = file_byte (disk s) (sv_i sv2) n"
proof -
  have ok: "inode_ok (disk s) s (sv_i sv2)" using assms(1) by (simp add: sfs_ready_def)
  have fr: "b \<in> bm_used (sfs_freemap s1) \<and> b \<notin> unat ` set (inode_blocks (disk s1) (sv_i sv1)) \<and> disk s1 b = disk s b"
    if b: "b \<in> unat ` set (inode_blocks (disk s) (sv_i sv2))" for b
  proof (rule assms(7))
    show "b \<in> bm_used (sfs_freemap s)" using b ok by (auto simp: inode_ok_def)
    show "b \<notin> unat ` set (inode_blocks (disk s) (sv_i sv))" using b assms(3) by (auto simp: inodes_apart_def word_unat_eq_iff [symmetric])
  qed
  note oth = other_inode [OF ok, of s1 "disk s1"]
  show "sfs_ready s1 b sv2" using oth(2) fr assms(1,2,4,5,6) by (simp add: sfs_ready_def)
  show "inodes_apart (disk s1) (sv_i sv1) (sv_i sv2)" using oth(1) fr assms(6) by (auto simp: inodes_apart_def)
  show "n < 512 * file_max \<Longrightarrow> file_byte (disk s1) (sv_i sv2) n = file_byte (disk s) (sv_i sv2) n"
    using oth(3) [of n] fr assms(6) data_ptrs_length [OF assms(1)] by simp
qed

subsection \<open>A media error while writing\<close>

text \<open>
  The driver fetches the caller's bytes before it starts the device. When the device then reports a media error, the
  uio is already used up, so that the next attempt is a request for no sectors.
\<close>

lemma lhd_io_fault:
  assumes hw: "lhd_device hw" and "lhd_ok (l\<lparr>lh_faults := []\<rparr>)" "lh_faults l = True # fs" "b < lhd_size l" "vu_rw u = UIO_WRITE" "vu_offset u = of_nat (512 * b)"
    "vu_resid u = 512" "512 \<le> vu_good u" "512 \<le> length (vu_data u)"
  shows "\<exists>l1. lhd_io hw u l = Some (EIO, (vu_advance 512 u)\<lparr>vu_data := drop 512 (vu_data u)\<rparr>, l1) \<and>
    lh_blocks l1 = lh_blocks l \<and> lh_platter l1 = lh_platter l"
proof -
  have b: "b < unat (lh_blocks l)" "unat (lh_blocks l) \<le> 4194304" using assms(2,4) by (auto simp: lhd_ok_def lhd_size_def)
  have s: "unat (of_nat b :: 32 word) = b" using b(1,2) by (simp add: unat_of_nat_ok)
  then have lt: "(of_nat b :: 32 word) < lh_blocks l" using b(1) by (simp add: word_less_nat_alt)
  show ?thesis using assms b s lt
    by (subst lhd_io_one [OF b(2,1) assms(6,7)])
      (simp add: lhd_deviceD(3) [OF hw] lhd_irq_def lhd_iodone_def lhd_code_to_errno_def vuiomove_def Let_def lhd_ok_def lhd_size_def vu_advance_def)
qed

lemma lhd_io_nothing:
  assumes "unat (lh_blocks l) \<le> 4194304" "b \<le> unat (lh_blocks l)" "b < 4194304" "vu_offset u = of_nat (512 * b)" "vu_resid u = 0"
  shows "lhd_io hw u l = Some (0, u, l)"
proof -
  have "\<not> (of_nat b > lh_blocks l)" using assms(2,3) by (simp add: word_less_nat_alt unat_of_nat_ok)
  then show ?thesis using lhd_sector [OF assms(3)] by (simp add: lhd_io_def assms(4,5) Let_def del: of_nat_mult)
qed

lemma sfs_rwblock_retry:
  "dio u (sfs_device s) = Some (EIO, u1, d1) \<Longrightarrow> dio u1 d1 = Some (0, u2, d2) \<Longrightarrow> sfs_rwblock dio u s = Some (0, u2, s\<lparr>sfs_device := d2\<rparr>)"
  by (simp add: sfs_rwblock_def numeral_eq_Suc)

lemma sfs_wblock_media:
  assumes hw: "lhd_device hw" and "lhd_ok (sfs_device s\<lparr>lh_faults := []\<rparr>)" "lh_faults (sfs_device s) = True # fs" "unat block + 1 < 4194304" "unat block < lhd_size (sfs_device s)" "length x = 512"
  shows "\<exists>s1. sfs_wblock (lhd_io hw) x block s = Some (0, s1) \<and> disk s1 = disk s"
proof -
  let ?u = "vkuio x 512 (of_nat (512 * unat block)) UIO_WRITE"
  obtain l1 where l1: "lhd_io hw ?u (sfs_device s) = Some (EIO, (vu_advance 512 ?u)\<lparr>vu_data := drop 512 x\<rparr>, l1)"
    "lh_blocks l1 = lh_blocks (sfs_device s)" "lh_platter l1 = disk s"
    using lhd_io_fault [OF hw assms(2,3,5), of ?u] assms(6) by (auto simp: vkuio_def)
  let ?v = "(vu_advance 512 ?u)\<lparr>vu_data := drop 512 x\<rparr>"
  have "lhd_io hw ?v l1 = Some (0, ?v, l1)"
    using lhd_io_nothing [of l1 "unat block + 1" ?v] l1(2) assms(2,4,5) by (simp add: vkuio_def vu_advance_def lhd_ok_def lhd_size_def algebra_simps)
  from sfs_rwblock_retry [OF l1(1) this] show ?thesis using l1(3) block_pos [of block] assms(4)
    by (simp add: sfs_wblock_def del: of_nat_mult)
qed

subsection \<open>A small file system\<close>

text \<open>
  A disk of eight blocks: super block, root directory, free map, two inodes in blocks 3 and 4; the file at address 16
  is empty, the one at address 32 owns block 5.
\<close>

definition sample_inode :: "32 word \<Rightarrow> 32 word list \<Rightarrow> sfs_inode" where
  "sample_inode n ptrs = \<lparr>sfi_size = n, sfi_type = 1, sfi_linkcount = 1, sfi_direct = ptrs @ replicate (15 - length ptrs) 0,
     sfi_indirect = 0, sfi_waste = replicate 110 0\<rparr>"

definition sample_vnode :: "32 word \<Rightarrow> sfs_inode \<Rightarrow> sfs_vnode" where
  "sample_vnode ino i = \<lparr>vn_refcount = 1, vn_opencount = 0, vn_ops = sfs_fileops, sv_i = i, sv_ino = ino, sv_dirty = 0\<rparr>"

definition sample_lhd :: "bool list \<Rightarrow> lhd" where
  "sample_lhd faults = \<lparr>lh_sect = 0, lh_stat = 0, lh_buf = replicate 512 0, lh_result = 0, lh_clear = 1, lh_done = 0,
     lh_blocks = 8, lh_platter = (\<lambda>b. replicate 512 0), lh_faults = faults\<rparr>"

definition sample_fs :: "bool list \<Rightarrow> lhd sfs_fs" where
  "sample_fs faults = \<lparr>sfs_super = \<lparr>sp_magic = 0xabadf001, sp_nblocks = 8, sp_volname = replicate 32 0, sp_reserved = replicate 472 0\<rparr>,
     sfs_superdirty = 0, sfs_device = sample_lhd faults, sfs_vnodes = \<lparr>arr_num = 2, arr_max = 2, arr_v = Ptr [16, 32]\<rparr>,
     sfs_store = [16 \<mapsto> sample_vnode 3 (sample_inode 0 []), 32 \<mapsto> sample_vnode 4 (sample_inode 100 [5])],
     sfs_freemap = \<lparr>bm_nbits = 8, bm_v = [0x3f]\<rparr>, sfs_freemapdirty = 0\<rparr>"

definition sample_uio :: "8 word list \<Rightarrow> nat \<Rightarrow> uio_rw \<Rightarrow> vuio" where
  "sample_uio ds n rw = \<lparr>vu_data = ds, vu_good = 1000, vu_offset = 0, vu_resid = of_nat n, vu_rw = rw\<rparr>"

lemma sample_used: "bm_used (sfs_freemap (sample_fs faults)) = {0, 1, 2, 3, 4, 5}"
proof -
  have "i < 8 \<Longrightarrow> bit (63 :: 8 word) i \<longleftrightarrow> i < 6" for i :: nat
    by (auto simp: less_Suc_eq numeral_eq_Suc)
  then show ?thesis by (auto simp: sample_fs_def bm_used_def bm_bit_def)
qed

lemma sample_fs_ok: "fs_ok lhd_ok lhd_size (sample_fs [])"
  unfolding fs_ok_def sample_used
  by (auto simp: sample_fs_def sample_lhd_def bm_inv_def bm_bit_def lhd_ok_def lhd_size_def)

lemma sample_blocks:
  "inode_blocks c (sample_inode n []) = []" "inode_blocks c (sample_inode n [5]) = [5]"
  by (simp_all add: inode_blocks_def sample_inode_def data_ptrs_def ind_words_def)

lemma sample_ready:
  "sfs_ready (sample_fs []) 16 (sample_vnode 3 (sample_inode 0 []))"
  "sfs_ready (sample_fs []) 32 (sample_vnode 4 (sample_inode 100 [5]))"
  unfolding sfs_ready_def inode_ok_def sample_used
  by (simp_all add: sample_fs_ok sample_blocks sample_vnode_def)
    (simp_all add: sample_fs_def sample_vnode_def sample_inode_def inode_shape_def file_max_def)

lemma sample_apart: "inodes_apart c (sv_i (sample_vnode 3 (sample_inode 0 []))) (sv_i (sample_vnode 4 (sample_inode 100 [5])))"
  by (simp add: inodes_apart_def sample_blocks sample_vnode_def)

lemma sample_requests:
  "write_request 0 (sample_uio [7, 8, 9] 3 UIO_WRITE)" "read_request 0 (sample_uio [] 3 UIO_READ)"
  by (simp_all add: write_request_def read_request_def sample_uio_def file_max_def)

lemma sample_write: "\<exists>uio1 s1. sfs_write (lhd_io ideal_lhd) 32 (sample_uio [7, 8, 9] 3 UIO_WRITE) (sample_fs []) = Some (0, uio1, s1)"
proof -
  let ?u = "sample_uio [7, 8, 9] 3 UIO_WRITE" and ?s = "sample_fs []"
  have u: "vu_offset ?u = 0" "vu_resid ?u = 3" "vu_rw ?u = UIO_WRITE" "vu_good ?u = 1000" "vu_data ?u = [7, 8, 9]" by (simp_all add: sample_uio_def)
  have bm: "sfs_bmap (lhd_io ideal_lhd) 32 0 True ?s = Some (0, 5, ?s)"
    by (simp add: sfs_bmap_def sample_fs_def sample_vnode_def sample_inode_def sfs_handback_def sfs_bused_def bitmap_isset_def
        bitmap_translate_def SFS_NDIRECT_def rd_def)
  have d: "lhd_ok (sfs_device ?s)" "unat (5 :: 32 word) < lhd_size (sfs_device ?s)"
    using fs_okD(1) [OF sample_fs_ok] by (simp_all add: sample_fs_def sample_lhd_def lhd_size_def)
  obtain s2 where s2: "sfs_rblock (lhd_io ideal_lhd) 5 ?s = Some (0, disk ?s (unat (5 :: 32 word)), s2)" "same_fs lhd_ok lhd_size lh_platter ?s s2"
    using lhd.sfs_rblock_ok [OF d] by blast
  define x where "x = [7, 8, 9 :: 8 word] @ drop 3 (replicate 512 0)"
  have d2: "lhd_ok (sfs_device s2)" "unat (5 :: 32 word) < lhd_size (sfs_device s2)" "length x = 512"
    using d s2(2) by (auto simp: same_fs_def x_def)
  obtain s3 where s3: "sfs_wblock (lhd_io ideal_lhd) x 5 s2 = Some (0, s3)" "stored lhd_ok lhd_size lh_platter 5 x s2 s3"
    using lhd.sfs_wblock_ok [OF d2] by auto
  have dk: "disk ?s (unat (5 :: 32 word)) = replicate 512 0" by (simp add: sample_fs_def sample_lhd_def)
  have "\<exists>v. sfs_partialio (lhd_io ideal_lhd) 32 ?u 0 3 ?s = Some (0, v, s3)"
    using bm s2(1) s3(1) dk by (simp add: sfs_partialio_def u uio_fileblock_def vuiomove_def vu_advance_def x_def)
  then obtain v where "sfs_partialio (lhd_io ideal_lhd) 32 ?u 0 3 ?s = Some (0, v, s3)" by blast
  then have "sfs_io_blocks (lhd_io ideal_lhd) 32 ?u ?s = Some (0, v, s3)" by (simp add: sfs_io_blocks_def u)
  moreover have "sfs_store s3 32 = Some (sample_vnode 4 (sample_inode 100 [5]))"
    using s3(2) s2(2) by (auto simp: same_fs_def stored_def sample_fs_def)
  moreover have "sfs_store ?s 32 = Some (sample_vnode 4 (sample_inode 100 [5]))" by (simp add: sample_fs_def)
  moreover have same: "?u\<lparr>vu_resid := 3\<rparr> = ?u" by (simp add: sample_uio_def)
  ultimately show ?thesis by (simp add: sfs_write_def sfs_io_def u same)
qed

subsection \<open>Properties\<close>

text \<open>
  C5: On a disk without media errors, a write to a file always returns, at any position an \<open>off_t\<close> can hold. It transfers
  a prefix of the caller's bytes; the uio says how many. It returns 0 exactly with all of them transferred. It stops
  earlier, at the end of a block or before the first byte, for three reasons only: \<open>ENOSPC\<close> when every block of the disk is
  in use and the file had no block at the position where it stopped, \<open>EFAULT\<close> when not all of the caller's bytes can be
  accessed, and \<open>EINVAL\<close> when the position is past the greatest size of a file, 143 blocks; nothing is transferred past
  that size. Exactly the bytes at the positions transferred change, to the caller's bytes. The file grows to the end of
  the transfer when that is behind its end, also when nothing was transferred.
\<close>

theorem sfs_write_updates:
  assumes hw: "lhd_device hw" and "sfs_ready s a sv" "put_request off uio"
  shows "\<exists>r k s1 sv1. sfs_write (lhd_io hw) a uio s = Some (r, consume k uio, s1) \<and>
    k \<le> unat (vu_resid uio) \<and> (k = 0 \<or> off + k \<le> 512 * file_max) \<and>
    (if r = 0 then k = unat (vu_resid uio)
     else (k = 0 \<or> (off + k) mod 512 = 0 \<and> k < unat (vu_resid uio)) \<and>
       (r = ENOSPC \<and> disk_full s1 \<and> off + k < 512 * file_max \<and> data_ptrs (disk s) (sv_i sv) ! ((off + k) div 512) = 0 \<or>
        r = EFAULT \<and> vu_good uio < unat (vu_resid uio) \<or>
        r = EINVAL \<and> 512 * file_max \<le> off + k)) \<and>
    sfs_store s1 a = Some sv1 \<and> unat (sfi_size (sv_i sv1)) = max (unat (sfi_size (sv_i sv))) (off + k) \<and>
    (\<forall>n < 512 * file_max. file_byte (disk s1) (sv_i sv1) n =
       (if off \<le> n \<and> n < off + k then vu_data uio ! (n - off) else file_byte (disk s) (sv_i sv) n))"
  using assms
proof (rule sfs_put_spec)
  fix r k s1 sv1
  assume x: "sfs_write (lhd_io hw) a uio s = Some (r, consume k uio, s1)" "k \<le> unat (vu_resid uio)" "k = 0 \<or> off + k \<le> 512 * file_max"
    "r = 0 \<and> k = unat (vu_resid uio) \<or> (k = 0 \<or> (off + k) mod 512 = 0 \<and> k < unat (vu_resid uio)) \<and>
       write_stops (disk s) (sv_i sv) (off + k) (vu_good uio < unat (vu_resid uio)) r s1"
    "sfs_store s1 = (sfs_store s)(a \<mapsto> sv1)"
    "unat (sfi_size (sv_i sv1)) = max (unat (sfi_size (sv_i sv))) (off + k)"
    "\<And>n. n < 512 * file_max \<Longrightarrow> file_byte (disk s1) (sv_i sv1) n =
       (if off \<le> n \<and> n < off + k then vu_data uio ! (n - off) else file_byte (disk s) (sv_i sv) n)"
  have "if r = 0 then k = unat (vu_resid uio)
     else (k = 0 \<or> (off + k) mod 512 = 0 \<and> k < unat (vu_resid uio)) \<and>
       (r = ENOSPC \<and> disk_full s1 \<and> off + k < 512 * file_max \<and> data_ptrs (disk s) (sv_i sv) ! ((off + k) div 512) = 0 \<or>
        r = EFAULT \<and> vu_good uio < unat (vu_resid uio) \<or> r = EINVAL \<and> 512 * file_max \<le> off + k)"
    using x(4) unfolding write_stops_def by (cases "r = 0") auto
  then show ?thesis using x by (intro exI [of _ r] exI [of _ k] exI [of _ s1] exI [of _ sv1]) simp
qed

theorem sfs_write_updates_witness:
  "(\<exists>s1 sv1. sfs_write (lhd_io ideal_lhd) 32 (sample_uio [7, 8, 9] 3 UIO_WRITE) (sample_fs []) = Some (0, consume 3 (sample_uio [7, 8, 9] 3 UIO_WRITE), s1) \<and>
     sfs_store s1 32 = Some sv1 \<and> unat (sfi_size (sv_i sv1)) = 100 \<and> file_byte (disk s1) (sv_i sv1) 1 = 8) \<and>
   (\<exists>uio s1 sv1. vu_offset uio = 80000 \<and> sfs_write (lhd_io ideal_lhd) 32 uio (sample_fs []) = Some (EINVAL, uio, s1) \<and>
     sfs_store s1 32 = Some sv1 \<and> unat (sfi_size (sv_i sv1)) = 80000)"
proof -
  let ?u = "sample_uio [7, 8, 9] 3 UIO_WRITE" and ?v = "sample_vnode 4 (sample_inode 100 [5])"
  have u: "unat (vu_resid ?u) = 3" "vu_good ?u = 1000" "vu_data ?u = [7, 8, 9]" by (simp_all add: sample_uio_def)
  have v: "unat (sfi_size (sv_i ?v)) = 100" "data_ptrs c (sv_i ?v) ! 0 = 5" for c
    by (simp_all add: sample_vnode_def sample_inode_def data_ptrs_def)
  let ?w = "?u\<lparr>vu_offset := 80000\<rparr>"
  have w: "put_request 80000 ?w" by (simp add: put_request_def sample_uio_def)
  have "\<exists>s1 sv1. sfs_write (lhd_io ideal_lhd) 32 ?u (sample_fs []) = Some (0, consume 3 ?u, s1) \<and>
     sfs_store s1 32 = Some sv1 \<and> unat (sfi_size (sv_i sv1)) = 100 \<and> file_byte (disk s1) (sv_i sv1) 1 = 8"
    using sfs_write_updates [OF ideal_lhd_device sample_ready(2) request_put [OF sample_requests(1)]] u v
    by (force simp: file_max_def split: if_splits)
  moreover have "\<exists>s1 sv1. sfs_write (lhd_io ideal_lhd) 32 ?w (sample_fs []) = Some (EINVAL, ?w, s1) \<and>
     sfs_store s1 32 = Some sv1 \<and> unat (sfi_size (sv_i sv1)) = 80000"
    using sfs_write_updates [OF ideal_lhd_device sample_ready(2) w] u v by (force simp: file_max_def split: if_splits)
  ultimately show ?thesis by (intro conjI exI [of _ ?w]) simp_all
qed

text \<open>
  C6: On a disk without media errors, a write within the greatest size of a file keeps every file well formed, whatever it returns: the blocks of the written file and of any other file
  that shared none with it are still blocks of the file system, marked in the free map and used once, the files still
  share none, and the other file has the bytes it had.
\<close>

theorem sfs_write_keeps_files:
  assumes hw: "lhd_device hw" and "sfs_ready s a sv" "write_request off uio" "b \<noteq> a" "sfs_ready s b sv2" "inodes_apart (disk s) (sv_i sv) (sv_i sv2)"
  shows "\<exists>r uio1 s1 sv1. sfs_write (lhd_io hw) a uio s = Some (r, uio1, s1) \<and> sfs_ready s1 a sv1 \<and> sfs_ready s1 b sv2 \<and>
    inodes_apart (disk s1) (sv_i sv1) (sv_i sv2) \<and> (\<forall>n < 512 * file_max. file_byte (disk s1) (sv_i sv2) n = file_byte (disk s) (sv_i sv2) n)"
  using assms(1-3)
proof (rule sfs_write_spec)
  fix r k s1 sv1
  assume x: "sfs_write (lhd_io hw) a uio s = Some (r, consume k uio, s1)" "sfs_ready s1 a sv1" "sfs_store s1 = (sfs_store s)(a \<mapsto> sv1)"
    "\<And>b. b \<in> bm_used (sfs_freemap s) \<Longrightarrow> b \<notin> unat ` set (inode_blocks (disk s) (sv_i sv)) \<Longrightarrow>
       b \<in> bm_used (sfs_freemap s1) \<and> b \<notin> unat ` set (inode_blocks (disk s1) (sv_i sv1)) \<and> disk s1 b = disk s b"
    "sfs_super s1 = sfs_super s"
  have "fs_ok lhd_ok lhd_size s1" using x(2) by (simp add: sfs_ready_def)
  note oth = sfs_write_other [OF assms(5,4,6) this x(3,5,4)]
  show ?thesis using x(1,2) oth by (intro exI [of _ r] exI [of _ "consume k uio"] exI [of _ s1] exI [of _ sv1]) simp
qed

theorem sfs_write_keeps_files_witness:
  "\<exists>r uio1 s1 sv1. sfs_write (lhd_io ideal_lhd) 16 (sample_uio [7, 8, 9] 3 UIO_WRITE) (sample_fs []) = Some (r, uio1, s1) \<and> sfs_ready s1 16 sv1 \<and>
    sfs_ready s1 32 (sample_vnode 4 (sample_inode 100 [5])) \<and> inodes_apart (disk s1) (sv_i sv1) (sv_i (sample_vnode 4 (sample_inode 100 [5])))"
  using sfs_write_keeps_files [OF ideal_lhd_device sample_ready(1) sample_requests(1) _ sample_ready(2) sample_apart] by force

text \<open>
  C7: Reading back what was written, on a disk without media errors: when a write has succeeded, a read of as many bytes at the same position into
  accessible memory succeeds, delivers exactly the bytes written, and changes no file.
\<close>

theorem sfs_read_after_write:
  assumes hw: "lhd_device hw" and "sfs_ready s a sv" "write_request off uio" "sfs_write (lhd_io hw) a uio s = Some (0, uio1, s1)"
    "read_request off ruio" "vu_resid ruio = vu_resid uio" "unat (vu_resid ruio) \<le> vu_good ruio"
  shows "\<exists>s2. sfs_read (lhd_io hw) a ruio s1 = Some (0, deliver (take (unat (vu_resid uio)) (vu_data uio)) ruio, s2) \<and>
    disk s2 = disk s1 \<and> sfs_store s2 = sfs_store s1"
  using assms(1-3)
proof (rule sfs_write_spec)
  fix r k s1' sv1
  assume "sfs_write (lhd_io hw) a uio s = Some (r, consume k uio, s1')" "r = 0 \<longrightarrow> k = unat (vu_resid uio)"
    "sfs_ready s1' a sv1" "unat (sfi_size (sv_i sv1)) = max (unat (sfi_size (sv_i sv))) (off + k)"
    "\<And>n. n < 512 * file_max \<Longrightarrow> file_byte (disk s1') (sv_i sv1) n =
       (if off \<le> n \<and> n < off + k then vu_data uio ! (n - off) else file_byte (disk s) (sv_i sv) n)"
  then have x: "k = unat (vu_resid uio)" "sfs_ready s1 a sv1" "off + k \<le> unat (sfi_size (sv_i sv1))"
    "\<And>n. n < 512 * file_max \<Longrightarrow> off \<le> n \<Longrightarrow> n < off + k \<Longrightarrow> file_byte (disk s1) (sv_i sv1) n = vu_data uio ! (n - off)"
    using assms(4) by auto
  have w: "off + k \<le> 512 * file_max" "k \<le> length (vu_data uio)" using assms(3) x(1) by (simp_all add: write_request_def)
  have bs: "file_bytes (disk s1) (sv_i sv1) off k = take k (vu_data uio)"
    using x(4) w by (intro nth_equalityI) (simp_all add: file_bytes_def)
  have mn: "min (unat (vu_resid ruio)) (unat (sfi_size (sv_i sv1)) - off) = k" using x(1,3) assms(6) by simp
  from hw x(2) assms(5) show ?thesis
  proof (rule sfs_read_spec)
    fix r j s2 assume "sfs_read (lhd_io hw) a ruio s1 = Some (r, deliver (file_bytes (disk s1) (sv_i sv1) off j) ruio, s2)" "same_fs lhd_ok lhd_size lh_platter s1 s2"
      "r = 0 \<and> j = min (unat (vu_resid ruio)) (unat (sfi_size (sv_i sv1)) - off) \<or> r = EFAULT \<and> vu_good ruio < unat (vu_resid ruio)"
    then show ?thesis using mn bs assms(7) x(1) by (auto simp: same_fs_def)
  qed
qed

theorem sfs_read_after_write_witness:
  "\<exists>uio1 s1 s2. sfs_write (lhd_io ideal_lhd) 32 (sample_uio [7, 8, 9] 3 UIO_WRITE) (sample_fs []) = Some (0, uio1, s1) \<and>
    sfs_read (lhd_io ideal_lhd) 32 (sample_uio [] 3 UIO_READ) s1 = Some (0, deliver [7, 8, 9] (sample_uio [] 3 UIO_READ), s2)"
proof -
  obtain uio1 s1 where w: "sfs_write (lhd_io ideal_lhd) 32 (sample_uio [7, 8, 9] 3 UIO_WRITE) (sample_fs []) = Some (0, uio1, s1)"
    using sample_write by blast
  from sfs_read_after_write [OF ideal_lhd_device sample_ready(2) sample_requests(1) w sample_requests(2)] show ?thesis
    using w by (auto simp: sample_uio_def)
qed

text \<open>
  C40: A media error while a block is written is lost: \<open>sfs_wblock\<close> reports success although the disk has the
  contents it had, whatever the outcome of the device's later operations. The retry of \<open>sfs_rwblock\<close> uses the uio that
  the failed attempt has used up.
\<close>

theorem sfs_wblock_loses_media_error:
  assumes hw: "lhd_device hw" and "lhd_ok (sfs_device s\<lparr>lh_faults := []\<rparr>)" "lh_faults (sfs_device s) = True # fs" "unat block + 1 < 4194304"
    "unat block < lhd_size (sfs_device s)" "length x = 512"
  shows "\<exists>s1. sfs_wblock (lhd_io hw) x block s = Some (0, s1) \<and> disk s1 = disk s"
  using assms by (rule sfs_wblock_media)

theorem sfs_wblock_loses_media_error_witness:
  "\<exists>s1. sfs_wblock (lhd_io ideal_lhd) (replicate 512 1) 6 (sample_fs [True]) = Some (0, s1) \<and> disk s1 6 = replicate 512 0"
proof -
  have "lhd_ok (sfs_device (sample_fs [True])\<lparr>lh_faults := []\<rparr>)" by (simp add: sample_fs_def sample_lhd_def lhd_ok_def)
  from sfs_wblock_loses_media_error [OF ideal_lhd_device this, of "[]" 6 "replicate 512 1"] show ?thesis
    by (auto simp: sample_fs_def sample_lhd_def lhd_size_def)
qed

end
