(* ===== verification/K_SFS_Dir.thy ===== *)
theory K_SFS_Dir
  imports K_SFS_Files
begin

section \<open>Directories of SFS as maps\<close>

text \<open>
  A directory is a file of entries of 64 bytes. As long as no name is used twice it is a finite map from names to
  inode numbers: \<open>sfs_dir_findname\<close> looks a name up, \<open>sfs_dir_link\<close> adds one and
  \<open>sfs_dir_unlink\<close> removes one.
\<close>

subsection \<open>Entries\<close>

definition entry_used :: "sfs_dir \<Rightarrow> bool" where
  "entry_used e \<longleftrightarrow> sfd_ino e \<noteq> 0"

definition entry_name :: "sfs_dir \<Rightarrow> 8 word list" where
  "entry_name e = cstring ((sfd_name e)[59 := 0])"

definition dir_entries :: "(nat \<Rightarrow> blk) \<Rightarrow> sfs_inode \<Rightarrow> sfs_dir list" where
  "dir_entries c i = map (\<lambda>k. dec_dir (file_bytes c i (64 * k) 64)) [0..<unat (sfi_size i) div 64]"

definition dir_map :: "sfs_dir list \<Rightarrow> 8 word list \<rightharpoonup> 32 word" where
  "dir_map es = map_of (map (\<lambda>e. (entry_name e, sfd_ino e)) (filter entry_used es))"

definition dir_wf :: "sfs_dir list \<Rightarrow> bool" where
  "dir_wf es \<longleftrightarrow> distinct (map entry_name (filter entry_used es))"

text \<open>What the loop of \<open>sfs_dir_findname\<close> looks for: the slot of a name and the last free slot.\<close>

fun scan_name :: "8 word list \<Rightarrow> int \<Rightarrow> sfs_dir list \<Rightarrow> (32 word \<times> int) option" where
  "scan_name name i [] = None"
| "scan_name name i (e # es) = (if entry_used e \<and> entry_name e = name then Some (sfd_ino e, i) else scan_name name (i + 1) es)"

fun scan_empty :: "int \<Rightarrow> int option \<Rightarrow> sfs_dir list \<Rightarrow> int option" where
  "scan_empty i acc [] = acc"
| "scan_empty i acc (e # es) = scan_empty (i + 1) (if entry_used e then acc else Some i) es"

lemma scan_name_map: "map_option fst (scan_name name i es) = dir_map es name"
  by (induction es arbitrary: i) (auto simp: dir_map_def)

lemma scan_name_slot: "scan_name name i es = Some (ino, k) \<Longrightarrow> i \<le> k \<and> k < i + int (length es) \<and> entry_used (es ! nat (k - i)) \<and>
    entry_name (es ! nat (k - i)) = name \<and> sfd_ino (es ! nat (k - i)) = ino"
proof (induction es arbitrary: i)
  case (Cons e es)
  show ?case
  proof (cases "entry_used e \<and> entry_name e = name")
    case False
    with Cons.prems have "scan_name name (i + 1) es = Some (ino, k)" by auto
    note ih = Cons.IH [OF this]
    then have "nat (k - i) = Suc (nat (k - (i + 1)))" by linarith
    then show ?thesis using ih by auto
  qed (use Cons.prems in auto)
qed simp

lemma scan_empty_slot: "scan_empty i acc es = Some k \<Longrightarrow> acc = Some k \<or> i \<le> k \<and> k < i + int (length es) \<and> \<not> entry_used (es ! nat (k - i))"
proof (induction es arbitrary: i acc)
  case (Cons e es)
  then have "(if entry_used e then acc else Some i) = Some k \<or> i + 1 \<le> k \<and> k < i + 1 + int (length es) \<and> \<not> entry_used (es ! nat (k - (i + 1)))"
    by (simp add: Cons.IH)
  then show ?case
  proof
    assume "(if entry_used e then acc else Some i) = Some k"
    then show ?thesis by (auto split: if_splits)
  next
    assume a: "i + 1 \<le> k \<and> k < i + 1 + int (length es) \<and> \<not> entry_used (es ! nat (k - (i + 1)))"
    then have "nat (k - i) = Suc (nat (k - (i + 1)))" by linarith
    then show ?thesis using a by auto
  qed
qed simp

lemma scan_empty_None: "scan_empty i acc es = None \<longleftrightarrow> acc = None \<and> (\<forall>e \<in> set es. entry_used e)"
  by (induction es arbitrary: i acc) auto

text \<open>Replacing or appending an entry changes the map at its name.\<close>

lemma dir_map_mem: "dir_wf es \<Longrightarrow> dir_map es name = Some ino \<longleftrightarrow> (\<exists>e \<in> set es. entry_used e \<and> entry_name e = name \<and> sfd_ino e = ino)"
  unfolding dir_map_def dir_wf_def by (subst map_of_eq_Some_iff) (auto simp: comp_def)

lemma dir_map_None: "dir_map es name = None \<longleftrightarrow> (\<forall>e \<in> set es. entry_used e \<longrightarrow> entry_name e \<noteq> name)"
  unfolding dir_map_def map_of_eq_None_iff by (auto simp: image_iff)

lemma dir_map_append: "dir_map (xs @ ys) = dir_map ys ++ dir_map xs"
  by (simp add: dir_map_def)

lemma dir_map_Cons: "dir_map (e # es) = (if entry_used e then (dir_map es)(entry_name e \<mapsto> sfd_ino e) else dir_map es)"
  by (simp add: dir_map_def)

lemma dir_skip:
  assumes "\<not> entry_used u"
  shows "dir_map (xs @ u # ys) = dir_map (xs @ ys)" "dir_wf (xs @ u # ys) = dir_wf (xs @ ys)"
  using assms by (simp_all add: dir_map_def dir_wf_def)

lemma dir_add:
  assumes "dir_wf (xs @ ys)" "dir_map (xs @ ys) (entry_name e) = None" "entry_used e"
  shows "dir_wf (xs @ e # ys)" "dir_map (xs @ e # ys) = (dir_map (xs @ ys))(entry_name e \<mapsto> sfd_ino e)"
proof -
  have fresh: "\<forall>x \<in> set (xs @ ys). entry_used x \<longrightarrow> entry_name x \<noteq> entry_name e" using assms(2) unfolding dir_map_None .
  then show wf: "dir_wf (xs @ e # ys)" using assms by (auto simp: dir_wf_def)
  show "dir_map (xs @ e # ys) = (dir_map (xs @ ys))(entry_name e \<mapsto> sfd_ino e)"
  proof -
    have "entry_name e \<notin> dom (dir_map xs)" using fresh dir_map_None [of xs "entry_name e"] by auto
    then show ?thesis using assms(3) by (simp add: dir_map_append dir_map_Cons map_add_upd_left)
  qed
qed

lemma dir_remove:
  assumes "dir_wf (xs @ e # ys)" "entry_used e"
  shows "dir_wf (xs @ ys)" "dir_map (xs @ ys) = (dir_map (xs @ e # ys))(entry_name e := None)"
proof -
  have fresh: "\<forall>x \<in> set (xs @ ys). entry_used x \<longrightarrow> entry_name x \<noteq> entry_name e"
    using assms by (auto simp: dir_wf_def image_iff)
  show wf: "dir_wf (xs @ ys)" using assms by (auto simp: dir_wf_def)
  have n: "dir_map (xs @ ys) (entry_name e) = None" using fresh unfolding dir_map_None .
  show "dir_map (xs @ ys) = (dir_map (xs @ e # ys))(entry_name e := None)"
    using dir_add(2) [OF wf n assms(2)] n by (simp add: fun_upd_idem)
qed

subsection \<open>Looking a name up\<close>

lemma dir_entries_nth: "k < unat (sfi_size i) div 64 \<Longrightarrow> dir_entries c i ! k = dec_dir (file_bytes c i (64 * k) 64)"
  by (simp add: dir_entries_def)

lemma dir_entries_length [simp]: "length (dir_entries c i) = unat (sfi_size i) div 64"
  by (simp add: dir_entries_def)

text \<open>The vnode at \<open>a\<close> is that of a directory.\<close>

definition dir_ready :: "('d \<Rightarrow> bool) \<Rightarrow> ('d \<Rightarrow> nat) \<Rightarrow> ('d \<Rightarrow> nat \<Rightarrow> blk) \<Rightarrow> 'd sfs_fs \<Rightarrow> addr \<Rightarrow> sfs_vnode \<Rightarrow> bool" where
  "dir_ready dinv dsize dblock s a sv \<longleftrightarrow> fs_ok dinv dsize s \<and> sfs_store s a = Some sv \<and> inode_ok (dblock (sfs_device s)) s (sv_i sv) \<and>
     unat (sfi_size (sv_i sv)) \<le> 512 * file_max \<and> sfi_type (sv_i sv) = 2 \<and> unat (sfi_size (sv_i sv)) mod 64 = 0 \<and>
     dir_wf (dir_entries (dblock (sfs_device s)) (sv_i sv))"

text \<open>An entry for the name.\<close>

lemma new_entry:
  assumes "ino \<noteq> 0" "length name \<le> 59" "0 \<notin> set name"
  defines "e \<equiv> \<lparr>sfd_ino = ino, sfd_name = name @ replicate (60 - length name) 0\<rparr>"
  shows "entry_used e" "entry_name e = name" "sfd_ino e = ino" "length (sfd_name e) = 60"
proof -
  have "(name @ replicate (60 - length name) (0 :: 8 word))[59 := 0] = name @ replicate (60 - length name) 0"
    using assms(2) by (intro nth_equalityI) (auto simp: nth_list_update nth_append)
  moreover have "takeWhile (\<lambda>c. c \<noteq> 0) (name @ replicate (60 - length name) 0) = name"
    using assms(2,3) by (subst takeWhile_append2) (auto simp: takeWhile_replicate)
  ultimately show "entry_name e = name" by (simp add: entry_name_def cstring_def e_def)
qed (use assms in \<open>simp_all add: entry_used_def\<close>)

lemma slot_position: "k < 2000000 \<Longrightarrow> (word_of_int (int k) * 64 :: 32 word) = of_nat (64 * k)"
  by (simp add: mult.commute)

context block_device
begin

lemma ready_same:
  assumes "dir_ready dinv dsize dblock s a sv" "same_fs dinv dsize dblock s s1"
  shows "dir_ready dinv dsize dblock s1 a sv"
  using assms(1) same_fs_ok [OF _ assms(2)] same_inode_ok [OF _ assms(2)] assms(2) by (auto simp: dir_ready_def same_fs_def)

lemma sfs_readdir_entry:
  assumes "dir_ready dinv dsize dblock s a sv" "k < unat (sfi_size (sv_i sv)) div 64"
  shows "\<exists>s1. sfs_readdir dio a (int k) s = Some (0, dir_entries (dblock (sfs_device s)) (sv_i sv) ! k, s1) \<and> same_fs dinv dsize dblock s s1"
proof -
  let ?u = "vkuio [] 64 (word_of_int (int k) * 64) UIO_READ"
  have r: "fs_ok dinv dsize s" "sfs_store s a = Some sv" "inode_ok (dblock (sfs_device s)) s (sv_i sv)" "unat (sfi_size (sv_i sv)) \<le> 512 * file_max"
    using assms(1) by (simp_all add: dir_ready_def)
  have k: "64 * k + 64 \<le> unat (sfi_size (sv_i sv))" using assms(2) by linarith
  then have lim: "64 * k + 64 \<le> 73216" using r(4) by (simp add: file_max_def)
  have u: "vu_rw ?u = UIO_READ" "vu_offset ?u = of_nat (64 * k)" "64 * k + unat (vu_resid ?u) < 2147483648"
    using slot_position [of k] lim by (simp_all add: vkuio_def)
  obtain s1 where "sfs_io dio a ?u s = Some (0, deliver (file_bytes (dblock (sfs_device s)) (sv_i sv) (64 * k) 64) ?u, s1)" "same_fs dinv dsize dblock s s1"
    using sfs_io_read [OF r u] k by (auto simp: vkuio_def)
  then show ?thesis using assms(2) by (simp add: sfs_readdir_def deliver_fields dir_entries_nth) (simp add: vkuio_def)
qed

lemma sfs_findname_scan:
  "dir_ready dinv dsize dblock s a sv \<Longrightarrow> i + length es \<le> unat (sfi_size (sv_i sv)) div 64 \<Longrightarrow>
    (\<And>k. k < length es \<Longrightarrow> dir_entries (dblock (sfs_device s)) (sv_i sv) ! (i + k) = es ! k) \<Longrightarrow> dir_wf es \<Longrightarrow>
    found \<noteq> None \<longrightarrow> scan_name name (int i) es = None \<Longrightarrow>
    \<exists>s1. sfs_findname_loop dio (length es) a name (int i) found free s =
      Some (if found \<noteq> None \<or> scan_name name (int i) es \<noteq> None then 0 else ENOENT,
        if found \<noteq> None then found else scan_name name (int i) es, scan_empty (int i) free es, s1) \<and> same_fs dinv dsize dblock s s1"
proof (induction es arbitrary: i found free s)
  case Nil
  then show ?case using same_fs_refl [of dinv s dsize dblock] by (cases found) (auto simp: dir_ready_def fs_ok_def)
next
  case (Cons e es)
  have i: "i < unat (sfi_size (sv_i sv)) div 64" using Cons.prems(2) by simp
  have e0: "dir_entries (dblock (sfs_device s)) (sv_i sv) ! i = e" using Cons.prems(3) [of 0] by simp
  obtain s1 where s1: "sfs_readdir dio a (int i) s = Some (0, e, s1)" "same_fs dinv dsize dblock s s1"
    using sfs_readdir_entry [OF Cons.prems(1) i] e0 by auto
  have r1: "dir_ready dinv dsize dblock s1 a sv" by (rule ready_same [OF Cons.prems(1) s1(2)])
  have c1: "dblock (sfs_device s1) = dblock (sfs_device s)" using s1(2) by (auto simp: same_fs_def)
  have nx: "dir_entries (dblock (sfs_device s1)) (sv_i sv) ! (Suc i + k) = es ! k" if "k < length es" for k
    using Cons.prems(3) [of "Suc k"] that c1 by simp
  have wf: "dir_wf es" using Cons.prems(4) by (auto simp: dir_wf_def split: if_splits)
  have len: "Suc i + length es \<le> unat (sfi_size (sv_i sv)) div 64" using Cons.prems(2) by simp
  note ih = Cons.IH [OF r1 len nx wf]
  have si: "int (Suc i) = int i + 1" by simp
  have uniq: "scan_name name (int i + 1) es = None" if "entry_used e" "entry_name e = name"
  proof -
    have "dir_map es name = None" using Cons.prems(4) that by (auto simp: dir_wf_def dir_map_None image_iff)
    then show ?thesis using scan_name_map [of name "int i + 1" es] by simp
  qed
  show ?case
  proof (cases "entry_used e")
    case False
    then show ?thesis using ih [of found "Some (int i)"] s1 Cons.prems(5) same_fs_trans [OF s1(2)] by (auto simp: entry_used_def add.commute)
  next
    case u: True
    show ?thesis
    proof (cases "entry_name e = name")
      case True
      then have "found = None" using Cons.prems(5) u by (cases found) auto
      then show ?thesis using ih [of "Some (sfd_ino e, int i)" free] s1 u True uniq same_fs_trans [OF s1(2)]
        by (auto simp: entry_used_def entry_name_def add.commute)
    next
      case False
      then show ?thesis using ih [of found free] s1 u Cons.prems(5) same_fs_trans [OF s1(2)]
        by (auto simp: entry_used_def entry_name_def add.commute)
    qed
  qed
qed

lemma sfs_dir_nentries_ok: "dir_ready dinv dsize dblock s a sv \<Longrightarrow> sfs_dir_nentries a s = Some (int (unat (sfi_size (sv_i sv)) div 64))"
proof -
  assume r: "dir_ready dinv dsize dblock s a sv"
  let ?z = "sfi_size (sv_i sv)"
  have m: "?z mod 64 = 0" using r by (simp add: dir_ready_def word_unat_eq_iff unat_mod)
  define q where "q = ?z div 64"
  have uq: "unat q = unat ?z div 64" by (simp add: q_def unat_div)
  moreover have "unat ?z \<le> 73216" using r by (simp add: dir_ready_def file_max_def)
  ultimately have "unat q < 2147483648" by linarith
  then have "sint q = int (unat q)" using sint_of_nat_ok [of "unat q"] by simp
  then have "sint (?z div 64) = int (unat ?z div 64)" by (simp only: uq q_def [symmetric])
  then show ?thesis using r m by (simp add: sfs_dir_nentries_def dir_ready_def)
qed

lemma sfs_dir_findname_scan:
  assumes "dir_ready dinv dsize dblock s a sv"
  defines "es \<equiv> dir_entries (dblock (sfs_device s)) (sv_i sv)"
  shows "\<exists>s1. sfs_dir_findname dio a name s =
      Some (if scan_name name 0 es \<noteq> None then 0 else ENOENT, scan_name name 0 es, scan_empty 0 None es, s1) \<and> same_fs dinv dsize dblock s s1"
proof -
  have wf: "dir_wf es" using assms by (simp add: dir_ready_def)
  have "\<exists>s1. sfs_findname_loop dio (length es) a name (int 0) None None s =
      Some (if scan_name name (int 0) es \<noteq> None then 0 else ENOENT, scan_name name (int 0) es, scan_empty (int 0) None es, s1) \<and> same_fs dinv dsize dblock s s1"
    using sfs_findname_scan [OF assms(1), of 0 es None name None] wf by (simp add: es_def)
  then show ?thesis using sfs_dir_nentries_ok [OF assms(1)] by (simp add: sfs_dir_findname_def es_def)
qed

subsection \<open>Adding and removing a name\<close>

text \<open>
  What \<open>sfs_writedir\<close> does to a directory. An entry lies in one block, so a write that fails has transferred nothing, and
  its bytes are in the kernel, so it cannot fault.
\<close>

definition dir_file :: "'d sfs_fs \<Rightarrow> addr \<Rightarrow> sfs_vnode \<Rightarrow> bool" where
  "dir_file s a sv \<longleftrightarrow> fs_ok dinv dsize s \<and> sfs_store s a = Some sv \<and> inode_ok (dblock (sfs_device s)) s (sv_i sv) \<and>
     unat (sfi_size (sv_i sv)) \<le> 512 * file_max \<and> sfi_type (sv_i sv) = 2 \<and> unat (sfi_size (sv_i sv)) mod 64 = 0"

lemma dir_ready_file: "dir_ready dinv dsize dblock s a sv \<longleftrightarrow> dir_file s a sv \<and> dir_wf (dir_entries (dblock (sfs_device s)) (sv_i sv))"
  by (auto simp: dir_ready_def dir_file_def)

lemma writedir_io:
  assumes "dir_file s a sv" "length (sfd_name sd) = 60" "k \<le> unat (sfi_size (sv_i sv)) div 64"
  defines "u \<equiv> vkuio (enc_dir sd) 64 (word_of_int (int k) * 64) UIO_WRITE"
  obtains r j s1 sv1 where "sfs_io dio a u s = Some (r, consume j u, s1)"
    "r = 0 \<and> j = 64 \<and> 64 * k + 64 \<le> 512 * file_max \<or> j = 0 \<and> write_stops (dblock (sfs_device s)) (sv_i sv) (64 * k) False r s1"
    "fs_ok dinv dsize s1" "sfs_store s1 a = Some sv1" "inode_ok (dblock (sfs_device s1)) s1 (sv_i sv1)"
    "unat (sfi_size (sv_i sv1)) = max (unat (sfi_size (sv_i sv))) (64 * k + j)"
    "\<And>n. n < 512 * file_max \<Longrightarrow> file_byte (dblock (sfs_device s1)) (sv_i sv1) n =
       (if 64 * k \<le> n \<and> n < 64 * k + j then enc_dir sd ! (n - 64 * k) else file_byte (dblock (sfs_device s)) (sv_i sv) n)"
    "sfi_type (sv_i sv1) = 2"
proof -
  have r: "fs_ok dinv dsize s" "sfs_store s a = Some sv" "inode_ok (dblock (sfs_device s)) s (sv_i sv)" "unat (sfi_size (sv_i sv)) \<le> 512 * file_max"
    "sfi_type (sv_i sv) = 2" using assms(1) by (simp_all add: dir_file_def)
  have le: "length (enc_dir sd) = 64" using assms(2) by (simp add: enc_dir_def enc32_def)
  have kb: "64 * k \<le> 73216" using assms(3) r(4) by (simp add: file_max_def)
  have u: "vu_rw u = UIO_WRITE" "vu_offset u = of_nat (64 * k)" "64 * k + unat (vu_resid u) < 2147483648" "unat (vu_resid u) \<le> length (vu_data u)"
    using slot_position [of k] kb le by (simp_all add: u_def vkuio_def)
  have n: "unat (vu_resid u) = 64" "vu_good u = 64" "vu_data u = enc_dir sd" by (simp_all add: u_def vkuio_def)
  obtain r0 j s1 sv1 where w: "sfs_io dio a u s = Some (r0, consume j u, s1)" "r0 = 0 \<and> j = 64 \<or> write_ends (64 * k) u s sv r0 j s1"
    "j = 0 \<or> 64 * k + j \<le> 512 * file_max"
    "fs_ok dinv dsize s1" "sfs_store s1 = (sfs_store s)(a \<mapsto> sv1)" "inode_ok (dblock (sfs_device s1)) s1 (sv_i sv1)"
    "unat (sfi_size (sv_i sv1)) = max (unat (sfi_size (sv_i sv))) (64 * k + j)"
    "\<forall>n < 512 * file_max. file_byte (dblock (sfs_device s1)) (sv_i sv1) n =
       (if 64 * k \<le> n \<and> n < 64 * k + j then enc_dir sd ! (n - 64 * k) else file_byte (dblock (sfs_device s)) (sv_i sv) n)"
    "sfi_type (sv_i sv1) = sfi_type (sv_i sv)"
    using sfs_io_write [OF r(1-4) u] unfolding n by (elim exE conjE) (rule that; assumption)
  have "r0 = 0 \<and> j = 64 \<and> 64 * k + 64 \<le> 512 * file_max \<or> j = 0 \<and> write_stops (dblock (sfs_device s)) (sv_i sv) (64 * k) False r0 s1"
  proof (cases "r0 = 0 \<and> j = 64")
    case False
    then have e: "write_ends (64 * k) u s sv r0 j s1" using w(2) by blast
    have "j = 0" if m: "(64 * k + j) mod 512 = 0" "j < 64"
    proof -
      have "512 dvd 64 * k + j" using m(1) by (simp only: dvd_eq_mod_eq_0)
      then have "64 dvd 64 * k + j" by (rule dvd_trans [rotated]) simp
      then have "64 dvd j" by (simp add: dvd_add_right_iff)
      then show ?thesis using m(2) by (auto dest: dvd_imp_le)
    qed
    then have "j = 0" using e by (auto simp: write_ends_def n)
    then show ?thesis using e by (simp add: write_ends_def n)
  qed (use w(3) in auto)
  then show thesis using w r(5) by (intro that [of r0 j s1 sv1]) auto
qed

lemma sfs_writedir_entries:
  assumes "dir_file s a sv" "length (sfd_name sd) = 60" "k \<le> unat (sfi_size (sv_i sv)) div 64"
  defines "es \<equiv> dir_entries (dblock (sfs_device s)) (sv_i sv)"
  shows "\<exists>r s1 sv1. sfs_writedir dio a sd (int k) s = Some (r, s1) \<and> dir_file s1 a sv1 \<and>
    (r = 0 \<and> dir_entries (dblock (sfs_device s1)) (sv_i sv1) = take k es @ sd # drop (Suc k) es \<or>
     write_stops (dblock (sfs_device s)) (sv_i sv) (64 * k) False r s1 \<and> dir_entries (dblock (sfs_device s1)) (sv_i sv1) = es)"
proof (rule writedir_io [OF assms(1-3)])
  let ?u = "vkuio (enc_dir sd) 64 (word_of_int (int k) * 64) UIO_WRITE"
  let ?c = "dblock (sfs_device s)" and ?z = "unat (sfi_size (sv_i sv))"
  have zz: "?z \<le> 512 * file_max" "?z = 64 * (?z div 64)" using assms(1) by (auto simp: dir_file_def)
  have le: "length (enc_dir sd) = 64" using assms(2) by (simp add: enc_dir_def enc32_def)
  fix r j sv1 and s1 :: "'d sfs_fs"
  let ?c1 = "dblock (sfs_device s1)"
  assume w: "sfs_io dio a ?u s = Some (r, consume j ?u, s1)"
    "r = 0 \<and> j = 64 \<and> 64 * k + 64 \<le> 512 * file_max \<or> j = 0 \<and> write_stops ?c (sv_i sv) (64 * k) False r s1"
    "fs_ok dinv dsize s1" "sfs_store s1 a = Some sv1" "inode_ok ?c1 s1 (sv_i sv1)"
    "unat (sfi_size (sv_i sv1)) = max ?z (64 * k + j)"
    "\<And>n. n < 512 * file_max \<Longrightarrow> file_byte ?c1 (sv_i sv1) n =
       (if 64 * k \<le> n \<and> n < 64 * k + j then enc_dir sd ! (n - 64 * k) else file_byte ?c (sv_i sv) n)"
    "sfi_type (sv_i sv1) = 2"
  show ?thesis
  proof (cases "r = 0")
    case False
    then have f: "j = 0" "write_stops ?c (sv_i sv) (64 * k) False r s1" using w(2) by auto
    have z1: "unat (sfi_size (sv_i sv1)) = ?z" using w(6) f(1) assms(3) zz(2) by (simp add: max_def)
    have "file_bytes ?c1 (sv_i sv1) (64 * n) 64 = file_bytes ?c (sv_i sv) (64 * n) 64" if "n < ?z div 64" for n
      using w(7) f(1) that zz by (auto simp: file_bytes_def)
    then have "dir_entries ?c1 (sv_i sv1) = es" using z1 by (simp add: dir_entries_def es_def)
    moreover have "sfs_writedir dio a sd (int k) s = Some (r, s1)" using w(1) False by (simp add: sfs_writedir_def)
    moreover have "dir_file s1 a sv1" using w(3,4,5,8) z1 zz assms(1) by (simp add: dir_file_def)
    ultimately show ?thesis using f(2) by blast
  next
    case True
    then have j: "j = 64" "64 * k + 64 \<le> 512 * file_max" using w(2) by (auto simp: write_stops_def)
    have st: "sfs_writedir dio a sd (int k) s = Some (0, s1)"
      using w(1) True j by (simp add: sfs_writedir_def consume_fields) (simp add: vkuio_def)
    have z1: "unat (sfi_size (sv_i sv1)) = 64 * max (?z div 64) (Suc k)" using w(6) j zz(2) by (auto simp: max_def)
    have eb: "file_bytes ?c1 (sv_i sv1) (64 * n) 64 = (if n = k then enc_dir sd else file_bytes ?c (sv_i sv) (64 * n) 64)" if n: "64 * n + 64 \<le> 512 * file_max" for n
    proof (rule nth_equalityI)
      fix m assume "m < length (file_bytes ?c1 (sv_i sv1) (64 * n) 64)"
      then have m: "m < 64" by simp
      have "64 * k \<le> 64 * n + m \<and> 64 * n + m < 64 * k + 64 \<longleftrightarrow> n = k" using m by auto
      then show "file_bytes ?c1 (sv_i sv1) (64 * n) 64 ! m = (if n = k then enc_dir sd else file_bytes ?c (sv_i sv) (64 * n) 64) ! m"
        using w(7) j n m by (simp add: file_bytes_def)
    qed (simp add: le)
    have "dir_entries ?c1 (sv_i sv1) = take k es @ sd # drop (Suc k) es"
    proof (rule nth_equalityI)
      show "length (dir_entries ?c1 (sv_i sv1)) = length (take k es @ sd # drop (Suc k) es)"
        using z1 assms(3) by (simp add: es_def max_def)
      fix n assume "n < length (dir_entries ?c1 (sv_i sv1))"
      then have n: "n < max (?z div 64) (Suc k)" using z1 by simp
      have lim: "64 * n + 64 \<le> 512 * file_max" using n zz j(2) by (auto simp: max_def split: if_splits)
      have "dir_entries ?c1 (sv_i sv1) ! n = dec_dir (if n = k then enc_dir sd else file_bytes ?c (sv_i sv) (64 * n) 64)"
        using n z1 by (simp add: dir_entries_def eb [OF lim])
      also have "\<dots> = (take k es @ sd # drop (Suc k) es) ! n"
        using n assms(3) dec_enc_dir [of sd] by (auto simp: nth_append es_def dir_entries_def min_def max_def nth_Cons' split: if_splits)
      finally show "dir_entries ?c1 (sv_i sv1) ! n = (take k es @ sd # drop (Suc k) es) ! n" .
    qed
    moreover have "unat (sfi_size (sv_i sv1)) mod 64 = 0" unfolding z1 by simp
    moreover have "unat (sfi_size (sv_i sv1)) \<le> 512 * file_max" using w(6) zz(1) j by simp
    ultimately show ?thesis using st w(3,4,5,8) True by (auto simp: dir_file_def)
  qed
qed

text \<open>A name has an entry, so its block exists: the bytes of the inode number are not all zero.\<close>

lemma used_entry_block:
  assumes "dir_file s a sv" "k < unat (sfi_size (sv_i sv)) div 64" "entry_used (dir_entries (dblock (sfs_device s)) (sv_i sv) ! k)"
  shows "data_ptrs (dblock (sfs_device s)) (sv_i sv) ! (64 * k div 512) \<noteq> 0"
proof
  assume z: "data_ptrs (dblock (sfs_device s)) (sv_i sv) ! (64 * k div 512) = 0"
  have b: "file_block (dblock (sfs_device s)) (sv_i sv) (64 * k div 512) = replicate 512 0" using z by (simp add: file_block_def)
  have "64 * k mod (64 * 8) = 64 * (k mod 8)" by (rule mod_mult_mult1)
  then have m: "64 * k mod 512 + 64 \<le> 512" by simp
  from file_bytes_slice [OF this, of "dblock (sfs_device s)" "sv_i sv"]
  have "file_bytes (dblock (sfs_device s)) (sv_i sv) (64 * k) 64 = take 64 (drop (64 * k mod 512) (replicate 512 0))" by (simp only: b length_replicate)
  also have "\<dots> = replicate 64 0" using m by (simp add: min_def)
  finally have "dir_entries (dblock (sfs_device s)) (sv_i sv) ! k = dec_dir (replicate 64 0)" using assms(2) by (simp add: dir_entries_nth)
  moreover have "sfd_ino (dec_dir (replicate 64 0)) = 0" by (simp add: dec_dir_def dec32_def numeral_eq_Suc)
  ultimately show False using assms(3) by (simp add: entry_used_def)
qed

lemma sfs_dir_link_map:
  assumes "dir_ready dinv dsize dblock s a sv" "ino \<noteq> 0" "0 \<notin> set name"
  defines "es \<equiv> dir_entries (dblock (sfs_device s)) (sv_i sv)"
  shows "\<exists>r k s1. sfs_dir_link dio a name ino s = Some (r, k, s1) \<and>
    (if dir_map es name \<noteq> None then r = EEXIST \<and> same_fs dinv dsize dblock s s1
     else if 59 < length name then r = ENAMETOOLONG \<and> same_fs dinv dsize dblock s s1
     else \<exists>j sv1. k = int j \<and> (j < length es \<and> \<not> entry_used (es ! j) \<or> j = length es \<and> (\<forall>e \<in> set es. entry_used e)) \<and>
       dir_ready dinv dsize dblock s1 a sv1 \<and>
       (r = 0 \<and> dir_map (dir_entries (dblock (sfs_device s1)) (sv_i sv1)) = (dir_map es)(name \<mapsto> ino) \<or>
        write_stops (dblock (sfs_device s)) (sv_i sv) (64 * j) False r s1 \<and>
        dir_map (dir_entries (dblock (sfs_device s1)) (sv_i sv1)) = dir_map es))"
proof -
  have wf: "dir_wf es" using assms(1) by (simp add: dir_ready_def es_def)
  obtain s1 where s1: "sfs_dir_findname dio a name s = Some (if scan_name name 0 es \<noteq> None then 0 else ENOENT, scan_name name 0 es, scan_empty 0 None es, s1)"
    "same_fs dinv dsize dblock s s1" using sfs_dir_findname_scan [OF assms(1), of name] unfolding es_def by blast
  have m: "dir_map es name = None \<longleftrightarrow> scan_name name 0 es = None" unfolding scan_name_map [of name 0 es, symmetric] by simp
  show ?thesis
  proof (cases "scan_name name 0 es = None \<and> length name \<le> 59")
    case False
    then have "sfs_dir_link dio a name ino s = Some (if dir_map es name \<noteq> None then EEXIST else ENAMETOOLONG, 0, s1)"
      using s1(1) m by (auto simp: sfs_dir_link_def)
    then show ?thesis using s1(2) m False by auto
  next
    case True
    then have None: "scan_name name 0 es = None" and ln59: "length name \<le> 59" by blast+
    define e where "e = \<lparr>sfd_ino = ino, sfd_name = name @ replicate (60 - length name) 0\<rparr>"
    note e = new_entry [OF assms(2) ln59 assms(3), folded e_def]
    have fresh: "dir_map es name = None" using m None by simp
    have r1: "dir_ready dinv dsize dblock s1 a sv" by (rule ready_same [OF assms(1) s1(2)])
    have c1: "dblock (sfs_device s1) = dblock (sfs_device s)" using s1(2) by (auto simp: same_fs_def)
    let ?n = "unat (sfi_size (sv_i sv)) div 64"
    have ln: "length es = ?n" by (simp add: es_def)
    define k where "k = (case scan_empty 0 None es of Some x \<Rightarrow> nat x | None \<Rightarrow> ?n)"
    have slot: "(case scan_empty 0 None es of Some x \<Rightarrow> Some x | None \<Rightarrow> sfs_dir_nentries a s1) = Some (int k)"
      using scan_empty_slot [of 0 None es] sfs_dir_nentries_ok [OF r1] by (auto simp: k_def split: option.split)
    have k: "k < length es \<and> \<not> entry_used (es ! k) \<or> k = length es \<and> (\<forall>e \<in> set es. entry_used e)"
      using scan_empty_slot [of 0 None es] scan_empty_None [of 0 None es] ln by (auto simp: k_def split: option.split)
    then have kn: "k \<le> ?n" using ln by auto
    have df: "dir_file s1 a sv" using r1 by (simp add: dir_ready_file)
    obtain r s2 sv1 where w: "sfs_writedir dio a e (int k) s1 = Some (r, s2)" "dir_file s2 a sv1"
      "r = 0 \<and> dir_entries (dblock (sfs_device s2)) (sv_i sv1) = take k es @ e # drop (Suc k) es \<or>
       write_stops (dblock (sfs_device s)) (sv_i sv) (64 * k) False r s2 \<and> dir_entries (dblock (sfs_device s2)) (sv_i sv1) = es"
      using sfs_writedir_entries [OF df e(4) kn, unfolded c1, folded es_def] by (elim exE conjE) (rule that; assumption)
    have st: "sfs_dir_link dio a name ino s = Some (r, int k, s2)"
      using s1(1) None w(1) ln59 slot by (simp add: sfs_dir_link_def e_def [symmetric])
    have rest: "dir_map (take k es @ drop (Suc k) es) = dir_map es" "dir_wf (take k es @ drop (Suc k) es) = dir_wf es"
      using k dir_skip [of "es ! k" "take k es" "drop (Suc k) es"] id_take_nth_drop [of k es] by auto
    have "dir_wf (take k es @ e # drop (Suc k) es)" "dir_map (take k es @ e # drop (Suc k) es) = (dir_map es)(name \<mapsto> ino)"
      using dir_add [of "take k es" "drop (Suc k) es" e] rest wf fresh e by simp_all
    then have "dir_ready dinv dsize dblock s2 a sv1 \<and>
       (r = 0 \<and> dir_map (dir_entries (dblock (sfs_device s2)) (sv_i sv1)) = (dir_map es)(name \<mapsto> ino) \<or>
        write_stops (dblock (sfs_device s)) (sv_i sv) (64 * k) False r s2 \<and>
        dir_map (dir_entries (dblock (sfs_device s2)) (sv_i sv1)) = dir_map es)"
      using w(2,3) wf by (auto simp: dir_ready_file)
    then show ?thesis using st k fresh ln59 by (intro exI [of _ r] exI [of _ "int k"] exI [of _ s2]) auto
  qed
qed

lemma sfs_dir_unlink_map:
  assumes "dir_ready dinv dsize dblock s a sv"
  defines "es \<equiv> dir_entries (dblock (sfs_device s)) (sv_i sv)"
  assumes "k < length es" "entry_used (es ! k)"
  shows "\<exists>s1 sv1. sfs_dir_unlink dio a (int k) s = Some (0, s1) \<and> dir_ready dinv dsize dblock s1 a sv1 \<and>
    dir_map (dir_entries (dblock (sfs_device s1)) (sv_i sv1)) = (dir_map es)(entry_name (es ! k) := None)"
proof -
  define e where "e = \<lparr>sfd_ino = 0, sfd_name = replicate 60 0\<rparr>"
  have e: "\<not> entry_used e" "length (sfd_name e) = 60" by (simp_all add: e_def entry_used_def)
  let ?z = "unat (sfi_size (sv_i sv))"
  have k: "k < ?z div 64" using assms(3) by (simp add: es_def)
  have df: "dir_file s a sv" and wf0: "dir_wf es" using assms(1) by (simp_all add: dir_ready_file es_def)
  have lim: "64 * k < 512 * file_max" using k df unfolding dir_file_def by linarith
  obtain r s2 sv1 where w: "sfs_writedir dio a e (int k) s = Some (r, s2)" "dir_file s2 a sv1"
      "r = 0 \<and> dir_entries (dblock (sfs_device s2)) (sv_i sv1) = take k es @ e # drop (Suc k) es \<or>
       write_stops (dblock (sfs_device s)) (sv_i sv) (64 * k) False r s2 \<and> dir_entries (dblock (sfs_device s2)) (sv_i sv1) = es"
    using sfs_writedir_entries [OF df e(2) less_imp_le [OF k], folded es_def] by (elim exE conjE) (rule that; assumption)
  have "\<not> write_stops (dblock (sfs_device s)) (sv_i sv) (64 * k) False r s2"
    using used_entry_block [OF df k] assms(4) lim by (simp add: write_stops_def es_def)
  then have r: "r = 0" "dir_entries (dblock (sfs_device s2)) (sv_i sv1) = take k es @ e # drop (Suc k) es" using w(3) by auto
  have wf: "dir_wf (take k es @ es ! k # drop (Suc k) es)" using wf0 id_take_nth_drop [OF assms(3)] by simp
  have "dir_wf (take k es @ e # drop (Suc k) es)" "dir_map (take k es @ e # drop (Suc k) es) = (dir_map es)(entry_name (es ! k) := None)"
    using dir_remove [OF wf assms(4)] dir_skip [OF e(1), of "take k es" "drop (Suc k) es"] id_take_nth_drop [OF assms(3)] by simp_all
  then show ?thesis using w(1,2) r by (auto simp: sfs_dir_unlink_def e_def dir_ready_file)
qed

end

subsection \<open>A directory with one entry\<close>

definition sample_entry :: "32 word \<Rightarrow> 8 word list \<Rightarrow> sfs_dir" where
  "sample_entry ino name = \<lparr>sfd_ino = ino, sfd_name = name @ replicate (60 - length name) 0\<rparr>"

definition sample_dir :: sfs_vnode where
  "sample_dir = sample_vnode 1 ((sample_inode 64 [5])\<lparr>sfi_type := 2\<rparr>)"

definition sample_dirfs :: "lhd sfs_fs" where
  "sample_dirfs = (sample_fs [])\<lparr>sfs_store := [48 \<mapsto> sample_dir],
     sfs_device := (sample_lhd [])\<lparr>lh_platter := (\<lambda>b. replicate 512 0)(5 := enc_dir (sample_entry 4 [97]) @ replicate 448 0)\<rparr>\<rparr>"

lemma sample_entry_used: "entry_used (sample_entry 4 [97])" "entry_name (sample_entry 4 [97]) = [97]" "length (enc_dir (sample_entry 4 [97])) = 64"
  using new_entry [of 4 "[97]"] by (simp_all add: sample_entry_def enc_dir_def enc32_def)

lemma sample_dir_entries: "dir_entries (disk sample_dirfs) (sv_i sample_dir) = [sample_entry 4 [97]]"
proof -
  let ?b = "enc_dir (sample_entry 4 [97]) @ replicate 448 0"
  have b: "file_block (disk sample_dirfs) (sv_i sample_dir) 0 = ?b"
    by (simp add: file_block_def data_ptrs_def sample_dirfs_def sample_dir_def sample_vnode_def sample_inode_def)
  have "file_bytes (disk sample_dirfs) (sv_i sample_dir) 0 64 = take 64 (drop (0 mod 512) (file_block (disk sample_dirfs) (sv_i sample_dir) (0 div 512)))"
    by (rule file_bytes_slice) (simp_all add: b sample_entry_used)
  then have "file_bytes (disk sample_dirfs) (sv_i sample_dir) 0 64 = enc_dir (sample_entry 4 [97])" by (simp add: b sample_entry_used)
  then show ?thesis by (simp add: dir_entries_def dec_enc_dir) (simp add: sample_dir_def sample_vnode_def sample_inode_def dec_enc_dir)
qed

lemma sample_dir_ready: "dir_ready lhd_ok lhd_size lh_platter sample_dirfs 48 sample_dir"
proof -
  have "fs_ok lhd_ok lhd_size sample_dirfs"
    using sample_fs_ok sample_entry_used by (auto simp: fs_ok_def sample_dirfs_def lhd_ok_def lhd_size_def sample_fs_def sample_lhd_def)
  moreover have "inode_ok (disk sample_dirfs) sample_dirfs (sv_i sample_dir)"
    using sample_used [of "[]"] by (simp add: inode_ok_def sample_dirfs_def sample_dir_def sample_vnode_def inode_blocks_def data_ptrs_def ind_words_def
        sample_inode_def inode_shape_def) (simp add: sample_fs_def)
  moreover have "dir_wf [sample_entry 4 [97]]" by (simp add: dir_wf_def)
  ultimately show ?thesis unfolding dir_ready_def sample_dir_entries
    by (simp add: sample_dirfs_def sample_dir_def sample_vnode_def sample_inode_def file_max_def)
qed

lemma sample_dir_map: "dir_map [sample_entry 4 [97]] = [[97] \<mapsto> 4]"
  using sample_entry_used by (simp add: dir_map_def) (simp add: sample_entry_def)

subsection \<open>Properties\<close>

text \<open>
  C13: On a disk without media errors, \<open>sfs_dir_findname\<close> looks the name up in the map the directory stands for: it returns 0 with the inode number of
  the name and the slot of an entry with it, or \<open>ENOENT\<close> when there is none; the free slot it reports, if any, is free;
  nothing on the disk changes.
\<close>

theorem sfs_dir_findname_looks_up:
  assumes hw: "lhd_device hw" and "dir_ready lhd_ok lhd_size lh_platter s a sv"
  defines "es \<equiv> dir_entries (disk s) (sv_i sv)"
  shows "\<exists>r found free s1. sfs_dir_findname (lhd_io hw) a name s = Some (r, found, free, s1) \<and> disk s1 = disk s \<and> sfs_store s1 = sfs_store s \<and>
    map_option fst found = dir_map es name \<and> r = (if dir_map es name = None then ENOENT else 0) \<and>
    (case found of None \<Rightarrow> True | Some (ino, k) \<Rightarrow> k \<ge> 0 \<and> nat k < length es \<and> entry_used (es ! nat k) \<and> entry_name (es ! nat k) = name) \<and>
    (case free of None \<Rightarrow> True | Some k \<Rightarrow> k \<ge> 0 \<and> nat k < length es \<and> \<not> entry_used (es ! nat k))"
proof -
  obtain s1 where s1: "sfs_dir_findname (lhd_io hw) a name s = Some (if scan_name name 0 es \<noteq> None then 0 else ENOENT, scan_name name 0 es, scan_empty 0 None es, s1)"
    "same_fs lhd_ok lhd_size lh_platter s s1"
    using block_device.sfs_dir_findname_scan [OF lhd_block_device [OF hw] assms(2), of name, folded es_def] by blast
  have m: "map_option fst (scan_name name 0 es) = dir_map es name" by (rule scan_name_map)
  have "(scan_name name 0 es = None) = (dir_map es name = None)" unfolding m [symmetric] by simp
  moreover have "case scan_name name 0 es of None \<Rightarrow> True | Some (ino, k) \<Rightarrow> k \<ge> 0 \<and> nat k < length es \<and> entry_used (es ! nat k) \<and> entry_name (es ! nat k) = name"
    using scan_name_slot [of name 0 es] by (fastforce split: option.split)
  moreover have "case scan_empty 0 None es of None \<Rightarrow> True | Some k \<Rightarrow> k \<ge> 0 \<and> nat k < length es \<and> \<not> entry_used (es ! nat k)"
    using scan_empty_slot [of 0 None es] by (fastforce split: option.split)
  ultimately show ?thesis using s1 m
    by (intro exI [of _ "if scan_name name 0 es \<noteq> None then 0 else ENOENT"] exI [of _ "scan_name name 0 es"] exI [of _ "scan_empty 0 None es"] exI [of _ s1])
      (auto simp: same_fs_def)
qed

theorem sfs_dir_findname_looks_up_witness:
  "\<exists>found free s1. sfs_dir_findname (lhd_io ideal_lhd) 48 [97] sample_dirfs = Some (0, found, free, s1) \<and> map_option fst found = Some 4"
  using sfs_dir_findname_looks_up [OF ideal_lhd_device sample_dir_ready, of "[97]"] by (auto simp: sample_dir_entries sample_dir_map)

text \<open>
  C12: On a disk without media errors, \<open>sfs_dir_link\<close> of a name (a string without the byte 0) to an inode number other
  than 0 adds the name to the map the directory stands for. A name that is there is refused with \<open>EEXIST\<close> and another one
  of more than 59 bytes with \<open>ENAMETOOLONG\<close>; then nothing changes. Otherwise the slot it reports is a free one, or the one
  behind the last if there is no free one. The directory is well formed afterwards, whatever the result. It stands for
  the map with the new name and the result is 0, or for the map as it was; the latter only with \<open>ENOSPC\<close> when the block of
  the slot did not exist and every block of the disk is in use, or with \<open>EINVAL\<close> when the directory has the greatest size
  of a file and no free slot.
\<close>

theorem sfs_dir_link_refines:
  assumes hw: "lhd_device hw" and "dir_ready lhd_ok lhd_size lh_platter s a sv" "ino \<noteq> 0" "0 \<notin> set name"
  defines "es \<equiv> dir_entries (disk s) (sv_i sv)"
  shows "\<exists>r k s1. sfs_dir_link (lhd_io hw) a name ino s = Some (r, k, s1) \<and>
    (if dir_map es name \<noteq> None then r = EEXIST \<and> same_fs lhd_ok lhd_size lh_platter s s1
     else if 59 < length name then r = ENAMETOOLONG \<and> same_fs lhd_ok lhd_size lh_platter s s1
     else \<exists>j sv1. k = int j \<and> (j < length es \<and> \<not> entry_used (es ! j) \<or> j = length es \<and> (\<forall>e \<in> set es. entry_used e)) \<and>
       dir_ready lhd_ok lhd_size lh_platter s1 a sv1 \<and>
       (r = 0 \<and> dir_map (dir_entries (disk s1) (sv_i sv1)) = (dir_map es)(name \<mapsto> ino) \<or>
        (r = ENOSPC \<and> disk_full s1 \<and> data_ptrs (disk s) (sv_i sv) ! (64 * j div 512) = 0 \<or> r = EINVAL \<and> 512 * file_max \<le> 64 * j) \<and>
        dir_map (dir_entries (disk s1) (sv_i sv1)) = dir_map es))"
proof -
  from block_device.sfs_dir_link_map [OF lhd_block_device [OF hw] assms(2-4), folded es_def] obtain r k s1
    where x: "sfs_dir_link (lhd_io hw) a name ino s = Some (r, k, s1)"
      "if dir_map es name \<noteq> None then r = EEXIST \<and> same_fs lhd_ok lhd_size lh_platter s s1
       else if 59 < length name then r = ENAMETOOLONG \<and> same_fs lhd_ok lhd_size lh_platter s s1
       else \<exists>j sv1. k = int j \<and> (j < length es \<and> \<not> entry_used (es ! j) \<or> j = length es \<and> (\<forall>e \<in> set es. entry_used e)) \<and>
         dir_ready lhd_ok lhd_size lh_platter s1 a sv1 \<and>
         (r = 0 \<and> dir_map (dir_entries (disk s1) (sv_i sv1)) = (dir_map es)(name \<mapsto> ino) \<or>
          write_stops (disk s) (sv_i sv) (64 * j) False r s1 \<and> dir_map (dir_entries (disk s1) (sv_i sv1)) = dir_map es)" by blast
  show ?thesis
  proof (cases "dir_map es name \<noteq> None \<or> 59 < length name")
    case True
    then show ?thesis using x by (intro exI [of _ r] exI [of _ k] exI [of _ s1]) auto
  next
    case False
    then obtain j sv1 where j: "k = int j" "j < length es \<and> \<not> entry_used (es ! j) \<or> j = length es \<and> (\<forall>e \<in> set es. entry_used e)"
      "dir_ready lhd_ok lhd_size lh_platter s1 a sv1"
      "r = 0 \<and> dir_map (dir_entries (disk s1) (sv_i sv1)) = (dir_map es)(name \<mapsto> ino) \<or>
       write_stops (disk s) (sv_i sv) (64 * j) False r s1 \<and> dir_map (dir_entries (disk s1) (sv_i sv1)) = dir_map es"
      using x(2) by auto
    have "r = 0 \<and> dir_map (dir_entries (disk s1) (sv_i sv1)) = (dir_map es)(name \<mapsto> ino) \<or>
        (r = ENOSPC \<and> disk_full s1 \<and> data_ptrs (disk s) (sv_i sv) ! (64 * j div 512) = 0 \<or> r = EINVAL \<and> 512 * file_max \<le> 64 * j) \<and>
        dir_map (dir_entries (disk s1) (sv_i sv1)) = dir_map es"
      using j(4) unfolding write_stops_def by blast
    then show ?thesis unfolding if_not_P [OF False [unfolded de_Morgan_disj, THEN conjunct1]] if_not_P [OF False [unfolded de_Morgan_disj, THEN conjunct2]]
      by (intro exI [of _ r] exI [of _ k] exI [of _ s1] exI [of _ j] exI [of _ sv1] conjI x(1) j(1,2,3))
  qed
qed

theorem sfs_dir_link_refines_witness:
  "(\<exists>k s1. sfs_dir_link (lhd_io ideal_lhd) 48 [97] 3 sample_dirfs = Some (EEXIST, k, s1) \<and> disk s1 = disk sample_dirfs) \<and>
   (\<exists>s1 sv1. sfs_dir_link (lhd_io ideal_lhd) 48 [98] 3 sample_dirfs = Some (0, 1, s1) \<and>
     dir_ready lhd_ok lhd_size lh_platter s1 48 sv1 \<and> dir_map (dir_entries (disk s1) (sv_i sv1)) = [[97] \<mapsto> 4, [98] \<mapsto> 3])"
proof -
  have p: "data_ptrs (disk sample_dirfs) (sv_i sample_dir) ! 0 = 5"
    by (simp add: sample_dir_def sample_vnode_def sample_inode_def data_ptrs_def)
  have "\<exists>k s1. sfs_dir_link (lhd_io ideal_lhd) 48 [97] 3 sample_dirfs = Some (EEXIST, k, s1) \<and> disk s1 = disk sample_dirfs"
    using sfs_dir_link_refines [OF ideal_lhd_device sample_dir_ready, of 3 "[97]"] unfolding sample_dir_entries sample_dir_map
    by (auto simp: same_fs_def)
  moreover have "\<exists>s1 sv1. sfs_dir_link (lhd_io ideal_lhd) 48 [98] 3 sample_dirfs = Some (0, 1, s1) \<and>
     dir_ready lhd_ok lhd_size lh_platter s1 48 sv1 \<and> dir_map (dir_entries (disk s1) (sv_i sv1)) = [[97] \<mapsto> 4, [98] \<mapsto> 3]"
  proof -
    obtain r k s1 j sv1 where x: "sfs_dir_link (lhd_io ideal_lhd) 48 [98] 3 sample_dirfs = Some (r, k, s1)" "k = int j"
      "j < 1 \<and> \<not> entry_used ([sample_entry 4 [97]] ! j) \<or> j = 1" "dir_ready lhd_ok lhd_size lh_platter s1 48 sv1"
      "r = 0 \<and> dir_map (dir_entries (disk s1) (sv_i sv1)) = [[97] \<mapsto> 4, [98] \<mapsto> 3] \<or>
       (r = ENOSPC \<and> data_ptrs (disk sample_dirfs) (sv_i sample_dir) ! (64 * j div 512) = 0 \<or> r = EINVAL \<and> 512 * file_max \<le> 64 * j)"
      using sfs_dir_link_refines [OF ideal_lhd_device sample_dir_ready, of 3 "[98]"] unfolding sample_dir_entries sample_dir_map
      by fastforce
    have "j = 1" using x(3) by (auto simp: sample_entry_used)
    then show ?thesis using x p by (auto simp: file_max_def)
  qed
  ultimately show ?thesis by blast
qed

text \<open>
  C14: On a disk without media errors, \<open>sfs_dir_unlink\<close> of the slot of a name always succeeds. It removes that name, and only
  that name, from the map the directory stands for, and the directory is well formed afterwards. The entry's block
  exists, so no block is allocated even when the disk is full.
\<close>

theorem sfs_dir_unlink_refines:
  assumes hw: "lhd_device hw" and "dir_ready lhd_ok lhd_size lh_platter s a sv"
  defines "es \<equiv> dir_entries (disk s) (sv_i sv)"
  assumes "k < length es" "entry_used (es ! k)"
  shows "\<exists>s1 sv1. sfs_dir_unlink (lhd_io hw) a (int k) s = Some (0, s1) \<and> dir_ready lhd_ok lhd_size lh_platter s1 a sv1 \<and>
    dir_map (dir_entries (disk s1) (sv_i sv1)) = (dir_map es)(entry_name (es ! k) := None)"
  using assms(4,5) unfolding es_def by (rule block_device.sfs_dir_unlink_map [OF lhd_block_device [OF hw] assms(2)])

theorem sfs_dir_unlink_refines_witness:
  "\<exists>s1 sv1. sfs_dir_unlink (lhd_io ideal_lhd) 48 0 sample_dirfs = Some (0, s1) \<and> dir_ready lhd_ok lhd_size lh_platter s1 48 sv1 \<and>
    dir_map (dir_entries (disk s1) (sv_i sv1)) = Map.empty"
  using sfs_dir_unlink_refines [OF ideal_lhd_device sample_dir_ready, of 0] unfolding sample_dir_entries sample_dir_map
  by (simp add: sample_entry_used)

end
