(* ===== verification/K_Kheap.thy ===== *)
theory K_Kheap
  imports K_Coremap L_String
begin

unbundle bit_operations_syntax

section \<open>The kernel heap: \<^verbatim>\<open>kern/lib/kheap.c\<close>\<close>

text \<open>
  The subpage allocator cuts pages into blocks of one size each; the free blocks of a page are linked
  through their first word, and the table of page references is linked twice, by size and all
  together. Pages come from the functions \<open>pa\<close> and \<open>pf\<close>, for \<open>alloc_kpages\<close> and \<open>free_kpages\<close>, whose contract
  the coremap keeps. A pointer to a page reference is its index in the table. The memory has a word at every
  aligned address. The checks of \<open>SLOW\<close> are not compiled.
\<close>

record pageref =
  next_samesize :: "nat nullable"
  next_all :: "nat nullable"
  pageaddr_and_blocktype :: "32 word"
  freelist_offset :: "16 word"
  nfree :: "16 word"

record 'p kheap =
  pagerefs :: "pageref list"
  pagerefs_inuse :: "32 word list"
  sizebases :: "nat nullable list"
  allbase :: "nat nullable"
  kh_mem :: "32 word \<Rightarrow> 32 word"
  kh_pages :: 'p

text \<open>The static variables before the first call.\<close>

definition kheap_init :: "'p \<Rightarrow> 'p kheap" where
  "kheap_init p = \<lparr>pagerefs = replicate 256 \<lparr>next_samesize = NULL, next_all = NULL, pageaddr_and_blocktype = 0, freelist_offset = 0, nfree = 0\<rparr>,
     pagerefs_inuse = replicate 8 0, sizebases = replicate 8 NULL, allbase = NULL, kh_mem = (\<lambda>_. 0), kh_pages = p\<rparr>"

definition sizes :: "32 word list" where
  "sizes = [16, 32, 64, 128, 256, 512, 1024, 2048]"

definition NPAGEREFS :: nat where "NPAGEREFS = 256"

definition PR_PAGEADDR :: "pageref \<Rightarrow> 32 word" where
  "PR_PAGEADDR pr = pageaddr_and_blocktype pr AND PAGE_FRAME"

definition PR_BLOCKTYPE :: "pageref \<Rightarrow> 32 word" where
  "PR_BLOCKTYPE pr = pageaddr_and_blocktype pr AND NOT PAGE_FRAME"

definition MKPAB :: "32 word \<Rightarrow> 32 word \<Rightarrow> 32 word" where
  "MKPAB pa blk = (pa AND PAGE_FRAME) OR (blk AND NOT PAGE_FRAME)"

abbreviation (input) INVALID_OFFSET :: "16 word" where "INVALID_OFFSET \<equiv> 0xffff"
abbreviation (input) LARGEST_SUBPAGE_SIZE :: "32 word" where "LARGEST_SUBPAGE_SIZE \<equiv> 2048"

primrec fill_deadbeef_loop :: "nat \<Rightarrow> 32 word \<Rightarrow> (32 word \<Rightarrow> 32 word) \<Rightarrow> 32 word \<Rightarrow> 32 word" where
  "fill_deadbeef_loop 0 ptr m = m"
| "fill_deadbeef_loop (Suc n) ptr m = (fill_deadbeef_loop n ptr m)(ptr + of_nat n * 4 := 0xdeadbeef)"

definition fill_deadbeef :: "32 word \<Rightarrow> 32 word \<Rightarrow> (32 word \<Rightarrow> 32 word) \<Rightarrow> 32 word \<Rightarrow> 32 word" where
  "fill_deadbeef ptr len m = fill_deadbeef_loop (unat (len div 4)) ptr m"

subsection \<open>Page references\<close>

text \<open>The search for a clear bit from bit \<open>j\<close> on, \<open>n\<close> bits left; the assertion behind the loop is \<open>None\<close>.\<close>

primrec allocpageref_bit :: "nat \<Rightarrow> nat \<Rightarrow> 32 word \<Rightarrow> nat option" where
  "allocpageref_bit 0 j w = None"
| "allocpageref_bit (Suc n) j w = (if w AND push_bit j 1 = 0 then Some j else allocpageref_bit n (Suc j) w)"

primrec allocpageref_loop :: "nat \<Rightarrow> nat \<Rightarrow> 'p kheap \<Rightarrow> (nat nullable \<times> 'p kheap) option" where
  "allocpageref_loop 0 i h = Some (NULL, h)"
| "allocpageref_loop (Suc n) i h = do {
     w \<leftarrow> rd (pagerefs_inuse h) i;
     if w = 0xffffffff then allocpageref_loop n (Suc i) h
     else do {
       j \<leftarrow> allocpageref_bit 32 0 w;
       inuse \<leftarrow> wr (pagerefs_inuse h) i (w OR push_bit j 1);
       Some (Ptr (i * 32 + j), h\<lparr>pagerefs_inuse := inuse\<rparr>)
     }
   }"

definition allocpageref :: "'p kheap \<Rightarrow> (nat nullable \<times> 'p kheap) option" where
  "allocpageref h = allocpageref_loop (NPAGEREFS div 32) 0 h"

definition freepageref :: "nat \<Rightarrow> 'p kheap \<Rightarrow> 'p kheap option" where
  "freepageref p h = do {
     kassert (p < NPAGEREFS);
     w \<leftarrow> rd (pagerefs_inuse h) (p div 32);
     let k = push_bit (p mod 32) 1;
     kassert (w AND k \<noteq> 0);
     inuse \<leftarrow> wr (pagerefs_inuse h) (p div 32) (w AND NOT k);
     Some (h\<lparr>pagerefs_inuse := inuse\<rparr>)
   }"

subsection \<open>The lists of pages\<close>

definition upd_pageref :: "nat \<Rightarrow> (pageref \<Rightarrow> pageref) \<Rightarrow> 'p kheap \<Rightarrow> 'p kheap option" where
  "upd_pageref g f h = do {
     r \<leftarrow> rd (pagerefs h) g;
     refs \<leftarrow> wr (pagerefs h) g (f r);
     Some (h\<lparr>pagerefs := refs\<rparr>)
   }"

text \<open>
  The loops of \<open>remove_lists\<close> walk over the places that hold a pointer: the base of the list or the link of
  the page reference \<open>guy\<close> before. A list with a cycle gives no result.
\<close>

partial_function (option) remove_samesize :: "nat \<Rightarrow> nat \<Rightarrow> nat nullable \<Rightarrow> 'p kheap \<Rightarrow> 'p kheap option" where
  "remove_samesize pr blktype guy h = do {
     p \<leftarrow> (case guy of NULL \<Rightarrow> rd (sizebases h) blktype | Ptr g \<Rightarrow> map_option next_samesize (rd (pagerefs h) g));
     (case p of
        NULL \<Rightarrow> Some h
      | Ptr q \<Rightarrow>
          if q = pr then do {
            r \<leftarrow> rd (pagerefs h) pr;
            (case guy of
               NULL \<Rightarrow> do { bases \<leftarrow> wr (sizebases h) blktype (next_samesize r); Some (h\<lparr>sizebases := bases\<rparr>) }
             | Ptr g \<Rightarrow> upd_pageref g (\<lambda>x. x\<lparr>next_samesize := next_samesize r\<rparr>) h)
          }
          else remove_samesize pr blktype (Ptr q) h)
   }"

partial_function (option) remove_all :: "nat \<Rightarrow> nat nullable \<Rightarrow> 'p kheap \<Rightarrow> 'p kheap option" where
  "remove_all pr guy h = do {
     p \<leftarrow> (case guy of NULL \<Rightarrow> Some (allbase h) | Ptr g \<Rightarrow> map_option next_all (rd (pagerefs h) g));
     (case p of
        NULL \<Rightarrow> Some h
      | Ptr q \<Rightarrow>
          if q = pr then do {
            r \<leftarrow> rd (pagerefs h) pr;
            (case guy of
               NULL \<Rightarrow> Some (h\<lparr>allbase := next_all r\<rparr>)
             | Ptr g \<Rightarrow> upd_pageref g (\<lambda>x. x\<lparr>next_all := next_all r\<rparr>) h)
          }
          else remove_all pr (Ptr q) h)
   }"

definition remove_lists :: "nat \<Rightarrow> int \<Rightarrow> 'p kheap \<Rightarrow> 'p kheap option" where
  "remove_lists pr blktype h = do {
     kassert (blktype \<ge> 0 \<and> blktype < 8);
     h1 \<leftarrow> remove_samesize pr (nat blktype) NULL h;
     remove_all pr NULL h1
   }"

text \<open>The loop over the sizes from index \<open>i\<close> on; the panic behind it is \<open>None\<close>.\<close>

fun blocktype_loop :: "32 word \<Rightarrow> nat \<Rightarrow> 32 word list \<Rightarrow> nat option" where
  "blocktype_loop sz i [] = None"
| "blocktype_loop sz i (x # xs) = (if sz \<le> x then Some i else blocktype_loop sz (Suc i) xs)"

definition blocktype :: "32 word \<Rightarrow> nat option" where
  "blocktype sz = blocktype_loop sz 0 sizes"

subsection \<open>Allocation of blocks\<close>

partial_function (option) kmalloc_search :: "nat \<Rightarrow> nat nullable \<Rightarrow> 'p kheap \<Rightarrow> nat nullable option" where
  "kmalloc_search blktype pr h =
     (case pr of
        NULL \<Rightarrow> Some NULL
      | Ptr g \<Rightarrow> do {
          r \<leftarrow> rd (pagerefs h) g;
          kassert (PR_BLOCKTYPE r = of_nat blktype);
          if nfree r > 0 then Some (Ptr g) else kmalloc_search blktype (next_samesize r) h
        })"

text \<open>The part behind the label \<open>doalloc\<close>.\<close>

definition doalloc :: "nat \<Rightarrow> 'p kheap \<Rightarrow> (32 word \<times> 'p kheap) option" where
  "doalloc g h = do {
     r \<leftarrow> rd (pagerefs h) g;
     kassert (ucast (freelist_offset r) < PAGE_SIZE);
     let prpage = PR_PAGEADDR r;
     let fla = prpage + ucast (freelist_offset r);
     let fl = kh_mem h fla;
     let n = nfree r - 1;
     if fl \<noteq> 0 then do {
       kassert (n > 0);
       kassert (fl - prpage < PAGE_SIZE);
       h1 \<leftarrow> upd_pageref g (\<lambda>x. x\<lparr>nfree := n, freelist_offset := ucast (fl - prpage)\<rparr>) h;
       Some (fla, h1)
     }
     else do {
       kassert (n = 0);
       h1 \<leftarrow> upd_pageref g (\<lambda>x. x\<lparr>nfree := n, freelist_offset := INVALID_OFFSET\<rparr>) h;
       Some (fla, h1)
     }
   }"

text \<open>Linking the blocks of a fresh page: \<open>n\<close> rounds left, block \<open>i\<close> next.\<close>

primrec link_blocks :: "nat \<Rightarrow> nat \<Rightarrow> 32 word \<Rightarrow> 32 word \<Rightarrow> (32 word \<Rightarrow> 32 word) \<Rightarrow> (32 word \<Rightarrow> 32 word) option" where
  "link_blocks 0 i fla sz m = Some m"
| "link_blocks (Suc n) i fla sz m = do {
     let fl = fla + of_nat i * sz;
     let m1 = m(fl := fla + of_nat (i - 1) * sz);
     kassert (fl \<noteq> m1 fl);
     link_blocks n (Suc i) fla sz m1
   }"

text \<open>\<open>subpage_kmalloc\<close> between \<open>splhigh\<close> and \<open>splx\<close>.\<close>

definition subpage_alloc :: "(int \<Rightarrow> 'p \<Rightarrow> (32 word \<times> 'p) option) \<Rightarrow> nat \<Rightarrow> 'p kheap \<Rightarrow> (32 word \<times> 'p kheap) option" where
  "subpage_alloc pa blktype h = do {
     sz \<leftarrow> rd sizes blktype;
     base \<leftarrow> rd (sizebases h) blktype;
     found \<leftarrow> kmalloc_search blktype base h;
     (case found of
        Ptr g \<Rightarrow> doalloc g h
      | NULL \<Rightarrow> do {
          (pr, h1) \<leftarrow> allocpageref h;
          (case pr of
             NULL \<Rightarrow> Some (0, h1)
           | Ptr g \<Rightarrow> do {
               (prpage, p) \<leftarrow> pa 1 (kh_pages h1);
               let h2 = h1\<lparr>kh_pages := p\<rparr>;
               if prpage = 0 then do { h3 \<leftarrow> freepageref g h2; Some (0, h3) }
               else do {
                 let n = (ucast (PAGE_SIZE div sz) :: 16 word);
                 m \<leftarrow> link_blocks (unat n - 1) 1 prpage sz ((kh_mem h2)(prpage := 0));
                 let fla = prpage + of_nat (unat n - 1) * sz;
                 let off = (ucast (fla - prpage) :: 16 word);
                 kassert (ucast off = of_nat (unat n - 1) * sz);
                 bases \<leftarrow> wr (sizebases h2) blktype (Ptr g);
                 h3 \<leftarrow> upd_pageref g (\<lambda>x. x\<lparr>pageaddr_and_blocktype := MKPAB prpage (of_nat blktype), nfree := n, freelist_offset := off,
                   next_samesize := base, next_all := allbase h2\<rparr>) (h2\<lparr>kh_mem := m\<rparr>);
                 doalloc g (h3\<lparr>sizebases := bases, allbase := Ptr g\<rparr>)
               }
             })
        })
   }"

definition subpage_kmalloc :: "(int \<Rightarrow> 'p \<Rightarrow> (32 word \<times> 'p) option) \<Rightarrow> 32 word \<Rightarrow> 'p kheap kstate \<Rightarrow> (32 word \<times> 'p kheap kstate) option" where
  "subpage_kmalloc pa sz s = do {
     blktype \<leftarrow> blocktype sz;
     let (spl, s1) = splhigh s;
     (ret, h) \<leftarrow> subpage_alloc pa blktype (world s1);
     Some (ret, snd (splx spl (s1\<lparr>world := h\<rparr>)))
   }"

subsection \<open>Freeing\<close>

partial_function (option) kfree_search :: "32 word \<Rightarrow> nat nullable \<Rightarrow> 'p kheap \<Rightarrow> nat nullable option" where
  "kfree_search ptraddr pr h =
     (case pr of
        NULL \<Rightarrow> Some NULL
      | Ptr g \<Rightarrow> do {
          r \<leftarrow> rd (pagerefs h) g;
          kassert (PR_BLOCKTYPE r < 8);
          if ptraddr \<ge> PR_PAGEADDR r \<and> ptraddr < PR_PAGEADDR r + PAGE_SIZE then Some (Ptr g) else kfree_search ptraddr (next_all r) h
        })"

text \<open>\<open>subpage_kfree\<close> between \<open>splhigh\<close> and \<open>splx\<close>.\<close>

definition subpage_free :: "(32 word \<Rightarrow> 'p \<Rightarrow> 'p option) \<Rightarrow> 32 word \<Rightarrow> 'p kheap \<Rightarrow> (int \<times> 'p kheap) option" where
  "subpage_free pf ptraddr h = do {
     found \<leftarrow> kfree_search ptraddr (allbase h) h;
     (case found of
        NULL \<Rightarrow> Some (- 1, h)
      | Ptr g \<Rightarrow> do {
          r \<leftarrow> rd (pagerefs h) g;
          let prpage = PR_PAGEADDR r;
          let blktype = unat (PR_BLOCKTYPE r);
          sz \<leftarrow> rd sizes blktype;
          let offset = ptraddr - prpage;
          kassert (\<not> (offset \<ge> PAGE_SIZE \<or> offset mod sz \<noteq> 0));
          let m = fill_deadbeef ptraddr sz (kh_mem h);
          let fla = prpage + offset;
          let m1 = m(fla := (if freelist_offset r = INVALID_OFFSET then 0 else prpage + ucast (freelist_offset r)));
          let n = nfree r + 1;
          h1 \<leftarrow> upd_pageref g (\<lambda>x. x\<lparr>freelist_offset := ucast offset, nfree := n\<rparr>) (h\<lparr>kh_mem := m1\<rparr>);
          kassert (ucast n \<le> PAGE_SIZE div sz);
          if ucast n = PAGE_SIZE div sz then do {
            h2 \<leftarrow> remove_lists g (int blktype) h1;
            p \<leftarrow> pf prpage (kh_pages h2);
            h3 \<leftarrow> freepageref g (h2\<lparr>kh_pages := p\<rparr>);
            Some (0, h3)
          }
          else Some (0, h1)
        })
   }"

definition subpage_kfree :: "(32 word \<Rightarrow> 'p \<Rightarrow> 'p option) \<Rightarrow> 32 word \<Rightarrow> 'p kheap kstate \<Rightarrow> (int \<times> 'p kheap kstate) option" where
  "subpage_kfree pf ptr s = do {
     let (spl, s1) = splhigh s;
     (ret, h) \<leftarrow> subpage_free pf ptr (world s1);
     Some (ret, snd (splx spl (s1\<lparr>world := h\<rparr>)))
   }"

definition kmalloc :: "(int \<Rightarrow> 'p \<Rightarrow> (32 word \<times> 'p) option) \<Rightarrow> 32 word \<Rightarrow> 'p kheap kstate \<Rightarrow> (32 word \<times> 'p kheap kstate) option" where
  "kmalloc pa sz s =
     (if sz \<ge> LARGEST_SUBPAGE_SIZE then do {
        let npages = (sz + PAGE_SIZE - 1) div PAGE_SIZE;
        (address, p) \<leftarrow> pa (sint npages) (kh_pages (world s));
        Some (address, s\<lparr>world := (world s)\<lparr>kh_pages := p\<rparr>\<rparr>)
      }
      else subpage_kmalloc pa sz s)"

definition kfree :: "(32 word \<Rightarrow> 'p \<Rightarrow> 'p option) \<Rightarrow> 32 word \<Rightarrow> 'p kheap kstate \<Rightarrow> 'p kheap kstate option" where
  "kfree pf ptr s =
     (if ptr = 0 then Some s
      else do {
        (result, s1) \<leftarrow> subpage_kfree pf ptr s;
        if result \<noteq> 0 then do {
          kassert (ptr mod PAGE_SIZE = 0);
          p \<leftarrow> pf ptr (kh_pages (world s1));
          Some (s1\<lparr>world := (world s1)\<lparr>kh_pages := p\<rparr>\<rparr>)
        }
        else Some s1
      })"

end
