(* ===== verification/K_Kheap_Laws.thy ===== *)
theory K_Kheap_Laws
  imports K_Kheap
begin

unbundle bit_operations_syntax

section \<open>Laws of the kernel heap\<close>

text \<open>
  The contract of the page allocator under the heap, and the invariant of the heap: two lists of page references, per
  page the list of its free blocks, linked through memory. It stands for the set of blocks in use, which never overlap.
\<close>

subsection \<open>Pages and blocks\<close>

text \<open>
  The contract of \<open>alloc_kpages\<close> and \<open>free_kpages\<close>: the blocks of pages handed out, with their number of pages, are
  aligned and apart from each other, an allocation adds a block or returns 0, and giving back a block removes it.
\<close>

locale page_source =
  fixes pa :: "int \<Rightarrow> 'p \<Rightarrow> (32 word \<times> 'p) option"
    and pf :: "32 word \<Rightarrow> 'p \<Rightarrow> 'p option"
    and pinv :: "'p \<Rightarrow> bool"
    and pblocks :: "'p \<Rightarrow> (32 word \<times> nat) set"
  assumes pa_block: "pinv p \<Longrightarrow> 0 < n \<Longrightarrow> \<exists>a p1. pa (int n) p = Some (a, p1) \<and> pinv p1 \<and>
      (a = 0 \<and> pblocks p1 = pblocks p \<or> a \<noteq> 0 \<and> (\<forall>m. (a, m) \<notin> pblocks p) \<and> pblocks p1 = insert (a, n) (pblocks p))"
    and pf_block: "pinv p \<Longrightarrow> (a, n) \<in> pblocks p \<Longrightarrow> \<exists>p1. pf a p = Some p1 \<and> pinv p1 \<and> pblocks p1 = pblocks p - {(a, n)}"
    and block_aligned: "pinv p \<Longrightarrow> (a, n) \<in> pblocks p \<Longrightarrow> a AND PAGE_FRAME = a \<and> a \<noteq> 0 \<and> 0 < n \<and> unat a + n * 4096 < 4294967296"
    and blocks_apart: "pinv p \<Longrightarrow> (a, n) \<in> pblocks p \<Longrightarrow> (b, m) \<in> pblocks p \<Longrightarrow> (a, n) \<noteq> (b, m) \<Longrightarrow>
      {unat a ..< unat a + n * 4096} \<inter> {unat b ..< unat b + m * 4096} = {}"

definition blk_size :: "pageref \<Rightarrow> nat" where
  "blk_size r = unat (sizes ! unat (PR_BLOCKTYPE r))"

definition blk_count :: "pageref \<Rightarrow> nat" where
  "blk_count r = 4096 div blk_size r"

definition blk_addr :: "pageref \<Rightarrow> nat \<Rightarrow> 32 word" where
  "blk_addr r k = PR_PAGEADDR r + of_nat (k * blk_size r)"

text \<open>The words of a list of blocks are linked, the last one to NULL.\<close>

fun chain :: "(32 word \<Rightarrow> 32 word) \<Rightarrow> 32 word list \<Rightarrow> bool" where
  "chain m [] \<longleftrightarrow> True"
| "chain m [x] \<longleftrightarrow> m x = 0"
| "chain m (x # y # zs) \<longleftrightarrow> m x = y \<and> chain m (y # zs)"

text \<open>The free blocks of a page are the blocks \<open>ks\<close>, in this order.\<close>

definition page_ok :: "(32 word \<Rightarrow> 32 word) \<Rightarrow> pageref \<Rightarrow> nat list \<Rightarrow> bool" where
  "page_ok m r ks \<longleftrightarrow> unat (PR_BLOCKTYPE r) < 8 \<and> PR_PAGEADDR r \<noteq> 0 \<and> distinct ks \<and> set ks \<subseteq> {..<blk_count r} \<and>
     nfree r = of_nat (length ks) \<and> freelist_offset r = (if ks = [] then INVALID_OFFSET else of_nat (hd ks * blk_size r)) \<and>
     chain m (map (blk_addr r) ks)"

lemma size_cases:
  assumes "t < 8"
  shows "sizes ! t \<in> {16, 32, 64, 128, 256, 512, 1024, 2048}"
  using assms by (auto simp: sizes_def less_Suc_eq numeral_eq_Suc)

lemma blk_facts:
  assumes "unat (PR_BLOCKTYPE r) < 8"
  shows "blk_count r * blk_size r = 4096" "2 \<le> blk_count r" "blk_count r \<le> 256" "16 \<le> blk_size r" "4 dvd blk_size r" "blk_size r \<le> 2048"
proof -
  have "blk_size r \<in> {16, 32, 64, 128, 256, 512, 1024, 2048}"
    using size_cases [OF assms] by (auto simp: blk_size_def)
  then show "blk_count r * blk_size r = 4096" "2 \<le> blk_count r" "blk_count r \<le> 256" "16 \<le> blk_size r" "4 dvd blk_size r" "blk_size r \<le> 2048"
    by (auto simp: blk_count_def)
qed

lemma page_aligned: "4096 dvd unat (PR_PAGEADDR r)" "unat (PR_PAGEADDR r) + 4096 \<le> 4294967296"
proof -
  have "PR_PAGEADDR r AND PAGE_FRAME = PR_PAGEADDR r" by (simp add: PR_PAGEADDR_def and.assoc)
  then show d: "4096 dvd unat (PR_PAGEADDR r)" by (simp add: frame_aligned)
  then obtain q where q: "unat (PR_PAGEADDR r) = 4096 * q" by (auto elim: dvdE)
  moreover have "unat (PR_PAGEADDR r) < 4294967296" by (rule unat_less_32)
  ultimately have "q + 1 \<le> 1048576" by simp
  then show "unat (PR_PAGEADDR r) + 4096 \<le> 4294967296" using q by linarith
qed

lemma blk_bound:
  assumes "unat (PR_BLOCKTYPE r) < 8" "k < blk_count r"
  shows "k * blk_size r + blk_size r \<le> 4096"
proof -
  have "Suc k * blk_size r \<le> blk_count r * blk_size r" using assms(2) by (intro mult_le_mono1) simp
  then show ?thesis using blk_facts(1) [OF assms(1)] by simp
qed

lemma blk_addr_unat:
  assumes "unat (PR_BLOCKTYPE r) < 8" "k < blk_count r"
  shows "unat (blk_addr r k) = unat (PR_PAGEADDR r) + k * blk_size r"
proof -
  have b: "k * blk_size r + 16 \<le> 4096" using blk_bound [OF assms] blk_facts(4) [OF assms(1)] by linarith
  then have "unat (of_nat (k * blk_size r) :: 32 word) = k * blk_size r" by (intro unat_of_nat_ok) simp
  then show ?thesis using b page_aligned(2) [of r] by (simp add: blk_addr_def unat_plus_ok del: of_nat_mult)
qed

lemma blk_addr_nz:
  assumes "unat (PR_BLOCKTYPE r) < 8" "k < blk_count r" "PR_PAGEADDR r \<noteq> 0"
  shows "blk_addr r k \<noteq> 0"
proof
  assume "blk_addr r k = 0"
  then have "unat (PR_PAGEADDR r) = 0" using blk_addr_unat [OF assms(1,2)] by simp
  then show False using assms(3) by (simp add: unat_eq_zero)
qed

text \<open>The bytes of a block; those of different blocks are apart.\<close>

definition blk_range :: "pageref \<Rightarrow> nat \<Rightarrow> nat set" where
  "blk_range r k = {unat (PR_PAGEADDR r) + k * blk_size r ..< unat (PR_PAGEADDR r) + k * blk_size r + blk_size r}"

lemma blk_range_same:
  assumes "k \<noteq> k'"
  shows "blk_range r k \<inter> blk_range r k' = {}"
proof -
  have "k * blk_size r + blk_size r \<le> k' * blk_size r \<or> k' * blk_size r + blk_size r \<le> k * blk_size r"
    using assms mult_le_mono1 [of "Suc k" k' "blk_size r"] mult_le_mono1 [of "Suc k'" k "blk_size r"] by (cases "k < k'") auto
  then show ?thesis by (auto simp: blk_range_def)
qed

lemma blk_range_page:
  assumes "unat (PR_BLOCKTYPE r) < 8" "k < blk_count r"
  shows "blk_range r k \<subseteq> {unat (PR_PAGEADDR r) ..< unat (PR_PAGEADDR r) + 4096}"
  using blk_bound [OF assms] by (auto simp: blk_range_def)

lemma pages_apart:
  assumes "4096 dvd a" "4096 dvd b" "(a :: nat) \<noteq> b"
  shows "{a ..< a + 4096} \<inter> {b ..< b + 4096} = {}"
proof -
  obtain p q where "a = 4096 * p" "b = 4096 * q" using assms by (auto elim!: dvdE)
  then have "a + 4096 \<le> b \<or> b + 4096 \<le> a" using assms(3) by (cases "p < q") auto
  then show ?thesis by auto
qed

lemma blk_range_apart:
  assumes "unat (PR_BLOCKTYPE r) < 8" "k < blk_count r" "unat (PR_BLOCKTYPE r') < 8" "k' < blk_count r'" "PR_PAGEADDR r \<noteq> PR_PAGEADDR r'"
  shows "blk_range r k \<inter> blk_range r' k' = {}"
proof -
  have "unat (PR_PAGEADDR r) \<noteq> unat (PR_PAGEADDR r')" using assms(5) by (simp add: word_unat_eq_iff)
  then show ?thesis
    using pages_apart [OF page_aligned(1) page_aligned(1), of r r'] blk_range_page [OF assms(1,2)] blk_range_page [OF assms(3,4)] by blast
qed

subsection \<open>Taking a free block\<close>

lemma off_ucast: "n < 65536 \<Longrightarrow> (ucast (of_nat n :: 16 word) :: 32 word) = of_nat n"
  by (simp add: word_unat_eq_iff unat_of_nat unsigned_ucast_eq take_bit_nat_eq_self)

lemma ucast_off: "n < 65536 \<Longrightarrow> (ucast (of_nat n :: 32 word) :: 16 word) = of_nat n"
  by (simp add: word_unat_eq_iff unat_of_nat unsigned_ucast_eq take_bit_eq_mod)

lemma nat16_less: "n < 65536 \<Longrightarrow> unat (of_nat n :: 16 word) = n"
  by (simp add: unat_of_nat)

lemma free_count:
  assumes "page_ok m r ks"
  shows "length ks \<le> blk_count r"
proof -
  have "length ks = card (set ks)" using assms by (simp add: page_ok_def distinct_card)
  also have "\<dots> \<le> card {..<blk_count r}" using assms by (intro card_mono) (auto simp: page_ok_def)
  finally show ?thesis by simp
qed

lemma blk_fields:
  "PR_PAGEADDR (r\<lparr>nfree := n, freelist_offset := f\<rparr>) = PR_PAGEADDR r" "PR_BLOCKTYPE (r\<lparr>nfree := n, freelist_offset := f\<rparr>) = PR_BLOCKTYPE r"
  "blk_size (r\<lparr>nfree := n, freelist_offset := f\<rparr>) = blk_size r" "blk_count (r\<lparr>nfree := n, freelist_offset := f\<rparr>) = blk_count r"
  "blk_addr (r\<lparr>nfree := n, freelist_offset := f\<rparr>) = blk_addr r"
  by (simp_all add: PR_PAGEADDR_def PR_BLOCKTYPE_def blk_size_def blk_count_def blk_addr_def fun_eq_iff)

definition take_block :: "pageref \<Rightarrow> nat list \<Rightarrow> pageref" where
  "take_block r ks = r\<lparr>nfree := of_nat (length ks), freelist_offset := (if ks = [] then INVALID_OFFSET else of_nat (hd ks * blk_size r))\<rparr>"

lemma chain_Cons: "chain m (x # xs) \<longleftrightarrow> m x = (case xs of [] \<Rightarrow> 0 | y # ys \<Rightarrow> y) \<and> chain m xs"
  by (cases xs) auto

lemma page_ok_offset:
  assumes "page_ok m r (k # ks)"
  shows "k * blk_size r < 4096" "PR_PAGEADDR r + ucast (freelist_offset r) = blk_addr r k" "ucast (freelist_offset r) < PAGE_SIZE"
proof -
  have t: "unat (PR_BLOCKTYPE r) < 8" "k < blk_count r" using assms by (auto simp: page_ok_def)
  show b: "k * blk_size r < 4096" using blk_bound [OF t] blk_facts(4) [OF t(1)] by linarith
  have f: "freelist_offset r = of_nat (k * blk_size r)" using assms by (simp add: page_ok_def)
  have u: "(ucast (freelist_offset r) :: 32 word) = of_nat (k * blk_size r)" unfolding f by (rule off_ucast) (use b in simp)
  then show "PR_PAGEADDR r + ucast (freelist_offset r) = blk_addr r k" by (simp add: blk_addr_def)
  show "ucast (freelist_offset r) < PAGE_SIZE"
    unfolding u using b unat_of_nat_ok [of "k * blk_size r"] by (simp add: word_less_nat_alt del: of_nat_mult)
qed

lemma doalloc_ok:
  assumes "g < length (pagerefs h)" "page_ok (kh_mem h) (pagerefs h ! g) (k # ks)"
  shows "doalloc g h = Some (blk_addr (pagerefs h ! g) k, h\<lparr>pagerefs := (pagerefs h)[g := take_block (pagerefs h ! g) ks]\<rparr>)"
    "page_ok (kh_mem h) (take_block (pagerefs h ! g) ks) ks"
proof -
  define r where "r = pagerefs h ! g"
  have p: "page_ok (kh_mem h) r (k # ks)" using assms(2) by (simp add: r_def)
  have t: "unat (PR_BLOCKTYPE r) < 8" "k < blk_count r" "set ks \<subseteq> {..<blk_count r}" "PR_PAGEADDR r \<noteq> 0" using p by (auto simp: page_ok_def)
  have len: "Suc (length ks) \<le> 256" using free_count [OF p] blk_facts(3) [OF t(1)] by simp
  have n: "nfree r - 1 = of_nat (length ks)" using p by (simp add: page_ok_def)
  have fl: "kh_mem h (blk_addr r k) = (case ks of [] \<Rightarrow> 0 | y # ys \<Rightarrow> blk_addr r y)" using p by (cases ks) (auto simp: page_ok_def chain_Cons)
  have ch: "chain (kh_mem h) (map (blk_addr r) ks)" using p by (simp add: page_ok_def chain_Cons)
  show "page_ok (kh_mem h) (take_block (pagerefs h ! g) ks) ks"
    unfolding r_def [symmetric] page_ok_def take_block_def blk_fields using p ch by (simp add: page_ok_def)
  note off = page_ok_offset [OF p]
  have "doalloc g h = Some (blk_addr r k, h\<lparr>pagerefs := (pagerefs h)[g := take_block r ks]\<rparr>)"
  proof (cases ks)
    case Nil
    then show ?thesis using assms(1) off n fl
      by (simp add: doalloc_def upd_pageref_def r_def [symmetric] take_block_def)
  next
    case (Cons y ys)
    have y: "y < blk_count r" using t(3) Cons by simp
    have b: "y * blk_size r < 4096" using blk_bound [OF t(1) y] blk_facts(4) [OF t(1)] by linarith
    have d: "blk_addr r y - PR_PAGEADDR r = of_nat (y * blk_size r)" by (simp add: blk_addr_def)
    have "(of_nat (y * blk_size r) :: 32 word) < PAGE_SIZE"
      using b unat_of_nat_ok [of "y * blk_size r"] by (simp add: word_less_nat_alt del: of_nat_mult)
    moreover have "(ucast (of_nat (y * blk_size r) :: 32 word) :: 16 word) = of_nat (y * blk_size r)" by (rule ucast_off) (use b in simp)
    moreover have "(of_nat (length ks) :: 16 word) > 0" using Cons len nat16_less [of "length ks"] by (simp add: word_less_nat_alt)
    ultimately show ?thesis using assms(1) off n fl Cons blk_addr_nz [OF t(1) y t(4)] d
      by (simp add: doalloc_def upd_pageref_def r_def [symmetric] take_block_def del: of_nat_mult of_nat_Suc)
  qed
  then show "doalloc g h = Some (blk_addr (pagerefs h ! g) k, h\<lparr>pagerefs := (pagerefs h)[g := take_block (pagerefs h ! g) ks]\<rparr>)"
    by (simp only: r_def)
qed

subsection \<open>Lists of page references\<close>

primrec is_list :: "(nat \<Rightarrow> nat nullable) \<Rightarrow> nat nullable \<Rightarrow> nat list \<Rightarrow> bool" where
  "is_list nx p [] \<longleftrightarrow> p = NULL"
| "is_list nx p (x # xs) \<longleftrightarrow> p = Ptr x \<and> is_list nx (nx x) xs"

lemma is_list_cong: "(\<And>x. x \<in> set xs \<Longrightarrow> nx x = nx' x) \<Longrightarrow> is_list nx p xs = is_list nx' p xs"
  by (induction xs arbitrary: p) auto

lemma is_list_split:
  "is_list nx p (zs @ w # ws) \<Longrightarrow> (if zs = [] then p else nx (last zs)) = Ptr w \<and> is_list nx (nx w) ws"
proof (induction zs arbitrary: p)
  case (Cons z zs)
  then have "(if zs = [] then nx z else nx (last zs)) = Ptr w \<and> is_list nx (nx w) ws" by (intro Cons.IH) simp
  then show ?case by auto
qed simp

lemma is_list_unlink:
  "is_list nx p (zs @ w # ws) \<Longrightarrow> distinct (zs @ w # ws) \<Longrightarrow> zs \<noteq> [] \<Longrightarrow> is_list (nx(last zs := nx w)) p (zs @ ws)"
proof (induction zs arbitrary: p)
  case (Cons z zs)
  show ?case
  proof (cases "zs = []")
    case True
    then have z: "p = Ptr z" "is_list nx (nx w) ws" "z \<notin> set ws" using Cons.prems by auto
    have "is_list (nx(z := nx w)) (nx w) ws = is_list nx (nx w) ws" by (rule is_list_cong) (use z(3) in auto)
    then show ?thesis using True z(1,2) by (simp add: fun_upd_def)
  next
    case False
    then have "z \<noteq> last zs" using Cons.prems(2) by auto
    moreover have "is_list nx (nx z) (zs @ w # ws)" "p = Ptr z" using Cons.prems by auto
    ultimately show ?thesis using Cons.IH [of "nx z"] Cons.prems(2) False by (auto simp: fun_upd_def)
  qed
qed simp

lemma kmalloc_search_list:
  assumes "\<And>g. g \<in> set xs \<Longrightarrow> g < length (pagerefs h) \<and> PR_BLOCKTYPE (pagerefs h ! g) = of_nat t"
  shows "is_list (\<lambda>g. next_samesize (pagerefs h ! g)) p xs \<Longrightarrow>
    kmalloc_search t p h = Some (case filter (\<lambda>g. nfree (pagerefs h ! g) > 0) xs of [] \<Rightarrow> NULL | g # gs \<Rightarrow> Ptr g)"
  using assms
proof (induction xs arbitrary: p)
  case Nil
  then show ?case by (subst kmalloc_search.simps) simp
next
  case (Cons x xs)
  then have p: "p = Ptr x" and "is_list (\<lambda>g. next_samesize (pagerefs h ! g)) (next_samesize (pagerefs h ! x)) xs" by auto
  from Cons.IH [OF this(2)] Cons.prems(2) show ?case
    unfolding p by (subst kmalloc_search.simps) (simp add: word_gt_0)
qed

lemma kfree_search_list:
  assumes "\<And>g. g \<in> set xs \<Longrightarrow> g < length (pagerefs h) \<and> PR_BLOCKTYPE (pagerefs h ! g) < 8"
  shows "is_list (\<lambda>g. next_all (pagerefs h ! g)) p xs \<Longrightarrow>
    kfree_search a p h = Some (case filter (\<lambda>g. a \<ge> PR_PAGEADDR (pagerefs h ! g) \<and> a < PR_PAGEADDR (pagerefs h ! g) + PAGE_SIZE) xs of
      [] \<Rightarrow> NULL | g # gs \<Rightarrow> Ptr g)"
  using assms
proof (induction xs arbitrary: p)
  case Nil
  then show ?case by (subst kfree_search.simps) simp
next
  case (Cons x xs)
  then have p: "p = Ptr x" and "is_list (\<lambda>g. next_all (pagerefs h ! g)) (next_all (pagerefs h ! x)) xs" by auto
  from Cons.IH [OF this(2)] Cons.prems(2) show ?case
    unfolding p by (subst kfree_search.simps) simp
qed

text \<open>Removing a page reference from its lists: only links change.\<close>

definition relink :: "('p kheap \<Rightarrow> 'p kheap \<Rightarrow> bool)" where
  "relink h h' \<longleftrightarrow> length (pagerefs h') = length (pagerefs h) \<and> pagerefs_inuse h' = pagerefs_inuse h \<and> kh_mem h' = kh_mem h \<and> kh_pages h' = kh_pages h \<and>
     length (sizebases h') = length (sizebases h) \<and>
     (\<forall>g. pageaddr_and_blocktype (pagerefs h' ! g) = pageaddr_and_blocktype (pagerefs h ! g) \<and>
        freelist_offset (pagerefs h' ! g) = freelist_offset (pagerefs h ! g) \<and> nfree (pagerefs h' ! g) = nfree (pagerefs h ! g))"

lemma remove_all_list:
  assumes "distinct (ys @ xs)" "set (ys @ xs) \<subseteq> {..<length (pagerefs h)}" "pr \<in> set xs"
    "guy = (if ys = [] then NULL else Ptr (last ys))"
    "is_list (\<lambda>g. next_all (pagerefs h ! g)) (allbase h) (ys @ xs)"
  shows "\<exists>h'. remove_all pr guy h = Some h' \<and> relink h h' \<and> sizebases h' = sizebases h \<and>
    is_list (\<lambda>g. next_all (pagerefs h' ! g)) (allbase h') (ys @ remove1 pr xs) \<and>
    (\<forall>g. next_samesize (pagerefs h' ! g) = next_samesize (pagerefs h ! g))"
  using assms
proof (induction xs arbitrary: ys guy)
  case (Cons x xs)
  note sp = is_list_split [OF Cons.prems(5)]
  have ly: "last ys < length (pagerefs h)" if "ys \<noteq> []"
    using Cons.prems(2) subsetD [of "set ys" "{..<length (pagerefs h)}" "last ys"] that by simp
  have here: "(case guy of NULL \<Rightarrow> Some (allbase h) | Ptr g \<Rightarrow> map_option next_all (rd (pagerefs h) g)) = Some (Ptr x)"
  proof (cases "ys = []")
    case True
    then show ?thesis using sp Cons.prems(4) by simp
  next
    case False
    then show ?thesis using ly sp Cons.prems(4) by (simp add: rd_def)
  qed
  show ?case
  proof (cases "x = pr")
    case False
    have "\<exists>h'. remove_all pr (Ptr x) h = Some h' \<and> relink h h' \<and> sizebases h' = sizebases h \<and>
      is_list (\<lambda>g. next_all (pagerefs h' ! g)) (allbase h') ((ys @ [x]) @ remove1 pr xs) \<and>
      (\<forall>g. next_samesize (pagerefs h' ! g) = next_samesize (pagerefs h ! g))"
      using Cons.prems False by (intro Cons.IH) auto
    then show ?thesis using here False by (subst remove_all.simps) simp
  next
    case True
    have xl: "x < length (pagerefs h)" using Cons.prems(2) by simp
    define nx where "nx = next_all (pagerefs h ! x)"
    define h' where "h' = (if ys = [] then h\<lparr>allbase := nx\<rparr> else h\<lparr>pagerefs := (pagerefs h)[last ys := (pagerefs h ! last ys)\<lparr>next_all := nx\<rparr>]\<rparr>)"
    have st: "remove_all pr guy h = Some h'"
      using here True xl Cons.prems(4) ly by (subst remove_all.simps) (auto simp: h'_def nx_def upd_pageref_def)
    have eq: "(\<lambda>g. next_all (pagerefs h' ! g)) = (if ys = [] then (\<lambda>g. next_all (pagerefs h ! g)) else (\<lambda>g. next_all (pagerefs h ! g))(last ys := nx))"
      using ly by (auto simp: h'_def fun_eq_iff nth_list_update)
    have "is_list (\<lambda>g. next_all (pagerefs h' ! g)) (allbase h') (ys @ xs)"
    proof (cases "ys = []")
      case e: True
      then show ?thesis using sp eq by (simp add: h'_def nx_def)
    next
      case ne: False
      then show ?thesis using is_list_unlink [OF Cons.prems(5,1) ne] eq by (simp add: h'_def nx_def)
    qed
    moreover have "relink h h'" using ly by (auto simp: relink_def h'_def nth_list_update)
    moreover have "sizebases h' = sizebases h" "\<forall>g. next_samesize (pagerefs h' ! g) = next_samesize (pagerefs h ! g)"
      using ly by (auto simp: h'_def nth_list_update)
    ultimately show ?thesis using st True by auto
  qed
qed simp

lemma remove_samesize_list:
  assumes "distinct (ys @ xs)" "set (ys @ xs) \<subseteq> {..<length (pagerefs h)}" "pr \<in> set xs"
    "t < length (sizebases h)" "guy = (if ys = [] then NULL else Ptr (last ys))"
    "is_list (\<lambda>g. next_samesize (pagerefs h ! g)) (sizebases h ! t) (ys @ xs)"
  shows "\<exists>h'. remove_samesize pr t guy h = Some h' \<and> relink h h' \<and> allbase h' = allbase h \<and> (\<forall>u. u \<noteq> t \<longrightarrow> sizebases h' ! u = sizebases h ! u) \<and>
    is_list (\<lambda>g. next_samesize (pagerefs h' ! g)) (sizebases h' ! t) (ys @ remove1 pr xs) \<and>
    (\<forall>g. next_all (pagerefs h' ! g) = next_all (pagerefs h ! g)) \<and>
    (\<forall>g. g \<notin> set (ys @ xs) \<longrightarrow> next_samesize (pagerefs h' ! g) = next_samesize (pagerefs h ! g))"
  using assms
proof (induction xs arbitrary: ys guy)
  case (Cons x xs)
  note sp = is_list_split [OF Cons.prems(6)]
  have ly: "last ys < length (pagerefs h)" if "ys \<noteq> []"
    using Cons.prems(2) subsetD [of "set ys" "{..<length (pagerefs h)}" "last ys"] that by simp
  have here: "(case guy of NULL \<Rightarrow> rd (sizebases h) t | Ptr g \<Rightarrow> map_option next_samesize (rd (pagerefs h) g)) = Some (Ptr x)"
  proof (cases "ys = []")
    case True
    then show ?thesis using sp Cons.prems(4,5) by simp
  next
    case False
    then show ?thesis using ly sp Cons.prems(4,5) by (simp add: rd_def)
  qed
  show ?case
  proof (cases "x = pr")
    case False
    have "\<exists>h'. remove_samesize pr t (Ptr x) h = Some h' \<and> relink h h' \<and> allbase h' = allbase h \<and> (\<forall>u. u \<noteq> t \<longrightarrow> sizebases h' ! u = sizebases h ! u) \<and>
      is_list (\<lambda>g. next_samesize (pagerefs h' ! g)) (sizebases h' ! t) ((ys @ [x]) @ remove1 pr xs) \<and>
      (\<forall>g. next_all (pagerefs h' ! g) = next_all (pagerefs h ! g)) \<and>
      (\<forall>g. g \<notin> set ((ys @ [x]) @ xs) \<longrightarrow> next_samesize (pagerefs h' ! g) = next_samesize (pagerefs h ! g))"
      using Cons.prems False by (intro Cons.IH) auto
    moreover have "set ((ys @ [x]) @ xs) = set (ys @ x # xs)" by simp
    ultimately show ?thesis using here False by (subst remove_samesize.simps) (simp del: set_append)
  next
    case True
    have xl: "x < length (pagerefs h)" using Cons.prems(2) by simp
    define nx where "nx = next_samesize (pagerefs h ! x)"
    define h' where "h' = (if ys = [] then h\<lparr>sizebases := (sizebases h)[t := nx]\<rparr> else h\<lparr>pagerefs := (pagerefs h)[last ys := (pagerefs h ! last ys)\<lparr>next_samesize := nx\<rparr>]\<rparr>)"
    have st: "remove_samesize pr t guy h = Some h'"
      using here True xl Cons.prems(4,5) ly by (subst remove_samesize.simps) (auto simp: h'_def nx_def upd_pageref_def)
    have eq: "(\<lambda>g. next_samesize (pagerefs h' ! g)) = (if ys = [] then (\<lambda>g. next_samesize (pagerefs h ! g)) else (\<lambda>g. next_samesize (pagerefs h ! g))(last ys := nx))"
      using ly by (auto simp: h'_def fun_eq_iff nth_list_update)
    have "is_list (\<lambda>g. next_samesize (pagerefs h' ! g)) (sizebases h' ! t) (ys @ xs)"
    proof (cases "ys = []")
      case e: True
      then show ?thesis using sp eq Cons.prems(4) by (simp add: h'_def nx_def)
    next
      case ne: False
      then show ?thesis using is_list_unlink [OF Cons.prems(6,1) ne] eq Cons.prems(4) by (simp add: h'_def nx_def)
    qed
    moreover have "relink h h'" using ly by (auto simp: relink_def h'_def nth_list_update)
    moreover have "allbase h' = allbase h" "\<forall>u. u \<noteq> t \<longrightarrow> sizebases h' ! u = sizebases h ! u" "\<forall>g. next_all (pagerefs h' ! g) = next_all (pagerefs h ! g)"
      using ly by (auto simp: h'_def nth_list_update)
    moreover have "\<forall>g. g \<notin> set (ys @ x # xs) \<longrightarrow> next_samesize (pagerefs h' ! g) = next_samesize (pagerefs h ! g)"
    proof (intro allI impI)
      fix g assume "g \<notin> set (ys @ x # xs)"
      then have "ys \<noteq> [] \<Longrightarrow> last ys \<noteq> g" using last_in_set [of ys] by auto
      then show "next_samesize (pagerefs h' ! g) = next_samesize (pagerefs h ! g)" by (simp add: h'_def)
    qed
    ultimately show ?thesis using st True by (intro exI [of _ h'] conjI) simp_all
  qed
qed simp


subsection \<open>The table of page references\<close>

definition inuse_bit :: "32 word list \<Rightarrow> nat \<Rightarrow> bool" where
  "inuse_bit ws g \<longleftrightarrow> bit (ws ! (g div 32)) (g mod 32)"

lemma and_push_bit: "j < 32 \<Longrightarrow> (w AND push_bit j 1 = 0) \<longleftrightarrow> \<not> bit (w :: 32 word) j"
  by (simp add: and_exp_eq_0_iff_not_bit push_bit_eq_mult)

lemma allocpageref_bit_found:
  assumes "i + n = 32" "\<exists>j. i \<le> j \<and> j < 32 \<and> \<not> bit w j"
  shows "\<exists>j. allocpageref_bit n i w = Some j \<and> j < 32 \<and> \<not> bit w j"
  using assms
proof (induction n arbitrary: i)
  case (Suc n)
  show ?case
  proof (cases "bit w i")
    case True
    have "\<exists>j. Suc i \<le> j \<and> j < 32 \<and> \<not> bit w j" using Suc.prems(2) True by (metis le_antisym not_less_eq_eq)
    then show ?thesis using Suc.IH [of "Suc i"] Suc.prems(1) True by (simp add: and_exp_eq_0_iff_not_bit)
  qed (use Suc.prems(1) in \<open>simp add: and_exp_eq_0_iff_not_bit\<close>)
qed auto

lemma not_full: "(w :: 32 word) \<noteq> 0xffffffff \<Longrightarrow> \<exists>j. j < 32 \<and> \<not> bit w j"
proof (rule ccontr)
  assume w: "w \<noteq> 0xffffffff" and "\<nexists>j. j < 32 \<and> \<not> bit w j"
  then have "w = - 1" by (intro bit_word_eqI) auto
  then show False using w by simp
qed

lemma allocpageref_loop_result:
  "length (pagerefs_inuse h) = i + n \<Longrightarrow>
    allocpageref_loop n i h = Some (NULL, h) \<or>
    (\<exists>g. g < 32 * (i + n) \<and> \<not> inuse_bit (pagerefs_inuse h) g \<and> (\<exists>ws. allocpageref_loop n i h = Some (Ptr g, h\<lparr>pagerefs_inuse := ws\<rparr>) \<and>
       length ws = i + n \<and> (\<forall>x < 32 * (i + n). inuse_bit ws x \<longleftrightarrow> x = g \<or> inuse_bit (pagerefs_inuse h) x)))"
proof (induction n arbitrary: i)
  case (Suc n)
  define w where "w = pagerefs_inuse h ! i"
  have il: "i < length (pagerefs_inuse h)" using Suc.prems by simp
  show ?case
  proof (cases "w = 0xffffffff")
    case True
    then show ?thesis using Suc.IH [of "Suc i"] Suc.prems il by (simp add: w_def)
  next
    case False
    obtain j where j: "allocpageref_bit 32 0 w = Some j" "j < 32" "\<not> bit w j"
      using allocpageref_bit_found [of 0 32 w] not_full [OF False] by auto
    define ws where "ws = (pagerefs_inuse h)[i := w OR push_bit j 1]"
    have st: "allocpageref_loop (Suc n) i h = Some (Ptr (i * 32 + j), h\<lparr>pagerefs_inuse := ws\<rparr>)"
      using il j(1) False by (simp add: w_def [symmetric] ws_def)
    have "\<not> inuse_bit (pagerefs_inuse h) (i * 32 + j)" using j(2,3) by (simp add: inuse_bit_def w_def)
    moreover have "inuse_bit ws x \<longleftrightarrow> x = i * 32 + j \<or> inuse_bit (pagerefs_inuse h) x" if "x < 32 * (i + Suc n)" for x
    proof (cases "x div 32 = i")
      case True
      then have "x = i * 32 + x mod 32" using div_mult_mod_eq [of x 32] by simp
      then have "x = i * 32 + j \<longleftrightarrow> x mod 32 = j" using j(2) by (metis add_left_cancel)
      then show ?thesis using True il by (auto simp: inuse_bit_def ws_def w_def bit_simps)
    next
      case f: False
      then have "x \<noteq> i * 32 + j" using j(2) by auto
      then show ?thesis using f by (simp add: inuse_bit_def ws_def)
    qed
    moreover have "length ws = i + Suc n" "i * 32 + j < 32 * (i + Suc n)" using Suc.prems j(2) by (simp_all add: ws_def)
    ultimately show ?thesis using st by blast
  qed
qed simp

lemma freepageref_result:
  assumes "length (pagerefs_inuse h) = 8" "g < 256" "inuse_bit (pagerefs_inuse h) g"
  shows "\<exists>ws. freepageref g h = Some (h\<lparr>pagerefs_inuse := ws\<rparr>) \<and> length ws = 8 \<and> (\<forall>x < 256. inuse_bit ws x \<longleftrightarrow> x \<noteq> g \<and> inuse_bit (pagerefs_inuse h) x)"
proof -
  define w where "w = pagerefs_inuse h ! (g div 32)"
  have il: "g div 32 < length (pagerefs_inuse h)" using assms(1,2) by simp
  have b: "bit w (g mod 32)" using assms(3) by (simp add: inuse_bit_def w_def)
  define ws where "ws = (pagerefs_inuse h)[g div 32 := w AND NOT (push_bit (g mod 32) 1)]"
  have "w AND push_bit (g mod 32) 1 \<noteq> 0" using b and_push_bit [of "g mod 32" w] by simp
  then have "freepageref g h = Some (h\<lparr>pagerefs_inuse := ws\<rparr>)"
    using assms(2) il by (simp add: freepageref_def NPAGEREFS_def w_def [symmetric] ws_def)
  moreover have "inuse_bit ws x \<longleftrightarrow> x \<noteq> g \<and> inuse_bit (pagerefs_inuse h) x" for x
  proof (cases "x div 32 = g div 32")
    case True
    then have "x = g \<longleftrightarrow> x mod 32 = g mod 32" by (metis div_mult_mod_eq)
    then show ?thesis using True il by (auto simp: inuse_bit_def ws_def w_def bit_simps)
  next
    case False
    then show ?thesis by (auto simp: inuse_bit_def ws_def)
  qed
  ultimately show ?thesis using assms(1) by (intro exI [of _ ws]) (simp add: ws_def)
qed

subsection \<open>The invariant\<close>

definition heap_ok :: "('p \<Rightarrow> bool) \<Rightarrow> ('p \<Rightarrow> 32 word set) \<Rightarrow> 'p kheap \<Rightarrow> nat list \<Rightarrow> (nat \<Rightarrow> nat list) \<Rightarrow> (nat \<Rightarrow> nat list) \<Rightarrow> bool" where
  "heap_ok pinv powned h all same free \<longleftrightarrow>
     length (pagerefs h) = 256 \<and> length (pagerefs_inuse h) = 8 \<and> length (sizebases h) = 8 \<and>
     distinct all \<and> set all \<subseteq> {..<256} \<and> (\<forall>g < 256. inuse_bit (pagerefs_inuse h) g \<longleftrightarrow> g \<in> set all) \<and>
     is_list (\<lambda>g. next_all (pagerefs h ! g)) (allbase h) all \<and>
     (\<forall>t < 8. distinct (same t) \<and> set (same t) = {g \<in> set all. unat (PR_BLOCKTYPE (pagerefs h ! g)) = t} \<and>
        is_list (\<lambda>g. next_samesize (pagerefs h ! g)) (sizebases h ! t) (same t)) \<and>
     (\<forall>g \<in> set all. page_ok (kh_mem h) (pagerefs h ! g) (free g) \<and> PR_PAGEADDR (pagerefs h ! g) \<in> powned (kh_pages h)) \<and>
     inj_on (\<lambda>g. PR_PAGEADDR (pagerefs h ! g)) (set all) \<and> pinv (kh_pages h)"

text \<open>The blocks in use, with their sizes.\<close>

definition live_ix :: "'p kheap \<Rightarrow> nat list \<Rightarrow> (nat \<Rightarrow> nat list) \<Rightarrow> (nat \<times> nat) set" where
  "live_ix h all free = {(g, k). g \<in> set all \<and> k < blk_count (pagerefs h ! g) \<and> k \<notin> set (free g)}"

definition live_blocks :: "'p kheap \<Rightarrow> nat list \<Rightarrow> (nat \<Rightarrow> nat list) \<Rightarrow> (32 word \<times> nat) set" where
  "live_blocks h all free = (\<lambda>(g, k). (blk_addr (pagerefs h ! g) k, blk_size (pagerefs h ! g))) ` live_ix h all free"

lemma live_blocksE:
  assumes "(a, n) \<in> live_blocks h all free"
  obtains g k where "a = blk_addr (pagerefs h ! g) k" "n = blk_size (pagerefs h ! g)" "g \<in> set all" "k < blk_count (pagerefs h ! g)" "k \<notin> set (free g)"
  using assms by (auto simp: live_blocks_def live_ix_def)

text \<open>
  All blocks in use: those of the pages of the heap, and the blocks of whole pages.
\<close>

definition heap_page :: "'p kheap \<Rightarrow> nat list \<Rightarrow> 32 word set" where
  "heap_page h all = (\<lambda>g. PR_PAGEADDR (pagerefs h ! g)) ` set all"

definition one_page :: "('p \<Rightarrow> (32 word \<times> nat) set) \<Rightarrow> 'p \<Rightarrow> 32 word set" where
  "one_page pblocks p = {a. (a, 1) \<in> pblocks p}"

definition big_blocks :: "(32 word \<times> nat) set \<Rightarrow> 32 word set \<Rightarrow> (32 word \<times> nat) set" where
  "big_blocks B H = {(a, n * 4096) | a n. (a, n) \<in> B \<and> (n = 1 \<longrightarrow> a \<notin> H)}"

definition kh_rep :: "('p \<Rightarrow> bool) \<Rightarrow> ('p \<Rightarrow> (32 word \<times> nat) set) \<Rightarrow> 'p kheap \<Rightarrow> (32 word \<times> nat) set \<Rightarrow> bool" where
  "kh_rep pinv pblocks h L \<longleftrightarrow> (\<exists>all same free. heap_ok pinv (one_page pblocks) h all same free \<and>
     L = live_blocks h all free \<union> big_blocks (pblocks (kh_pages h)) (heap_page h all))"

lemma kh_repI:
  assumes "heap_ok pinv (one_page pblocks) h all same free" "L = live_blocks h all free \<union> big_blocks (pblocks (kh_pages h)) (heap_page h all)"
  shows "kh_rep pinv pblocks h L"
  using assms unfolding kh_rep_def by blast

lemma heap_okD:
  assumes "heap_ok pinv powned h all same free"
  shows "length (pagerefs h) = 256" "length (pagerefs_inuse h) = 8" "length (sizebases h) = 8" "distinct all" "set all \<subseteq> {..<256}"
    "g < 256 \<Longrightarrow> inuse_bit (pagerefs_inuse h) g \<longleftrightarrow> g \<in> set all" "is_list (\<lambda>g. next_all (pagerefs h ! g)) (allbase h) all"
    "t < 8 \<Longrightarrow> distinct (same t)" "t < 8 \<Longrightarrow> set (same t) = {g \<in> set all. unat (PR_BLOCKTYPE (pagerefs h ! g)) = t}"
    "t < 8 \<Longrightarrow> is_list (\<lambda>g. next_samesize (pagerefs h ! g)) (sizebases h ! t) (same t)"
    "g \<in> set all \<Longrightarrow> page_ok (kh_mem h) (pagerefs h ! g) (free g)" "g \<in> set all \<Longrightarrow> PR_PAGEADDR (pagerefs h ! g) \<in> powned (kh_pages h)"
    "inj_on (\<lambda>g. PR_PAGEADDR (pagerefs h ! g)) (set all)" "pinv (kh_pages h)" "g \<in> set all \<Longrightarrow> g < 256"
  using assms by (auto simp: heap_ok_def)

lemma chain_cong: "(\<And>x. x \<in> set xs \<Longrightarrow> m x = m' x) \<Longrightarrow> chain m xs = chain m' xs"
  by (induction xs) (simp_all add: chain_Cons)

text \<open>The word at the start of a block lies in the block.\<close>

lemma blk_addr_range:
  assumes "unat (PR_BLOCKTYPE r) < 8" "k < blk_count r"
  shows "unat (blk_addr r k) \<in> blk_range r k"
  using blk_addr_unat [OF assms] blk_facts(4) [OF assms(1)] by (simp add: blk_range_def)

lemma page_ok_type: "page_ok m r ks \<Longrightarrow> unat (PR_BLOCKTYPE r) < 8"
  by (simp add: page_ok_def)

text \<open>Two blocks of the heap are the same block or apart.\<close>

lemma heap_blocks_apart:
  assumes "heap_ok pinv powned h all same free" "g \<in> set all" "k < blk_count (pagerefs h ! g)" "g' \<in> set all" "k' < blk_count (pagerefs h ! g')" "(g, k) \<noteq> (g', k')"
  shows "blk_range (pagerefs h ! g) k \<inter> blk_range (pagerefs h ! g') k' = {}"
proof (cases "g = g'")
  case True
  then show ?thesis using assms(6) blk_range_same [of k k'] by auto
next
  case False
  then have "PR_PAGEADDR (pagerefs h ! g) \<noteq> PR_PAGEADDR (pagerefs h ! g')"
    using heap_okD(13) [OF assms(1)] assms(2,4) by (auto dest: inj_onD)
  then show ?thesis
    using blk_range_apart [OF _ assms(3) _ assms(5)] page_ok_type [OF heap_okD(11) [OF assms(1)]] assms(2,4) by blast
qed

lemma heap_addr_inj:
  assumes "heap_ok pinv powned h all same free" "g \<in> set all" "k < blk_count (pagerefs h ! g)" "g' \<in> set all" "k' < blk_count (pagerefs h ! g')"
    "blk_addr (pagerefs h ! g) k = blk_addr (pagerefs h ! g') k'"
  shows "g = g' \<and> k = k'"
proof -
  have t: "unat (PR_BLOCKTYPE (pagerefs h ! g)) < 8" "unat (PR_BLOCKTYPE (pagerefs h ! g')) < 8"
    using page_ok_type [OF heap_okD(11) [OF assms(1)]] assms(2,4) by blast+
  have "unat (blk_addr (pagerefs h ! g) k) \<in> blk_range (pagerefs h ! g) k \<inter> blk_range (pagerefs h ! g') k'"
    using blk_addr_range [OF t(1) assms(3)] blk_addr_range [OF t(2) assms(5)] assms(6) by simp
  then show ?thesis using heap_blocks_apart [OF assms(1-5)] by auto
qed

text \<open>Blocks in use never overlap.\<close>

lemma live_range:
  assumes "heap_ok pinv powned h all same free" "g \<in> set all" "k < blk_count (pagerefs h ! g)"
  shows "{unat (blk_addr (pagerefs h ! g) k) ..< unat (blk_addr (pagerefs h ! g) k) + blk_size (pagerefs h ! g)} = blk_range (pagerefs h ! g) k"
    "blk_range (pagerefs h ! g) k \<subseteq> {unat (PR_PAGEADDR (pagerefs h ! g)) ..< unat (PR_PAGEADDR (pagerefs h ! g)) + 1 * 4096}"
proof -
  have t: "unat (PR_BLOCKTYPE (pagerefs h ! g)) < 8" by (rule page_ok_type [OF heap_okD(11) [OF assms(1,2)]])
  show "{unat (blk_addr (pagerefs h ! g) k) ..< unat (blk_addr (pagerefs h ! g) k) + blk_size (pagerefs h ! g)} = blk_range (pagerefs h ! g) k"
    using blk_addr_unat [OF t assms(3)] by (simp add: blk_range_def)
  show "blk_range (pagerefs h ! g) k \<subseteq> {unat (PR_PAGEADDR (pagerefs h ! g)) ..< unat (PR_PAGEADDR (pagerefs h ! g)) + 1 * 4096}"
    using blk_range_page [OF t assms(3)] by simp
qed

lemma live_block_size:
  assumes "heap_ok pinv powned h all same free" "(a, n) \<in> live_blocks h all free"
  shows "16 \<le> n" "n \<le> 2048"
proof -
  obtain g k where g: "n = blk_size (pagerefs h ! g)" "g \<in> set all" using assms(2) by (rule live_blocksE)
  have t: "unat (PR_BLOCKTYPE (pagerefs h ! g)) < 8" by (rule page_ok_type [OF heap_okD(11) [OF assms(1) g(2)]])
  show "16 \<le> n" "n \<le> 2048" using blk_facts(4,6) [OF t] g(1) by simp_all
qed

text \<open>The block of pages a block lies in.\<close>

lemma rep_in_pages:
  assumes "heap_ok pinv (one_page pblocks) h all same free" "(a, n) \<in> live_blocks h all free \<union> big_blocks (pblocks (kh_pages h)) (heap_page h all)"
  shows "\<exists>c m. (c, m) \<in> pblocks (kh_pages h) \<and> {unat a ..< unat a + n} \<subseteq> {unat c ..< unat c + m * 4096} \<and>
    ((a, n) \<in> live_blocks h all free \<longrightarrow> m = 1 \<and> c \<in> heap_page h all) \<and> ((a, n) \<notin> live_blocks h all free \<longrightarrow> c = a \<and> n = m * 4096 \<and> (m = 1 \<longrightarrow> c \<notin> heap_page h all))"
proof (cases "(a, n) \<in> live_blocks h all free")
  case True
  then obtain g k where g: "a = blk_addr (pagerefs h ! g) k" "n = blk_size (pagerefs h ! g)" "g \<in> set all" "k < blk_count (pagerefs h ! g)"
    by (rule live_blocksE)
  show ?thesis using live_range [OF assms(1) g(3,4)] heap_okD(12) [OF assms(1) g(3)] True g
    by (intro exI [of _ "PR_PAGEADDR (pagerefs h ! g)"] exI [of _ 1]) (auto simp: heap_page_def one_page_def)
next
  case False
  then show ?thesis using assms(2) by (auto simp: big_blocks_def)
qed

context page_source
begin

lemma kh_rep_disjoint:
  assumes "kh_rep pinv pblocks h L" "(a, n) \<in> L" "(b, m) \<in> L" "(a, n) \<noteq> (b, m)"
  shows "{unat a ..< unat a + n} \<inter> {unat b ..< unat b + m} = {}"
proof -
  obtain all same free where h: "heap_ok pinv (one_page pblocks) h all same free"
    and L: "L = live_blocks h all free \<union> big_blocks (pblocks (kh_pages h)) (heap_page h all)" using assms(1) by (auto simp: kh_rep_def)
  show ?thesis
  proof (cases "(a, n) \<in> live_blocks h all free \<and> (b, m) \<in> live_blocks h all free")
    case True
    obtain g k where a: "a = blk_addr (pagerefs h ! g) k" "n = blk_size (pagerefs h ! g)" "g \<in> set all" "k < blk_count (pagerefs h ! g)"
      using True by (auto elim: live_blocksE)
    obtain g' k' where b: "b = blk_addr (pagerefs h ! g') k'" "m = blk_size (pagerefs h ! g')" "g' \<in> set all" "k' < blk_count (pagerefs h ! g')"
      using True by (auto elim: live_blocksE)
    have "(g, k) \<noteq> (g', k')" using assms(4) a b by auto
    from heap_blocks_apart [OF h a(3,4) b(3,4) this] show ?thesis
      using live_range(1) [OF h a(3,4)] live_range(1) [OF h b(3,4)] a(1,2) b(1,2) by simp
  next
    case False
    obtain c k where c: "(c, k) \<in> pblocks (kh_pages h)" "{unat a ..< unat a + n} \<subseteq> {unat c ..< unat c + k * 4096}"
      "(a, n) \<in> live_blocks h all free \<longrightarrow> k = 1 \<and> c \<in> heap_page h all" "(a, n) \<notin> live_blocks h all free \<longrightarrow> c = a \<and> n = k * 4096 \<and> (k = 1 \<longrightarrow> c \<notin> heap_page h all)"
      using rep_in_pages [OF h assms(2) [unfolded L]] by blast
    obtain d l where d: "(d, l) \<in> pblocks (kh_pages h)" "{unat b ..< unat b + m} \<subseteq> {unat d ..< unat d + l * 4096}"
      "(b, m) \<in> live_blocks h all free \<longrightarrow> l = 1 \<and> d \<in> heap_page h all" "(b, m) \<notin> live_blocks h all free \<longrightarrow> d = b \<and> m = l * 4096 \<and> (l = 1 \<longrightarrow> d \<notin> heap_page h all)"
      using rep_in_pages [OF h assms(3) [unfolded L]] by blast
    have "(c, k) \<noteq> (d, l)" using False c(3,4) d(3,4) assms(4) by auto
    then show ?thesis using blocks_apart [OF heap_okD(14) [OF h] c(1) d(1)] c(2) d(2) by blast
  qed
qed

end

lemma take_block_fields:
  "PR_PAGEADDR (take_block r ks) = PR_PAGEADDR r" "PR_BLOCKTYPE (take_block r ks) = PR_BLOCKTYPE r"
  "next_all (take_block r ks) = next_all r" "next_samesize (take_block r ks) = next_samesize r"
  "blk_addr (take_block r ks) = blk_addr r" "blk_size (take_block r ks) = blk_size r" "blk_count (take_block r ks) = blk_count r"
  by (auto simp: take_block_def PR_PAGEADDR_def PR_BLOCKTYPE_def blk_addr_def blk_size_def blk_count_def)

lemma heap_take:
  assumes "heap_ok pinv powned h all same free" "g \<in> set all" "free g = k # ks"
  defines "r \<equiv> pagerefs h ! g"
  defines "h' \<equiv> h\<lparr>pagerefs := (pagerefs h)[g := take_block r ks]\<rparr>"
  shows "doalloc g h = Some (blk_addr r k, h')" "heap_ok pinv powned h' all same (free(g := ks))"
    "live_blocks h' all (free(g := ks)) = insert (blk_addr r k, blk_size r) (live_blocks h all free)"
    "\<forall>n. (blk_addr r k, n) \<notin> live_blocks h all free" "k < blk_count r"
    "heap_page h' all = heap_page h all" "kh_mem h' = kh_mem h" "kh_pages h' = kh_pages h"
proof -
  note D = heap_okD [OF assms(1)]
  have gl: "g < length (pagerefs h)" using D(1) D(15) [OF assms(2)] by simp
  have pk: "page_ok (kh_mem h) r (k # ks)" using D(11) [OF assms(2)] assms(3) by (simp add: r_def)
  show "doalloc g h = Some (blk_addr r k, h')" using doalloc_ok(1) [OF gl] pk by (simp add: r_def h'_def)
  have nth: "pagerefs h' ! x = (if x = g then take_block r ks else pagerefs h ! x)" for x
    using gl by (simp add: h'_def nth_list_update)
  have same: "PR_PAGEADDR (pagerefs h' ! x) = PR_PAGEADDR (pagerefs h ! x)" "PR_BLOCKTYPE (pagerefs h' ! x) = PR_BLOCKTYPE (pagerefs h ! x)"
    "next_all (pagerefs h' ! x) = next_all (pagerefs h ! x)" "next_samesize (pagerefs h' ! x) = next_samesize (pagerefs h ! x)"
    "blk_addr (pagerefs h' ! x) = blk_addr (pagerefs h ! x)" "blk_size (pagerefs h' ! x) = blk_size (pagerefs h ! x)" "blk_count (pagerefs h' ! x) = blk_count (pagerefs h ! x)" for x
    by (simp_all add: nth take_block_fields r_def)
  have fl: "pagerefs_inuse h' = pagerefs_inuse h" "sizebases h' = sizebases h" "allbase h' = allbase h" "kh_mem h' = kh_mem h" "kh_pages h' = kh_pages h"
    "length (pagerefs h') = length (pagerefs h)" by (simp_all add: h'_def)
  have pg: "page_ok (kh_mem h') (pagerefs h' ! x) ((free(g := ks)) x)" if "x \<in> set all" for x
    using D(11) [OF that] doalloc_ok(2) [OF gl] pk by (simp add: nth fl r_def)
  then show "heap_ok pinv powned h' all same (free(g := ks))"
    using assms(1) unfolding heap_ok_def fl same by blast
  show "heap_page h' all = heap_page h all" "kh_mem h' = kh_mem h" "kh_pages h' = kh_pages h" by (simp_all add: heap_page_def same fl)
  show kb: "k < blk_count r" using pk by (auto simp: page_ok_def)
  have nk: "k \<notin> set ks" using pk by (simp add: page_ok_def)
  show "live_blocks h' all (free(g := ks)) = insert (blk_addr r k, blk_size r) (live_blocks h all free)"
  proof -
    have "live_ix h' all (free(g := ks)) = insert (g, k) (live_ix h all free)"
      unfolding live_ix_def same using assms(2,3) kb nk by (auto simp: r_def split: if_splits)
    then show ?thesis unfolding live_blocks_def same by (simp add: r_def)
  qed
  show "\<forall>n. (blk_addr r k, n) \<notin> live_blocks h all free"
  proof (intro allI notI)
    fix n assume "(blk_addr r k, n) \<in> live_blocks h all free"
    then obtain g' k' where "blk_addr r k = blk_addr (pagerefs h ! g') k'" "g' \<in> set all" "k' < blk_count (pagerefs h ! g')" "k' \<notin> set (free g')"
      by (rule live_blocksE)
    then show False using heap_addr_inj [OF assms(1,2), of k g' k'] kb assms(3) by (auto simp: r_def)
  qed
qed

subsection \<open>A fresh page\<close>

lemma link_blocks_result:
  assumes A: "\<And>j. fla + of_nat j * sz = A j" and inj: "\<And>j j'. j < cnt \<Longrightarrow> j' < cnt \<Longrightarrow> A j = A j' \<Longrightarrow> j = j'"
  shows "1 \<le> i \<Longrightarrow> i + n \<le> cnt \<Longrightarrow>
    \<exists>m'. link_blocks n i fla sz m = Some m' \<and> (\<forall>j. i \<le> j \<and> j < i + n \<longrightarrow> m' (A j) = A (j - 1)) \<and>
      (\<forall>x. (\<forall>j. i \<le> j \<and> j < i + n \<longrightarrow> x \<noteq> A j) \<longrightarrow> m' x = m x)"
proof (induction n arbitrary: i m)
  case (Suc n)
  define m1 where "m1 = m(A i := A (i - 1))"
  have lt: "i < cnt" "i - 1 < cnt" "i \<noteq> i - 1" using Suc.prems by auto
  have ne: "A i \<noteq> A (i - 1)" using inj [OF lt(1,2)] lt(3) by blast
  have "1 \<le> Suc i" "Suc i + n \<le> cnt" using Suc.prems by simp_all
  from Suc.IH [OF this, of m1] obtain m' where m': "link_blocks n (Suc i) fla sz m1 = Some m'"
    "\<And>j. Suc i \<le> j \<and> j < Suc i + n \<Longrightarrow> m' (A j) = A (j - 1)"
    "\<And>x. (\<forall>j. Suc i \<le> j \<and> j < Suc i + n \<longrightarrow> x \<noteq> A j) \<Longrightarrow> m' x = m1 x" by blast
  have "A i \<noteq> A j" if "Suc i \<le> j" "j < Suc i + n" for j
  proof -
    have "j < cnt" "i \<noteq> j" using that Suc.prems by auto
    then show ?thesis using inj [OF lt(1), of j] by blast
  qed
  then have "m' (A i) = m1 (A i)" by (intro m'(3)) auto
  then have mi: "m' (A i) = A (i - 1)" by (simp add: m1_def)
  have "m' (A j) = A (j - 1)" if "i \<le> j" "j < i + Suc n" for j
    using mi m'(2) [of j] that by (cases "j = i") auto
  moreover have "m' x = m x" if x: "\<forall>j. i \<le> j \<and> j < i + Suc n \<longrightarrow> x \<noteq> A j" for x
  proof -
    have "m' x = m1 x" using x by (intro m'(3)) auto
    moreover have "x \<noteq> A i" using x by auto
    ultimately show ?thesis by (simp add: m1_def)
  qed
  moreover have "link_blocks (Suc n) i fla sz m = Some m'"
    using m'(1) ne unfolding link_blocks.simps A Let_def m1_def by simp
  ultimately show ?case by blast
qed auto

lemma chain_down: "(\<And>j. 1 \<le> j \<Longrightarrow> j < n \<Longrightarrow> m (f j) = f (j - 1)) \<Longrightarrow> m (f 0) = 0 \<Longrightarrow> chain m (map f (rev [0..<n]))"
proof (induction n)
  case (Suc n)
  then have "chain m (map f (rev [0..<n]))" by simp
  moreover have "m (f n) = (case map f (rev [0..<n]) of [] \<Rightarrow> 0 | y # ys \<Rightarrow> y)"
  proof (cases n)
    case (Suc k)
    then show ?thesis using Suc.prems(1) [of n] by simp
  qed (use Suc.prems(2) in simp)
  ultimately show ?case by (simp add: chain_Cons)
qed simp

lemma MKPAB_fields:
  assumes "a AND PAGE_FRAME = a" "t < 8" "pageaddr_and_blocktype r = MKPAB a (of_nat t)"
  shows "PR_PAGEADDR r = a" "PR_BLOCKTYPE r = of_nat t" "unat (PR_BLOCKTYPE r) = t" "blk_size r = unat (sizes ! t)"
proof -
  have "((a AND PAGE_FRAME) OR (of_nat t AND NOT PAGE_FRAME)) AND PAGE_FRAME = a AND PAGE_FRAME"
    by (rule bit_word_eqI) (auto simp: bit_simps)
  then show "PR_PAGEADDR r = a" using assms by (simp add: PR_PAGEADDR_def MKPAB_def)
  have "((a AND PAGE_FRAME) OR (of_nat t AND NOT PAGE_FRAME)) AND NOT PAGE_FRAME = of_nat t AND NOT PAGE_FRAME"
    by (rule bit_word_eqI) (auto simp: bit_simps)
  moreover have "(of_nat t :: 32 word) AND NOT PAGE_FRAME = of_nat t"
    using assms(2) by (auto simp: PAGE_FRAME_def less_Suc_eq numeral_eq_Suc)
  ultimately show bt: "PR_BLOCKTYPE r = of_nat t" using assms(3) by (simp add: PR_BLOCKTYPE_def MKPAB_def)
  then show u: "unat (PR_BLOCKTYPE r) = t" using assms(2) by (simp add: unat_of_nat_ok)
  then show "blk_size r = unat (sizes ! t)" by (simp add: blk_size_def)
qed

text \<open>What \<open>subpage_kmalloc\<close> makes of a new page.\<close>

lemma fresh_page:
  assumes "a AND PAGE_FRAME = a" "a \<noteq> 0" "t < 8"
  defines "sz \<equiv> sizes ! t" defines "cnt \<equiv> 4096 div unat sz" defines "n \<equiv> (ucast (PAGE_SIZE div sz) :: 16 word)"
  defines "off \<equiv> (ucast (a + of_nat (unat n - 1) * sz - a) :: 16 word)"
  shows "unat n = cnt" "ucast off = of_nat (unat n - 1) * sz"
    "\<exists>m'. link_blocks (unat n - 1) 1 a sz (m(a := 0)) = Some m' \<and>
      (\<forall>r. pageaddr_and_blocktype r = MKPAB a (of_nat t) \<and> nfree r = n \<and> freelist_offset r = off \<longrightarrow> page_ok m' r (rev [0..<cnt])) \<and>
      (\<forall>x. unat x \<notin> {unat a ..< unat a + 4096} \<longrightarrow> m' x = m x)"
proof -
  define r0 where "r0 = \<lparr>next_samesize = NULL, next_all = NULL, pageaddr_and_blocktype = MKPAB a (of_nat t), freelist_offset = off, nfree = n\<rparr>"
  have p0: "pageaddr_and_blocktype r0 = MKPAB a (of_nat t)" by (simp add: r0_def)
  note F = MKPAB_fields [OF assms(1,3) p0]
  have t8: "unat (PR_BLOCKTYPE r0) < 8" using F(3) assms(3) by simp
  note B = blk_facts [OF t8]
  have cn: "blk_count r0 = cnt" by (simp add: blk_count_def F(4) cnt_def sz_def)
  have uz: "blk_size r0 = unat sz" by (simp add: F(4) sz_def)
  have "unat (PAGE_SIZE div sz) = cnt" by (simp add: unat_div cnt_def)
  then have "unat n = cnt mod 65536" by (simp add: n_def unsigned_ucast_eq take_bit_eq_mod)
  then show un: "unat n = cnt" using B(3) cn by simp
  have ad: "a + of_nat j * sz = blk_addr r0 j" for j by (simp add: blk_addr_def F(1) uz)
  have lt: "(cnt - 1) * unat sz < 4096" using blk_bound [OF t8, of "cnt - 1"] B(2,4) cn uz by simp
  have so: "(of_nat (cnt - 1) * sz :: 32 word) = of_nat ((cnt - 1) * unat sz)" by simp
  have off: "off = of_nat ((cnt - 1) * unat sz)"
    unfolding off_def un using ucast_off [of "(cnt - 1) * unat sz"] lt so by simp
  show "ucast off = of_nat (unat n - 1) * sz" unfolding off un so by (rule off_ucast) (use lt in simp)
  have inj: "j = j'" if "j < cnt" "j' < cnt" "blk_addr r0 j = blk_addr r0 j'" for j j'
  proof -
    have "unat (PR_PAGEADDR r0) + j * blk_size r0 = unat (PR_PAGEADDR r0) + j' * blk_size r0"
      using blk_addr_unat [OF t8, unfolded cn, OF that(1)] blk_addr_unat [OF t8, unfolded cn, OF that(2)] that(3) by (simp only:)
    then show ?thesis using B(4) by auto
  qed
  have eq1: "1 + (unat n - 1) = cnt" using un B(2) cn by simp
  from link_blocks_result [OF ad inj order.refl eq_imp_le [OF eq1], of "m(a := 0)", unfolded eq1] obtain m' where m': "link_blocks (unat n - 1) 1 a sz (m(a := 0)) = Some m'"
    "\<And>j. 1 \<le> j \<Longrightarrow> j < cnt \<Longrightarrow> m' (blk_addr r0 j) = blk_addr r0 (j - 1)"
    "\<And>x. (\<forall>j. 1 \<le> j \<and> j < cnt \<longrightarrow> x \<noteq> blk_addr r0 j) \<Longrightarrow> m' x = (m(a := 0)) x"
    by blast
  have a0: "blk_addr r0 0 = a" by (simp add: blk_addr_def F(1))
  have "blk_addr r0 0 \<noteq> blk_addr r0 j" if "1 \<le> j" "j < cnt" for j using inj [of 0 j] that by auto
  then have m0: "m' (blk_addr r0 0) = 0" using m'(3) [of "blk_addr r0 0"] a0 by auto
  have ch: "chain m' (map (blk_addr r0) (rev [0..<cnt]))" by (rule chain_down) (use m'(2) m0 in auto)
  have pk: "page_ok m' r (rev [0..<cnt])" if r: "pageaddr_and_blocktype r = MKPAB a (of_nat t)" "nfree r = n" "freelist_offset r = off" for r
  proof -
    have eq: "PR_PAGEADDR r = PR_PAGEADDR r0" "PR_BLOCKTYPE r = PR_BLOCKTYPE r0" "blk_size r = blk_size r0" "blk_count r = blk_count r0" "blk_addr r = blk_addr r0"
      using r(1) p0 by (simp_all add: PR_PAGEADDR_def PR_BLOCKTYPE_def blk_size_def blk_count_def blk_addr_def fun_eq_iff)
    have "n = of_nat cnt" unfolding un [symmetric] by simp
    then show ?thesis unfolding page_ok_def eq using t8 F(1) assms(2) cn ch r off uz B(2)
      by (auto simp: hd_rev last_upt)
  qed
  have fr: "m' x = m x" if "unat x \<notin> {unat a ..< unat a + 4096}" for x
  proof -
    have "x \<noteq> blk_addr r0 j" if "j < cnt" for j
      using blk_range_page [OF t8, of j] blk_addr_range [OF t8, of j] that cn F(1) \<open>unat x \<notin> _\<close> by auto
    moreover have "0 < cnt" using B(2) cn by simp
    ultimately have "x \<noteq> a" "\<forall>j. 1 \<le> j \<and> j < cnt \<longrightarrow> x \<noteq> blk_addr r0 j" using a0 by auto
    then show ?thesis using m'(3) [of x] by simp
  qed
  show "\<exists>m'. link_blocks (unat n - 1) 1 a sz (m(a := 0)) = Some m' \<and>
      (\<forall>r. pageaddr_and_blocktype r = MKPAB a (of_nat t) \<and> nfree r = n \<and> freelist_offset r = off \<longrightarrow> page_ok m' r (rev [0..<cnt])) \<and>
      (\<forall>x. unat x \<notin> {unat a ..< unat a + 4096} \<longrightarrow> m' x = m x)"
    using m'(1) pk fr by blast
qed

end
