(* ===== verification/K_Kheap_Calls.thy ===== *)
theory K_Kheap_Calls
  imports K_Kheap_Laws
begin

unbundle bit_operations_syntax

section \<open>Allocation and release of heap blocks\<close>

text \<open>
  Over any page allocator that keeps its contract \<open>kmalloc\<close> adds a fresh block to the set of blocks in use and \<open>kfree\<close>
  removes one, and neither touches the contents of the others.
\<close>

subsection \<open>A new page\<close>

lemma heap_add:
  assumes ok: "heap_ok pinv powned h all same free" and g: "g < 256" "g \<notin> set all" and t: "t < 8"
    and a: "a \<notin> powned (kh_pages h)" "powned p1 = insert a (powned (kh_pages h))" "pinv p1"
    and ws: "length ws = 8" "\<forall>x < 256. inuse_bit ws x \<longleftrightarrow> x = g \<or> inuse_bit (pagerefs_inuse h) x"
    and r: "page_ok m' r ks" "PR_PAGEADDR r = a" "unat (PR_BLOCKTYPE r) = t" "next_samesize r = sizebases h ! t" "next_all r = allbase h" "set ks = {..<blk_count r}"
    and m': "\<forall>x. unat x \<notin> {unat a ..< unat a + 4096} \<longrightarrow> m' x = kh_mem h x"
  defines "h' \<equiv> h\<lparr>pagerefs_inuse := ws, kh_pages := p1, kh_mem := m', pagerefs := (pagerefs h)[g := r], sizebases := (sizebases h)[t := Ptr g], allbase := Ptr g\<rparr>"
  shows "heap_ok pinv powned h' (g # all) (same(t := g # same t)) (free(g := ks))" "live_blocks h' (g # all) (free(g := ks)) = live_blocks h all free"
    "heap_page h' (g # all) = insert a (heap_page h all)"
proof -
  note D = heap_okD [OF ok]
  have nth: "pagerefs h' ! x = (if x = g then r else pagerefs h ! x)" for x using D(1) g(1) by (simp add: h'_def nth_list_update)
  have fl: "pagerefs_inuse h' = ws" "allbase h' = Ptr g" "kh_mem h' = m'" "kh_pages h' = p1" "length (pagerefs h') = 256" "length (sizebases h') = 8"
    "sizebases h' ! u = (if u = t then Ptr g else sizebases h ! u)" for u
    using D(1,3) t by (simp_all add: h'_def nth_list_update)
  have gx: "x \<noteq> g" if "x \<in> set all" for x using that g(2) by auto
  have l1: "is_list (\<lambda>x. next_all (pagerefs h' ! x)) (allbase h') (g # all)"
  proof -
    have "is_list (\<lambda>x. next_all (pagerefs h' ! x)) (allbase h) all = is_list (\<lambda>x. next_all (pagerefs h ! x)) (allbase h) all"
      by (rule is_list_cong) (use gx in \<open>simp add: nth\<close>)
    then show ?thesis using D(7) r(5) by (simp add: fl nth)
  qed
  have l2: "is_list (\<lambda>x. next_samesize (pagerefs h' ! x)) (sizebases h' ! u) ((same(t := g # same t)) u)" if u: "u < 8" for u
  proof -
    have "set (same u) \<subseteq> set all" using D(9) [OF u] by auto
    then have "is_list (\<lambda>x. next_samesize (pagerefs h' ! x)) (sizebases h ! u) (same u) = is_list (\<lambda>x. next_samesize (pagerefs h ! x)) (sizebases h ! u) (same u)"
      by (intro is_list_cong) (use gx in \<open>auto simp: nth\<close>)
    then show ?thesis using D(10) [OF u] r(4) by (cases "u = t") (simp_all add: fl nth)
  qed
  have s2: "distinct ((same(t := g # same t)) u) \<and> set ((same(t := g # same t)) u) = {x \<in> set (g # all). unat (PR_BLOCKTYPE (pagerefs h' ! x)) = u}" if u: "u < 8" for u
    using D(8,9) [OF u] g(2) gx r(3) by (auto simp: nth)
  have pk: "page_ok (kh_mem h') (pagerefs h' ! x) ((free(g := ks)) x) \<and> PR_PAGEADDR (pagerefs h' ! x) \<in> powned (kh_pages h')" if x: "x \<in> set (g # all)" for x
  proof (cases "x = g")
    case True
    then show ?thesis using r(1,2) a(2) by (simp add: nth fl)
  next
    case False
    then have xa: "x \<in> set all" using x by simp
    let ?q = "pagerefs h ! x"
    have t8: "unat (PR_BLOCKTYPE ?q) < 8" by (rule page_ok_type [OF D(11) [OF xa]])
    have "PR_PAGEADDR ?q \<noteq> a" using D(12) [OF xa] a(1) by auto
    then have ne: "unat (PR_PAGEADDR ?q) \<noteq> unat a" by (simp add: word_unat_eq_iff)
    have ap: "{unat (PR_PAGEADDR ?q) ..< unat (PR_PAGEADDR ?q) + 4096} \<inter> {unat a ..< unat a + 4096} = {}"
      using pages_apart [OF page_aligned(1) page_aligned(1), of ?q r] ne by (simp add: r(2))
    have "m' (blk_addr ?q k) = kh_mem h (blk_addr ?q k)" if "k < blk_count ?q" for k
    proof -
      have "unat (blk_addr ?q k) \<in> {unat (PR_PAGEADDR ?q) ..< unat (PR_PAGEADDR ?q) + 4096}"
        using blk_range_page [OF t8 that] blk_addr_range [OF t8 that] by blast
      then show ?thesis using m' ap by blast
    qed
    then have "chain m' (map (blk_addr ?q) (free x)) = chain (kh_mem h) (map (blk_addr ?q) (free x))"
      using D(11) [OF xa] by (intro chain_cong) (auto simp: page_ok_def)
    then show ?thesis using D(11,12) [OF xa] False a(2) by (simp add: nth fl page_ok_def)
  qed
  have ij: "inj_on (\<lambda>x. PR_PAGEADDR (pagerefs h' ! x)) (set (g # all))"
  proof -
    have "PR_PAGEADDR (pagerefs h ! x) \<noteq> a" if "x \<in> set all" for x using D(12) [OF that] a(1) by auto
    then have "a \<notin> (\<lambda>x. PR_PAGEADDR (pagerefs h' ! x)) ` (set all - {g})" by (auto simp: nth)
    moreover have "inj_on (\<lambda>x. PR_PAGEADDR (pagerefs h' ! x)) (set all)" using D(13) gx by (auto simp: inj_on_def nth)
    ultimately show ?thesis by (simp add: nth r(2))
  qed
  have iu: "\<forall>x < 256. inuse_bit (pagerefs_inuse h') x \<longleftrightarrow> x \<in> set (g # all)" using D(6) ws(2) by (auto simp: fl)
  show "heap_ok pinv powned h' (g # all) (same(t := g # same t)) (free(g := ks))"
    unfolding heap_ok_def using fl(5,6) ws(1) D(4,5) g l1 l2 s2 pk ij iu a(3) by (simp add: fl(1,4))
  have "live_ix h' (g # all) (free(g := ks)) = live_ix h all free"
    using r(6) gx g(2) by (auto simp: live_ix_def nth)
  moreover have "\<And>x k. (x, k) \<in> live_ix h all free \<Longrightarrow> x \<noteq> g" using gx by (auto simp: live_ix_def)
  ultimately show "live_blocks h' (g # all) (free(g := ks)) = live_blocks h all free"
    unfolding live_blocks_def by (intro image_cong) (auto simp: nth)
  have "(\<lambda>x. PR_PAGEADDR (pagerefs h' ! x)) ` set all = (\<lambda>x. PR_PAGEADDR (pagerefs h ! x)) ` set all"
    by (rule image_cong) (use gx in \<open>simp_all add: nth\<close>)
  then show "heap_page h' (g # all) = insert a (heap_page h all)" by (simp add: heap_page_def nth r(2))
qed

subsection \<open>Allocation\<close>

context page_source
begin

lemma pa_one:
  assumes "pinv p"
  shows "\<exists>a p1. pa 1 p = Some (a, p1) \<and> pinv p1 \<and>
      (a = 0 \<and> pblocks p1 = pblocks p \<or> a \<noteq> 0 \<and> (\<forall>m. (a, m) \<notin> pblocks p) \<and> pblocks p1 = insert (a, 1) (pblocks p))"
  using pa_block [OF assms, of 1] by simp

text \<open>Blocks that were in use lie outside a block of pages that was just handed out.\<close>

lemma rep_misses_new:
  assumes "kh_rep pinv pblocks h L" "(b, n) \<in> L" "pinv p1" "pblocks p1 = insert (a, k) (pblocks (kh_pages h))" "(a, k) \<notin> pblocks (kh_pages h)"
  shows "{unat b ..< unat b + n} \<inter> {unat a ..< unat a + k * 4096} = {}"
proof -
  obtain all same free where h: "heap_ok pinv (one_page pblocks) h all same free"
    and L: "L = live_blocks h all free \<union> big_blocks (pblocks (kh_pages h)) (heap_page h all)" using assms(1) by (auto simp: kh_rep_def)
  obtain c m where c: "(c, m) \<in> pblocks (kh_pages h)" "{unat b ..< unat b + n} \<subseteq> {unat c ..< unat c + m * 4096}"
    using rep_in_pages [OF h assms(2) [unfolded L]] by blast
  have "(c, m) \<noteq> (a, k)" using c(1) assms(5) by auto
  then show ?thesis using blocks_apart [OF assms(3), of c m a k] c assms(4) by blast
qed

text \<open>A block off the free list of a page of the heap.\<close>

lemma take_rep:
  assumes ok: "heap_ok pinv (one_page pblocks) h all same free" and g: "g \<in> set all" "free g = k # ks" "unat (PR_BLOCKTYPE (pagerefs h ! g)) = t" "t < 8"
    and L: "L = live_blocks h all free \<union> big_blocks (pblocks (kh_pages h)) (heap_page h all)"
  shows "\<exists>ret h'. doalloc g h = Some (ret, h') \<and> ret \<noteq> 0 \<and> (ret, unat (sizes ! t)) \<notin> L \<and> kh_rep pinv pblocks h' (insert (ret, unat (sizes ! t)) L) \<and> kh_mem h' = kh_mem h"
proof -
  note D = heap_okD [OF ok]
  note T = heap_take [OF ok g(1,2)]
  have t8: "unat (PR_BLOCKTYPE (pagerefs h ! g)) < 8" using g(3,4) by simp
  have nz: "blk_addr (pagerefs h ! g) k \<noteq> 0" using blk_addr_nz [OF t8 T(5)] D(11) [OF g(1)] by (simp add: page_ok_def)
  have sz: "blk_size (pagerefs h ! g) = unat (sizes ! t)" by (simp add: blk_size_def g(3))
  have "(b, unat (sizes ! t)) \<notin> big_blocks (pblocks (kh_pages h)) (heap_page h all)" for b
  proof
    assume "(b, unat (sizes ! t)) \<in> big_blocks (pblocks (kh_pages h)) (heap_page h all)"
    then obtain n where "(b, n) \<in> pblocks (kh_pages h)" "unat (sizes ! t) = n * 4096" by (auto simp: big_blocks_def)
    then show False using block_aligned [OF D(14)] blk_facts(6) [OF t8] sz by fastforce
  qed
  then have "(blk_addr (pagerefs h ! g) k, unat (sizes ! t)) \<notin> L" using T(4) L by blast
  then show ?thesis using T nz sz unfolding kh_rep_def L by (intro exI conjI) (assumption | simp)+
qed

text \<open>A page that was just handed out, cut into blocks and put on the lists, and its first block taken.\<close>

lemma fresh_rep:
  assumes ok: "heap_ok pinv (one_page pblocks) h all same free"
    and L: "L = live_blocks h all free \<union> big_blocks (pblocks (kh_pages h)) (heap_page h all)"
    and g: "g < 256" "g \<notin> set all" and t: "t < 8"
    and ws: "length ws = 8" "\<forall>x < 256. inuse_bit ws x \<longleftrightarrow> x = g \<or> inuse_bit (pagerefs_inuse h) x"
    and a: "pinv p1" "a \<noteq> 0" "\<forall>m. (a, m) \<notin> pblocks (kh_pages h)" "pblocks p1 = insert (a, 1) (pblocks (kh_pages h))"
  defines "sz \<equiv> sizes ! t" defines "n \<equiv> (ucast (PAGE_SIZE div sz) :: 16 word)"
  defines "off \<equiv> (ucast (a + of_nat (unat n - 1) * sz - a) :: 16 word)"
  defines "r \<equiv> (pagerefs h ! g)\<lparr>pageaddr_and_blocktype := MKPAB a (of_nat t), nfree := n, freelist_offset := off, next_samesize := sizebases h ! t, next_all := allbase h\<rparr>"
  shows "ucast off = of_nat (unat n - 1) * sz"
    "\<exists>m' ret h'. link_blocks (unat n - 1) 1 a sz ((kh_mem h)(a := 0)) = Some m' \<and>
      doalloc g (h\<lparr>pagerefs_inuse := ws, kh_pages := p1, kh_mem := m', pagerefs := (pagerefs h)[g := r], sizebases := (sizebases h)[t := Ptr g], allbase := Ptr g\<rparr>) = Some (ret, h') \<and>
      ret \<noteq> 0 \<and> (ret, unat (sizes ! t)) \<notin> L \<and> kh_rep pinv pblocks h' (insert (ret, unat (sizes ! t)) L) \<and>
      (\<forall>(b, n) \<in> L. \<forall>x. unat b \<le> unat x \<and> unat x < unat b + n \<longrightarrow> kh_mem h' x = kh_mem h x)"
proof -
  note D = heap_okD [OF ok]
  have a1: "a AND PAGE_FRAME = a" using block_aligned [OF a(1), of a 1] a(4) by simp
  have a4: "a \<notin> one_page pblocks (kh_pages h)" "one_page pblocks p1 = insert a (one_page pblocks (kh_pages h))"
    using a(3,4) by (auto simp: one_page_def)
  define cnt where "cnt = 4096 div unat sz"
  note F = fresh_page [OF a1 a(2) t, folded sz_def, folded n_def, folded off_def, folded cnt_def]
  show "ucast off = of_nat (unat n - 1) * sz" by (rule F(2))
  obtain m' where m': "link_blocks (unat n - 1) 1 a sz ((kh_mem h)(a := 0)) = Some m'"
    "\<And>r. pageaddr_and_blocktype r = MKPAB a (of_nat t) \<Longrightarrow> nfree r = n \<Longrightarrow> freelist_offset r = off \<Longrightarrow> page_ok m' r (rev [0..<cnt])"
    "\<forall>x. unat x \<notin> {unat a ..< unat a + 4096} \<longrightarrow> m' x = kh_mem h x" using F(3) [of "kh_mem h"] by blast
  have pr: "page_ok m' r (rev [0..<cnt])" by (rule m'(2)) (simp_all add: r_def)
  have fr: "PR_PAGEADDR r = a" "unat (PR_BLOCKTYPE r) = t" "blk_size r = unat sz"
    using MKPAB_fields [OF a1 t, of r] by (simp_all add: r_def sz_def)
  have lk: "next_samesize r = sizebases h ! t" "next_all r = allbase h" by (simp_all add: r_def)
  have sk: "set (rev [0..<cnt]) = {..<blk_count r}" by (auto simp: blk_count_def fr(3) cnt_def)
  define h' where "h' = h\<lparr>pagerefs_inuse := ws, kh_pages := p1, kh_mem := m', pagerefs := (pagerefs h)[g := r], sizebases := (sizebases h)[t := Ptr g], allbase := Ptr g\<rparr>"
  note A = heap_add [OF ok g t a4 a(1) ws pr fr(1,2) lk sk m'(3), folded h'_def]
  have Le: "L = live_blocks h' (g # all) (free(g := rev [0..<cnt])) \<union> big_blocks (pblocks (kh_pages h')) (heap_page h' (g # all))"
    using A(2,3) a(3,4) by (auto simp: L h'_def big_blocks_def)
  have "0 < cnt" using blk_facts(2) [of r] fr(2,3) t by (simp add: blk_count_def cnt_def)
  then obtain k ks where k: "(free(g := rev [0..<cnt])) g = k # ks" by (cases "rev [0..<cnt]") auto
  have bt: "unat (PR_BLOCKTYPE (pagerefs h' ! g)) = t" using D(1) g(1) fr(2) by (simp add: h'_def)
  have mm: "kh_mem h' = m'" by (simp add: h'_def)
  obtain ret h2 where R: "doalloc g h' = Some (ret, h2)" "ret \<noteq> 0" "(ret, unat (sizes ! t)) \<notin> L" "kh_rep pinv pblocks h2 (insert (ret, unat (sizes ! t)) L)" "kh_mem h2 = m'"
    using take_rep [OF A(1) _ k bt t Le] mm by auto
  have "m' x = kh_mem h x" if "(b, n) \<in> L" "unat b \<le> unat x \<and> unat x < unat b + n" for b n x
  proof -
    have "unat x \<notin> {unat a ..< unat a + 4096}" using rep_misses_new [OF kh_repI [OF ok L] that(1) a(1,4)] a(3) that(2) by auto
    then show ?thesis using m'(3) by blast
  qed
  then show "\<exists>m' ret h'. link_blocks (unat n - 1) 1 a sz ((kh_mem h)(a := 0)) = Some m' \<and>
      doalloc g (h\<lparr>pagerefs_inuse := ws, kh_pages := p1, kh_mem := m', pagerefs := (pagerefs h)[g := r], sizebases := (sizebases h)[t := Ptr g], allbase := Ptr g\<rparr>) = Some (ret, h') \<and>
      ret \<noteq> 0 \<and> (ret, unat (sizes ! t)) \<notin> L \<and> kh_rep pinv pblocks h' (insert (ret, unat (sizes ! t)) L) \<and>
      (\<forall>(b, n) \<in> L. \<forall>x. unat b \<le> unat x \<and> unat x < unat b + n \<longrightarrow> kh_mem h' x = kh_mem h x)"
    using R m'(1) unfolding h'_def by (intro exI [of _ m'] exI [of _ ret] exI [of _ h2]) auto
qed

lemma subpage_alloc_rep:
  assumes "kh_rep pinv pblocks h L" "t < 8"
  shows "\<exists>ret h'. subpage_alloc pa t h = Some (ret, h') \<and>
    (ret = 0 \<and> kh_rep pinv pblocks h' L \<or>
     ret \<noteq> 0 \<and> (ret, unat (sizes ! t)) \<notin> L \<and> kh_rep pinv pblocks h' (insert (ret, unat (sizes ! t)) L)) \<and>
    (\<forall>(b, n) \<in> L. \<forall>x. unat b \<le> unat x \<and> unat x < unat b + n \<longrightarrow> kh_mem h' x = kh_mem h x)"
proof -
  obtain all same free where ok: "heap_ok pinv (one_page pblocks) h all same free" and L: "L = live_blocks h all free \<union> big_blocks (pblocks (kh_pages h)) (heap_page h all)" using assms(1) by (auto simp: kh_rep_def)
  note D = heap_okD [OF ok]
  have st: "set (same t) = {g \<in> set all. unat (PR_BLOCKTYPE (pagerefs h ! g)) = t}" by (rule D(9) [OF assms(2)])
  have bt: "g < length (pagerefs h) \<and> PR_BLOCKTYPE (pagerefs h ! g) = of_nat t" if "g \<in> set (same t)" for g
    using that st D(1,15) by (auto simp: word_unat_eq_iff unat_of_nat_ok assms(2))
  let ?fs = "filter (\<lambda>g. nfree (pagerefs h ! g) > 0) (same t)"
  have sr: "kmalloc_search t (sizebases h ! t) h = Some (case ?fs of [] \<Rightarrow> NULL | g # gs \<Rightarrow> Ptr g)"
    by (rule kmalloc_search_list [OF bt D(10) [OF assms(2)]])
  have bs: "rd sizes t = Some (sizes ! t)" "rd (sizebases h) t = Some (sizebases h ! t)"
    using assms(2) D(3) by (simp_all add: rd_def sizes_def)
  show ?thesis
  proof (cases ?fs)
    case (Cons g gs)
    then have g: "g \<in> set all" "unat (PR_BLOCKTYPE (pagerefs h ! g)) = t" "nfree (pagerefs h ! g) > 0"
      using filter_eq_ConsD [OF Cons] st by auto
    have "free g \<noteq> []" using D(11) [OF g(1)] g(3) by (auto simp: page_ok_def)
    then obtain k ks where k: "free g = k # ks" by (cases "free g") auto
    have "subpage_alloc pa t h = doalloc g h" using bs sr Cons by (simp add: subpage_alloc_def)
    then show ?thesis using take_rep [OF ok g(1) k g(2) assms(2) L] by fastforce
  next
    case Nil
    have search: "kmalloc_search t (sizebases h ! t) h = Some NULL" using sr Nil by simp
    have "length (pagerefs_inuse h) = 0 + 8" using D(2) by simp
    from allocpageref_loop_result [OF this] have "allocpageref h = Some (NULL, h) \<or> (\<exists>g. g < 256 \<and> \<not> inuse_bit (pagerefs_inuse h) g \<and>
        (\<exists>ws. allocpageref h = Some (Ptr g, h\<lparr>pagerefs_inuse := ws\<rparr>) \<and> length ws = 8 \<and> (\<forall>x < 256. inuse_bit ws x \<longleftrightarrow> x = g \<or> inuse_bit (pagerefs_inuse h) x)))"
      by (simp add: allocpageref_def NPAGEREFS_def)
    then show ?thesis
    proof (elim disjE exE conjE)
      assume "allocpageref h = Some (NULL, h)"
      then have "subpage_alloc pa t h = Some (0, h)" using bs search by (simp add: subpage_alloc_def)
      then show ?thesis using assms(1) by auto
    next
      fix g ws
      assume g: "g < 256" "\<not> inuse_bit (pagerefs_inuse h) g" and al: "allocpageref h = Some (Ptr g, h\<lparr>pagerefs_inuse := ws\<rparr>)"
        and ws: "length ws = 8" "\<forall>x < 256. inuse_bit ws x \<longleftrightarrow> x = g \<or> inuse_bit (pagerefs_inuse h) x"
      have ga: "g \<notin> set all" using D(6) [OF g(1)] g(2) by simp
      obtain a p1 where p1: "pa 1 (kh_pages h) = Some (a, p1)" "pinv p1"
        "a = 0 \<and> pblocks p1 = pblocks (kh_pages h) \<or> a \<noteq> 0 \<and> (\<forall>m. (a, m) \<notin> pblocks (kh_pages h)) \<and> pblocks p1 = insert (a, 1) (pblocks (kh_pages h))"
        using pa_one [OF D(14)] by blast
      show ?thesis
      proof (cases "a = 0")
        case True
        have sub: "set all \<subseteq> {..<256}" by (rule D(5))
        let ?h2 = "h\<lparr>pagerefs_inuse := ws, kh_pages := p1\<rparr>"
        obtain vs where vs: "freepageref g ?h2 = Some (?h2\<lparr>pagerefs_inuse := vs\<rparr>)" "length vs = 8" "\<forall>x < 256. inuse_bit vs x \<longleftrightarrow> x \<noteq> g \<and> inuse_bit ws x"
          using freepageref_result [of ?h2 g] ws g(1) by auto
        have bits: "\<forall>x < 256. inuse_bit vs x \<longleftrightarrow> x \<in> set all" using vs(3) ws(2) D(6) ga by auto
        let ?h3 = "?h2\<lparr>pagerefs_inuse := vs\<rparr>"
        have "subpage_alloc pa t h = Some (0, ?h3)" using bs search al p1(1) True vs(1) by (simp add: subpage_alloc_def)
        moreover have "heap_ok pinv (one_page pblocks) ?h3 all same free" using ok vs(2) bits p1(2,3) True by (simp add: heap_ok_def one_page_def)
        moreover have "L = live_blocks ?h3 all free \<union> big_blocks (pblocks (kh_pages ?h3)) (heap_page ?h3 all)"
          using p1(3) True by (simp add: L live_blocks_def live_ix_def heap_page_def)
        ultimately show ?thesis unfolding kh_rep_def by fastforce
      next
        case False
        then have a: "\<forall>m. (a, m) \<notin> pblocks (kh_pages h)" "pblocks p1 = insert (a, 1) (pblocks (kh_pages h))" using p1(3) by auto
        note F = fresh_rep [OF ok L g(1) ga assms(2) ws p1(2) False a]
        have "t < length (sizebases h)" "g < length (pagerefs h)" using D(1,3) assms(2) g(1) by simp_all
        then show ?thesis using bs search al p1(1) False F
          by (auto simp: subpage_alloc_def upd_pageref_def Let_def)
      qed
    qed
  qed
qed

end

subsection \<open>Giving back a block\<close>

lemma fill_outside:
  assumes "unat ptr + 4 * n \<le> 4294967296" "unat x \<notin> {unat ptr ..< unat ptr + 4 * n}"
  shows "fill_deadbeef_loop n ptr m x = m x"
  using assms
proof (induction n)
  case (Suc n)
  have "unat (of_nat n * 4 :: 32 word) = n * 4" using unat_of_nat_ok [of "n * 4"] Suc.prems(1) by simp
  then have "unat (ptr + of_nat n * 4) = unat ptr + n * 4" using Suc.prems(1) by (simp add: unat_plus_ok)
  then have "x \<noteq> ptr + of_nat n * 4" using Suc.prems(2) by auto
  moreover have "unat ptr + 4 * n \<le> 4294967296" "unat x \<notin> {unat ptr ..< unat ptr + 4 * n}" using Suc.prems by auto
  ultimately show ?case using Suc.IH by simp
qed simp

lemma give_page_ok:
  assumes "page_ok m r ks" "k < blk_count r" "k \<notin> set ks"
    and m1: "\<forall>x. unat x \<notin> blk_range r k \<longrightarrow> m1 x = m x" "m1 (blk_addr r k) = (case ks of [] \<Rightarrow> 0 | y # ys \<Rightarrow> blk_addr r y)"
  shows "page_ok m1 (take_block r (k # ks)) (k # ks)" "Suc (length ks) \<le> blk_count r"
proof -
  have t: "unat (PR_BLOCKTYPE r) < 8" "set ks \<subseteq> {..<blk_count r}" using assms(1) by (auto simp: page_ok_def)
  have "m1 (blk_addr r j) = m (blk_addr r j)" if "j \<in> set ks" for j
  proof -
    have j: "j < blk_count r" "k \<noteq> j" using that t(2) assms(3) by auto
    then have "unat (blk_addr r j) \<notin> blk_range r k" using blk_addr_range [OF t(1) j(1)] blk_range_same [OF j(2)] by blast
    then show ?thesis using m1(1) by simp
  qed
  then have "chain m1 (map (blk_addr r) ks) = chain m (map (blk_addr r) ks)" by (intro chain_cong) auto
  then have "chain m1 (map (blk_addr r) (k # ks))" using assms(1) m1(2) by (cases ks) (simp_all add: page_ok_def chain_Cons)
  then show p: "page_ok m1 (take_block r (k # ks)) (k # ks)"
    using assms(1-3) unfolding page_ok_def take_block_fields by (simp add: take_block_def)
  show "Suc (length ks) \<le> blk_count r" using free_count [OF p] by (simp add: take_block_fields)
qed

lemma heap_give:
  assumes ok: "heap_ok pinv powned h all same free" and g: "g \<in> set all"
  defines "r \<equiv> pagerefs h ! g"
  assumes k: "k < blk_count r" "k \<notin> set (free g)"
    and m1: "\<forall>x. unat x \<notin> blk_range r k \<longrightarrow> m1 x = kh_mem h x" "m1 (blk_addr r k) = (case free g of [] \<Rightarrow> 0 | y # ys \<Rightarrow> blk_addr r y)"
  defines "h' \<equiv> h\<lparr>kh_mem := m1, pagerefs := (pagerefs h)[g := take_block r (k # free g)]\<rparr>"
  shows "heap_ok pinv powned h' all same (free(g := k # free g))"
    "live_blocks h' all (free(g := k # free g)) = live_blocks h all free - {(blk_addr r k, blk_size r)}"
    "heap_page h' all = heap_page h all" "kh_pages h' = kh_pages h"
proof -
  note D = heap_okD [OF ok]
  have gl: "g < length (pagerefs h)" using D(1) D(15) [OF g] by simp
  have nth: "pagerefs h' ! x = (if x = g then take_block r (k # free g) else pagerefs h ! x)" for x
    using gl by (simp add: h'_def nth_list_update)
  have same: "PR_PAGEADDR (pagerefs h' ! x) = PR_PAGEADDR (pagerefs h ! x)" "PR_BLOCKTYPE (pagerefs h' ! x) = PR_BLOCKTYPE (pagerefs h ! x)"
    "next_all (pagerefs h' ! x) = next_all (pagerefs h ! x)" "next_samesize (pagerefs h' ! x) = next_samesize (pagerefs h ! x)"
    "blk_addr (pagerefs h' ! x) = blk_addr (pagerefs h ! x)" "blk_size (pagerefs h' ! x) = blk_size (pagerefs h ! x)" "blk_count (pagerefs h' ! x) = blk_count (pagerefs h ! x)" for x
    by (simp_all add: nth take_block_fields r_def)
  have fl: "pagerefs_inuse h' = pagerefs_inuse h" "sizebases h' = sizebases h" "allbase h' = allbase h" "kh_mem h' = m1" "kh_pages h' = kh_pages h"
    "length (pagerefs h') = length (pagerefs h)" by (simp_all add: h'_def)
  have pg: "page_ok (kh_mem h') (pagerefs h' ! x) ((free(g := k # free g)) x)" if x: "x \<in> set all" for x
  proof (cases "x = g")
    case True
    then show ?thesis using give_page_ok(1) [OF D(11) [OF g] k [unfolded r_def] m1 [unfolded r_def]] by (simp add: nth fl r_def)
  next
    case False
    let ?q = "pagerefs h ! x"
    have t8: "unat (PR_BLOCKTYPE ?q) < 8" by (rule page_ok_type [OF D(11) [OF x]])
    have "m1 (blk_addr ?q j) = kh_mem h (blk_addr ?q j)" if "j \<in> set (free x)" for j
    proof -
      have j: "j < blk_count ?q" using D(11) [OF x] that by (auto simp: page_ok_def)
      have "unat (blk_addr ?q j) \<notin> blk_range r k"
        using blk_addr_range [OF t8 j] heap_blocks_apart [OF ok x j g k(1) [unfolded r_def]] False by (auto simp: r_def)
      then show ?thesis using m1(1) by simp
    qed
    then have "chain m1 (map (blk_addr ?q) (free x)) = chain (kh_mem h) (map (blk_addr ?q) (free x))" by (intro chain_cong) auto
    then show ?thesis using D(11) [OF x] False by (simp add: nth fl page_ok_def)
  qed
  then show "heap_ok pinv powned h' all same (free(g := k # free g))"
    using ok unfolding heap_ok_def fl(1-3,5,6) same by blast
  show "heap_page h' all = heap_page h all" "kh_pages h' = kh_pages h" by (simp_all add: heap_page_def same fl)
  have ix: "live_ix h' all (free(g := k # free g)) = live_ix h all free - {(g, k)}"
    unfolding live_ix_def same by (auto split: if_splits)
  have inj: "inj_on (\<lambda>(g, k). (blk_addr (pagerefs h ! g) k, blk_size (pagerefs h ! g))) (insert (g, k) (live_ix h all free))"
    using heap_addr_inj [OF ok] g k(1) by (auto simp: inj_on_def live_ix_def r_def)
  show "live_blocks h' all (free(g := k # free g)) = live_blocks h all free - {(blk_addr r k, blk_size r)}"
  proof -
    have "(\<lambda>(g, k). (blk_addr (pagerefs h ! g) k, blk_size (pagerefs h ! g))) ` (live_ix h all free - {(g, k)}) =
      (\<lambda>(g, k). (blk_addr (pagerefs h ! g) k, blk_size (pagerefs h ! g))) ` live_ix h all free -
        (\<lambda>(g, k). (blk_addr (pagerefs h ! g) k, blk_size (pagerefs h ! g))) ` {(g, k)}"
      by (rule inj_on_image_set_diff [OF inj]) auto
    then show ?thesis unfolding live_blocks_def same ix by (simp add: r_def)
  qed
qed

text \<open>Taking a page with no block in use out of the heap.\<close>

lemma heap_drop:
  assumes ok: "heap_ok pinv powned h all same free" and g: "g \<in> set all" "set (free g) = {..<blk_count (pagerefs h ! g)}"
    and p: "pinv p1" "powned p1 = powned (kh_pages h) - {PR_PAGEADDR (pagerefs h ! g)}"
  defines "t \<equiv> unat (PR_BLOCKTYPE (pagerefs h ! g))"
  shows "\<exists>h2 h3. remove_lists g (int t) h = Some h2 \<and> kh_pages h2 = kh_pages h \<and> freepageref g (h2\<lparr>kh_pages := p1\<rparr>) = Some h3 \<and>
    heap_ok pinv powned h3 (remove1 g all) (same(t := remove1 g (same t))) free \<and> live_blocks h3 (remove1 g all) free = live_blocks h all free \<and>
    heap_page h3 (remove1 g all) = heap_page h all - {PR_PAGEADDR (pagerefs h ! g)} \<and> kh_mem h3 = kh_mem h \<and> kh_pages h3 = p1"
proof -
  note D = heap_okD [OF ok]
  have t: "t < 8" unfolding t_def by (rule page_ok_type [OF D(11) [OF g(1)]])
  have gs: "g \<in> set (same t)" using D(9) [OF t] g(1) by (simp add: t_def)
  have sub: "set (same u) \<subseteq> {..<length (pagerefs h)}" if "u < 8" for u using D(9) [OF that] D(1,5) by auto
  obtain h1 where h1: "remove_samesize g t NULL h = Some h1" "relink h h1" "allbase h1 = allbase h" "\<And>u. u \<noteq> t \<Longrightarrow> sizebases h1 ! u = sizebases h ! u"
      "is_list (\<lambda>g. next_samesize (pagerefs h1 ! g)) (sizebases h1 ! t) (remove1 g (same t))" "\<And>g. next_all (pagerefs h1 ! g) = next_all (pagerefs h ! g)"
      "\<And>g. g \<notin> set (same t) \<Longrightarrow> next_samesize (pagerefs h1 ! g) = next_samesize (pagerefs h ! g)"
    using remove_samesize_list [of "[]" "same t" h g t NULL] D(3) D(8) [OF t] D(10) [OF t] sub [OF t] gs t by auto
  have sub1: "set all \<subseteq> {..<length (pagerefs h1)}" using h1(2) D(1,5) by (simp add: relink_def)
  obtain h2 where h2: "remove_all g NULL h1 = Some h2" "relink h1 h2" "sizebases h2 = sizebases h1"
      "is_list (\<lambda>g. next_all (pagerefs h2 ! g)) (allbase h2) (remove1 g all)" "\<And>g. next_samesize (pagerefs h2 ! g) = next_samesize (pagerefs h1 ! g)"
    using remove_all_list [of "[]" all h1 g NULL] D(4,7) sub1 g(1) h1(3,6) by auto
  have rl: "remove_lists g (int t) h = Some h2" using h1(1) h2(1) t by (simp add: remove_lists_def)
  have rk: "relink h h2" using h1(2) h2(2) by (simp add: relink_def)
  have rf: "length (pagerefs h2) = 256" "pagerefs_inuse h2 = pagerefs_inuse h" "kh_mem h2 = kh_mem h" "kh_pages h2 = kh_pages h" "length (sizebases h2) = 8"
    "PR_PAGEADDR (pagerefs h2 ! x) = PR_PAGEADDR (pagerefs h ! x)" "PR_BLOCKTYPE (pagerefs h2 ! x) = PR_BLOCKTYPE (pagerefs h ! x)"
    "nfree (pagerefs h2 ! x) = nfree (pagerefs h ! x)" "freelist_offset (pagerefs h2 ! x) = freelist_offset (pagerefs h ! x)" for x
    using rk D(1,3) by (simp_all add: relink_def PR_PAGEADDR_def PR_BLOCKTYPE_def)
  have bf: "blk_size (pagerefs h2 ! x) = blk_size (pagerefs h ! x)" "blk_count (pagerefs h2 ! x) = blk_count (pagerefs h ! x)" "blk_addr (pagerefs h2 ! x) = blk_addr (pagerefs h ! x)" for x
    by (simp_all add: blk_size_def blk_count_def blk_addr_def rf fun_eq_iff)
  have g256: "g < 256" by (rule D(15) [OF g(1)])
  let ?h2 = "h2\<lparr>kh_pages := p1\<rparr>"
  obtain ws where ws: "freepageref g ?h2 = Some (?h2\<lparr>pagerefs_inuse := ws\<rparr>)" "length ws = 8" "\<forall>x < 256. inuse_bit ws x \<longleftrightarrow> x \<noteq> g \<and> inuse_bit (pagerefs_inuse h) x"
    using freepageref_result [of ?h2 g] rf(2) D(2) g256 D(6) [OF g256] g(1) by auto
  define h3 where "h3 = ?h2\<lparr>pagerefs_inuse := ws\<rparr>"
  have f3: "pagerefs h3 = pagerefs h2" "sizebases h3 = sizebases h2" "allbase h3 = allbase h2" "kh_mem h3 = kh_mem h" "kh_pages h3 = p1" "pagerefs_inuse h3 = ws"
    by (simp_all add: h3_def rf)
  have s1: "set (remove1 g all) = set all - {g}" using D(4) by (rule set_remove1_eq)
  have sl: "distinct ((same(t := remove1 g (same t))) u) \<and> set ((same(t := remove1 g (same t))) u) = {x \<in> set all - {g}. unat (PR_BLOCKTYPE (pagerefs h ! x)) = u} \<and>
      is_list (\<lambda>x. next_samesize (pagerefs h2 ! x)) (sizebases h2 ! u) ((same(t := remove1 g (same t))) u)" if u: "u < 8" for u
  proof (cases "u = t")
    case True
    then show ?thesis using D(8) [OF t] D(9) [OF t] h1(5) h2(3,5) by (auto simp: set_remove1_eq)
  next
    case False
    have "is_list (\<lambda>x. next_samesize (pagerefs h2 ! x)) (sizebases h ! u) (same u) = is_list (\<lambda>x. next_samesize (pagerefs h ! x)) (sizebases h ! u) (same u)"
      by (rule is_list_cong) (use D(9) [OF t] D(9) [OF u] False h1(7) h2(5) in auto)
    then show ?thesis using D(8) [OF u] D(9) [OF u] D(10) [OF u] False h1(4) h2(3) t_def by auto
  qed
  have pk: "page_ok (kh_mem h) (pagerefs h2 ! x) (free x) \<and> PR_PAGEADDR (pagerefs h2 ! x) \<in> powned p1" if x: "x \<in> set all - {g}" for x
  proof -
    have "PR_PAGEADDR (pagerefs h ! x) \<noteq> PR_PAGEADDR (pagerefs h ! g)" using D(13) x g(1) by (auto dest: inj_onD)
    then show ?thesis using D(11) [of x] D(12) [of x] x p(2) by (simp add: page_ok_def rf bf)
  qed
  have "heap_ok pinv powned h3 (remove1 g all) (same(t := remove1 g (same t))) free"
    unfolding heap_ok_def f3 s1 rf(1,5,6,7)
  proof (intro conjI)
    show "inj_on (\<lambda>x. PR_PAGEADDR (pagerefs h ! x)) (set all - {g})" using D(13) by (rule inj_on_subset) auto
  qed (use ws(2,3) D(4,5,6) h2(4) sl pk p(1) rf(6) in auto)
  moreover have "live_ix h3 (remove1 g all) free = live_ix h all free" unfolding live_ix_def f3 s1 bf using g(2) by auto
  then have "live_blocks h3 (remove1 g all) free = live_blocks h all free" unfolding live_blocks_def f3 bf by simp
  moreover have "heap_page h3 (remove1 g all) = heap_page h all - {PR_PAGEADDR (pagerefs h ! g)}"
  proof -
    have "(\<lambda>x. PR_PAGEADDR (pagerefs h ! x)) ` (set all - {g}) = (\<lambda>x. PR_PAGEADDR (pagerefs h ! x)) ` set all - (\<lambda>x. PR_PAGEADDR (pagerefs h ! x)) ` {g}"
      using D(13) by (rule inj_on_image_set_diff) (use g(1) in auto)
    then show ?thesis unfolding heap_page_def f3 s1 rf(6) by simp
  qed
  ultimately show ?thesis using rl rf(4) ws(1) f3(4,5) unfolding h3_def by blast
qed

text \<open>The steps of \<open>subpage_kfree\<close> that depend only on the page reference.\<close>

lemma give_offset:
  assumes "page_ok m r ks" "k < blk_count r"
  shows "blk_addr r k - PR_PAGEADDR r < PAGE_SIZE" "(blk_addr r k - PR_PAGEADDR r) mod (sizes ! unat (PR_BLOCKTYPE r)) = 0"
    "freelist_offset r = INVALID_OFFSET \<longleftrightarrow> ks = []"
    "(if freelist_offset r = INVALID_OFFSET then 0 else PR_PAGEADDR r + ucast (freelist_offset r)) = (case ks of [] \<Rightarrow> 0 | y # ys \<Rightarrow> blk_addr r y)"
    "r\<lparr>freelist_offset := ucast (blk_addr r k - PR_PAGEADDR r), nfree := nfree r + 1\<rparr> = take_block r (k # ks)"
proof -
  have t: "unat (PR_BLOCKTYPE r) < 8" using assms(1) by (simp add: page_ok_def)
  have b: "k * blk_size r < 4096" using blk_bound [OF t assms(2)] blk_facts(4) [OF t] by linarith
  have d: "blk_addr r k - PR_PAGEADDR r = of_nat (k * blk_size r)" by (simp add: blk_addr_def)
  have u: "unat (of_nat (k * blk_size r) :: 32 word) = k * blk_size r" by (rule unat_of_nat_ok) (use b in simp)
  show "blk_addr r k - PR_PAGEADDR r < PAGE_SIZE" unfolding d word_less_nat_alt u using b by simp
  show "(blk_addr r k - PR_PAGEADDR r) mod (sizes ! unat (PR_BLOCKTYPE r)) = 0"
    unfolding d word_unat_eq_iff unat_mod u by (simp add: blk_size_def)
  show inv: "freelist_offset r = INVALID_OFFSET \<longleftrightarrow> ks = []"
  proof (cases ks)
    case (Cons y ys)
    have "y * blk_size r < 4096" using page_ok_offset(1) assms(1) Cons by blast
    then have "unat (of_nat (y * blk_size r) :: 16 word) < 4096" using nat16_less [of "y * blk_size r"] by simp
    then have "(of_nat (y * blk_size r) :: 16 word) \<noteq> INVALID_OFFSET" by auto
    then show ?thesis using assms(1) Cons by (simp add: page_ok_def)
  qed (use assms(1) in \<open>simp add: page_ok_def\<close>)
  show "(if freelist_offset r = INVALID_OFFSET then 0 else PR_PAGEADDR r + ucast (freelist_offset r)) = (case ks of [] \<Rightarrow> 0 | y # ys \<Rightarrow> blk_addr r y)"
    using inv page_ok_offset(2) assms(1) by (cases ks) auto
  have "(ucast (of_nat (k * blk_size r) :: 32 word) :: 16 word) = of_nat (k * blk_size r)" by (rule ucast_off) (use b in simp)
  moreover have "nfree r = of_nat (length ks)" using assms(1) by (simp add: page_ok_def)
  ultimately show "r\<lparr>freelist_offset := ucast (blk_addr r k - PR_PAGEADDR r), nfree := nfree r + 1\<rparr> = take_block r (k # ks)"
    unfolding d by (simp add: take_block_def add.commute)
qed

lemma give_count:
  assumes "unat (PR_BLOCKTYPE r) < 8" "Suc (length ks) \<le> blk_count r"
  defines "n \<equiv> (ucast (of_nat (Suc (length ks)) :: 16 word) :: 32 word)"
  shows "n \<le> PAGE_SIZE div (sizes ! unat (PR_BLOCKTYPE r))" "n = PAGE_SIZE div (sizes ! unat (PR_BLOCKTYPE r)) \<longleftrightarrow> Suc (length ks) = blk_count r"
proof -
  have l: "Suc (length ks) < 65536" using assms(2) blk_facts(3) [OF assms(1)] by simp
  have "n = of_nat (Suc (length ks))" unfolding n_def by (rule off_ucast [OF l])
  then have n: "unat n = Suc (length ks)" using unat_of_nat_ok [of "Suc (length ks)"] l by simp
  have "unat (PAGE_SIZE div (sizes ! unat (PR_BLOCKTYPE r))) = blk_count r" by (simp add: unat_div blk_count_def blk_size_def)
  then show "n \<le> PAGE_SIZE div (sizes ! unat (PR_BLOCKTYPE r))" "n = PAGE_SIZE div (sizes ! unat (PR_BLOCKTYPE r)) \<longleftrightarrow> Suc (length ks) = blk_count r"
    using n assms(2) by (simp_all add: word_le_nat_alt word_unat_eq_iff)
qed

context page_source
begin

lemma heap_search:
  assumes ok: "heap_ok pinv (one_page pblocks) h all same free"
  shows "g \<in> set all \<Longrightarrow> unat a \<in> {unat (PR_PAGEADDR (pagerefs h ! g)) ..< unat (PR_PAGEADDR (pagerefs h ! g)) + 4096} \<Longrightarrow> kfree_search a (allbase h) h = Some (Ptr g)"
    "(\<And>g. g \<in> set all \<Longrightarrow> unat a \<notin> {unat (PR_PAGEADDR (pagerefs h ! g)) ..< unat (PR_PAGEADDR (pagerefs h ! g)) + 4096}) \<Longrightarrow> kfree_search a (allbase h) h = Some NULL"
proof -
  note D = heap_okD [OF ok]
  let ?P = "\<lambda>g. a \<ge> PR_PAGEADDR (pagerefs h ! g) \<and> a < PR_PAGEADDR (pagerefs h ! g) + PAGE_SIZE"
  have P: "?P g \<longleftrightarrow> unat a \<in> {unat (PR_PAGEADDR (pagerefs h ! g)) ..< unat (PR_PAGEADDR (pagerefs h ! g)) + 4096}" if "g \<in> set all" for g
  proof -
    have "unat (PR_PAGEADDR (pagerefs h ! g)) + 4096 < 4294967296"
      using D(12) [OF that] block_aligned [OF D(14), of "PR_PAGEADDR (pagerefs h ! g)" 1] by (simp add: one_page_def)
    then show ?thesis by (simp add: word_le_nat_alt word_less_nat_alt unat_plus_ok)
  qed
  have tg: "g < length (pagerefs h) \<and> PR_BLOCKTYPE (pagerefs h ! g) < 8" if "g \<in> set all" for g
    using D(1) D(15) [OF that] page_ok_type [OF D(11) [OF that]] by (simp add: word_less_nat_alt)
  have S: "kfree_search a (allbase h) h = Some (case filter ?P all of [] \<Rightarrow> NULL | g # gs \<Rightarrow> Ptr g)"
    by (rule kfree_search_list [OF tg D(7)])
  show "kfree_search a (allbase h) h = Some (Ptr g)"
    if g: "g \<in> set all" "unat a \<in> {unat (PR_PAGEADDR (pagerefs h ! g)) ..< unat (PR_PAGEADDR (pagerefs h ! g)) + 4096}"
  proof (cases "filter ?P all")
    case Nil
    then show ?thesis using g P [OF g(1)] by (auto simp: filter_empty_conv)
  next
    case (Cons x xs)
    then have x: "x \<in> set all" "?P x" using filter_eq_ConsD [OF Cons] by auto
    have "PR_PAGEADDR (pagerefs h ! x) = PR_PAGEADDR (pagerefs h ! g)"
      using pages_apart [OF page_aligned(1) page_aligned(1), of "pagerefs h ! x" "pagerefs h ! g"] P [OF x(1)] x(2) g(2) by (auto simp: word_unat_eq_iff)
    then have "x = g" using D(13) x(1) g(1) by (auto dest: inj_onD)
    then show ?thesis using S Cons by simp
  qed
  show "kfree_search a (allbase h) h = Some NULL"
    if n: "\<And>g. g \<in> set all \<Longrightarrow> unat a \<notin> {unat (PR_PAGEADDR (pagerefs h ! g)) ..< unat (PR_PAGEADDR (pagerefs h ! g)) + 4096}"
  proof -
    have "filter ?P all = []" using P n by (fastforce simp: filter_empty_conv)
    then show ?thesis using S by simp
  qed
qed

end

lemma full_page:
  assumes "page_ok m r ks" "length ks = blk_count r"
  shows "set ks = {..<blk_count r}"
proof (rule card_subset_eq)
  show "set ks \<subseteq> {..<blk_count r}" "card (set ks) = card {..<blk_count r}" using assms by (auto simp: page_ok_def distinct_card)
qed simp

text \<open>The memory \<open>subpage_kfree\<close> leaves.\<close>

lemma give_memory:
  assumes "page_ok m r ks" "k < blk_count r"
  defines "sz \<equiv> sizes ! unat (PR_BLOCKTYPE r)" and "x0 \<equiv> blk_addr r k"
  shows "unat x \<notin> blk_range r k \<Longrightarrow> ((fill_deadbeef x0 sz m)(x0 := v)) x = m x"
proof -
  assume x: "unat x \<notin> blk_range r k"
  have t: "unat (PR_BLOCKTYPE r) < 8" using assms(1) by (simp add: page_ok_def)
  have "blk_size r = unat sz" by (simp add: blk_size_def sz_def)
  then have n: "4 * unat (sz div 4) = blk_size r" using blk_facts(5) [OF t] by (auto simp: unat_div elim: dvdE)
  have a: "unat x0 = unat (PR_PAGEADDR r) + k * blk_size r" unfolding x0_def by (rule blk_addr_unat [OF t assms(2)])
  have "blk_range r k \<subseteq> {unat (PR_PAGEADDR r) ..< unat (PR_PAGEADDR r) + 4096}" by (rule blk_range_page [OF t assms(2)])
  then have "unat x0 + 4 * unat (sz div 4) \<le> 4294967296"
    using blk_bound [OF t assms(2)] page_aligned(2) [of r] a n by linarith
  moreover have "unat x \<notin> {unat x0 ..< unat x0 + 4 * unat (sz div 4)}" using x a n by (simp add: blk_range_def)
  moreover have "x \<noteq> x0" using x blk_addr_range [OF t assms(2)] by (auto simp: x0_def)
  ultimately show ?thesis by (simp add: fill_deadbeef_def fill_outside)
qed

context page_source
begin

lemma subpage_free_rep:
  assumes ok: "heap_ok pinv (one_page pblocks) h all same free" and b: "(ptr, n) \<in> live_blocks h all free"
    and L: "L = live_blocks h all free \<union> big_blocks (pblocks (kh_pages h)) (heap_page h all)"
  shows "\<exists>h'. subpage_free pf ptr h = Some (0, h') \<and> kh_rep pinv pblocks h' (L - {(ptr, n)}) \<and>
    (\<forall>x. unat x \<notin> {unat ptr ..< unat ptr + n} \<longrightarrow> kh_mem h' x = kh_mem h x)"
proof -
  note D = heap_okD [OF ok]
  obtain g k where g0: "ptr = blk_addr (pagerefs h ! g) k" "n = blk_size (pagerefs h ! g)" "g \<in> set all" "k < blk_count (pagerefs h ! g)" "k \<notin> set (free g)"
    using b by (rule live_blocksE)
  define r where "r = pagerefs h ! g"
  note g = g0 [folded r_def]
  have pk: "page_ok (kh_mem h) r (free g)" unfolding r_def by (rule D(11) [OF g(3)])
  have t8: "unat (PR_BLOCKTYPE r) < 8" by (rule page_ok_type [OF pk])
  note O = give_offset [OF pk g(4)]
  have rng: "blk_range r k = {unat ptr ..< unat ptr + n}" using live_range(1) [OF ok g0(3,4)] g(1,2) by (simp add: r_def)
  have "unat ptr \<in> {unat (PR_PAGEADDR r) ..< unat (PR_PAGEADDR r) + 4096}"
    using blk_range_page [OF t8 g(4)] blk_addr_range [OF t8 g(4)] g(1) by blast
  then have sr: "kfree_search ptr (allbase h) h = Some (Ptr g)" by (intro heap_search(1) [OF ok g(3)]) (simp add: r_def)
  define m1 where "m1 = (fill_deadbeef (blk_addr r k) (sizes ! unat (PR_BLOCKTYPE r)) (kh_mem h))(blk_addr r k := (case free g of [] \<Rightarrow> 0 | y # ys \<Rightarrow> blk_addr r y))"
  have m1: "\<forall>x. unat x \<notin> blk_range r k \<longrightarrow> m1 x = kh_mem h x" "m1 (blk_addr r k) = (case free g of [] \<Rightarrow> 0 | y # ys \<Rightarrow> blk_addr r y)"
    using give_memory [OF pk g(4)] by (simp_all add: m1_def)
  define h1 where "h1 = h\<lparr>kh_mem := m1, pagerefs := (pagerefs h)[g := take_block r (k # free g)]\<rparr>"
  note G = heap_give [OF ok g0(3,4,5) m1 [unfolded r_def], folded r_def, folded h1_def]
  have c: "Suc (length (free g)) \<le> blk_count r" by (rule give_page_ok(2) [OF pk g(4,5) m1])
  have nf: "nfree r + 1 = of_nat (Suc (length (free g)))" using pk by (simp add: page_ok_def add.commute)
  note C = give_count [OF t8 c, folded nf]
  have gl: "g < length (pagerefs h)" using D(1) D(15) [OF g(3)] by simp
  have rds: "rd (pagerefs h) g = Some r" "rd sizes (unat (PR_BLOCKTYPE r)) = Some (sizes ! unat (PR_BLOCKTYPE r))" using gl t8 by (simp_all add: r_def rd_def sizes_def)
  have up: "upd_pageref g (\<lambda>x. x\<lparr>freelist_offset := ucast (ptr - PR_PAGEADDR r), nfree := nfree r + 1\<rparr>) (h\<lparr>kh_mem := m1\<rparr>) = Some h1"
    using gl O(5) by (simp add: upd_pageref_def h1_def g(1) r_def)
  have run: "subpage_free pf ptr h = (if Suc (length (free g)) = blk_count r
      then do { h2 \<leftarrow> remove_lists g (int (unat (PR_BLOCKTYPE r))) h1; p \<leftarrow> pf (PR_PAGEADDR r) (kh_pages h2); h3 \<leftarrow> freepageref g (h2\<lparr>kh_pages := p\<rparr>); Some (0, h3) }
      else Some (0, h1))"
  proof -
    have "(fill_deadbeef ptr (sizes ! unat (PR_BLOCKTYPE r)) (kh_mem h))(PR_PAGEADDR r + (ptr - PR_PAGEADDR r) :=
        (if freelist_offset r = INVALID_OFFSET then 0 else PR_PAGEADDR r + ucast (freelist_offset r))) = m1"
      unfolding O(4) by (simp add: m1_def g(1))
    note st = this up
    have "\<not> (ptr - PR_PAGEADDR r \<ge> PAGE_SIZE \<or> (ptr - PR_PAGEADDR r) mod (sizes ! unat (PR_BLOCKTYPE r)) \<noteq> 0)" using O(1,2) g(1) by simp
    then show ?thesis using C unfolding subpage_free_def sr Let_def by (simp only: bind.bind_lunit nullable.case rds st kassert_simps if_True not_False_eq_True)
  qed
  have out: "\<forall>x. unat x \<notin> {unat ptr ..< unat ptr + n} \<longrightarrow> kh_mem h1 x = kh_mem h x" using m1(1) rng by (simp add: h1_def)
  have nb: "(ptr, n) \<notin> big_blocks (pblocks (kh_pages h)) H" for H
    using live_block_size(2) [OF ok b] block_aligned [OF D(14)] by (fastforce simp: big_blocks_def)
  show ?thesis
  proof (cases "Suc (length (free g)) = blk_count r")
    case False
    have "kh_rep pinv pblocks h1 (L - {(ptr, n)})"
      using nb by (intro kh_repI [OF G(1)]) (auto simp: L g(1,2) G)
    then show ?thesis using run False out by auto
  next
    case True
    define page where "page = PR_PAGEADDR r"
    have r1: "pagerefs h1 ! g = take_block r (k # free g)" using gl by (simp add: h1_def)
    have fg: "set ((free(g := k # free g)) g) = {..<blk_count (pagerefs h1 ! g)}"
      using full_page [OF give_page_ok(1) [OF pk g(4,5) m1]] True by (simp add: r1 take_block_fields)
    have pb: "(page, 1) \<in> pblocks (kh_pages h)" using D(12) [OF g(3)] by (simp add: one_page_def page_def r_def)
    obtain p1 where p1: "pf page (kh_pages h) = Some p1" "pinv p1" "pblocks p1 = pblocks (kh_pages h) - {(page, 1)}"
      using pf_block [OF D(14) pb] by blast
    have op: "one_page pblocks p1 = one_page pblocks (kh_pages h1) - {PR_PAGEADDR (pagerefs h1 ! g)}"
      by (auto simp: one_page_def p1(3) G(4) r1 take_block_fields page_def)
    obtain h2 h3 same' where H: "remove_lists g (int (unat (PR_BLOCKTYPE r))) h1 = Some h2" "kh_pages h2 = kh_pages h" "freepageref g (h2\<lparr>kh_pages := p1\<rparr>) = Some h3"
      "heap_ok pinv (one_page pblocks) h3 (remove1 g all) same' (free(g := k # free g))"
      "live_blocks h3 (remove1 g all) (free(g := k # free g)) = live_blocks h1 all (free(g := k # free g))"
      "heap_page h3 (remove1 g all) = heap_page h all - {page}" "kh_mem h3 = kh_mem h1" "kh_pages h3 = p1"
      using heap_drop [OF G(1) g(3) fg p1(2) op] unfolding r1 take_block_fields G(3,4) page_def [symmetric] by blast
    have hp: "page \<in> heap_page h all" using g(3) by (auto simp: heap_page_def page_def r_def)
    have "big_blocks (pblocks p1) (heap_page h all - {page}) = big_blocks (pblocks (kh_pages h)) (heap_page h all)"
      using p1(3) hp by (auto simp: big_blocks_def)
    then have "kh_rep pinv pblocks h3 (L - {(ptr, n)})"
      using nb by (intro kh_repI [OF H(4)]) (auto simp: L g(1,2) H(5,6,8) G(2))
    moreover have "subpage_free pf ptr h = Some (0, h3)" using run True H(1-3) p1(1) by (simp add: page_def)
    ultimately show ?thesis using out H(7) by auto
  qed
qed

end

subsection \<open>The kernel's allocator\<close>

lemma blocktype_loop_result:
  "blocktype_loop sz i xs = Some t \<Longrightarrow> i \<le> t \<and> t < i + length xs \<and> sz \<le> xs ! (t - i)"
proof (induction xs arbitrary: i)
  case (Cons x xs)
  show ?case
  proof (cases "sz \<le> x")
    case False
    then have "blocktype_loop sz (Suc i) xs = Some t" using Cons.prems by simp
    then have "Suc i \<le> t \<and> t < Suc i + length xs \<and> sz \<le> xs ! (t - Suc i)" by (rule Cons.IH)
    moreover then have "t - i = Suc (t - Suc i)" by (intro Suc_diff_Suc [symmetric]) simp
    ultimately show ?thesis by simp
  qed (use Cons in auto)
qed simp

lemma blocktype_result:
  assumes "sz < LARGEST_SUBPAGE_SIZE"
  shows "\<exists>t < 8. blocktype sz = Some t \<and> sz \<le> sizes ! t"
proof -
  have "\<exists>t. blocktype_loop sz 0 sizes = Some t" using assms by (auto simp: sizes_def)
  then obtain t where t: "blocktype_loop sz 0 sizes = Some t" by blast
  moreover have "length sizes = 8" by (simp add: sizes_def)
  ultimately show ?thesis using blocktype_loop_result [OF t] by (auto simp: blocktype_def)
qed

lemma page_count:
  assumes "LARGEST_SUBPAGE_SIZE \<le> sz" "unat sz \<le> 4294963200"
  defines "n \<equiv> (unat sz + 4095) div 4096"
  shows "sint ((sz + PAGE_SIZE - 1) div PAGE_SIZE) = int n" "0 < n" "unat sz \<le> n * 4096"
proof -
  have e: "sz + PAGE_SIZE - 1 = sz + 4095" by (simp add: PAGE_SIZE_def)
  have "unat (sz + 4095) = unat sz + 4095" using assms(2) by (simp add: unat_plus_ok)
  then have u: "unat ((sz + PAGE_SIZE - 1) div PAGE_SIZE) = n" unfolding e by (simp add: unat_div n_def)
  have "n < 2 ^ 31" using assms(2) unfolding n_def by simp
  then have "sint (of_nat n :: 32 word) = int n" by (intro sint_of_nat_ok) simp
  moreover have "of_nat n = (sz + PAGE_SIZE - 1) div PAGE_SIZE" unfolding u [symmetric] by simp
  ultimately show "sint ((sz + PAGE_SIZE - 1) div PAGE_SIZE) = int n" by simp
  have "2048 \<le> unat sz" using assms(1) by (simp add: word_le_nat_alt)
  then show "0 < n" "unat sz \<le> n * 4096" unfolding n_def by linarith+
qed

lemma pages_same:
  "live_blocks (h\<lparr>kh_pages := p\<rparr>) all free = live_blocks h all free" "heap_page (h\<lparr>kh_pages := p\<rparr>) all = heap_page h all"
  by (simp_all add: live_blocks_def live_ix_def heap_page_def)

lemma big_blocks_remove: "big_blocks (B - {(a, k)}) H = big_blocks B H - {(a, k * 4096)}"
  by (auto simp: big_blocks_def)

lemma kh_rep_init:
  assumes "pinv p"
  shows "kh_rep pinv pblocks (kheap_init p) (big_blocks (pblocks p) {})"
proof (rule kh_repI)
  show "heap_ok pinv (one_page pblocks) (kheap_init p) [] (\<lambda>_. []) (\<lambda>_. [])"
    using assms by (simp add: heap_ok_def kheap_init_def inuse_bit_def)
  show "big_blocks (pblocks p) {} = live_blocks (kheap_init p) [] (\<lambda>_. []) \<union> big_blocks (pblocks (kh_pages (kheap_init p))) (heap_page (kheap_init p) [])"
    by (simp add: live_blocks_def live_ix_def heap_page_def kheap_init_def)
qed

context page_source
begin

lemma kh_rep_pos:
  assumes "kh_rep pinv pblocks h L" "(a, n) \<in> L"
  shows "0 < n" "a \<noteq> 0"
proof -
  obtain all same free where h: "heap_ok pinv (one_page pblocks) h all same free"
    and L: "L = live_blocks h all free \<union> big_blocks (pblocks (kh_pages h)) (heap_page h all)" using assms(1) by (auto simp: kh_rep_def)
  note D = heap_okD [OF h]
  have "0 < n \<and> a \<noteq> 0"
  proof (cases "(a, n) \<in> live_blocks h all free")
    case True
    then obtain g k where g: "a = blk_addr (pagerefs h ! g) k" "g \<in> set all" "k < blk_count (pagerefs h ! g)" by (rule live_blocksE)
    have "unat (PR_BLOCKTYPE (pagerefs h ! g)) < 8" "PR_PAGEADDR (pagerefs h ! g) \<noteq> 0" using D(11) [OF g(2)] by (simp_all add: page_ok_def)
    then show ?thesis using live_block_size(1) [OF h True] blk_addr_nz g by auto
  next
    case False
    then obtain m where "(a, m) \<in> pblocks (kh_pages h)" "n = m * 4096" using assms(2) L by (auto simp: big_blocks_def)
    then show ?thesis using block_aligned [OF D(14)] by auto
  qed
  then show "0 < n" "a \<noteq> 0" by simp_all
qed

lemma kh_rep_same:
  assumes "kh_rep pinv pblocks h L" "(a, n) \<in> L" "(a, m) \<in> L"
  shows "n = m"
proof (rule ccontr)
  assume "n \<noteq> m"
  then have "{unat a ..< unat a + n} \<inter> {unat a ..< unat a + m} = {}" using kh_rep_disjoint [OF assms] by simp
  moreover have "unat a \<in> {unat a ..< unat a + n} \<inter> {unat a ..< unat a + m}" using kh_rep_pos [OF assms(1)] assms(2,3) by auto
  ultimately show False by blast
qed

lemma pages_rep:
  assumes "kh_rep pinv pblocks h L" "0 < n"
  shows "\<exists>a p1. pa (int n) (kh_pages h) = Some (a, p1) \<and>
    (a = 0 \<and> kh_rep pinv pblocks (h\<lparr>kh_pages := p1\<rparr>) L \<or>
     a \<noteq> 0 \<and> (a, n * 4096) \<notin> L \<and> kh_rep pinv pblocks (h\<lparr>kh_pages := p1\<rparr>) (insert (a, n * 4096) L))"
proof -
  obtain all same free where h: "heap_ok pinv (one_page pblocks) h all same free"
    and L: "L = live_blocks h all free \<union> big_blocks (pblocks (kh_pages h)) (heap_page h all)" using assms(1) by (auto simp: kh_rep_def)
  note D = heap_okD [OF h]
  obtain a p1 where p: "pa (int n) (kh_pages h) = Some (a, p1)" "pinv p1"
    "a = 0 \<and> pblocks p1 = pblocks (kh_pages h) \<or> a \<noteq> 0 \<and> (\<forall>m. (a, m) \<notin> pblocks (kh_pages h)) \<and> pblocks p1 = insert (a, n) (pblocks (kh_pages h))"
    using pa_block [OF D(14) assms(2)] by blast
  have sub: "one_page pblocks (kh_pages h) \<subseteq> one_page pblocks p1" using p(3) by (auto simp: one_page_def)
  have ok: "heap_ok pinv (one_page pblocks) (h\<lparr>kh_pages := p1\<rparr>) all same free"
    using h p(2) sub unfolding heap_ok_def by auto
  have hp: "(x, 1) \<in> pblocks (kh_pages h)" if "x \<in> heap_page h all" for x
    using that D(12) by (auto simp: heap_page_def one_page_def)
  show ?thesis
  proof (cases "a = 0")
    case True
    then show ?thesis using p kh_repI [OF ok, of L] by (simp add: L pages_same)
  next
    case False
    then have a: "\<forall>m. (a, m) \<notin> pblocks (kh_pages h)" "pblocks p1 = insert (a, n) (pblocks (kh_pages h))" using p(3) by auto
    have "(a, n * 4096) \<notin> live_blocks h all free" using live_block_size(2) [OF h, of a "n * 4096"] assms(2) by auto
    then have "(a, n * 4096) \<notin> L" using a(1) by (auto simp: L big_blocks_def)
    moreover have "big_blocks (pblocks p1) (heap_page h all) = insert (a, n * 4096) (big_blocks (pblocks (kh_pages h)) (heap_page h all))"
      using a hp [of a] by (auto simp: big_blocks_def)
    ultimately show ?thesis using p(1) False kh_repI [OF ok, of "insert (a, n * 4096) L"] by (simp add: L pages_same)
  qed
qed

end

context page_source
begin

lemma kmalloc_rep:
  assumes "kh_rep pinv pblocks (world s) L" "unat sz \<le> 4294963200"
  shows "\<exists>ret s'. kmalloc pa sz s = Some (ret, s') \<and> curspl s' = curspl s \<and>
    (ret = 0 \<and> kh_rep pinv pblocks (world s') L \<or>
     ret \<noteq> 0 \<and> (\<exists>n. unat sz \<le> n \<and> (ret, n) \<notin> L \<and> kh_rep pinv pblocks (world s') (insert (ret, n) L))) \<and>
    (\<forall>(b, n) \<in> L. \<forall>x. unat b \<le> unat x \<and> unat x < unat b + n \<longrightarrow> kh_mem (world s') x = kh_mem (world s) x)"
proof (cases "sz \<ge> LARGEST_SUBPAGE_SIZE")
  case True
  define n where "n = (unat sz + 4095) div 4096"
  note n = page_count [OF True assms(2), folded n_def]
  from pages_rep [OF assms(1) n(2)] obtain a p1 where a: "pa (int n) (kh_pages (world s)) = Some (a, p1)"
    "a = 0 \<and> kh_rep pinv pblocks ((world s)\<lparr>kh_pages := p1\<rparr>) L \<or>
     a \<noteq> 0 \<and> (a, n * 4096) \<notin> L \<and> kh_rep pinv pblocks ((world s)\<lparr>kh_pages := p1\<rparr>) (insert (a, n * 4096) L)" by blast
  have "kmalloc pa sz s = Some (a, s\<lparr>world := (world s)\<lparr>kh_pages := p1\<rparr>\<rparr>)" using a(1) n(1) True by (simp add: kmalloc_def)
  then show ?thesis using a(2) n(3) by (intro exI [of _ a] exI [of _ "s\<lparr>world := (world s)\<lparr>kh_pages := p1\<rparr>\<rparr>"]) auto
next
  case False
  then have "sz < LARGEST_SUBPAGE_SIZE" by simp
  then obtain t where t: "t < 8" "blocktype sz = Some t" "sz \<le> sizes ! t" using blocktype_result by blast
  obtain ret h' where h': "subpage_alloc pa t (world s) = Some (ret, h')"
    "ret = 0 \<and> kh_rep pinv pblocks h' L \<or> ret \<noteq> 0 \<and> (ret, unat (sizes ! t)) \<notin> L \<and> kh_rep pinv pblocks h' (insert (ret, unat (sizes ! t)) L)"
    "\<forall>(b, n) \<in> L. \<forall>x. unat b \<le> unat x \<and> unat x < unat b + n \<longrightarrow> kh_mem h' x = kh_mem (world s) x"
    using subpage_alloc_rep [OF assms(1) t(1)] by blast
  define s' where "s' = snd (splx (curspl s) ((snd (splhigh s))\<lparr>world := h'\<rparr>))"
  have w: "world s' = h'" "curspl s' = curspl s" by (simp_all add: s'_def)
  have "kmalloc pa sz s = Some (ret, s')" using False t(2) h'(1) by (simp add: kmalloc_def subpage_kmalloc_def s'_def split_def)
  moreover have "unat sz \<le> unat (sizes ! t)" using t(3) by (simp add: word_le_nat_alt)
  ultimately show ?thesis using h'(2,3) w by (intro exI [of _ ret] exI [of _ s']) auto
qed

lemma big_free_rep:
  assumes ok: "heap_ok pinv (one_page pblocks) h all same free" and b: "(ptr, n) \<in> L" "(ptr, n) \<notin> live_blocks h all free"
    and L: "L = live_blocks h all free \<union> big_blocks (pblocks (kh_pages h)) (heap_page h all)"
  shows "\<exists>p1. subpage_free pf ptr h = Some (- 1, h) \<and> ptr mod PAGE_SIZE = 0 \<and> pf ptr (kh_pages h) = Some p1 \<and> kh_rep pinv pblocks (h\<lparr>kh_pages := p1\<rparr>) (L - {(ptr, n)})"
proof -
  note D = heap_okD [OF ok]
  obtain k where k: "(ptr, k) \<in> pblocks (kh_pages h)" "n = k * 4096" "k = 1 \<longrightarrow> ptr \<notin> heap_page h all" using b L by (auto simp: big_blocks_def)
  note A = block_aligned [OF D(14) k(1)]
  have hp: "(PR_PAGEADDR (pagerefs h ! g), 1) \<in> pblocks (kh_pages h)" "(ptr, k) \<noteq> (PR_PAGEADDR (pagerefs h ! g), 1)" if "g \<in> set all" for g
    using that D(12) [OF that] k(3) by (auto simp: heap_page_def one_page_def)
  have "unat ptr \<notin> {unat (PR_PAGEADDR (pagerefs h ! g)) ..< unat (PR_PAGEADDR (pagerefs h ! g)) + 4096}" if "g \<in> set all" for g
    using blocks_apart [OF D(14) k(1) hp(1) [OF that] hp(2) [OF that]] A by auto
  then have "kfree_search ptr (allbase h) h = Some NULL" by (rule heap_search(2) [OF ok])
  then have sf: "subpage_free pf ptr h = Some (- 1, h)" by (simp add: subpage_free_def)
  have "4096 dvd unat ptr" using A frame_aligned by blast
  then have al: "ptr mod PAGE_SIZE = 0" by (simp add: word_unat_eq_iff unat_mod)
  obtain p1 where p1: "pf ptr (kh_pages h) = Some p1" "pinv p1" "pblocks p1 = pblocks (kh_pages h) - {(ptr, k)}" using pf_block [OF D(14) k(1)] by blast
  have "kh_rep pinv pblocks (h\<lparr>kh_pages := p1\<rparr>) (L - {(ptr, n)})"
  proof (rule kh_repI)
    have "PR_PAGEADDR (pagerefs h ! g) \<in> one_page pblocks p1" if "g \<in> set all" for g using hp [OF that] p1(3) by (auto simp: one_page_def)
    then show "heap_ok pinv (one_page pblocks) (h\<lparr>kh_pages := p1\<rparr>) all same free" using ok p1(2) unfolding heap_ok_def by (elim conjE) (intro conjI; simp)
    have "big_blocks (pblocks p1) (heap_page h all) = big_blocks (pblocks (kh_pages h)) (heap_page h all) - {(ptr, n)}"
      unfolding p1(3) k(2) by (rule big_blocks_remove)
    then show "L - {(ptr, n)} = live_blocks (h\<lparr>kh_pages := p1\<rparr>) all free \<union> big_blocks (pblocks (kh_pages (h\<lparr>kh_pages := p1\<rparr>))) (heap_page (h\<lparr>kh_pages := p1\<rparr>) all)"
      using b(2) by (simp add: L pages_same Un_Diff)
  qed
  then show ?thesis using sf al p1(1) by (intro exI [of _ p1]) simp
qed

lemma kfree_rep:
  assumes "kh_rep pinv pblocks (world s) L" "(ptr, n) \<in> L"
  shows "\<exists>s'. kfree pf ptr s = Some s' \<and> curspl s' = curspl s \<and> kh_rep pinv pblocks (world s') (L - {(ptr, n)}) \<and>
    (\<forall>x. unat x \<notin> {unat ptr ..< unat ptr + n} \<longrightarrow> kh_mem (world s') x = kh_mem (world s) x)"
proof -
  obtain all same free where h: "heap_ok pinv (one_page pblocks) (world s) all same free"
    and L: "L = live_blocks (world s) all free \<union> big_blocks (pblocks (kh_pages (world s))) (heap_page (world s) all)" using assms(1) by (auto simp: kh_rep_def)
  have nz: "ptr \<noteq> 0" by (rule kh_rep_pos(2) [OF assms])
  define f where "f = (\<lambda>h'. snd (splx (curspl s) ((snd (splhigh s))\<lparr>world := h'\<rparr>)))"
  have f: "world (f h') = h'" "curspl (f h') = curspl s" for h' by (simp_all add: f_def)
  have sk: "subpage_kfree pf ptr s = map_option (\<lambda>(r, h'). (r, f h')) (subpage_free pf ptr (world s))"
    by (cases "subpage_free pf ptr (world s)") (auto simp: subpage_kfree_def f_def split_def)
  show ?thesis
  proof (cases "(ptr, n) \<in> live_blocks (world s) all free")
    case True
    obtain h' where "subpage_free pf ptr (world s) = Some (0, h')" "kh_rep pinv pblocks h' (L - {(ptr, n)})"
      "\<forall>x. unat x \<notin> {unat ptr ..< unat ptr + n} \<longrightarrow> kh_mem h' x = kh_mem (world s) x" using subpage_free_rep [OF h True L] by blast
    then show ?thesis using nz sk f by (intro exI [of _ "f h'"]) (simp add: kfree_def)
  next
    case False
    obtain p1 where "subpage_free pf ptr (world s) = Some (- 1, world s)" "ptr mod PAGE_SIZE = 0" "pf ptr (kh_pages (world s)) = Some p1"
      "kh_rep pinv pblocks ((world s)\<lparr>kh_pages := p1\<rparr>) (L - {(ptr, n)})" using big_free_rep [OF h assms(2) False L] by (elim exE conjE) (rule that; assumption)
    then show ?thesis using nz sk f by (intro exI [of _ "(f (world s))\<lparr>world := (world s)\<lparr>kh_pages := p1\<rparr>\<rparr>"]) (simp add: kfree_def)
  qed
qed

end

end
