(* ===== verification/K_Kheap_System.thy ===== *)
theory K_Kheap_System
  imports K_Kheap_Calls
begin

unbundle bit_operations_syntax

section \<open>The kernel heap over the coremap\<close>

text \<open>
  The coremap keeps the contract of a page allocator. With it, the properties of the heap of the running kernel: after
  any sequence of calls the blocks in use are apart, and no call fails.
\<close>

subsection \<open>The coremap as the source of pages\<close>

definition cm_kva :: "vmem \<Rightarrow> nat \<Rightarrow> 32 word" where
  "cm_kva w i = PADDR_TO_KVADDR (freepaddr w + of_nat i * PAGE_SIZE)"

definition cm_blocks :: "vmem \<Rightarrow> (32 word \<times> nat) set" where
  "cm_blocks w = {(cm_kva w i, nat (cm_length (coremap w ! i))) | i. i < cm_end w \<and> 0 < cm_length (coremap w ! i)}"

definition cm_give :: "32 word \<Rightarrow> vmem \<Rightarrow> vmem option" where
  "cm_give a w = map_option world (free_kpages a (quiet w))"

lemma cm_kva_unat:
  assumes "cm_inv w" "i < cm_end w"
  shows "unat (cm_kva w i) = 2147483648 + unat (freepaddr w) + i * 4096" "unat (freepaddr w) + i * 4096 + 4096 \<le> 508 * 1024 * 1024"
proof -
  have "unat (freepaddr w) + cm_end w * 4096 \<le> 508 * 1024 * 1024" using assms(1) by (simp add: cm_inv_def)
  then show b: "unat (freepaddr w) + i * 4096 + 4096 \<le> 508 * 1024 * 1024" using assms(2) by linarith
  have f: "unat (freepaddr w + of_nat i * PAGE_SIZE) = unat (freepaddr w) + i * 4096" by (rule frame_addr [OF assms])
  have "unat (freepaddr w + of_nat i * PAGE_SIZE + MIPS_KSEG0) = unat (freepaddr w + of_nat i * PAGE_SIZE) + unat MIPS_KSEG0"
    by (rule unat_plus_ok) (use b f in \<open>simp add: MIPS_KSEG0_def\<close>)
  then show "unat (cm_kva w i) = 2147483648 + unat (freepaddr w) + i * 4096" by (simp add: cm_kva_def PADDR_TO_KVADDR_def f MIPS_KSEG0_def)
qed

lemma cm_kva_inj:
  assumes "cm_inv w" "i < cm_end w" "j < cm_end w" "cm_kva w i = cm_kva w j"
  shows "i = j"
proof -
  have "unat (cm_kva w i) = unat (cm_kva w j)" using assms(4) by (rule arg_cong)
  then show ?thesis unfolding cm_kva_unat(1) [OF assms(1,2)] cm_kva_unat(1) [OF assms(1,3)] by linarith
qed

lemma cm_blocksE:
  assumes "(a, n) \<in> cm_blocks w" "cm_inv w"
  obtains i where "i < cm_end w" "a = cm_kva w i" "cm_length (coremap w ! i) = int n" "0 < n" "i + n \<le> cm_end w"
proof -
  obtain i where i: "i < cm_end w" "a = cm_kva w i" "n = nat (cm_length (coremap w ! i))" "0 < cm_length (coremap w ! i)"
    using assms(1) by (auto simp: cm_blocks_def)
  have b: "block_at (coremap w) i" "length (coremap w) = cm_end w" using assms(2) i(1) by (simp_all add: cm_inv_def)
  then have "i + n \<le> cm_end w" using block_atD(1) [OF b(1) i(4)] i(3) by simp
  then show thesis using that i by simp
qed

lemma cm_pa_block:
  assumes "cm_inv w" "0 < n"
  shows "\<exists>a w1. alloc_kpages (int n) w = Some (a, w1) \<and> cm_inv w1 \<and>
    (a = 0 \<and> cm_blocks w1 = cm_blocks w \<or> a \<noteq> 0 \<and> (\<forall>m. (a, m) \<notin> cm_blocks w) \<and> cm_blocks w1 = insert (a, n) (cm_blocks w))"
  using cm_getppages_result [OF assms]
proof (elim disjE exE conjE)
  assume "cm_getppages (int n) w = Some (0, w)"
  then show ?thesis using assms(1) by (simp add: alloc_kpages_def)
next
  fix b assume b: "is_run (cm_flags w) n b"
    and g: "cm_getppages (int n) w = Some (freepaddr w + of_nat b * PAGE_SIZE, w\<lparr>coremap := take_run n b (coremap w)\<rparr>)"
  let ?w = "w\<lparr>coremap := take_run n b (coremap w)\<rparr>"
  have len: "b + n \<le> length (coremap w)" "length (coremap w) = cm_end w" using b assms(1) by (simp_all add: is_run_def cm_inv_def)
  then have be: "b < cm_end w" using assms(2) by simp
  have nz: "cm_kva w b \<noteq> 0" using cm_kva_unat(1) [OF assms(1) be] by auto
  have z: "cm_length (coremap w ! b) = 0" using run_length_zero [OF assms(1) b, of b] assms(2) by simp
  have l: "cm_length (take_run n b (coremap w) ! i) = (if i = b then int n else cm_length (coremap w ! i))" if "i < cm_end w" for i
    using that len assms(2) by (simp add: take_run_nth)
  have kv: "cm_kva ?w i = cm_kva w i" for i by (simp add: cm_kva_def)
  have new: "(cm_kva w b, m) \<notin> cm_blocks w" for m
  proof
    assume "(cm_kva w b, m) \<in> cm_blocks w"
    then obtain i where "i < cm_end w" "cm_kva w b = cm_kva w i" "cm_length (coremap w ! i) = int m" "0 < m" using assms(1) by (rule cm_blocksE)
    then show False using cm_kva_inj [OF assms(1) be] z by simp
  qed
  have "cm_blocks ?w = insert (cm_kva w b, n) (cm_blocks w)"
  proof (rule set_eqI)
    fix x
    have "x \<in> cm_blocks ?w \<longleftrightarrow> (\<exists>i. x = (cm_kva w i, nat (if i = b then int n else cm_length (coremap w ! i))) \<and> i < cm_end w \<and> 0 < (if i = b then int n else cm_length (coremap w ! i)))"
      unfolding cm_blocks_def kv using l by fastforce
    also have "\<dots> \<longleftrightarrow> x \<in> insert (cm_kva w b, n) (cm_blocks w)"
      using be z assms(2) by (auto simp: cm_blocks_def split: if_splits)
    finally show "x \<in> cm_blocks ?w \<longleftrightarrow> x \<in> insert (cm_kva w b, n) (cm_blocks w)" .
  qed
  moreover have "alloc_kpages (int n) w = Some (cm_kva w b, ?w)"
    using g frame_nonzero [OF assms(1) be] by (simp add: alloc_kpages_def cm_kva_def)
  ultimately show ?thesis using take_run_inv [OF assms(1) b assms(2)] nz new by blast
qed

lemma cm_pf_block:
  assumes "cm_inv w" "(a, n) \<in> cm_blocks w"
  shows "\<exists>w1. cm_give a w = Some w1 \<and> cm_inv w1 \<and> cm_blocks w1 = cm_blocks w - {(a, n)}"
proof -
  obtain i where i: "i < cm_end w" "a = cm_kva w i" "cm_length (coremap w ! i) = int n" "0 < n" "i + n \<le> cm_end w" using assms(2,1) by (rule cm_blocksE)
  let ?w = "w\<lparr>coremap := drop_run i (coremap w)\<rparr>"
  have fb: "cm_free_block i w = Some ?w" using cm_free_block_eq [OF assms(1) i(1)] i(3,4) by simp
  have "cm_give a w = Some ?w"
    using fb frame_index [OF assms(1) i(1)] by (simp add: cm_give_def free_kpages_def cm_freekpages_def i(2) cm_kva_def quiet_def split_def)
  moreover have "cm_inv ?w" by (rule cm_free_block_inv [OF assms(1) i(1) fb])
  moreover have "cm_blocks ?w = cm_blocks w - {(a, n)}"
  proof (rule set_eqI)
    fix x
    have len: "length (coremap w) = cm_end w" using assms(1) by (simp add: cm_inv_def)
    have l: "cm_length (drop_run i (coremap w) ! j) = (if j = i then 0 else cm_length (coremap w ! j))" if "j < cm_end w" for j
      using that i len by (intro drop_run_nth(1)) auto
    have kv: "cm_kva ?w j = cm_kva w j" for j by (simp add: cm_kva_def)
    have "x \<in> cm_blocks ?w \<longleftrightarrow> (\<exists>j. x = (cm_kva w j, nat (cm_length (coremap w ! j))) \<and> j < cm_end w \<and> j \<noteq> i \<and> 0 < cm_length (coremap w ! j))"
      unfolding cm_blocks_def kv using l by fastforce
    also have "\<dots> \<longleftrightarrow> x \<in> cm_blocks w - {(a, n)}"
      using i cm_kva_inj [OF assms(1) _ i(1)] by (auto simp: cm_blocks_def)
    finally show "x \<in> cm_blocks ?w \<longleftrightarrow> x \<in> cm_blocks w - {(a, n)}" .
  qed
  ultimately show ?thesis by blast
qed

lemma cm_block_aligned:
  assumes "cm_inv w" "(a, n) \<in> cm_blocks w"
  shows "a AND PAGE_FRAME = a \<and> a \<noteq> 0 \<and> 0 < n \<and> unat a + n * 4096 < 4294967296"
proof -
  obtain i where i: "i < cm_end w" "a = cm_kva w i" "0 < n" "i + n \<le> cm_end w" using assms(2,1) by (rule cm_blocksE)
  note u = cm_kva_unat(1) [OF assms(1) i(1)]
  have "4096 dvd unat (freepaddr w)" "unat (freepaddr w) + cm_end w * 4096 \<le> 508 * 1024 * 1024" using assms(1) by (simp_all add: cm_inv_def)
  moreover have "(i + n) * 4096 \<le> cm_end w * 4096" using i(4) by simp
  ultimately have "4096 dvd unat a" "unat a + n * 4096 < 4294967296" using u i(2) by (simp_all add: distrib_right)
  then show ?thesis using i(3) u i(2) frame_aligned by auto
qed

lemma cm_blocks_apart:
  assumes "cm_inv w" "(a, n) \<in> cm_blocks w" "(b, m) \<in> cm_blocks w" "(a, n) \<noteq> (b, m)"
  shows "{unat a ..< unat a + n * 4096} \<inter> {unat b ..< unat b + m * 4096} = {}"
proof -
  obtain i where i: "i < cm_end w" "a = cm_kva w i" "cm_length (coremap w ! i) = int n" "0 < n" using assms(2,1) by (rule cm_blocksE)
  obtain k where k: "k < cm_end w" "b = cm_kva w k" "cm_length (coremap w ! k) = int m" "0 < m" using assms(3,1) by (rule cm_blocksE)
  have ne: "i \<noteq> k" using assms(4) i k by auto
  have "i + n \<le> k \<or> k + m \<le> i"
  proof (cases "i < k")
    case True
    then show ?thesis using blocks_disjoint [OF assms(1) i(1) k(1) ne, of k] i(3,4) k(3,4) by linarith
  next
    case False
    then show ?thesis using blocks_disjoint [OF assms(1) i(1) k(1) ne, of i] i(3,4) k(3,4) by linarith
  qed
  then have "i * 4096 + n * 4096 \<le> k * 4096 \<or> k * 4096 + m * 4096 \<le> i * 4096" by linarith
  then show ?thesis using cm_kva_unat(1) [OF assms(1) i(1)] cm_kva_unat(1) [OF assms(1) k(1)] i(2) k(2) by auto
qed

interpretation cmp: page_source alloc_kpages cm_give cm_inv cm_blocks
  by unfold_locales (fact cm_pa_block cm_pf_block cm_block_aligned cm_blocks_apart)+

subsection \<open>Sequences of calls\<close>

text \<open>
  The states of the heap over the coremap after any sequence of calls, with the blocks handed out and not yet given
  back: each with its address and the size that was asked for.
\<close>

inductive heap_reach :: "vmem kheap kstate \<Rightarrow> (32 word \<times> nat) set \<Rightarrow> bool" where
  boot: "cm_inv (kh_pages (world s)) \<Longrightarrow> cm_blocks (kh_pages (world s)) = {} \<Longrightarrow> world s = kheap_init (kh_pages (world s)) \<Longrightarrow> heap_reach s {}"
| alloc: "heap_reach s A \<Longrightarrow> unat sz \<le> 4294963200 \<Longrightarrow> kmalloc alloc_kpages sz s = Some (a, s') \<Longrightarrow> a \<noteq> 0 \<Longrightarrow> heap_reach s' (insert (a, unat sz) A)"
| full: "heap_reach s A \<Longrightarrow> unat sz \<le> 4294963200 \<Longrightarrow> kmalloc alloc_kpages sz s = Some (a, s') \<Longrightarrow> a = 0 \<Longrightarrow> heap_reach s' A"
| free: "heap_reach s A \<Longrightarrow> (a, n) \<in> A \<Longrightarrow> kfree cm_give a s = Some s' \<Longrightarrow> heap_reach s' (A - {(a, n)})"
| store: "heap_reach s A \<Longrightarrow> (a, n) \<in> A \<Longrightarrow> (\<And>x. unat x \<notin> {unat a ..< unat a + n} \<Longrightarrow> m x = kh_mem (world s) x) \<Longrightarrow> heap_reach (s\<lparr>world := (world s)\<lparr>kh_mem := m\<rparr>\<rparr>) A"

definition handed_out :: "vmem kheap kstate \<Rightarrow> (32 word \<times> nat) set \<Rightarrow> bool" where
  "handed_out s A \<longleftrightarrow> (\<exists>L f. kh_rep cm_inv cm_blocks (world s) L \<and> A = (\<lambda>(a, n). (a, f a)) ` L \<and> (\<forall>(a, n) \<in> L. f a \<le> n))"

lemma kh_rep_store:
  assumes "kh_rep cm_inv cm_blocks h L" "(a, n) \<in> L" and m: "\<And>x. unat x \<notin> {unat a ..< unat a + n} \<Longrightarrow> m x = kh_mem h x"
  shows "kh_rep cm_inv cm_blocks (h\<lparr>kh_mem := m\<rparr>) L"
proof -
  obtain all same free where h: "heap_ok cm_inv (one_page cm_blocks) h all same free"
    and L: "L = live_blocks h all free \<union> big_blocks (cm_blocks (kh_pages h)) (heap_page h all)" using assms(1) by (auto simp: kh_rep_def)
  note D = heap_okD [OF h]
  have out: "unat (blk_addr (pagerefs h ! g) j) \<notin> {unat a ..< unat a + n}" if g: "g \<in> set all" and j: "j \<in> set (free g)" for g j
  proof -
    have t: "unat (PR_BLOCKTYPE (pagerefs h ! g)) < 8" and jc: "j < blk_count (pagerefs h ! g)" using D(11) [OF g] j by (auto simp: page_ok_def)
    note ja = blk_addr_range [OF t jc]
    show ?thesis
    proof (cases "(a, n) \<in> live_blocks h all free")
      case True
      then obtain g' k where k: "a = blk_addr (pagerefs h ! g') k" "n = blk_size (pagerefs h ! g')" "g' \<in> set all" "k < blk_count (pagerefs h ! g')" "k \<notin> set (free g')"
        by (rule live_blocksE)
      have "(g, j) \<noteq> (g', k)" using j k(5) by auto
      then show ?thesis using heap_blocks_apart [OF h g jc k(3,4)] live_range(1) [OF h k(3,4)] ja k(1,2) by auto
    next
      case False
      then obtain c where c: "(a, c) \<in> cm_blocks (kh_pages h)" "n = c * 4096" "c = 1 \<longrightarrow> a \<notin> heap_page h all" using assms(2) L by (auto simp: big_blocks_def)
      have p: "(PR_PAGEADDR (pagerefs h ! g), 1) \<in> cm_blocks (kh_pages h)" "(a, c) \<noteq> (PR_PAGEADDR (pagerefs h ! g), 1)"
        using D(12) [OF g] g c(3) by (auto simp: one_page_def heap_page_def)
      show ?thesis using cm_blocks_apart [OF D(14) c(1) p] c(2) live_range(2) [OF h g jc] ja by blast
    qed
  qed
  have pk: "page_ok m (pagerefs h ! g) (free g)" if g: "g \<in> set all" for g
  proof -
    have "chain m (map (blk_addr (pagerefs h ! g)) (free g)) = chain (kh_mem h) (map (blk_addr (pagerefs h ! g)) (free g))"
      by (rule chain_cong) (use m out [OF g] in auto)
    then show ?thesis using D(11) [OF g] by (simp add: page_ok_def)
  qed
  show ?thesis
  proof (rule kh_repI)
    show "heap_ok cm_inv (one_page cm_blocks) (h\<lparr>kh_mem := m\<rparr>) all same free" using h pk unfolding heap_ok_def by (elim conjE) (intro conjI; simp)
    show "L = live_blocks (h\<lparr>kh_mem := m\<rparr>) all free \<union> big_blocks (cm_blocks (kh_pages (h\<lparr>kh_mem := m\<rparr>))) (heap_page (h\<lparr>kh_mem := m\<rparr>) all)"
      by (simp add: L live_blocks_def live_ix_def heap_page_def)
  qed
qed

lemma handed_out_alloc:
  assumes "handed_out s A" "unat sz \<le> 4294963200" "kmalloc alloc_kpages sz s = Some (a, s')"
  shows "if a = 0 then handed_out s' A else handed_out s' (insert (a, unat sz) A)"
proof -
  obtain L f where L: "kh_rep cm_inv cm_blocks (world s) L" "A = (\<lambda>(a, n). (a, f a)) ` L" "\<forall>(a, n) \<in> L. f a \<le> n" using assms(1) unfolding handed_out_def by blast
  have R: "a = 0 \<and> kh_rep cm_inv cm_blocks (world s') L \<or>
     a \<noteq> 0 \<and> (\<exists>n. unat sz \<le> n \<and> (a, n) \<notin> L \<and> kh_rep cm_inv cm_blocks (world s') (insert (a, n) L))"
    using cmp.kmalloc_rep [OF L(1) assms(2)] assms(3) by auto
  show ?thesis
  proof (cases "a = 0")
    case True
    then show ?thesis using R L(2,3) unfolding handed_out_def by auto
  next
    case False
    then obtain n where n: "unat sz \<le> n" "(a, n) \<notin> L" "kh_rep cm_inv cm_blocks (world s') (insert (a, n) L)" using R by blast
    have ne: "b \<noteq> a" if "(b, m) \<in> L" for b m using cmp.kh_rep_same [OF n(3), of a n m] that n(2) by auto
    have "(\<lambda>(b, k). (b, (f(a := unat sz)) b)) ` L = (\<lambda>(b, k). (b, f b)) ` L" by (rule image_cong) (use ne in auto)
    then have "insert (a, unat sz) A = (\<lambda>(b, k). (b, (f(a := unat sz)) b)) ` insert (a, n) L" by (simp add: L(2))
    moreover have "\<forall>(b, k) \<in> insert (a, n) L. (f(a := unat sz)) b \<le> k" using ne n(1) L(3) by auto
    ultimately have "handed_out s' (insert (a, unat sz) A)" unfolding handed_out_def using n(3) by (intro exI [of _ "insert (a, n) L"] exI [of _ "f(a := unat sz)"] conjI)
    then show ?thesis using False by simp
  qed
qed

lemma handed_out_free:
  assumes "handed_out s A" "(a, n) \<in> A" "kfree cm_give a s = Some s'"
  shows "handed_out s' (A - {(a, n)})"
proof -
  obtain L f where L: "kh_rep cm_inv cm_blocks (world s) L" "A = (\<lambda>(a, n). (a, f a)) ` L" "\<forall>(a, n) \<in> L. f a \<le> n" using assms(1) unfolding handed_out_def by blast
  obtain m where m: "(a, m) \<in> L" "n = f a" using assms(2) L(2) by auto
  obtain s1 where "kfree cm_give a s = Some s1" "kh_rep cm_inv cm_blocks (world s1) (L - {(a, m)})" using cmp.kfree_rep [OF L(1) m(1)] by blast
  then have r: "kh_rep cm_inv cm_blocks (world s') (L - {(a, m)})" using assms(3) by simp
  have u: "(b, k) \<noteq> (a, m) \<longleftrightarrow> b \<noteq> a" if "(b, k) \<in> L" for b k using cmp.kh_rep_same [OF L(1) m(1), of k] that by auto
  have "A - {(a, n)} = (\<lambda>(a, n). (a, f a)) ` (L - {(a, m)})"
  proof (rule set_eqI)
    fix x
    have "x \<in> A - {(a, n)} \<longleftrightarrow> (\<exists>b k. (b, k) \<in> L \<and> x = (b, f b) \<and> b \<noteq> a)" unfolding L(2) m(2) by auto
    also have "\<dots> \<longleftrightarrow> (\<exists>b k. (b, k) \<in> L \<and> x = (b, f b) \<and> (b, k) \<noteq> (a, m))" using u by metis
    also have "\<dots> \<longleftrightarrow> x \<in> (\<lambda>(a, n). (a, f a)) ` (L - {(a, m)})" by auto
    finally show "x \<in> A - {(a, n)} \<longleftrightarrow> x \<in> (\<lambda>(a, n). (a, f a)) ` (L - {(a, m)})" .
  qed
  moreover have "\<forall>(b, k) \<in> L - {(a, m)}. f b \<le> k" using L(3) by auto
  ultimately show ?thesis using r unfolding handed_out_def by (intro exI [of _ "L - {(a, m)}"] exI [of _ f] conjI)
qed

lemma heap_reach_rep: "heap_reach s A \<Longrightarrow> handed_out s A"
proof (induction rule: heap_reach.induct)
  case (boot s)
  have "kh_rep cm_inv cm_blocks (world s) {}" using kh_rep_init [of cm_inv "kh_pages (world s)" cm_blocks] boot by (simp add: big_blocks_def)
  then show ?case unfolding handed_out_def by (intro exI [of _ "{}"]) auto
next
  case (store s A a n m)
  obtain L f where L: "kh_rep cm_inv cm_blocks (world s) L" "A = (\<lambda>(a, n). (a, f a)) ` L" "\<forall>(a, n) \<in> L. f a \<le> n" using store.IH unfolding handed_out_def by blast
  obtain k where k: "(a, k) \<in> L" "n \<le> k" using store.hyps(2) L(2,3) by auto
  have "kh_rep cm_inv cm_blocks ((world s)\<lparr>kh_mem := m\<rparr>) L" by (rule kh_rep_store [OF L(1) k(1)]) (use k(2) store.hyps(3) in auto)
  then show ?case using L(2,3) unfolding handed_out_def by auto
qed (use handed_out_alloc handed_out_free in \<open>fastforce+\<close>)

text \<open>A machine with eleven free frames, a block of 100 bytes and then one of 5000 bytes.\<close>

declare kmalloc_search.simps [code] kfree_search.simps [code] remove_samesize.simps [code] remove_all.simps [code]

definition sample_heap0 :: "vmem kheap kstate" where
  "sample_heap0 = quiet (kheap_init sample_cm)"

definition sample_heap1 :: "vmem kheap kstate" where
  "sample_heap1 = snd (the (kmalloc alloc_kpages 100 sample_heap0))"

definition sample_heap2 :: "vmem kheap kstate" where
  "sample_heap2 = snd (the (kmalloc alloc_kpages 5000 sample_heap1))"

lemma sample_heap_calls:
  "kmalloc alloc_kpages 100 sample_heap0 = Some (0x80005f80, sample_heap1)" "kmalloc alloc_kpages 5000 sample_heap1 = Some (0x80006000, sample_heap2)"
proof -
  have "kmalloc alloc_kpages 100 sample_heap0 \<noteq> None" "fst (the (kmalloc alloc_kpages 100 sample_heap0)) = 0x80005f80" by code_simp+
  then show "kmalloc alloc_kpages 100 sample_heap0 = Some (0x80005f80, sample_heap1)" by (auto simp: sample_heap1_def)
  have "kmalloc alloc_kpages 5000 sample_heap1 \<noteq> None" "fst (the (kmalloc alloc_kpages 5000 sample_heap1)) = 0x80006000" by code_simp+
  then show "kmalloc alloc_kpages 5000 sample_heap1 = Some (0x80006000, sample_heap2)" by (auto simp: sample_heap2_def)
qed

lemma sample_heap_reach: "heap_reach sample_heap0 {}" "heap_reach sample_heap2 {(0x80006000, 5000), (0x80005f80, 100)}"
proof -
  have "\<forall>e \<in> set (coremap sample_cm). cm_length e = 0" by code_simp
  then have "cm_blocks sample_cm = {}" using sample_cm_inv by (auto simp: cm_blocks_def cm_inv_def)
  then show r: "heap_reach sample_heap0 {}" using sample_cm_inv by (intro boot) (simp_all add: sample_heap0_def quiet_def kheap_init_def)
  have "heap_reach sample_heap1 {(0x80005f80, 100)}" using alloc [OF r _ sample_heap_calls(1)] by simp
  from alloc [OF this _ sample_heap_calls(2)] show "heap_reach sample_heap2 {(0x80006000, 5000), (0x80005f80, 100)}" by simp
qed

lemma sample_heap_rep: "\<exists>L. kh_rep cm_inv cm_blocks (world sample_heap2) L \<and> (\<exists>n. (0x80005f80, n) \<in> L)"
  using heap_reach_rep [OF sample_heap_reach(2)] by (fastforce simp: handed_out_def)

subsection \<open>Properties\<close>

text \<open>
  C3: Blocks in use never overlap. After any sequence of \<open>kmalloc\<close> and \<open>kfree\<close> calls on the freshly booted kernel,
  with arbitrary stores of the clients into their blocks in between, two different blocks that were handed out and not
  given back have different addresses and share no byte of the sizes that were asked for.
\<close>

theorem heap_blocks_disjoint:
  assumes "heap_reach s A" "(a, n) \<in> A" "(b, m) \<in> A" "(a, n) \<noteq> (b, m)"
  shows "a \<noteq> b \<and> {unat a ..< unat a + n} \<inter> {unat b ..< unat b + m} = {}"
proof -
  obtain L f where L: "kh_rep cm_inv cm_blocks (world s) L" "A = (\<lambda>(a, n). (a, f a)) ` L" "\<forall>(a, n) \<in> L. f a \<le> n"
    using heap_reach_rep [OF assms(1)] unfolding handed_out_def by blast
  obtain k where k: "(a, k) \<in> L" "n = f a" "n \<le> k" using assms(2) L(2,3) by auto
  obtain l where l: "(b, l) \<in> L" "m = f b" "m \<le> l" using assms(3) L(2,3) by auto
  have ne: "a \<noteq> b" using assms(4) k(2) l(2) by auto
  then have "{unat a ..< unat a + k} \<inter> {unat b ..< unat b + l} = {}" using cmp.kh_rep_disjoint [OF L(1) k(1) l(1)] by simp
  moreover have "{unat a ..< unat a + n} \<subseteq> {unat a ..< unat a + k}" "{unat b ..< unat b + m} \<subseteq> {unat b ..< unat b + l}" using k(3) l(3) by auto
  ultimately show ?thesis using ne by blast
qed

theorem heap_blocks_disjoint_witness:
  "heap_reach sample_heap2 {(0x80006000, 5000), (0x80005f80, 100)} \<and>
   {unat (0x80006000 :: 32 word) ..< unat (0x80006000 :: 32 word) + 5000} \<inter> {unat (0x80005f80 :: 32 word) ..< unat (0x80005f80 :: 32 word) + 100} = {}"
  using heap_blocks_disjoint [OF sample_heap_reach(2), of "0x80006000" 5000 "0x80005f80" 100] sample_heap_reach(2) by simp

text \<open>
  C4: The allocator does not fail. In every such state \<open>kmalloc\<close> returns for every size up to \<open>2\<^sup>3\<^sup>2 - 4096\<close> and
  \<open>kfree\<close> returns for every block in use: no assertion fails, no list is walked forever, the interrupt level is
  restored, and neither call changes a word of any other block in use.
\<close>

theorem heap_calls_return:
  assumes "heap_reach s A" "unat sz \<le> 4294963200" "(a, n) \<in> A"
  shows "(\<exists>p s'. kmalloc alloc_kpages sz s = Some (p, s') \<and> curspl s' = curspl s \<and>
      (\<forall>(b, m) \<in> A. \<forall>x. unat b \<le> unat x \<and> unat x < unat b + m \<longrightarrow> kh_mem (world s') x = kh_mem (world s) x)) \<and>
    (\<exists>s'. kfree cm_give a s = Some s' \<and> curspl s' = curspl s \<and>
      (\<forall>(b, m) \<in> A - {(a, n)}. \<forall>x. unat b \<le> unat x \<and> unat x < unat b + m \<longrightarrow> kh_mem (world s') x = kh_mem (world s) x))"
proof -
  obtain L f where L: "kh_rep cm_inv cm_blocks (world s) L" "A = (\<lambda>(a, n). (a, f a)) ` L" "\<forall>(a, n) \<in> L. f a \<le> n"
    using heap_reach_rep [OF assms(1)] unfolding handed_out_def by blast
  have big: "\<exists>l. (b, l) \<in> L \<and> m = f b \<and> m \<le> l" if "(b, m) \<in> A" for b m using that L(2,3) by auto
  obtain p s1 where s1: "kmalloc alloc_kpages sz s = Some (p, s1)" "curspl s1 = curspl s"
      "\<forall>(b, n) \<in> L. \<forall>x. unat b \<le> unat x \<and> unat x < unat b + n \<longrightarrow> kh_mem (world s1) x = kh_mem (world s) x"
    using cmp.kmalloc_rep [OF L(1) assms(2)] by blast
  have S1: "\<forall>(b, m) \<in> A. \<forall>x. unat b \<le> unat x \<and> unat x < unat b + m \<longrightarrow> kh_mem (world s1) x = kh_mem (world s) x"
    using big s1(3) by fastforce
  obtain k where k: "(a, k) \<in> L" "n = f a" using big [OF assms(3)] by blast
  obtain s2 where s2: "kfree cm_give a s = Some s2" "curspl s2 = curspl s" "\<forall>x. unat x \<notin> {unat a ..< unat a + k} \<longrightarrow> kh_mem (world s2) x = kh_mem (world s) x"
    using cmp.kfree_rep [OF L(1) k(1)] by blast
  have "kh_mem (world s2) x = kh_mem (world s) x" if "(b, m) \<in> A - {(a, n)}" "unat b \<le> unat x" "unat x < unat b + m" for b m x
  proof -
    have "(b, m) \<in> A" using that(1) by blast
    from big [OF this] obtain l where l: "(b, l) \<in> L" "m = f b" "m \<le> l" by blast
    then have "(b, l) \<noteq> (a, k)" using that(1) k(2) by auto
    then have "unat x \<notin> {unat a ..< unat a + k}" using cmp.kh_rep_disjoint [OF L(1) l(1) k(1)] that(2,3) l(3) by auto
    then show ?thesis using s2(3) by blast
  qed
  then have S2: "\<forall>(b, m) \<in> A - {(a, n)}. \<forall>x. unat b \<le> unat x \<and> unat x < unat b + m \<longrightarrow> kh_mem (world s2) x = kh_mem (world s) x" by blast
  show ?thesis
    by (rule conjI, rule exI [of _ p], rule exI [of _ s1]) (use s1(1,2) S1 in simp, use s2(1,2) S2 in \<open>intro exI [of _ s2] conjI\<close>)
qed

theorem heap_calls_return_witness:
  "(\<exists>p s'. kmalloc alloc_kpages 3000 sample_heap2 = Some (p, s') \<and> curspl s' = curspl sample_heap2) \<and>
   (\<exists>s'. kfree cm_give 0x80005f80 sample_heap2 = Some s' \<and> curspl s' = curspl sample_heap2)"
  using heap_calls_return [OF sample_heap_reach(2), of 3000 "0x80005f80" 100] by auto

text \<open>
  C9: \<open>kmalloc\<close> of up to \<open>2\<^sup>3\<^sup>2 - 4096\<close> bytes as an operation on the set of blocks in use. It returns NULL and leaves the
  set as it is, or it adds a block that is at least as large as asked for and apart from every block of the set; the contents of the blocks in use
  do not change.
\<close>

theorem kmalloc_refines:
  assumes "kh_rep cm_inv cm_blocks (world s) L" "unat sz \<le> 4294963200"
  shows "\<exists>ret s'. kmalloc alloc_kpages sz s = Some (ret, s') \<and> curspl s' = curspl s \<and>
    (ret = 0 \<and> kh_rep cm_inv cm_blocks (world s') L \<or>
     ret \<noteq> 0 \<and> (\<exists>n. unat sz \<le> n \<and> kh_rep cm_inv cm_blocks (world s') (insert (ret, n) L) \<and>
       (\<forall>(b, m) \<in> L. {unat ret ..< unat ret + n} \<inter> {unat b ..< unat b + m} = {}))) \<and>
    (\<forall>(b, m) \<in> L. \<forall>x. unat b \<le> unat x \<and> unat x < unat b + m \<longrightarrow> kh_mem (world s') x = kh_mem (world s) x)"
proof -
  obtain ret s' where R: "kmalloc alloc_kpages sz s = Some (ret, s')" "curspl s' = curspl s"
    "ret = 0 \<and> kh_rep cm_inv cm_blocks (world s') L \<or> ret \<noteq> 0 \<and> (\<exists>n. unat sz \<le> n \<and> (ret, n) \<notin> L \<and> kh_rep cm_inv cm_blocks (world s') (insert (ret, n) L))"
    "\<forall>(b, n) \<in> L. \<forall>x. unat b \<le> unat x \<and> unat x < unat b + n \<longrightarrow> kh_mem (world s') x = kh_mem (world s) x"
    using cmp.kmalloc_rep [OF assms] by blast
  have dis: "\<forall>(b, m) \<in> L. {unat ret ..< unat ret + n} \<inter> {unat b ..< unat b + m} = {}"
    if "(ret, n) \<notin> L" "kh_rep cm_inv cm_blocks (world s') (insert (ret, n) L)" for n
  proof (clarify)
    fix b m assume "(b, m) \<in> L"
    then show "{unat ret ..< unat ret + n} \<inter> {unat b ..< unat b + m} = {}" using that(1) by (intro cmp.kh_rep_disjoint [OF that(2)]) auto
  qed
  have "ret = 0 \<and> kh_rep cm_inv cm_blocks (world s') L \<or>
     ret \<noteq> 0 \<and> (\<exists>n. unat sz \<le> n \<and> kh_rep cm_inv cm_blocks (world s') (insert (ret, n) L) \<and>
       (\<forall>(b, m) \<in> L. {unat ret ..< unat ret + n} \<inter> {unat b ..< unat b + m} = {}))" using R(3) dis by blast
  then show ?thesis using R(1,2,4) by (intro exI [of _ ret] exI [of _ s'] conjI)
qed

theorem kmalloc_refines_witness:
  "\<exists>L n. (0x80005f80, n) \<in> L \<and> (\<exists>ret s'. kmalloc alloc_kpages 40 sample_heap2 = Some (ret, s') \<and>
     (kh_rep cm_inv cm_blocks (world s') L \<or> (\<exists>n. 40 \<le> n \<and> kh_rep cm_inv cm_blocks (world s') (insert (ret, n) L))))"
proof -
  obtain L n where L: "kh_rep cm_inv cm_blocks (world sample_heap2) L" "(0x80005f80, n) \<in> L" using sample_heap_rep by blast
  show ?thesis using kmalloc_refines [OF L(1), of 40] L(2) by (intro exI [of _ L] exI [of _ n] conjI) fastforce+
qed

text \<open>
  C10: \<open>kfree\<close> as an operation on the set of blocks in use. On a block of the set it returns, removes exactly this block,
  and changes no word outside of it.
\<close>

theorem kfree_refines:
  assumes "kh_rep cm_inv cm_blocks (world s) L" "(ptr, n) \<in> L"
  shows "\<exists>s'. kfree cm_give ptr s = Some s' \<and> curspl s' = curspl s \<and> kh_rep cm_inv cm_blocks (world s') (L - {(ptr, n)}) \<and>
    (\<forall>x. unat x \<notin> {unat ptr ..< unat ptr + n} \<longrightarrow> kh_mem (world s') x = kh_mem (world s) x)"
  by (rule cmp.kfree_rep [OF assms])

theorem kfree_refines_witness:
  "\<exists>L n s'. (0x80005f80, n) \<in> L \<and> kfree cm_give 0x80005f80 sample_heap2 = Some s' \<and> kh_rep cm_inv cm_blocks (world s') (L - {(0x80005f80, n)})"
proof -
  obtain L n where L: "kh_rep cm_inv cm_blocks (world sample_heap2) L" "(0x80005f80, n) \<in> L" using sample_heap_rep by blast
  show ?thesis using kfree_refines [OF L] L(2) by blast
qed

end
