(* ===== verification/Spec2Isabelle.thy ===== *)
theory Spec2Isabelle
  imports K_Array K_Queue K_Bitmap K_Synch_System K_VM L_Printf K_Copy K_SFS_Dir K_Kheap_System
begin

text \<open>
  Verification of an OS/161 kernel: containers, threads and synchronisation, memory, the C library's
  memory, string and formatting functions, transfers to and from user memory, the disk driver, the
  file system SFS and the kernel heap.

  \<^bold>\<open>The program.\<close> The kernel runs threads on one processor. \<^verbatim>\<open>kern/thread/thread.c\<close> keeps them in a run
  queue (a ring buffer, \<^verbatim>\<open>kern/lib/queue.c\<close>, used by \<^verbatim>\<open>scheduler.c\<close>), a table of sleepers and a list of
  zombies (growable arrays, \<^verbatim>\<open>kern/lib/array.c\<close>). \<^verbatim>\<open>synch.c\<close> builds semaphores, locks and condition
  variables on sleep and wakeup, with the interrupt level of \<^verbatim>\<open>spl.c\<close> as the only mutual exclusion below
  them. Memory is handed out in frames by \<^verbatim>\<open>ram.c\<close> and then by the coremap (\<^verbatim>\<open>kern/vm/coremap.c\<close>); the heap
  (\<^verbatim>\<open>kern/lib/kheap.c\<close>) cuts frames into small blocks; \<^verbatim>\<open>addrspace.c\<close> and \<^verbatim>\<open>vm.c\<close> give a process two regions
  and a stack and fill the TLB on faults. \<^verbatim>\<open>copyinout.c\<close> and \<^verbatim>\<open>uio.c\<close> move bytes between the kernel and user
  memory. SFS (\<^verbatim>\<open>kern/fs/sfs\<close>) stores files in the blocks of a disk that \<^verbatim>\<open>kern/dev/lamebus/lhd.c\<close> drives,
  with a bitmap (\<^verbatim>\<open>kern/lib/bitmap.c\<close>) of the blocks in use.

  \<^bold>\<open>Conventions\<close> (\<open>K_Prelude\<close>). A C function is a function on the state it changes, with the outcome
  \<open>'a option\<close>: \<open>None\<close> is a failed assertion, a panic, undefined behaviour or a run that does not end, so a
  theorem that an operation returns says that none of these happens. Error numbers are values of the
  result. An \<open>int\<close> is an integer whose arithmetic is checked for overflow (\<open>cint\<close>); unsigned types are
  words of their width and wrap. Arrays are lists with checked access (\<open>rd\<close>, \<open>wr\<close>), pointers are
  addresses into maps of the state or \<open>nullable\<close> values. Loops are recursive functions, or partial
  functions in \<open>option\<close> where the code bounds them only through its data.

  \<^bold>\<open>Theories.\<close>

  \<^item> \<open>K_Array\<close>, \<open>K_Queue\<close>, \<open>K_Bitmap\<close>: all operations of the three containers. The locale \<open>sequence\<close> is what a
    client expects of a list with an operation that appends and may fail, \<open>fifo\<close> what it expects of a queue,
    \<open>allocator\<close> the contract of a table of bits; each is interpreted on the operations of the code. Adding refines appending to a list or fails with \<open>ENOMEM\<close> without effect, what is put into a
    queue comes out in order across growth of the ring, and \<open>bitmap_alloc\<close> takes the least clear bit.

  \<^item> \<open>K_Machine\<close>, \<open>K_Thread\<close>, \<open>K_Thread_Laws\<close>: the state of the kernel, the interrupt level, control blocks, the
    scheduler, the process table and every operation on threads. A context switch splits an operation:
    the part up to \<open>md_switch\<close> ends with another current thread, the part after it runs when the thread is
    chosen again (\<open>mi_switch_out\<close>, \<open>mi_switch_in\<close>). The invariant \<open>ts_inv\<close> says that every thread is in exactly
    one place and that the sleeper table has room for all. Fork, exit, yield, sleep and wakeup keep it and
    do what they promise; four theorems show where the code falls short of its comments.

  \<^item> \<open>K_Synch\<close>, \<open>K_Synch_System\<close>: the synchronisation primitives, split at their sleeps, and the kernel as a
    transition system \<open>sys_step\<close> whose steps are operations of arbitrary threads in any order, with fork, exit
    and yield. By rule induction over its runs: mutual exclusion, no lost wakeup, and the count of a
    semaphore. Operations run with interrupts off, so their interleaving is that of the steps.

  \<^item> \<open>K_Coremap\<close>, \<open>K_VM\<close>: physical memory, the frame table, the TLB and address spaces. The frames are handed
    out first fit and apart; \<open>as_copy\<close> copies what a program sees; \<open>vm_fault\<close> keeps the TLB consistent with the
    address space; \<open>free_kpages\<close> gives back too little.

  \<^item> \<open>L_String\<close>, \<open>L_Printf\<close>: the functions on memory blocks and strings, on a byte memory, and formatted output
    over any function that consumes its text (the locale \<open>sender\<close>). \<open>memmove\<close> is a simultaneous copy for every
    overlap, \<open>vsnprintf\<close> truncates exactly, \<open>atoi\<close> inverts \<open>%d\<close>.

  \<^item> \<open>K_Copy\<close>: \<open>copyin\<close>, \<open>copyout\<close>, their string versions and \<open>uiomove\<close>. Which pages can be accessed is a
    parameter; the jump out of a faulting copy is its Boolean result.

  \<^item> \<open>K_Disk\<close>: transfers by value, related to those in memory by \<open>uiomove_value\<close>, and the disk driver. The
    locale \<open>block_device\<close> is what the file system relies on; the driver keeps it over every device \<open>hw\<close> that
    behaves as the registers document (\<open>lhd_device\<close>) as long as no media error comes up.

  \<^item> \<open>K_SFS\<close>, \<open>K_SFS_Laws\<close>, \<open>K_SFS_IO\<close>, \<open>K_SFS_Files\<close>, \<open>K_SFS_Dir\<close>: the on-disk structures and every layer of SFS
    over a device that is a parameter; the block map, proved to install and overwrite blocks without touching
    other files (\<open>wrote\<close>); \<open>sfs_io\<close>, with head, whole blocks and tail covered by one argument (\<open>moves\<close>,
    \<open>io_steps\<close>) for reading and writing; files as sequences of bytes, with every reason why a write stops; and
    directories as finite maps from names to inode numbers. The last theorem of \<open>K_SFS_Files\<close> is about media errors.

  \<^item> \<open>K_Kheap\<close>, \<open>K_Kheap_Laws\<close>, \<open>K_Kheap_Calls\<close>, \<open>K_Kheap_System\<close>: the heap over a page allocator with the
    contract \<open>page_source\<close>, its linked lists through memory, \<open>kmalloc\<close> and \<open>kfree\<close> as operations on the set of
    blocks in use, and the heap of the running kernel over the coremap, which keeps the contract.

  \<^bold>\<open>Bounds and fuel.\<close> Fuel is used for the loop of \<open>q_grow\<close> (the size of the ring), for the depth to which
  \<open>q_addtail\<close> and \<open>q_grow\<close> call each other, and for \<open>wakeup_loop\<close> (the number of sleepers and one). These are the
  greatest values the code can reach, and the theorems show that the results are reached. Loops with a
  counter recurse on the number of rounds left. The partial functions (the loops of \<open>uiomove\<close>, of the heap's lists and of the
  containers' growth) are proved to return where a property says so. A file has at most 143 blocks (\<open>file_max\<close>:
  15 direct and 128 indirect ones), \<open>kmalloc\<close> is treated up to the size \<open>2\<^sup>3\<^sup>2 - 4096\<close>, above which its
  arithmetic wraps, and memory is limited to 508 MB as in \<^verbatim>\<open>ram.c\<close>.

  \<^bold>\<open>Parameters.\<close> \<open>kmalloc\<close> in the components above the heap (any answers, also failures), the operations of
  other components a thread calls when it switches or exits (\<open>kops\<close>), the device behind the registers of
  the disk, the pages a user program can access, the size of the memory, and the interrupts served while
  the processor is idle. Each hypothesis on them has a witness with a concrete function.

  \<^bold>\<open>Not modelled.\<close> The name space of the virtual file system, the dispatch of traps and system calls, program
  loading, the assembly, the bus and the other devices, start-up and menu, \<^verbatim>\<open>dumbvm.c\<close> (replaced by \<^verbatim>\<open>vm.c\<close> and
  \<^verbatim>\<open>addrspace.c\<close> in the configuration modelled), tests, the exercises of \<^verbatim>\<open>kern/asst1\<close>, and user programs. They
  pass calls on to the parts above, talk to hardware that is not in the repository, or are not part of the
  system. Time, preemption inside an operation that has interrupts on, and several processors do not
  occur in the model.
\<close>

end
